(* ===== verification/Prelude.thy ===== *)
theory Prelude
  imports Main "HOL-Library.Word"
begin

text \<open>
  Shared vocabulary of the development: bytes and machine words, results that carry an
  error, the outcome of an operation that appends to a byte buffer and may throw, and
  big-endian numbers. A C++ \<open>std::span<const std::uint8_t>\<close> and a binary
  \<open>std::string\<close> are both a list of 8-bit words; \<open>std::uint64_t\<close> and \<open>std::size_t\<close>
  are 64-bit words wherever the code computes with them.
\<close>

unbundle bit_operations_syntax

type_synonym byte = "8 word"
type_synonym bytes = "8 word list"
type_synonym u16 = "16 word"
type_synonym u32 = "32 word"
type_synonym u64 = "64 word"

named_theorems monad_simps \<open>unfolding of result-monad code\<close>
named_theorems consumes \<open>a decoder that succeeds leaves a shorter input\<close>

section \<open>Results\<close>

text \<open>\<open>std::expected<Value, Error>\<close>: \<open>Inl\<close> is the error side. \<open>bindR\<close> is the
  early return \<open>if (!x.has_value()) return std::unexpected(x.error())\<close>.\<close>

definition bindR :: "'e + 'a \<Rightarrow> ('a \<Rightarrow> 'e + 'b) \<Rightarrow> 'e + 'b" where
  "bindR r f = (case r of Inl e \<Rightarrow> Inl e | Inr a \<Rightarrow> f a)"

definition guardR :: "bool \<Rightarrow> 'e \<Rightarrow> 'e + unit" where
  "guardR c e = (if c then Inr () else Inl e)"

text \<open>An error replaced by the caller's own, and a missing value turned into an error.\<close>

definition failWith :: "'f \<Rightarrow> 'e + 'a \<Rightarrow> 'f + 'a" where
  "failWith f r = (case r of Inl e \<Rightarrow> Inl f | Inr a \<Rightarrow> Inr a)"

definition someOr :: "'e \<Rightarrow> 'a option \<Rightarrow> 'e + 'a" where
  "someOr e m = (case m of None \<Rightarrow> Inl e | Some a \<Rightarrow> Inr a)"

lemma failWith_simps [simp, monad_simps]:
  "failWith f (Inl e) = Inl f"
  "failWith f (Inr a) = Inr a"
  by (simp_all add: failWith_def)

lemma someOr_simps [simp, monad_simps]:
  "someOr e None = Inl e"
  "someOr e (Some a) = Inr a"
  by (simp_all add: someOr_def)

lemma bindR_simps [simp, monad_simps]:
  "bindR (Inl e) f = Inl e"
  "bindR (Inr a) f = f a"
  by (simp_all add: bindR_def)

lemma bindR_cong [fundef_cong]:
  "r = r' \<Longrightarrow> (\<And>a. r' = Inr a \<Longrightarrow> f a = g a) \<Longrightarrow> bindR r f = bindR r' g"
  by (auto simp: bindR_def split: sum.splits)

lemma bindR_Inr_iff:
  "bindR r f = Inr b \<longleftrightarrow> (\<exists>a. r = Inr a \<and> f a = Inr b)"
  by (cases r) auto

lemma bindR_InrE:
  assumes "bindR r f = Inr b"
  obtains a where "r = Inr a" "f a = Inr b"
  using assms by (auto simp: bindR_Inr_iff)

lemma bindR_assoc: "bindR (bindR r f) g = bindR r (\<lambda>a. bindR (f a) g)"
  by (cases r) auto

lemma guardR_simps [simp]:
  "guardR c e = Inr u \<longleftrightarrow> c"
  "guardR c e = Inl e' \<longleftrightarrow> \<not> c \<and> e' = e"
  by (auto simp: guardR_def)

lemma guardR_True [simp]: "guardR True e = Inr ()"
  by (simp add: guardR_def)

text \<open>
  An append to a byte buffer that can throw \<open>Base::InvalidArgumentException\<close> (a usage
  error) or \<open>Base::Exception\<close> (a failure of a library call). The exception does not roll
  the buffer back, so the thrown value keeps the bytes the buffer holds at that moment.
\<close>

datatype thrown =
    InvalidArgumentException (buffer_when_thrown: bytes)
  | RuntimeException (buffer_when_thrown: bytes)

type_synonym appended = "thrown + bytes"

text \<open>The same exception thrown by a function that writes to no buffer.\<close>

datatype usage_error = InvalidArgument

section \<open>Big-endian numbers\<close>

primrec be_value :: "bytes \<Rightarrow> nat" where
  "be_value [] = 0"
| "be_value (b # bs) = unat b * 256 ^ length bs + be_value bs"

definition be_bytes :: "nat \<Rightarrow> nat \<Rightarrow> bytes" where
  "be_bytes w v = map (\<lambda>i. of_nat (v div 256 ^ (w - 1 - i))) [0..<w]"

lemma length_be_bytes [simp]: "length (be_bytes w v) = w"
  by (simp add: be_bytes_def)

lemma unat_byte_bound: "unat (b :: byte) < 256"
  using unsigned_less [of b, where 'a = nat] by simp

lemma unat_u64_bound: "unat (w :: u64) < 2 ^ 64"
  using unsigned_less [of w, where 'a = nat] by simp

lemma be_value_bound: "be_value bs < 256 ^ length bs"
proof (induction bs)
  case (Cons b bs)
  have "unat b * 256 ^ length bs + be_value bs < Suc (unat b) * 256 ^ length bs"
    using Cons.IH by simp
  also have "\<dots> \<le> 256 * 256 ^ length bs"
    using unat_byte_bound [of b] by (intro mult_right_mono) auto
  finally show ?case by simp
qed simp

lemma be_value_append:
  "be_value (xs @ ys) = be_value xs * 256 ^ length ys + be_value ys"
  by (induction xs) (auto simp: power_add algebra_simps)

lemma be_bytes_Suc: "be_bytes (Suc w) v = of_nat (v div 256 ^ w) # be_bytes w v"
  by (auto simp: be_bytes_def upt_conv_Cons map_Suc_upt [symmetric] simp del: upt_Suc)

lemma be_value_be_bytes: "be_value (be_bytes w v) = v mod 256 ^ w"
proof (induction w)
  case 0
  then show ?case by (simp add: be_bytes_def)
next
  case (Suc w)
  have "v mod 256 ^ Suc w = (v div 256 ^ w) mod 256 * 256 ^ w + v mod 256 ^ w"
    by (simp add: mod_mult2_eq [of v "256 ^ w" 256, simplified mult.commute] mult.commute)
  then show ?case
    by (simp add: be_bytes_Suc Suc unat_of_nat)
qed

lemma be_bytes_be_value: "be_bytes (length bs) (be_value bs) = bs"
proof (induction bs)
  case (Cons b bs)
  have "(unat b * 256 ^ length bs + be_value bs) div 256 ^ length bs = unat b"
    using be_value_bound [of bs] by (simp add: div_mult_self3)
  moreover have "be_bytes (length bs) (unat b * 256 ^ length bs + be_value bs)
      = be_bytes (length bs) (be_value bs)"
  proof -
    have "(unat b * 256 ^ length bs + be_value bs) div 256 ^ (length bs - 1 - i)
        = unat b * 256 ^ Suc i + be_value bs div 256 ^ (length bs - 1 - i)"
      if "i < length bs" for i
    proof -
      have "256 ^ length bs = 256 ^ Suc i * (256::nat) ^ (length bs - 1 - i)"
        using that by (subst power_add [symmetric]) (simp del: power_Suc)
      then show ?thesis
        by (simp add: mult.assoc [symmetric] del: power_Suc)
    qed
    moreover have "(of_nat (unat b * 256 ^ Suc i + n) :: byte) = of_nat n" for i n
    proof -
      have "(256 :: byte) = 0" by simp
      then show ?thesis by (simp only: power_Suc of_nat_add of_nat_mult of_nat_numeral) simp
    qed
    ultimately show ?thesis
      by (simp add: be_bytes_def del: of_nat_add power_Suc)
  qed
  ultimately show ?case
    using Cons.IH by (simp add: be_bytes_Suc)
qed (simp add: be_bytes_def)

end
