(* ===== verification/StdMap.thy ===== *)
theory StdMap
  imports Prelude
begin

text \<open>
  \<open>std::map\<close>, as the code uses it: an association list whose keys increase strictly, so the
  list is the in-order traversal. An iterator that is only dereferenced, compared with
  \<open>end()\<close> or stepped back with \<open>std::prev\<close> is the entry it points at, or \<open>None\<close>.
  The locale \<open>ordered_map\<close> is the contract the components rely on; the association list
  is its provider.
\<close>

type_synonym ('k, 'v) std_map = "('k \<times> 'v) list"

definition map_inv :: "('k::linorder, 'v) std_map \<Rightarrow> bool" where
  "map_inv m \<longleftrightarrow> sorted_wrt (<) (map fst m)"

definition map_find :: "'k \<Rightarrow> ('k, 'v) std_map \<Rightarrow> 'v option" where
  "map_find k m = map_of m k"

fun map_put :: "'k::linorder \<Rightarrow> 'v \<Rightarrow> ('k, 'v) std_map \<Rightarrow> ('k, 'v) std_map" where
  "map_put k v [] = [(k, v)]"
| "map_put k v ((a, b) # m) =
     (if k < a then (k, v) # (a, b) # m else if k = a then (k, v) # m else (a, b) # map_put k v m)"

definition map_erase :: "'k \<Rightarrow> ('k, 'v) std_map \<Rightarrow> ('k, 'v) std_map" where
  "map_erase k m = filter (\<lambda>p. fst p \<noteq> k) m"

text \<open>\<open>upper_bound(k)\<close>: the first entry with a key above \<open>k\<close>; \<open>map_prev_upper k\<close> is
  \<open>std::prev(upper_bound(k))\<close>, \<open>None\<close> when \<open>upper_bound(k) == begin()\<close>.\<close>

definition map_upper :: "'k::linorder \<Rightarrow> ('k, 'v) std_map \<Rightarrow> ('k \<times> 'v) option" where
  "map_upper k m = find (\<lambda>p. k < fst p) m"

definition map_prev_upper :: "'k::linorder \<Rightarrow> ('k, 'v) std_map \<Rightarrow> ('k \<times> 'v) option" where
  "map_prev_upper k m = find (\<lambda>p. fst p \<le> k) (rev m)"

section \<open>The contract\<close>

locale ordered_map =
  fixes inv :: "'m \<Rightarrow> bool"
    and entries :: "'m \<Rightarrow> ('k::linorder \<times> 'v) set"
    and put :: "'k \<Rightarrow> 'v \<Rightarrow> 'm \<Rightarrow> 'm"
    and erase :: "'k \<Rightarrow> 'm \<Rightarrow> 'm"
    and lookup :: "'k \<Rightarrow> 'm \<Rightarrow> 'v option"
    and upper :: "'k \<Rightarrow> 'm \<Rightarrow> ('k \<times> 'v) option"
    and prev_upper :: "'k \<Rightarrow> 'm \<Rightarrow> ('k \<times> 'v) option"
  assumes inv_put: "inv m \<Longrightarrow> inv (put k v m)"
    and inv_erase: "inv m \<Longrightarrow> inv (erase k m)"
    and entries_put: "inv m \<Longrightarrow> entries (put k v m) = insert (k, v) {p \<in> entries m. fst p \<noteq> k}"
    and entries_erase: "inv m \<Longrightarrow> entries (erase k m) = {p \<in> entries m. fst p \<noteq> k}"
    and lookup_entry: "inv m \<Longrightarrow> lookup k m = Some v \<longleftrightarrow> (k, v) \<in> entries m"
    and upper_entry: "inv m \<Longrightarrow> upper k m = Some p \<longleftrightarrow>
      p \<in> entries m \<and> k < fst p \<and> (\<forall>q \<in> entries m. k < fst q \<longrightarrow> fst p \<le> fst q)"
    and prev_entry: "inv m \<Longrightarrow> prev_upper k m = Some p \<longleftrightarrow>
      p \<in> entries m \<and> fst p \<le> k \<and> (\<forall>q \<in> entries m. fst q \<le> k \<longrightarrow> fst q \<le> fst p)"
    and upper_end: "inv m \<Longrightarrow> upper k m = None \<longleftrightarrow> (\<forall>q \<in> entries m. fst q \<le> k)"
    and prev_begin: "inv m \<Longrightarrow> prev_upper k m = None \<longleftrightarrow> (\<forall>q \<in> entries m. k < fst q)"
begin

lemma entry_unique: "inv m \<Longrightarrow> (k, v) \<in> entries m \<Longrightarrow> (k, w) \<in> entries m \<Longrightarrow> v = w"
  by (metis lookup_entry option.inject)

lemma lookup_None: "inv m \<Longrightarrow> lookup k m = None \<longleftrightarrow> (\<forall>v. (k, v) \<notin> entries m)"
  by (metis lookup_entry not_None_eq option.distinct(1))

lemma lookup_put: "inv m \<Longrightarrow> lookup j (put k v m) = (if j = k then Some v else lookup j m)"
proof -
  assume i: "inv m"
  show ?thesis
  proof (cases "j = k")
    case True
    then show ?thesis using lookup_entry [OF inv_put [OF i]] entries_put [OF i] by simp
  next
    case False
    have "lookup j (put k v m) = Some w \<longleftrightarrow> lookup j m = Some w" for w
      using lookup_entry [OF inv_put [OF i]] lookup_entry [OF i] entries_put [OF i] False by auto
    then show ?thesis using False by (metis not_None_eq)
  qed
qed

lemma lookup_erase: "inv m \<Longrightarrow> lookup j (erase k m) = (if j = k then None else lookup j m)"
proof -
  assume i: "inv m"
  have "lookup j (erase k m) = Some w \<longleftrightarrow> j \<noteq> k \<and> lookup j m = Some w" for w
    using lookup_entry [OF inv_erase [OF i]] lookup_entry [OF i] entries_erase [OF i] by auto
  then show ?thesis by (metis not_None_eq)
qed

text \<open>The entry before an upper bound and the upper bound itself enclose the key, with no
  entry between them.\<close>

lemma prev_upper_adjacent:
  assumes "inv m" "prev_upper k m = Some p" "upper k m = Some q" "r \<in> entries m"
  shows "fst r \<le> fst p \<or> fst q \<le> fst r"
  using assms by (simp add: prev_entry upper_entry) (meson not_le)

end

section \<open>Association lists provide it\<close>

lemma map_inv_simps [simp]:
  "map_inv []"
  "map_inv (p # m) \<longleftrightarrow> (\<forall>q \<in> set m. fst p < fst q) \<and> map_inv m"
  by (auto simp: map_inv_def)

lemma map_inv_append [simp]:
  "map_inv (m @ n) \<longleftrightarrow> map_inv m \<and> map_inv n \<and> (\<forall>p \<in> set m. \<forall>q \<in> set n. fst p < fst q)"
  by (auto simp: map_inv_def sorted_wrt_append)

lemma map_inv_distinct: "map_inv m \<Longrightarrow> distinct (map fst m)"
  by (simp add: map_inv_def strict_sorted_iff)

lemma set_map_put: "map_inv m \<Longrightarrow> set (map_put k v m) = insert (k, v) {p \<in> set m. fst p \<noteq> k}"
  by (induction k v m rule: map_put.induct) auto

lemma map_inv_put: "map_inv m \<Longrightarrow> map_inv (map_put k v m)"
  by (induction k v m rule: map_put.induct) (auto simp: set_map_put)

lemma map_inv_erase: "map_inv m \<Longrightarrow> map_inv (map_erase k m)"
  by (induction m) (auto simp: map_erase_def)

lemma set_map_erase: "set (map_erase k m) = {p \<in> set m. fst p \<noteq> k}"
  by (auto simp: map_erase_def)

lemma find_sorted_Some:
  assumes "map_inv m"
  shows "find (\<lambda>p. k < fst p) m = Some p \<longleftrightarrow>
    p \<in> set m \<and> k < fst p \<and> (\<forall>q \<in> set m. k < fst q \<longrightarrow> fst p \<le> fst q)"
  using assms
proof (induction m)
  case (Cons r m)
  then show ?case
    by (cases "k < fst r") (auto simp: less_le_not_le dest: order.strict_implies_order)
qed simp

lemma find_rev_sorted_Some:
  assumes "map_inv m"
  shows "find (\<lambda>p. fst p \<le> k) (rev m) = Some p \<longleftrightarrow>
    p \<in> set m \<and> fst p \<le> k \<and> (\<forall>q \<in> set m. fst q \<le> k \<longrightarrow> fst q \<le> fst p)"
  using assms
proof (induction m rule: rev_induct)
  case (snoc r m)
  then show ?case
    by (cases "fst r \<le> k") (auto simp: less_le_not_le dest: order.strict_implies_order)
qed simp

interpretation std: ordered_map map_inv set map_put map_erase map_find map_upper map_prev_upper
proof
  fix m :: "('k::linorder, 'v) std_map" and k v
  assume m: "map_inv m"
  show "map_find k m = Some v \<longleftrightarrow> (k, v) \<in> set m"
    using m by (simp add: map_find_def map_inv_distinct)
qed (auto simp: map_inv_put map_inv_erase set_map_put set_map_erase map_upper_def
    map_prev_upper_def find_sorted_Some find_rev_sorted_Some find_None_iff not_less not_le)

lemmas std_map_specs [simp] = std.inv_put std.inv_erase std.entries_put std.entries_erase

end
