(* ===== verification/Codec.thy ===== *)
theory Codec
  imports Prelude
begin

text \<open>
  The contract of a wire codec: an encoder for the values it accepts and a decoder that takes
  one value off the front of the input and returns the unread rest. Variable-length integers,
  length-prefixed strings and QUIC frames provide it; what a payload built from such pieces
  needs (no encoding is a prefix of another, a sequence of encodings is read back item by
  item) is proved once, here.
\<close>

fun decode_n :: "(bytes \<Rightarrow> 'e + 'a \<times> bytes) \<Rightarrow> nat \<Rightarrow> bytes \<Rightarrow> 'e + 'a list \<times> bytes" where
  "decode_n dec 0 bs = Inr ([], bs)"
| "decode_n dec (Suc n) bs =
     bindR (dec bs) (\<lambda>(a, rest). bindR (decode_n dec n rest) (\<lambda>(as, rest'). Inr (a # as, rest')))"

locale wire_codec =
  fixes ok :: "'a \<Rightarrow> bool"
    and enc :: "'a \<Rightarrow> bytes"
    and dec :: "bytes \<Rightarrow> 'e + 'a \<times> bytes"
  assumes dec_enc: "ok a \<Longrightarrow> dec (enc a @ tail) = Inr (a, tail)"
    and dec_shorter: "dec bs = Inr (a, rest) \<Longrightarrow> length rest < length bs"
begin

lemma enc_nonempty: "ok a \<Longrightarrow> enc a \<noteq> []"
  using dec_enc [of a "[]"] dec_shorter [of "enc a" a "[]"] by auto

lemma prefix_free: "ok a \<Longrightarrow> ok b \<Longrightarrow> enc a @ s = enc b @ t \<Longrightarrow> a = b \<and> s = t"
  by (metis Pair_inject dec_enc sum.inject(2))

lemma enc_inj: "ok a \<Longrightarrow> ok b \<Longrightarrow> enc a = enc b \<Longrightarrow> a = b"
  using prefix_free [of a b "[]" "[]"] by simp

lemma decode_n_concat:
  "(\<forall>a \<in> set as. ok a) \<Longrightarrow>
   decode_n dec (length as) (concat (map enc as) @ tail) = Inr (as, tail)"
  by (induction as) (auto simp: dec_enc)

lemma sequence_unambiguous:
  "(\<forall>a \<in> set as. ok a) \<Longrightarrow> (\<forall>b \<in> set bs. ok b) \<Longrightarrow>
   concat (map enc as) = concat (map enc bs) \<Longrightarrow> as = bs"
proof (induction as arbitrary: bs)
  case Nil
  then show ?case
    by (cases bs) (simp_all add: enc_nonempty)
next
  case (Cons a as)
  from Cons.prems obtain b bs' where bs: "bs = b # bs'"
    by (cases bs) (simp_all add: enc_nonempty)
  have "a = b \<and> concat (map enc as) = concat (map enc bs')"
    using Cons.prems bs by (intro prefix_free) auto
  then show ?case
    using Cons.IH [of bs'] Cons.prems bs by simp
qed

end

end
