(* ===== verification/QuicVarint.thy ===== *)
theory QuicVarint
  imports Codec
begin

text \<open>
  QUIC variable-length integers, \<open>src/Net/Quic/Codec/QuicVariableLengthInteger.{h,cpp}\<close> and
  the error kinds of \<open>QuicDecodeError.h\<close>: the four widths, the encoder that appends to a
  buffer and throws above \<open>2^62 - 1\<close>, and the decoder. The error messages are text and are
  not modelled; the kind is the contract the code states.
\<close>

datatype QuicDecodeErrorKind = Truncated | Malformed | AuthenticationFailed

record QuicDecodedInteger =
  qi_value :: u64
  qi_byteCount :: nat

definition kQuicMaximumIntegerValue :: u64 where
  "kQuicMaximumIntegerValue = push_bit 62 1 - 1"

definition kQuicMaximumStreamLimitValue :: u64 where
  "kQuicMaximumStreamLimitValue = push_bit 60 1"

definition quicVariableLengthIntegerByteCount :: "u64 \<Rightarrow> nat" where
  "quicVariableLengthIntegerByteCount value =
     (if value \<le> 63 then 1
      else if value \<le> 16383 then 2
      else if value \<le> 1073741823 then 4
      else if value \<le> kQuicMaximumIntegerValue then 8 else 0)"

definition appendQuicRawBytes :: "bytes \<Rightarrow> bytes \<Rightarrow> bytes" where
  "appendQuicRawBytes buffer data = (if data = [] then buffer else buffer @ data)"

text \<open>The loop that turns the width into the prefix: \<open>remainingWidth\<close> halves, the prefix
  gains \<open>0x40\<close>.\<close>

fun lengthPrefixLoop :: "nat \<Rightarrow> byte \<Rightarrow> byte" where
  "lengthPrefixLoop remainingWidth lengthPrefix =
     (if remainingWidth > 1 then lengthPrefixLoop (remainingWidth div 2) (lengthPrefix + 0x40)
      else lengthPrefix)"

declare lengthPrefixLoop.simps [simp del]

definition encodedByteAt :: "u64 \<Rightarrow> nat \<Rightarrow> nat \<Rightarrow> byte" where
  "encodedByteAt value byteWidth byteIndex =
     ucast (drop_bit ((byteWidth - 1 - byteIndex) * 8) value AND 0xFF)"

definition appendQuicVariableLengthInteger :: "bytes \<Rightarrow> u64 \<Rightarrow> appended" where
  "appendQuicVariableLengthInteger buffer value =
     (let byteWidth = quicVariableLengthIntegerByteCount value in
      if byteWidth = 0 then Inl (InvalidArgumentException buffer)
      else
        let lengthPrefix = lengthPrefixLoop byteWidth 0;
            encoded = map (encodedByteAt value byteWidth) [0..<byteWidth]
        in Inr (appendQuicRawBytes buffer (encoded[0 := (encoded ! 0) OR lengthPrefix])))"

definition decodeQuicVariableLengthInteger ::
  "bytes \<Rightarrow> QuicDecodeErrorKind + QuicDecodedInteger" where
  "decodeQuicVariableLengthInteger data =
     (case data of [] \<Rightarrow> Inl Truncated
      | first # rest \<Rightarrow>
        let byteWidth = 2 ^ unat (drop_bit 6 first) in
        if length data < byteWidth then Inl Truncated
        else Inr \<lparr>qi_value = fold (\<lambda>b value. push_bit 8 value OR ucast b)
                     (take (byteWidth - 1) rest) (ucast (first AND 0x3F)),
                  qi_byteCount = byteWidth\<rparr>)"

section \<open>Widths\<close>

lemma kQuicMaximumIntegerValue_eq [simp]: "kQuicMaximumIntegerValue = 4611686018427387903"
  by (simp add: kQuicMaximumIntegerValue_def)

lemma kQuicMaximumStreamLimitValue_eq [simp]: "kQuicMaximumStreamLimitValue = 1152921504606846976"
  by (simp add: kQuicMaximumStreamLimitValue_def)

abbreviation varint_ok :: "u64 \<Rightarrow> bool" where
  "varint_ok v \<equiv> v \<le> kQuicMaximumIntegerValue"

lemma byteCount_zero_iff: "quicVariableLengthIntegerByteCount v = 0 \<longleftrightarrow> \<not> varint_ok v"
  by (auto simp: quicVariableLengthIntegerByteCount_def word_le_nat_alt)

lemma byteCount_cases:
  "quicVariableLengthIntegerByteCount v \<in> {0, 1, 2, 4, 8}"
  by (simp add: quicVariableLengthIntegerByteCount_def)

text \<open>The prefix for width \<open>2 ^ k\<close> is \<open>k\<close> in the two high bits.\<close>

lemma lengthPrefix_values:
  "lengthPrefixLoop 1 0 = 0" "lengthPrefixLoop 2 0 = 64" "lengthPrefixLoop 4 0 = 128"
  "lengthPrefixLoop 8 0 = 192"
  by (simp_all add: lengthPrefixLoop.simps)

section \<open>The bytes written are the big-endian value with the prefix\<close>

definition varint_bytes :: "u64 \<Rightarrow> bytes" where
  "varint_bytes v =
     (let w = quicVariableLengthIntegerByteCount v; e = be_bytes w (unat v)
      in e[0 := e ! 0 OR lengthPrefixLoop w 0])"

lemma mask_ff: "(0xFF :: u64) = mask 8"
  by (simp add: mask_eq_exp_minus_1)

lemma encodedByteAt_eq: "encodedByteAt v w i = of_nat (unat v div 256 ^ (w - 1 - i))"
proof -
  let ?k = "(w - 1 - i) * 8"
  have "encodedByteAt v w i = ucast (drop_bit ?k v)"
    unfolding encodedByteAt_def mask_ff
    by (rule bit_word_eqI) (auto simp: bit_simps)
  also have "\<dots> = of_nat (unat (drop_bit ?k v))"
    by simp
  also have "unat (drop_bit ?k v) = unat v div 256 ^ (w - 1 - i)"
    by (subst unat_drop_bit_eq)
      (simp add: drop_bit_eq_div power_mult mult.commute [of _ 8])
  finally show ?thesis .
qed

lemma encodedBytes_eq: "map (encodedByteAt v w) [0..<w] = be_bytes w (unat v)"
  by (simp add: be_bytes_def encodedByteAt_eq)

lemma append_varint:
  "appendQuicVariableLengthInteger buf v =
     (if varint_ok v then Inr (buf @ varint_bytes v) else Inl (InvalidArgumentException buf))"
  by (auto simp: appendQuicVariableLengthInteger_def byteCount_zero_iff encodedBytes_eq
      varint_bytes_def appendQuicRawBytes_def Let_def)

lemma length_varint_bytes [simp]: "length (varint_bytes v) = quicVariableLengthIntegerByteCount v"
  by (simp add: varint_bytes_def Let_def)

lemma varint_bytes_nonempty: "varint_ok v \<Longrightarrow> varint_bytes v \<noteq> []"
  using byteCount_zero_iff [of v] length_varint_bytes [of v] by (metis list.size(3))

section \<open>Decoding\<close>

lemma shift_or_byte: "push_bit 8 v OR ucast (b :: byte) = push_bit 8 (v :: u64) + ucast b"
proof -
  have "push_bit 8 v AND ucast b = 0"
    by (rule bit_word_eqI) (auto simp: bit_simps dest: bit_imp_le_length)
  then show ?thesis
    using word_plus_and_or [of "push_bit 8 v" "ucast b"] by simp
qed

lemma unat_ucast_byte [simp]: "unat (ucast (b :: byte) :: u64) = unat b"
  using unat_byte_bound [of b] by (simp add: unsigned_ucast_eq take_bit_nat_eq_self)

lemma unat_shift_or:
  assumes "unat v * 256 + unat b < 2 ^ 64"
  shows "unat (push_bit 8 (v :: u64) OR ucast (b :: byte)) = unat v * 256 + unat b"
proof -
  have "push_bit 8 v OR ucast b = v * 256 + ucast b"
    unfolding shift_or_byte by (simp add: push_bit_eq_mult)
  then show ?thesis
    using assms by (simp add: unat_word_ariths)
qed

lemma unat_fold_shift:
  assumes "unat v * 256 ^ length bs + be_value bs < 2 ^ 64"
  shows "unat (fold (\<lambda>b v. push_bit 8 v OR ucast b) bs (v :: u64)) = unat v * 256 ^ length bs + be_value bs"
  using assms
proof (induction bs arbitrary: v)
  case (Cons b bs)
  have "unat v * 256 + unat b \<le> (unat v * 256 + unat b) * 256 ^ length bs"
    by simp
  also have "\<dots> < 2 ^ 64"
    using Cons.prems by (simp add: algebra_simps)
  finally have step: "unat (push_bit 8 v OR ucast b) = unat v * 256 + unat b"
    by (rule unat_shift_or)
  have "unat (push_bit 8 v OR ucast b) * 256 ^ length bs + be_value bs < 2 ^ 64"
    unfolding step using Cons.prems by (simp add: algebra_simps)
  from Cons.IH [OF this] show ?case
    by (simp add: step algebra_simps)
qed simp

lemma prefix_split:
  assumes "b < 64" "k < 4"
  shows "drop_bit 6 (b OR push_bit 6 k) = (k :: byte)" "(b OR push_bit 6 k) AND 0x3F = b"
proof -
  have b: "b AND mask 6 = b" and k: "k AND mask 2 = k"
    using assms by (simp_all add: less_mask_eq)
  have b_bits: "bit b n \<Longrightarrow> n < 6" for n
    by (metis b bit_and_iff bit_mask_iff)
  have k_bits: "bit k n \<Longrightarrow> n < 2" for n
    by (metis k bit_and_iff bit_mask_iff)
  have m: "(0x3F :: byte) = mask 6"
    by (simp add: mask_eq_exp_minus_1)
  show "drop_bit 6 (b OR push_bit 6 k) = (k :: byte)"
    by (rule bit_word_eqI) (auto simp: bit_simps dest: b_bits k_bits)
  show "(b OR push_bit 6 k) AND 0x3F = b"
    unfolding m by (rule bit_word_eqI) (auto simp: bit_simps dest: b_bits k_bits)
qed

text \<open>The first byte of an encoding holds the top of the value below the prefix.\<close>

lemma varint_bytes_Cons:
  assumes "varint_ok v"
  obtains k b rest where "varint_bytes v = (b OR push_bit 6 (of_nat k)) # rest"
    "k < 4" "b < 64" "length rest = 2 ^ k - 1" "be_value (b # rest) = unat v"
    "quicVariableLengthIntegerByteCount v = 2 ^ k"
proof -
  note goal = that
  have step: thesis
    if w: "quicVariableLengthIntegerByteCount v = 2 ^ k" and k: "k < 4"
      and bound: "unat v < 64 * 256 ^ (2 ^ k - 1)"
      and prefix: "lengthPrefixLoop (2 ^ k) 0 = push_bit 6 (of_nat k)" for k :: nat
  proof -
    define m :: nat where "m = 2 ^ k - 1"
    have m: "(2::nat) ^ k = Suc m" by (simp add: m_def)
    define b :: byte where "b = of_nat (unat v div 256 ^ m)"
    have quotient: "unat v div 256 ^ m < 64"
      using bound by (simp add: m_def less_mult_imp_div_less)
    then have ub: "unat b = unat v div 256 ^ m"
      by (simp add: b_def unat_of_nat)
    have "varint_bytes v = (b OR push_bit 6 (of_nat k)) # be_bytes m (unat v)"
      by (simp add: varint_bytes_def w m be_bytes_Suc b_def Let_def prefix [unfolded m])
    moreover have "b < 64"
      using quotient ub by (simp add: word_less_nat_alt)
    moreover have "be_value (b # be_bytes m (unat v)) = unat v"
      by (simp add: be_value_be_bytes ub div_mult_mod_eq)
    ultimately show thesis
      using goal [of b k "be_bytes m (unat v)"] k w by (simp add: m_def)
  qed
  consider "v \<le> 63" | "\<not> v \<le> 63" "v \<le> 16383" | "\<not> v \<le> 16383" "v \<le> 1073741823"
    | "\<not> v \<le> 1073741823" by blast
  then show thesis
  proof cases
    case 1
    then show thesis
      by (intro step [of 0])
        (simp_all add: quicVariableLengthIntegerByteCount_def word_le_nat_alt lengthPrefixLoop.simps)
  next
    case 2
    then show thesis
      by (intro step [of 1])
        (simp_all add: quicVariableLengthIntegerByteCount_def word_le_nat_alt lengthPrefixLoop.simps)
  next
    case 3
    then show thesis
      by (intro step [of 2])
        (simp_all add: quicVariableLengthIntegerByteCount_def word_le_nat_alt lengthPrefixLoop.simps)
  next
    case 4
    then show thesis
      using assms by (intro step [of 3])
        (simp_all add: quicVariableLengthIntegerByteCount_def word_le_nat_alt lengthPrefixLoop.simps)
  qed
qed

lemma varint_ok_unat: "varint_ok v \<longleftrightarrow> unat v < 2 ^ 62"
  by (simp add: word_le_nat_alt) arith

theorem decode_varint_bytes:
  assumes "varint_ok v"
  shows "decodeQuicVariableLengthInteger (varint_bytes v @ tail) =
    Inr \<lparr>qi_value = v, qi_byteCount = quicVariableLengthIntegerByteCount v\<rparr>"
proof -
  obtain k b rest where vb: "varint_bytes v = (b OR push_bit 6 (of_nat k)) # rest"
    and k: "k < 4" and b: "b < 64" and len: "length rest = 2 ^ k - 1"
    and val: "be_value (b # rest) = unat v"
    and w: "quicVariableLengthIntegerByteCount v = 2 ^ k"
    using assms by (rule varint_bytes_Cons)
  have k': "of_nat k < (4 :: byte)" "unat (of_nat k :: byte) = k"
    using k by (auto simp: word_less_nat_alt unat_of_nat)
  have small: "unat (ucast b :: u64) * 256 ^ length rest + be_value rest = unat v"
    using val by simp
  then have "unat (fold (\<lambda>b v. push_bit 8 v OR ucast b) rest (ucast b :: u64)) = unat v"
    using assms varint_ok_unat by (subst unat_fold_shift) auto
  then have "fold (\<lambda>b v. push_bit 8 v OR ucast b) rest (ucast b :: u64) = v"
    by (simp add: word_unat_eq_iff)
  then show ?thesis
    using prefix_split [OF b k'(1)] k' len
    by (simp add: decodeQuicVariableLengthInteger_def vb w)
qed

lemma decode_varint_cases:
  assumes "decodeQuicVariableLengthInteger bs = Inr q"
  obtains b rest k where "bs = b # rest" "k = unat (drop_bit 6 b)" "k < 4"
    "qi_byteCount q = 2 ^ k" "2 ^ k \<le> length bs"
    "unat (qi_value q) = unat (b AND 0x3F) * 256 ^ (2 ^ k - 1) + be_value (take (2 ^ k - 1) rest)"
    "unat (b AND 0x3F) < 64"
proof -
  obtain b rest where bs: "bs = b # rest"
    using assms by (cases bs) (auto simp: decodeQuicVariableLengthInteger_def)
  define k where "k = unat (drop_bit 6 b)"
  have k: "k < 4"
    using unat_byte_bound [of b] unfolding k_def by (subst unat_drop_bit_eq) (simp add: drop_bit_eq_div)
  have len: "2 ^ k \<le> length bs"
    and q: "q = \<lparr>qi_value = fold (\<lambda>b v. push_bit 8 v OR ucast b) (take (2 ^ k - 1) rest) (ucast (b AND 0x3F)),
                qi_byteCount = 2 ^ k\<rparr>"
    using assms by (auto simp: decodeQuicVariableLengthInteger_def bs k_def Let_def split: if_splits)
  have six: "unat (b AND 0x3F) < 64"
    using word_and_le1 [of b "0x3F"] by (simp add: word_le_nat_alt)
  have taken: "length (take (2 ^ k - 1) rest) = 2 ^ k - 1"
    using len bs by simp
  have "(2::nat) ^ k \<le> 2 ^ 3"
    using k by (intro power_increasing) auto
  then have "(256::nat) ^ (2 ^ k - 1) \<le> 256 ^ 7"
    by (intro power_increasing) auto
  moreover have "unat (b AND 0x3F) * 256 ^ (2 ^ k - 1) + be_value (take (2 ^ k - 1) rest)
      < 64 * 256 ^ (2 ^ k - 1)"
  proof -
    have "unat (b AND 0x3F) * 256 ^ (2 ^ k - 1) + be_value (take (2 ^ k - 1) rest)
        < Suc (unat (b AND 0x3F)) * 256 ^ (2 ^ k - 1)"
      using be_value_bound [of "take (2 ^ k - 1) rest"] taken by simp
    also have "\<dots> \<le> 64 * 256 ^ (2 ^ k - 1)"
      using six by (intro mult_right_mono) auto
    finally show ?thesis .
  qed
  ultimately have "unat (b AND 0x3F) * 256 ^ (2 ^ k - 1) + be_value (take (2 ^ k - 1) rest) < 2 ^ 64"
    by simp
  then have "unat (qi_value q) =
      unat (b AND 0x3F) * 256 ^ (2 ^ k - 1) + be_value (take (2 ^ k - 1) rest)"
    using unat_fold_shift [of "ucast (b AND 0x3F)" "take (2 ^ k - 1) rest"] taken
    by (simp add: q)
  then show thesis
    using that bs k_def k len q six by simp
qed

lemma decode_varint_bounds:
  assumes "decodeQuicVariableLengthInteger bs = Inr q"
  shows "varint_ok (qi_value q)" "0 < qi_byteCount q" "qi_byteCount q \<le> length bs"
    "quicVariableLengthIntegerByteCount (qi_value q) \<le> qi_byteCount q"
proof -
  obtain b rest k where bs: "bs = b # rest" and k: "k < 4"
    and w: "qi_byteCount q = 2 ^ k" and len: "2 ^ k \<le> length bs"
    and v: "unat (qi_value q) = unat (b AND 0x3F) * 256 ^ (2 ^ k - 1) + be_value (take (2 ^ k - 1) rest)"
    and six: "unat (b AND 0x3F) < 64"
    using decode_varint_cases [OF assms] by metis
  have "length (take (2 ^ k - 1) rest) = 2 ^ k - 1"
    using len bs by simp
  then have "unat (qi_value q) < Suc (unat (b AND 0x3F)) * 256 ^ (2 ^ k - 1)"
    using be_value_bound [of "take (2 ^ k - 1) rest"] v by simp
  also have "\<dots> \<le> 64 * 256 ^ (2 ^ k - 1)"
    using six by (intro mult_right_mono) auto
  finally have bound: "unat (qi_value q) < 64 * 256 ^ (2 ^ k - 1)" .
  have "k \<in> {0, 1, 2, 3}" using k by auto
  then show "varint_ok (qi_value q)"
    and "quicVariableLengthIntegerByteCount (qi_value q) \<le> qi_byteCount q"
    using bound w by (auto simp: word_le_nat_alt quicVariableLengthIntegerByteCount_def)
  show "0 < qi_byteCount q" "qi_byteCount q \<le> length bs"
    using w len by simp_all
qed

section \<open>A cursor over unread bytes\<close>

text \<open>
  \<open>FrameReader\<close> and \<open>ParameterReader\<close> hold a span and an offset; every method looks only at
  \<open>m_bytes.subspan(m_offset)\<close>. The cursor is therefore that suffix, and a method returns what
  it read and the suffix after it. \<open>readInteger\<close> is the same code in both classes.
\<close>

definition readInteger :: "bytes \<Rightarrow> QuicDecodeErrorKind + u64 \<times> bytes" where
  "readInteger unread =
     (case decodeQuicVariableLengthInteger unread of
        Inl e \<Rightarrow> Inl Truncated
      | Inr decoded \<Rightarrow> Inr (qi_value decoded, drop (qi_byteCount decoded) unread))"

lemma readInteger_varint:
  "varint_ok v \<Longrightarrow> readInteger (varint_bytes v @ tail) = Inr (v, tail)"
  by (simp add: readInteger_def decode_varint_bytes)

lemma readInteger_consumes [consumes]:
  "readInteger bs = Inr (v, rest) \<Longrightarrow> length rest < length bs"
  by (auto simp: readInteger_def split: sum.splits)
    (metis decode_varint_bounds(2,3) diff_less order_less_le_trans)

lemma readInteger_ok: "readInteger bs = Inr (v, rest) \<Longrightarrow> varint_ok v"
  by (auto simp: readInteger_def split: sum.splits dest: decode_varint_bounds)

lemma readInteger_error: "readInteger bs = Inl e \<Longrightarrow> e = Truncated"
  by (auto simp: readInteger_def split: sum.splits)

interpretation varint: wire_codec varint_ok varint_bytes readInteger
  by unfold_locales (auto simp: readInteger_varint dest: readInteger_consumes)

end
