(* ===== verification/QuicRanges.thy ===== *)
theory QuicRanges
  imports StdMap QuicVarint
begin

text \<open>
  The set of received packet numbers, \<open>src/Net/Quic/QuicReceivedPacketNumbers.{h,cpp}\<close>: a
  \<open>std::map\<close> from the first to the last number of each maximal run, and a count. The
  specification is the set of numbers covered; \<open>insert\<close> adds one number and reports whether
  it was new, \<open>dropOldestUntil\<close> keeps the newest ones.
\<close>

record QuicReceivedPacketNumbers =
  m_ranges :: "(u64, u64) std_map"
  m_trackedPacketNumberCount :: u64

definition emptyReceivedPacketNumbers :: QuicReceivedPacketNumbers where
  "emptyReceivedPacketNumbers = \<lparr>m_ranges = [], m_trackedPacketNumberCount = 0\<rparr>"

text \<open>The part of \<open>insert\<close> after the test against the previous run: the number is put in
  front of the next run, or becomes a run of its own. No run starts at \<open>packetNumber\<close>
  there, so \<open>emplace\<close> and the node \<open>insert\<close> store it.\<close>

definition insertUnattached ::
  "u64 \<Rightarrow> QuicReceivedPacketNumbers \<Rightarrow> bool \<times> QuicReceivedPacketNumbers" where
  "insertUnattached packetNumber s =
     (let m = m_ranges s;
          s' = s\<lparr>m_trackedPacketNumberCount := m_trackedPacketNumberCount s + 1\<rparr> in
      case map_upper packetNumber m of
        Some (nextFirst, nextLast) \<Rightarrow>
          if nextFirst = packetNumber + 1
          then (True, s'\<lparr>m_ranges := map_put packetNumber nextLast (map_erase nextFirst m)\<rparr>)
          else (True, s'\<lparr>m_ranges := map_put packetNumber packetNumber m\<rparr>)
      | None \<Rightarrow> (True, s'\<lparr>m_ranges := map_put packetNumber packetNumber m\<rparr>))"

definition insertPacketNumber ::
  "u64 \<Rightarrow> QuicReceivedPacketNumbers \<Rightarrow> bool \<times> QuicReceivedPacketNumbers" where
  "insertPacketNumber packetNumber s =
     (let m = m_ranges s in
      case map_prev_upper packetNumber m of
        Some (previousFirst, previousLast) \<Rightarrow>
          if packetNumber \<le> previousLast then (False, s)
          else if packetNumber = previousLast + 1 then
            let extended = map_put previousFirst packetNumber m;
                merged = (case map_upper packetNumber m of
                    Some (nextFirst, nextLast) \<Rightarrow>
                      if nextFirst = packetNumber + 1
                      then map_erase nextFirst (map_put previousFirst nextLast extended)
                      else extended
                  | None \<Rightarrow> extended)
            in (True, s\<lparr>m_trackedPacketNumberCount := m_trackedPacketNumberCount s + 1, m_ranges := merged\<rparr>)
          else insertUnattached packetNumber s
      | None \<Rightarrow> insertUnattached packetNumber s)"

text \<open>The constructor from an initializer list inserts the numbers one by one.\<close>

definition receivedPacketNumbersOf :: "u64 list \<Rightarrow> QuicReceivedPacketNumbers" where
  "receivedPacketNumbersOf packetNumbers =
     fold (\<lambda>packetNumber s. snd (insertPacketNumber packetNumber s)) packetNumbers
       emptyReceivedPacketNumbers"

lemma length_map_put: "length (map_put k v m) \<le> Suc (length m)"
  by (induction k v m rule: map_put.induct) auto

function (sequential) dropOldestUntil ::
  "u64 \<Rightarrow> QuicReceivedPacketNumbers \<Rightarrow> QuicReceivedPacketNumbers" where
  "dropOldestUntil maximumTracked s =
     (case m_ranges s of [] \<Rightarrow> s
      | (oldestFirst, oldestLast) # newer \<Rightarrow>
        if m_trackedPacketNumberCount s > maximumTracked then
          let oldestSpan = oldestLast - oldestFirst + 1;
              excess = m_trackedPacketNumberCount s - maximumTracked in
          if oldestSpan \<le> excess
          then dropOldestUntil maximumTracked
                 (s\<lparr>m_trackedPacketNumberCount := m_trackedPacketNumberCount s - oldestSpan,
                    m_ranges := newer\<rparr>)
          else dropOldestUntil maximumTracked
                 (s\<lparr>m_ranges := map_put (oldestFirst + excess) oldestLast newer,
                    m_trackedPacketNumberCount := m_trackedPacketNumberCount s - excess\<rparr>)
        else s)"
  by pat_completeness auto

text \<open>A run is dropped, or the second branch leaves exactly \<open>maximumTracked\<close> and the loop
  ends at the next test.\<close>

termination
proof (relation "measures [\<lambda>(n, s). length (m_ranges s), \<lambda>(n, s). unat (m_trackedPacketNumberCount s)]",
    goal_cases)
  case 1
  show ?case by simp
next
  case 2
  then show ?case by simp
next
  case (3 maximumTracked s p newer oldestFirst oldestLast oldestSpan excess)
  have "length (map_put (oldestFirst + excess) oldestLast newer) \<le> Suc (length newer)"
    by (rule length_map_put)
  with 3 show ?case
    by (auto simp: word_less_nat_alt)
qed

declare dropOldestUntil.simps [simp del]

section \<open>What the runs cover\<close>

definition cover :: "(u64 \<times> u64) set \<Rightarrow> u64 set" where
  "cover R = (\<Union>(a, b) \<in> R. {a..b})"

definition covered :: "QuicReceivedPacketNumbers \<Rightarrow> u64 set" where
  "covered s = cover (set (m_ranges s))"

text \<open>Runs are non-empty, hold packet numbers only, and two runs leave a gap of at least one
  number: adjacent runs are merged.\<close>

definition separated :: "(u64 \<times> u64) set \<Rightarrow> bool" where
  "separated R \<longleftrightarrow>
     (\<forall>(a, b) \<in> R. a \<le> b \<and> varint_ok b) \<and>
     (\<forall>(a, b) \<in> R. \<forall>(c, d) \<in> R. a < c \<longrightarrow> unat b + 1 < unat c)"

definition ranges_inv :: "QuicReceivedPacketNumbers \<Rightarrow> bool" where
  "ranges_inv s \<longleftrightarrow> map_inv (m_ranges s) \<and> separated (set (m_ranges s)) \<and>
     m_trackedPacketNumberCount s = of_nat (card (covered s))"

lemma cover_insert: "cover (insert (a, b) R) = {a..b} \<union> cover R"
  by (simp add: cover_def)

lemma cover_Un: "cover (R \<union> S) = cover R \<union> cover S"
  by (simp add: cover_def)

lemma mem_cover: "x \<in> cover R \<longleftrightarrow> (\<exists>a b. (a, b) \<in> R \<and> a \<le> x \<and> x \<le> b)"
  by (fastforce simp: cover_def)

lemma cover_remove:
  assumes "map_inv m" "(k, v) \<in> set m"
  shows "cover (set m) = {k..v} \<union> cover {p \<in> set m. fst p \<noteq> k}"
proof -
  have "set m = insert (k, v) {p \<in> set m. fst p \<noteq> k}"
    using assms(2) by (auto dest: std.entry_unique [OF assms])
  from arg_cong [OF this, of cover] show ?thesis by (simp only: cover_insert)
qed

lemma unat_plus_one: "varint_ok x \<Longrightarrow> unat (x + 1) = unat x + 1"
  by (simp add: unat_word_ariths word_le_nat_alt)

lemma interval_snoc: "varint_ok b \<Longrightarrow> a \<le> b \<Longrightarrow> {a..b + 1} = insert (b + 1) {a..b}" for a b :: u64
  by (auto simp: word_le_nat_alt unat_plus_one word_unat_eq_iff)

lemma interval_cons: "varint_ok a \<Longrightarrow> a + 1 \<le> b \<Longrightarrow> {a..b} = insert a {a + 1..b}" for a b :: u64
  by (auto simp: word_le_nat_alt unat_plus_one word_unat_eq_iff)

lemma card_insert_word: "x \<notin> C \<Longrightarrow> (of_nat (card C) + 1 :: u64) = of_nat (card (insert x C))"
  for C :: "u64 set"
  by simp

section \<open>\<open>insert\<close>\<close>

text \<open>The bounds the two neighbours of a number put on it.\<close>

lemma previous_run:
  assumes "map_inv m" "separated (set m)" "map_prev_upper n m = Some (a, b)"
  shows "(a, b) \<in> set m" "a \<le> n" "a \<le> b" "varint_ok b"
    "\<And>c d. (c, d) \<in> set m \<Longrightarrow> c \<le> n \<Longrightarrow> c \<noteq> a \<Longrightarrow> unat d + 1 < unat a"
    "\<And>c d. (c, d) \<in> set m \<Longrightarrow> \<not> c \<le> n \<Longrightarrow> unat b + 1 < unat c"
proof -
  have p: "(a, b) \<in> set m" "a \<le> n" "\<And>q. q \<in> set m \<Longrightarrow> fst q \<le> n \<Longrightarrow> fst q \<le> a"
    using assms(1,3) by (auto simp: std.prev_entry)
  show "(a, b) \<in> set m" "a \<le> n" using p by auto
  show "a \<le> b" "varint_ok b" using assms(2) p(1) by (auto simp: separated_def)
  show "unat d + 1 < unat a" if "(c, d) \<in> set m" "c \<le> n" "c \<noteq> a" for c d
  proof -
    have "c < a" using p(3) [OF that(1)] that(2,3) by simp
    then show ?thesis using assms(2) p(1) that(1) by (fastforce simp: separated_def)
  qed
  show "unat b + 1 < unat c" if "(c, d) \<in> set m" "\<not> c \<le> n" for c d
  proof -
    have "a < c" using p(2) that(2) by simp
    then show ?thesis using assms(2) p(1) that(1) by (fastforce simp: separated_def)
  qed
qed

lemma next_run:
  assumes "map_inv m" "separated (set m)" "map_upper n m = Some (a, b)"
  shows "(a, b) \<in> set m" "n < a" "a \<le> b" "varint_ok b"
    "\<And>c d. (c, d) \<in> set m \<Longrightarrow> n < c \<Longrightarrow> c \<noteq> a \<Longrightarrow> unat b + 1 < unat c"
proof -
  have p: "(a, b) \<in> set m" "n < a" "\<And>q. q \<in> set m \<Longrightarrow> n < fst q \<Longrightarrow> a \<le> fst q"
    using assms(1,3) by (auto simp: std.upper_entry)
  show "(a, b) \<in> set m" "n < a" using p by auto
  show "a \<le> b" "varint_ok b" using assms(2) p(1) by (auto simp: separated_def)
  show "unat b + 1 < unat c" if "(c, d) \<in> set m" "n < c" "c \<noteq> a" for c d
  proof -
    have "a < c" using p(3) [OF that(1)] that(2,3) by simp
    then show ?thesis using assms(2) p(1) that(1) by (fastforce simp: separated_def)
  qed
qed

lemma next_run_far:
  assumes "map_inv m" "separated (set m)" "map_upper n m = Some (a, b)" "varint_ok n" "a \<noteq> n + 1"
    "(c, d) \<in> set m" "n < c"
  shows "unat n + 1 < unat c"
proof (cases "c = a")
  case True
  have "unat a \<noteq> unat n + 1"
    using assms(5) unat_plus_one [OF assms(4)] by (simp add: word_unat_eq_iff)
  then show ?thesis using assms(7) True by (simp add: word_less_nat_alt)
next
  case False
  note next_ = next_run [OF assms(1-3)]
  show ?thesis
    using next_(2,3) next_(5) [OF assms(6,7) False] by (simp add: word_less_nat_alt word_le_nat_alt)
qed

text \<open>A run replaced by a longer one keeps the separation when the new bounds stay clear of
  the others.\<close>

lemma separated_insert:
  assumes "separated R" "a \<le> b" "varint_ok b"
    "\<And>c d. (c, d) \<in> R \<Longrightarrow> unat d + 1 < unat a \<or> unat b + 1 < unat c"
  shows "separated (insert (a, b) R)"
proof -
  have ok: "\<forall>(c, d) \<in> insert (a, b) R. c \<le> d \<and> varint_ok d"
    using assms by (auto simp: separated_def)
  have gap: "unat d + 1 < unat c'" if "(c, d) \<in> insert (a, b) R" "(c', d') \<in> insert (a, b) R" "c < c'"
    for c d c' d'
  proof -
    have le: "unat c \<le> unat d" "unat c' \<le> unat d'" using ok that by (auto simp: word_le_nat_alt)
    show ?thesis
      using that assms(1) assms(4) [of c d] assms(4) [of c' d'] le
      by (auto simp: separated_def word_less_nat_alt)
  qed
  show ?thesis using ok gap unfolding separated_def by blast
qed

lemma separated_subset: "separated S \<Longrightarrow> R \<subseteq> S \<Longrightarrow> separated R"
  unfolding separated_def by blast

definition grows_by :: "u64 \<Rightarrow> QuicReceivedPacketNumbers \<Rightarrow> QuicReceivedPacketNumbers \<Rightarrow> bool" where
  "grows_by n s s' \<longleftrightarrow> n \<notin> covered s \<and> covered s' = insert n (covered s) \<and> ranges_inv s'"

lemma grows_byI:
  assumes "ranges_inv s" "n \<notin> covered s"
    "m_trackedPacketNumberCount s' = m_trackedPacketNumberCount s + 1"
    "map_inv (m_ranges s')" "separated (set (m_ranges s'))"
    "cover (set (m_ranges s')) = insert n (cover (set (m_ranges s)))"
  shows "grows_by n s s'"
  using assms card_insert_word [OF assms(2)]
  by (simp add: grows_by_def ranges_inv_def covered_def)

lemma insertUnattached_spec:
  assumes inv: "ranges_inv s" and n: "varint_ok n"
    and apart: "\<And>c d. (c, d) \<in> set (m_ranges s) \<Longrightarrow> c \<le> n \<Longrightarrow> unat d + 1 < unat n"
  shows "\<exists>s'. insertUnattached n s = (True, s') \<and> grows_by n s s'"
proof -
  let ?m = "m_ranges s"
  have m: "map_inv ?m" and sep: "separated (set ?m)"
    using inv by (auto simp: ranges_inv_def)
  have fresh: "n \<notin> covered s"
    using apart by (fastforce simp: covered_def mem_cover word_le_nat_alt)
  have nokey: "(n, d) \<notin> set ?m" for d
    using apart [of n d] sep by (fastforce simp: separated_def word_le_nat_alt)
  then have allset: "{p \<in> A. fst p \<noteq> n} = A" if "A \<subseteq> set ?m" for A
    using that by auto
  define alone where "alone = map_put n n ?m"
  have alone: "grows_by n s (s\<lparr>m_trackedPacketNumberCount := m_trackedPacketNumberCount s + 1, m_ranges := alone\<rparr>)"
    if far: "\<And>c d. (c, d) \<in> set ?m \<Longrightarrow> n < c \<Longrightarrow> unat n + 1 < unat c"
  proof (rule grows_byI [OF inv fresh])
    have set: "set alone = insert (n, n) (set ?m)"
      using m allset by (simp add: alone_def)
    have "unat d + 1 < unat n \<or> unat n + 1 < unat c" if "(c, d) \<in> set ?m" for c d
      using apart [OF that] far [OF that] by (meson not_le)
    then show "separated (set (m_ranges (s\<lparr>m_trackedPacketNumberCount := m_trackedPacketNumberCount s + 1, m_ranges := alone\<rparr>)))"
      using separated_insert [OF sep] n set by simp
  qed (use m allset in \<open>simp_all add: alone_def cover_insert\<close>)
  show ?thesis
  proof (cases "map_upper n ?m")
    case None
    then have "\<not> n < c" if "(c, d) \<in> set ?m" for c d
      using m that by (fastforce simp: std.upper_end)
    then show ?thesis
      using alone None by (simp add: insertUnattached_def Let_def alone_def)
  next
    case (Some q)
    obtain nf nl where q: "q = (nf, nl)" by fastforce
    note next_ = next_run [OF m sep Some [unfolded q]]
    show ?thesis
    proof (cases "nf = n + 1")
      case True
      let ?R = "{p \<in> set ?m. fst p \<noteq> nf}"
      have nl: "n \<le> nl" using next_(2,3) by simp
      have set: "set (map_put n nl (map_erase nf ?m)) = insert (n, nl) ?R"
        using m nokey by auto
      have gap: "unat d + 1 < unat n \<or> unat nl + 1 < unat c" if "(c, d) \<in> ?R" for c d
        using apart [of c d] next_(5) [of c d] that le_less_linear [of c n] by auto
      have "separated (insert (n, nl) ?R)"
        by (rule separated_insert [OF separated_subset [OF sep] nl next_(4) gap]) auto
      moreover have "cover (insert (n, nl) ?R) = insert n (cover (set ?m))"
        using cover_remove [OF m next_(1)] interval_cons [OF n] next_(3) True by (simp add: cover_insert)
      ultimately have "grows_by n s (s\<lparr>m_trackedPacketNumberCount := m_trackedPacketNumberCount s + 1,
          m_ranges := map_put n nl (map_erase nf ?m)\<rparr>)"
        using m by (intro grows_byI [OF inv fresh]) (simp_all add: set [symmetric])
      then show ?thesis
        using Some q True by (simp add: insertUnattached_def Let_def)
    next
      case False
      have far: "unat n + 1 < unat c" if "(c, d) \<in> set ?m" "n < c" for c d
        using m sep Some [unfolded q] n False that by (rule next_run_far)
      show ?thesis
        using alone [OF far] Some q False by (simp add: insertUnattached_def Let_def alone_def)
    qed
  qed
qed

lemma insert_extends_previous:
  assumes inv: "ranges_inv s" and n: "varint_ok n"
    and prev: "map_prev_upper n (m_ranges s) = Some (pf, pl)"
    and adjacent: "n = pl + 1" "\<not> n \<le> pl"
  shows "\<exists>s'. insertPacketNumber n s = (True, s') \<and> grows_by n s s'"
proof -
  let ?m = "m_ranges s"
  have m: "map_inv ?m" and sep: "separated (set ?m)"
    using inv by (auto simp: ranges_inv_def)
  note p = previous_run [OF m sep prev]
  have un: "unat n = unat pl + 1" using adjacent(1) unat_plus_one [OF p(4)] by simp
  have fresh: "n \<notin> covered s"
  proof
    assume "n \<in> covered s"
    then obtain c d where cd: "(c, d) \<in> set ?m" "c \<le> n" "n \<le> d"
      by (auto simp: covered_def mem_cover)
    show False
    proof (cases "c = pf")
      case True
      then have "d = pl" using cd(1) p(1) std.entry_unique [OF m] by blast
      then show False using cd(3) adjacent(2) by simp
    next
      case False
      then show False using p(5) [OF cd(1,2)] cd(3) p(3) un by (simp add: word_le_nat_alt)
    qed
  qed
  let ?count = "m_trackedPacketNumberCount s + 1"
  let ?R = "{q \<in> set ?m. fst q \<noteq> pf}"
  have coverR: "{pf..n} \<union> cover ?R = insert n (cover (set ?m))"
    using cover_remove [OF m p(1)] interval_snoc [OF p(4) p(3)] adjacent(1) by simp
  define extended where "extended = map_put pf n ?m"
  have ext: "map_inv extended" "set extended = insert (pf, n) ?R"
    using m by (simp_all add: extended_def)
  have extended_ok: "grows_by n s (s\<lparr>m_trackedPacketNumberCount := ?count, m_ranges := extended\<rparr>)"
    if far: "\<And>c d. (c, d) \<in> set ?m \<Longrightarrow> n < c \<Longrightarrow> unat n + 1 < unat c"
  proof (rule grows_byI [OF inv fresh])
    have gap: "unat d + 1 < unat pf \<or> unat n + 1 < unat c" if "(c, d) \<in> ?R" for c d
      using p(5) [of c d] far [of c d] that le_less_linear [of c n] by auto
    have "separated (insert (pf, n) ?R)"
      by (rule separated_insert [OF separated_subset [OF sep] p(2) n gap]) auto
    then show "separated (set (m_ranges (s\<lparr>m_trackedPacketNumberCount := ?count, m_ranges := extended\<rparr>)))"
      by (simp add: ext)
  qed (use ext coverR in \<open>simp_all add: cover_insert\<close>)
  show ?thesis
  proof (cases "map_upper n ?m")
    case None
    then have "\<not> n < c" if "(c, d) \<in> set ?m" for c d
      using m that by (fastforce simp: std.upper_end)
    then show ?thesis
      using extended_ok None prev adjacent by (simp add: insertPacketNumber_def Let_def extended_def)
  next
    case (Some q)
    obtain nf nl where q: "q = (nf, nl)" by fastforce
    note next_ = next_run [OF m sep Some [unfolded q]]
    show ?thesis
    proof (cases "nf = n + 1")
      case True
      let ?S = "{q \<in> ?R. fst q \<noteq> nf}"
      define merged where "merged = map_erase nf (map_put pf nl extended)"
      have pfnf: "pf \<noteq> nf" using p(2) next_(2) by auto
      have merged: "map_inv merged" "set merged = insert (pf, nl) ?S"
        using ext pfnf by (auto simp: merged_def)
      have gap: "unat d + 1 < unat pf \<or> unat nl + 1 < unat c" if "(c, d) \<in> ?S" for c d
        using p(5) [of c d] next_(5) [of c d] that le_less_linear [of c n] by auto
      have pfnl: "pf \<le> nl" using p(2) next_(2,3) by simp
      have "separated (insert (pf, nl) ?S)"
        by (rule separated_insert [OF separated_subset [OF sep] pfnl next_(4) gap]) auto
      moreover have "cover (set merged) = insert n (cover (set ?m))"
      proof -
        have "cover (set extended) = {nf..nl} \<union> cover {q \<in> set extended. fst q \<noteq> nf}"
          using ext pfnf next_(1) by (intro cover_remove) auto
        also have "{q \<in> set extended. fst q \<noteq> nf} = insert (pf, n) ?S"
          using ext pfnf by auto
        finally have "cover (set extended) = {nf..nl} \<union> {pf..n} \<union> cover ?S"
          by (simp add: cover_insert Un_assoc)
        moreover have "{pf..nl} = {pf..n} \<union> {nf..nl}"
          using p(2) next_(2,3) True unat_plus_one [OF n]
          by (auto simp: word_le_nat_alt word_less_nat_alt)
        ultimately show ?thesis
          using coverR by (simp add: merged ext cover_insert Un_ac)
      qed
      ultimately have "grows_by n s (s\<lparr>m_trackedPacketNumberCount := ?count, m_ranges := merged\<rparr>)"
        using merged by (intro grows_byI [OF inv fresh]) simp_all
      then show ?thesis
        using Some q True prev adjacent
        by (simp add: insertPacketNumber_def Let_def merged_def extended_def)
    next
      case False
      have far: "unat n + 1 < unat c" if "(c, d) \<in> set ?m" "n < c" for c d
        using m sep Some [unfolded q] n False that by (rule next_run_far)
      show ?thesis
        using extended_ok [OF far] Some q False prev adjacent
        by (simp add: insertPacketNumber_def Let_def extended_def)
    qed
  qed
qed

lemma insert_known:
  assumes "ranges_inv s" "map_prev_upper n (m_ranges s) = Some (pf, pl)" "n \<le> pl"
  shows "n \<in> covered s"
proof -
  have "(pf, pl) \<in> set (m_ranges s)" "pf \<le> n"
    using assms(1,2) by (auto simp: ranges_inv_def std.prev_entry)
  then show ?thesis
    using assms(3) by (auto simp: covered_def mem_cover)
qed

lemma insertPacketNumber_cases:
  assumes inv: "ranges_inv s" and n: "varint_ok n"
  shows "(n \<in> covered s \<and> insertPacketNumber n s = (False, s)) \<or>
    (\<exists>s'. insertPacketNumber n s = (True, s') \<and> grows_by n s s')"
proof -
  have m: "map_inv (m_ranges s)" and sep: "separated (set (m_ranges s))"
    using inv by (auto simp: ranges_inv_def)
  show ?thesis
  proof (cases "map_prev_upper n (m_ranges s)")
    case None
    then have "\<exists>s'. insertUnattached n s = (True, s') \<and> grows_by n s s'"
      using m by (intro insertUnattached_spec [OF inv n]) (fastforce simp: std.prev_begin)
    then show ?thesis using None by (simp add: insertPacketNumber_def Let_def)
  next
    case (Some q)
    obtain pf pl where q: "q = (pf, pl)" by fastforce
    note p = previous_run [OF m sep Some [unfolded q]]
    show ?thesis
    proof (cases "n \<le> pl")
      case True
      then show ?thesis
        using insert_known [OF inv Some [unfolded q]] Some q by (simp add: insertPacketNumber_def Let_def)
    next
      case False
      show ?thesis
      proof (cases "n = pl + 1")
        case True
        then show ?thesis using insert_extends_previous [OF inv n Some [unfolded q] True False] by blast
      next
        case apart: False
        have "unat pl + 1 < unat n"
          using False apart unat_plus_one [OF p(4)] by (auto simp: word_le_nat_alt word_unat_eq_iff)
        moreover have "unat d + 1 < unat n" if "(c, d) \<in> set (m_ranges s)" "c \<le> n" for c d
        proof (cases "c = pf")
          case True
          then show ?thesis
            using std.entry_unique [OF m p(1)] that(1) \<open>unat pl + 1 < unat n\<close> by blast
        next
          case no: False
          then show ?thesis
            using p(5) [OF that no] p(2) by (simp add: word_le_nat_alt)
        qed
        ultimately have "\<exists>s'. insertUnattached n s = (True, s') \<and> grows_by n s s'"
          by (intro insertUnattached_spec [OF inv n])
        then show ?thesis using Some q False apart by (simp add: insertPacketNumber_def Let_def)
      qed
    qed
  qed
qed

section \<open>\<open>dropOldestUntil\<close>\<close>

text \<open>The newest \<open>k\<close> members of a set of numbers.\<close>

definition newest :: "u64 set \<Rightarrow> u64 set \<Rightarrow> bool" where
  "newest N C \<longleftrightarrow> N \<subseteq> C \<and> (\<forall>x \<in> N. \<forall>y \<in> C - N. y < x)"

lemma newest_refl: "newest C C"
  by (simp add: newest_def)

lemma newest_trans: "newest N M \<Longrightarrow> newest M C \<Longrightarrow> newest N C"
  unfolding newest_def by blast

lemma covered_ok:
  assumes "ranges_inv s" "x \<in> covered s"
  shows "varint_ok x"
proof -
  obtain a b where ab: "(a, b) \<in> set (m_ranges s)" "x \<le> b"
    using assms(2) by (auto simp: covered_def mem_cover)
  then have "varint_ok b" using assms(1) by (auto simp: ranges_inv_def separated_def)
  then show ?thesis using ab(2) by (rule order_trans [rotated])
qed

lemma card_words_ok: "(\<And>x. x \<in> C \<Longrightarrow> varint_ok x) \<Longrightarrow> card C < 2 ^ 64" for C :: "u64 set"
proof -
  assume ok: "\<And>x. x \<in> C \<Longrightarrow> varint_ok x"
  have "unat ` C \<subseteq> {..<2 ^ 62}"
    using ok by (auto simp: word_le_nat_alt dest!: ok)
  then have "card (unat ` C) \<le> 2 ^ 62"
    by (metis card_lessThan card_mono finite_lessThan)
  moreover have "card (unat ` C) = card C"
    by (intro card_image inj_onI) (simp add: word_unat_eq_iff)
  ultimately show ?thesis by simp
qed

lemma card_interval: "a \<le> b \<Longrightarrow> card {a..b} = unat b - unat a + 1" for a b :: u64
proof -
  assume ab: "a \<le> b"
  have "unat ` {a..b} = {unat a..unat b}"
  proof (intro equalityI subsetI)
    fix x assume "x \<in> {unat a..unat b}"
    then have "unat (of_nat x :: u64) = x" "of_nat x \<in> {a..b}"
      using unat_u64_bound [of b] by (auto simp: word_le_nat_alt unat_of_nat)
    then show "x \<in> unat ` {a..b}" by (metis image_eqI)
  qed (auto simp: word_le_nat_alt)
  moreover have "card (unat ` {a..b}) = card {a..b}"
    by (intro card_image inj_onI) (simp add: word_unat_eq_iff)
  ultimately show ?thesis
    using ab by (simp add: word_le_nat_alt Suc_diff_le)
qed

lemma tracked_count:
  "ranges_inv s \<Longrightarrow> unat (m_trackedPacketNumberCount s) = card (covered s)"
  using card_words_ok [of "covered s"] covered_ok [of s]
  by (simp add: ranges_inv_def unat_of_nat)

lemma oldest_run:
  assumes "ranges_inv s" "m_ranges s = (f, l) # newer"
  shows "f \<le> l" "covered s = {f..l} \<union> cover (set newer)"
    "\<And>x y. x \<in> {f..l} \<Longrightarrow> y \<in> cover (set newer) \<Longrightarrow> x < y"
    "map_inv newer" "separated (set newer)" "\<And>p. p \<in> set newer \<Longrightarrow> f < fst p" "varint_ok l"
    "\<And>c d. (c, d) \<in> set newer \<Longrightarrow> unat l + 1 < unat c"
    "card (covered s) = card {f..l} + card (cover (set newer))"
proof -
  show below: "\<And>x y. x \<in> {f..l} \<Longrightarrow> y \<in> cover (set newer) \<Longrightarrow> x < y"
    using assms by (fastforce simp: ranges_inv_def separated_def mem_cover word_less_nat_alt word_le_nat_alt)
  show cov: "covered s = {f..l} \<union> cover (set newer)"
    using assms(2) by (simp add: covered_def cover_insert)
  show "card (covered s) = card {f..l} + card (cover (set newer))"
    unfolding cov by (rule card_Un_disjoint) (auto dest: below)
  show "unat l + 1 < unat c" if "(c, d) \<in> set newer" for c d
    using assms that by (fastforce simp: ranges_inv_def separated_def)
qed (use assms in \<open>auto simp: ranges_inv_def separated_def\<close>)

lemma unat_span:
  "f \<le> l \<Longrightarrow> varint_ok l \<Longrightarrow> unat (l - f + 1) = card {f..l}" for f l :: u64
proof -
  assume fl: "f \<le> l" "varint_ok l"
  then have "varint_ok (l - f)"
    by (auto simp: word_le_nat_alt unat_sub_if')
  then show ?thesis
    using fl by (simp only: unat_plus_one card_interval) (simp add: unat_sub_if' word_le_nat_alt)
qed

lemma drop_whole_run:
  assumes "ranges_inv s" "m_ranges s = (f, l) # newer"
  defines "s1 \<equiv> s\<lparr>m_trackedPacketNumberCount := m_trackedPacketNumberCount s - (l - f + 1), m_ranges := newer\<rparr>"
  shows "ranges_inv s1" "newest (covered s1) (covered s)"
    "card (covered s) = unat (l - f + 1) + card (covered s1)"
proof -
  note o = oldest_run [OF assms(1,2)]
  have c1: "covered s1 = cover (set newer)"
    by (simp add: s1_def covered_def)
  show size: "card (covered s) = unat (l - f + 1) + card (covered s1)"
    by (simp only: o(9) c1 unat_span [OF o(1,7)])
  have "m_trackedPacketNumberCount s = of_nat (unat (l - f + 1) + card (covered s1))"
    using assms(1) size by (simp add: ranges_inv_def)
  then show "ranges_inv s1"
    using o by (simp add: ranges_inv_def c1) (simp add: s1_def)
  show "newest (covered s1) (covered s)"
    using o(2,3) c1 by (auto simp: newest_def)
qed

lemma drop_part_of_run:
  assumes "ranges_inv s" "m_ranges s = (f, l) # newer" "unat e < unat (l - f + 1)"
  defines "s1 \<equiv> s\<lparr>m_ranges := map_put (f + e) l newer, m_trackedPacketNumberCount := m_trackedPacketNumberCount s - e\<rparr>"
  shows "ranges_inv s1" "newest (covered s1) (covered s)"
    "card (covered s) = unat e + card (covered s1)"
proof -
  note o = oldest_run [OF assms(1,2)]
  have e: "unat e \<le> unat l - unat f"
    using assms(3) unat_span [OF o(1,7)] card_interval [OF o(1)] by simp
  have fe: "unat (f + e) = unat f + unat e"
    using e o(1) unat_u64_bound [of l] by (simp add: unat_plus_if' word_le_nat_alt)
  have le: "f + e \<le> l" "f \<le> f + e"
    using e o(1) fe by (simp_all add: word_le_nat_alt)
  have "(f + e, d) \<notin> set newer" for d
    using o(8) [of "f + e" d] le(1) by (auto simp: word_le_nat_alt)
  then have set: "set (map_put (f + e) l newer) = insert (f + e, l) (set newer)"
    using o(4) by auto
  have c1: "covered s1 = {f + e..l} \<union> cover (set newer)"
    using set by (simp add: s1_def covered_def cover_insert)
  have "card (covered s1) = card {f + e..l} + card (cover (set newer))"
    unfolding c1 using o(3) le by (intro card_Un_disjoint) (auto, meson less_irrefl order_trans)
  then show size: "card (covered s) = unat e + card (covered s1)"
    using o(9) card_interval [OF o(1)] card_interval [OF le(1)] fe e o(1)
    by (simp add: word_le_nat_alt)
  have "m_trackedPacketNumberCount s = e + of_nat (card (covered s1))"
    using assms(1) size by (simp add: ranges_inv_def)
  then have count1: "m_trackedPacketNumberCount s1 = of_nat (card (covered s1))"
    by (subst s1_def) simp
  have "separated (insert (f + e, l) (set newer))"
    using o(8) by (intro separated_insert [OF o(5) le(1) o(7)]) auto
  then have "separated (set (m_ranges s1))" "map_inv (m_ranges s1)"
    using o(4) set by (simp_all add: s1_def)
  then show "ranges_inv s1"
    using count1 by (simp add: ranges_inv_def)
  show "newest (covered s1) (covered s)"
    using o(2,3) c1 le by (auto simp: newest_def)
qed

lemma dropOldestUntil_spec:
  "ranges_inv s \<Longrightarrow> ranges_inv (dropOldestUntil n s) \<and>
     newest (covered (dropOldestUntil n s)) (covered s) \<and>
     card (covered (dropOldestUntil n s)) = min (card (covered s)) (unat n)"
proof (induction n s rule: dropOldestUntil.induct)
  case (1 n s)
  note count = tracked_count [OF "1.prems"]
  show ?case
  proof (cases "m_ranges s")
    case Nil
    then show ?thesis
      using "1.prems" by (simp add: dropOldestUntil.simps [of n s] newest_refl covered_def cover_def)
  next
    case (Cons r newer)
    obtain f l where r: "r = (f, l)" by fastforce
    show ?thesis
    proof (cases "m_trackedPacketNumberCount s > n")
      case False
      then show ?thesis
        using "1.prems" Cons r count
        by (simp add: dropOldestUntil.simps [of n s] newest_refl word_less_nat_alt)
    next
      case True
      define e where "e = m_trackedPacketNumberCount s - n"
      have e: "unat e = card (covered s) - unat n" "unat n < card (covered s)"
        using True count by (simp_all add: e_def unat_sub_if' word_less_nat_alt)
      show ?thesis
      proof (cases "l - f + 1 \<le> e")
        case whole: True
        define s1 where "s1 = s\<lparr>m_trackedPacketNumberCount := m_trackedPacketNumberCount s - (l - f + 1), m_ranges := newer\<rparr>"
        note d = drop_whole_run [OF "1.prems" Cons [unfolded r], folded s1_def]
        have eq: "dropOldestUntil n s = dropOldestUntil n s1"
          using Cons r True whole by (simp add: dropOldestUntil.simps [of n s] e_def s1_def)
        have "unat (l - f + 1) \<le> unat e" using whole by (simp add: word_le_nat_alt)
        then have "min (card (covered s1)) (unat n) = min (card (covered s)) (unat n)"
          using d(3) e by simp
        then show ?thesis
          using "1.IH"(1) [OF Cons r [symmetric] True refl refl whole [unfolded e_def], folded s1_def, OF d(1)]
            newest_trans [OF _ d(2)] unfolding eq by auto
      next
        case part: False
        define s1 where "s1 = s\<lparr>m_ranges := map_put (f + e) l newer, m_trackedPacketNumberCount := m_trackedPacketNumberCount s - e\<rparr>"
        have "unat e < unat (l - f + 1)" using part by (simp add: word_le_nat_alt)
        note d = drop_part_of_run [OF "1.prems" Cons [unfolded r] this, folded s1_def]
        have eq: "dropOldestUntil n s = dropOldestUntil n s1"
          using Cons r True part unfolding dropOldestUntil.simps [of n s] e_def s1_def
          by (simp add: Let_def)
        have "min (card (covered s1)) (unat n) = min (card (covered s)) (unat n)"
          using d(3) e by simp
        then show ?thesis
          using "1.IH"(2) [OF Cons r [symmetric] True refl refl part [unfolded e_def], folded e_def, folded s1_def, OF d(1)]
            newest_trans [OF _ d(2)] unfolding eq by auto
      qed
    qed
  qed
qed

section \<open>The contract the receive path relies on\<close>

locale packet_number_set =
  fixes inv :: "'s \<Rightarrow> bool"
    and members :: "'s \<Rightarrow> u64 set"
    and ins :: "u64 \<Rightarrow> 's \<Rightarrow> bool \<times> 's"
    and keep_newest :: "u64 \<Rightarrow> 's \<Rightarrow> 's"
  assumes ins_inv: "inv s \<Longrightarrow> varint_ok n \<Longrightarrow> inv (snd (ins n s))"
    and ins_members: "inv s \<Longrightarrow> varint_ok n \<Longrightarrow> members (snd (ins n s)) = insert n (members s)"
    and ins_new: "inv s \<Longrightarrow> varint_ok n \<Longrightarrow> fst (ins n s) \<longleftrightarrow> n \<notin> members s"
    and keep_inv: "inv s \<Longrightarrow> inv (keep_newest k s)"
    and keep_members: "inv s \<Longrightarrow> newest (members (keep_newest k s)) (members s)"
    and keep_size: "inv s \<Longrightarrow> card (members (keep_newest k s)) = min (card (members s)) (unat k)"
begin

lemma ins_all:
  "inv s \<Longrightarrow> (\<forall>n \<in> set ns. varint_ok n) \<Longrightarrow>
   inv (fold (\<lambda>n s. snd (ins n s)) ns s) \<and>
   members (fold (\<lambda>n s. snd (ins n s)) ns s) = set ns \<union> members s"
  by (induction ns arbitrary: s) (auto simp: ins_inv ins_members)

text \<open>A number handed in twice is refused the second time, whatever arrives in between.\<close>

lemma duplicate_refused:
  assumes "inv s" "varint_ok n" "\<forall>x \<in> set ns. varint_ok x"
  shows "\<not> fst (ins n (fold (\<lambda>n s. snd (ins n s)) ns (snd (ins n s))))"
  using ins_all [OF ins_inv [OF assms(1,2)] assms(3)] ins_new [OF _ assms(2)] ins_members [OF assms(1,2)]
  by simp

text \<open>Trimming never forgets a number above one it keeps.\<close>

lemma keep_upward:
  "inv s \<Longrightarrow> x \<in> members (keep_newest k s) \<Longrightarrow> y \<in> members s \<Longrightarrow> x \<le> y \<Longrightarrow>
   y \<in> members (keep_newest k s)"
  using keep_members [of s k] unfolding newest_def by (meson DiffI leD)

end

lemma insertPacketNumber_facts:
  assumes "ranges_inv s" "varint_ok n"
  shows "ranges_inv (snd (insertPacketNumber n s))"
    "covered (snd (insertPacketNumber n s)) = insert n (covered s)"
    "fst (insertPacketNumber n s) \<longleftrightarrow> n \<notin> covered s"
proof -
  consider "n \<in> covered s" "insertPacketNumber n s = (False, s)"
    | s' where "insertPacketNumber n s = (True, s')" "grows_by n s s'"
    using insertPacketNumber_cases [OF assms] by blast
  then have "ranges_inv (snd (insertPacketNumber n s)) \<and>
    covered (snd (insertPacketNumber n s)) = insert n (covered s) \<and>
    (fst (insertPacketNumber n s) \<longleftrightarrow> n \<notin> covered s)"
    by cases (simp_all add: assms grows_by_def insert_absorb)
  then show "ranges_inv (snd (insertPacketNumber n s))"
    "covered (snd (insertPacketNumber n s)) = insert n (covered s)"
    "fst (insertPacketNumber n s) \<longleftrightarrow> n \<notin> covered s" by blast+
qed

interpretation received: packet_number_set ranges_inv covered insertPacketNumber dropOldestUntil
  by unfold_locales (auto simp: insertPacketNumber_facts dropOldestUntil_spec)

lemma empty_ranges_inv [simp]: "ranges_inv emptyReceivedPacketNumbers" "covered emptyReceivedPacketNumbers = {}"
  by (simp_all add: emptyReceivedPacketNumbers_def ranges_inv_def covered_def cover_def separated_def)

text \<open>A set built from any packet numbers covers exactly those numbers, its runs stay sorted,
  disjoint and merged, and its counter is the number of distinct packet numbers.\<close>

theorem receivedPacketNumbersOf_correct:
  assumes "\<forall>n \<in> set ns. varint_ok n"
  shows "ranges_inv (receivedPacketNumbersOf ns) \<and> covered (receivedPacketNumbersOf ns) = set ns \<and>
    unat (m_trackedPacketNumberCount (receivedPacketNumbersOf ns)) = card (set ns)"
  using received.ins_all [OF empty_ranges_inv(1) assms] tracked_count
  by (simp add: receivedPacketNumbersOf_def)

theorem receivedPacketNumbersOf_correct_witness:
  "covered (receivedPacketNumbersOf [5, 7, 6, 1]) = {1, 5, 6, 7}"
  using receivedPacketNumbersOf_correct [of "[5, 7, 6, 1]"] by auto

text \<open>C14: \<open>insert\<close> on a well-formed set reports a packet number as new exactly when it was not
  yet covered, adds exactly that number (extending, joining or creating runs as needed), and a
  number that was inserted is refused when it arrives again.\<close>

theorem insertPacketNumber_correct:
  assumes "ranges_inv s" "varint_ok n" "\<forall>x \<in> set later. varint_ok x"
  shows "(fst (insertPacketNumber n s) \<longleftrightarrow> n \<notin> covered s) \<and>
    covered (snd (insertPacketNumber n s)) = insert n (covered s) \<and>
    ranges_inv (snd (insertPacketNumber n s)) \<and>
    \<not> fst (insertPacketNumber n
        (fold (\<lambda>x t. snd (insertPacketNumber x t)) later (snd (insertPacketNumber n s))))"
  using received.duplicate_refused [OF assms] received.ins_new [OF assms(1,2)]
    received.ins_members [OF assms(1,2)] received.ins_inv [OF assms(1,2)] by simp

theorem insertPacketNumber_correct_witness:
  "fst (insertPacketNumber 4 (receivedPacketNumbersOf [3, 5])) \<and>
   m_ranges (snd (insertPacketNumber 4 (receivedPacketNumbersOf [3, 5]))) = [(3, 5)]"
proof -
  have "ranges_inv (receivedPacketNumbersOf [3, 5])" "covered (receivedPacketNumbersOf [3, 5]) = {3, 5}"
    using received.ins_all [OF empty_ranges_inv(1), of "[3, 5]"]
    by (auto simp: receivedPacketNumbersOf_def)
  then have "fst (insertPacketNumber 4 (receivedPacketNumbersOf [3, 5]))"
    using insertPacketNumber_correct [of "receivedPacketNumbersOf [3, 5]" 4 "[]"] by simp
  moreover have "m_ranges (snd (insertPacketNumber 4 (receivedPacketNumbersOf [3, 5]))) = [(3, 5)]"
    by code_simp
  ultimately show ?thesis by simp
qed

text \<open>C15: \<open>dropOldestUntil\<close> ends, keeps the set well-formed and keeps exactly the newest
  \<open>maximumTracked\<close> packet numbers (all of them when there are no more than that): every
  number it forgets is below every number it keeps.\<close>

theorem dropOldestUntil_correct:
  assumes "ranges_inv s"
  shows "ranges_inv (dropOldestUntil k s) \<and>
    covered (dropOldestUntil k s) \<subseteq> covered s \<and>
    (\<forall>x \<in> covered (dropOldestUntil k s). \<forall>y \<in> covered s - covered (dropOldestUntil k s). y < x) \<and>
    card (covered (dropOldestUntil k s)) = min (card (covered s)) (unat k)"
  using received.keep_inv [OF assms] received.keep_members [OF assms] received.keep_size [OF assms]
  by (simp add: newest_def)

theorem dropOldestUntil_correct_witness:
  "card (covered (dropOldestUntil 2 (receivedPacketNumbersOf [5, 7, 6, 1]))) = 2 \<and>
   m_ranges (dropOldestUntil 2 (receivedPacketNumbersOf [5, 7, 6, 1])) = [(6, 7)]"
proof -
  have "ranges_inv (receivedPacketNumbersOf [5, 7, 6, 1])"
    "covered (receivedPacketNumbersOf [5, 7, 6, 1]) = {5, 7, 6, 1}"
    using received.ins_all [OF empty_ranges_inv(1), of "[5, 7, 6, 1]"]
    by (auto simp: receivedPacketNumbersOf_def)
  then have "card (covered (dropOldestUntil 2 (receivedPacketNumbersOf [5, 7, 6, 1]))) = 2"
    using dropOldestUntil_correct [of "receivedPacketNumbersOf [5, 7, 6, 1]" 2] by simp
  moreover have "m_ranges (dropOldestUntil 2 (receivedPacketNumbersOf [5, 7, 6, 1])) = [(6, 7)]"
    by code_simp
  ultimately show ?thesis by simp
qed

end
