(* ===== verification/QuicFrame.thy ===== *)
theory QuicFrame
  imports QuicRanges
begin

text \<open>
  QUIC frames and their encoder, \<open>src/Net/Quic/Codec/QuicFrame.{h,cpp}\<close>: the frame union, the
  type value, the appender with its checks, and the acknowledgement ranges built from the
  received packet numbers. A view into the payload is the bytes it shows.
\<close>

section \<open>Data\<close>

record QuicAcknowledgementRange =
  smallestAcknowledged :: u64
  largestAcknowledged :: u64

record QuicAcknowledgementFrame =
  largestAcknowledgedPacketNumber :: u64
  acknowledgementDelay :: u64
  ack_ranges :: "QuicAcknowledgementRange list"
  hasEcnCounts :: bool
  ecnCounts :: "u64 \<times> u64 \<times> u64"

text \<open>The constructor arguments are the struct members in their declared order.\<close>

datatype QuicFrame =
    QuicPaddingFrame
  | QuicPingFrame
  | QuicAckFrame QuicAcknowledgementFrame
  | QuicResetStreamFrame (rst_streamId: u64) (rst_applicationErrorCode: u64) (rst_finalSize: u64)
  | QuicStopSendingFrame (ss_streamId: u64) (ss_applicationErrorCode: u64)
  | QuicCryptoFrame (crypto_offset: u64) (crypto_data: bytes)
  | QuicNewTokenFrame (nt_token: bytes)
  | QuicStreamFrame (stream_streamId: u64) (stream_offset: u64) (stream_data: bytes) (stream_isFinal: bool)
  | QuicMaxDataFrame (md_maximumData: u64)
  | QuicMaxStreamDataFrame (msd_streamId: u64) (msd_maximumStreamData: u64)
  | QuicMaxStreamsFrame (ms_maximumStreams: u64) (ms_isUnidirectional: bool)
  | QuicDataBlockedFrame (db_maximumData: u64)
  | QuicStreamDataBlockedFrame (sdb_streamId: u64) (sdb_streamDataLimit: u64)
  | QuicStreamsBlockedFrame (sb_streamLimit: u64) (sb_isUnidirectional: bool)
  | QuicNewConnectionIdFrame (nc_sequenceNumber: u64) (nc_retirePriorTo: u64) (nc_connectionId: bytes)
      (nc_statelessResetToken: bytes)
  | QuicRetireConnectionIdFrame (rc_sequenceNumber: u64)
  | QuicPathChallengeFrame (pc_data: bytes)
  | QuicPathResponseFrame (pr_data: bytes)
  | QuicConnectionCloseFrame (cc_errorCode: u64) (cc_triggeredFrameType: "u64 option") (cc_reasonPhrase: bytes)
  | QuicHandshakeDoneFrame

definition kQuicStatelessResetTokenByteLength :: nat where
  "kQuicStatelessResetTokenByteLength = 16"

definition kQuicPathValidationDataByteLength :: nat where
  "kQuicPathValidationDataByteLength = 8"

definition kQuicMinimumIssuedConnectionIdLength :: nat where
  "kQuicMinimumIssuedConnectionIdLength = 1"

definition kQuicMaximumConnectionIdLength :: nat where
  "kQuicMaximumConnectionIdLength = 20"

definition kQuicMaximumAcknowledgementRanges :: nat where
  "kQuicMaximumAcknowledgementRanges = 32"

lemmas quic_lengths [simp] = kQuicStatelessResetTokenByteLength_def
  kQuicPathValidationDataByteLength_def kQuicMinimumIssuedConnectionIdLength_def
  kQuicMaximumConnectionIdLength_def kQuicMaximumAcknowledgementRanges_def

section \<open>The type value\<close>

text \<open>\<open>QuicFrameType\<close> lists the type values; the model writes them as the numerals of
  RFC 9000 table 3 that the enum gives them.\<close>

definition streamFrameTypeValue :: "u64 \<Rightarrow> bool \<Rightarrow> u64" where
  "streamFrameTypeValue offset isFinal =
     0x08 OR 0x02 OR (if offset \<noteq> 0 then 0x04 else 0) OR (if isFinal then 0x01 else 0)"

fun quicFrameTypeValue :: "QuicFrame \<Rightarrow> u64" where
  "quicFrameTypeValue QuicPaddingFrame = 0x00"
| "quicFrameTypeValue QuicPingFrame = 0x01"
| "quicFrameTypeValue QuicHandshakeDoneFrame = 0x1e"
| "quicFrameTypeValue (QuicAckFrame frame) = (if hasEcnCounts frame then 0x03 else 0x02)"
| "quicFrameTypeValue (QuicResetStreamFrame streamId applicationErrorCode finalSize) = 0x04"
| "quicFrameTypeValue (QuicStopSendingFrame streamId applicationErrorCode) = 0x05"
| "quicFrameTypeValue (QuicCryptoFrame offset data) = 0x06"
| "quicFrameTypeValue (QuicNewTokenFrame token) = 0x07"
| "quicFrameTypeValue (QuicStreamFrame streamId offset data isFinal) = streamFrameTypeValue offset isFinal"
| "quicFrameTypeValue (QuicMaxDataFrame maximumData) = 0x10"
| "quicFrameTypeValue (QuicMaxStreamDataFrame streamId maximumStreamData) = 0x11"
| "quicFrameTypeValue (QuicMaxStreamsFrame maximumStreams isUnidirectional) =
     (if isUnidirectional then 0x13 else 0x12)"
| "quicFrameTypeValue (QuicDataBlockedFrame maximumData) = 0x14"
| "quicFrameTypeValue (QuicStreamDataBlockedFrame streamId streamDataLimit) = 0x15"
| "quicFrameTypeValue (QuicStreamsBlockedFrame streamLimit isUnidirectional) =
     (if isUnidirectional then 0x17 else 0x16)"
| "quicFrameTypeValue (QuicNewConnectionIdFrame sequenceNumber retirePriorTo connectionId statelessResetToken) = 0x18"
| "quicFrameTypeValue (QuicRetireConnectionIdFrame sequenceNumber) = 0x19"
| "quicFrameTypeValue (QuicPathChallengeFrame data) = 0x1a"
| "quicFrameTypeValue (QuicPathResponseFrame data) = 0x1b"
| "quicFrameTypeValue (QuicConnectionCloseFrame errorCode triggeredFrameType reasonPhrase) =
     (if triggeredFrameType \<noteq> None then 0x1c else 0x1d)"

section \<open>The appender\<close>

text \<open>Consecutive \<open>appendQuicVariableLengthInteger\<close> calls on one buffer; the first that throws
  leaves what the earlier ones wrote.\<close>

primrec appendIntegers :: "bytes \<Rightarrow> u64 list \<Rightarrow> appended" where
  "appendIntegers buffer [] = Inr buffer"
| "appendIntegers buffer (value # values) =
     bindR (appendQuicVariableLengthInteger buffer value) (\<lambda>buffer. appendIntegers buffer values)"

definition appendIntegersThenRaw :: "bytes \<Rightarrow> u64 list \<Rightarrow> bytes \<Rightarrow> appended" where
  "appendIntegersThenRaw buffer values data =
     bindR (appendIntegers buffer values) (\<lambda>buffer. Inr (appendQuicRawBytes buffer data))"

text \<open>\<open>requireEncodableAcknowledgementRanges\<close>: the range list is not empty, its first range ends
  at the declared largest number, and every later range is ordered and leaves a gap to the one
  before it. The first range's own order is not tested, as in the source.\<close>

fun laterRangesEncodable :: "QuicAcknowledgementRange list \<Rightarrow> bool" where
  "laterRangesEncodable (previous # current # rest) =
     (\<not> (smallestAcknowledged current > largestAcknowledged current \<or>
         smallestAcknowledged previous < largestAcknowledged current + 2) \<and>
      laterRangesEncodable (current # rest))"
| "laterRangesEncodable _ = True"

definition requireEncodableAcknowledgementRanges :: "QuicAcknowledgementFrame \<Rightarrow> bool" where
  "requireEncodableAcknowledgementRanges frame =
     (case ack_ranges frame of [] \<Rightarrow> False
      | first # _ \<Rightarrow>
          largestAcknowledged first = largestAcknowledgedPacketNumber frame \<and>
          laterRangesEncodable (ack_ranges frame))"

fun gapLengthPairs :: "QuicAcknowledgementRange list \<Rightarrow> u64 list" where
  "gapLengthPairs (previous # current # rest) =
     (smallestAcknowledged previous - largestAcknowledged current - 2) #
     (largestAcknowledged current - smallestAcknowledged current) # gapLengthPairs (current # rest)"
| "gapLengthPairs _ = []"

definition appendAcknowledgement :: "bytes \<Rightarrow> QuicAcknowledgementFrame \<Rightarrow> appended" where
  "appendAcknowledgement buffer frame =
     (if \<not> requireEncodableAcknowledgementRanges frame then Inl (InvalidArgumentException buffer)
      else appendIntegers buffer
        ([if hasEcnCounts frame then 0x03 else 0x02,
          largestAcknowledgedPacketNumber frame,
          acknowledgementDelay frame,
          of_nat (length (ack_ranges frame) - 1),
          largestAcknowledgedPacketNumber frame - smallestAcknowledged (hd (ack_ranges frame))]
         @ gapLengthPairs (ack_ranges frame)
         @ (if hasEcnCounts frame
            then (case ecnCounts frame of (ect0, ect1, ce) \<Rightarrow> [ect0, ect1, ce]) else [])))"

definition appendNewConnectionId :: "bytes \<Rightarrow> u64 \<Rightarrow> u64 \<Rightarrow> bytes \<Rightarrow> bytes \<Rightarrow> appended" where
  "appendNewConnectionId buffer sequenceNumber retirePriorTo connectionId statelessResetToken =
     (if length connectionId < kQuicMinimumIssuedConnectionIdLength
         \<or> length connectionId > kQuicMaximumConnectionIdLength
      then Inl (InvalidArgumentException buffer)
      else if length statelessResetToken \<noteq> kQuicStatelessResetTokenByteLength
      then Inl (InvalidArgumentException buffer)
      else bindR (appendIntegers buffer [0x18, sequenceNumber, retirePriorTo])
        (\<lambda>buffer. Inr (appendQuicRawBytes
            (appendQuicRawBytes (buffer @ [of_nat (length connectionId)]) connectionId)
            statelessResetToken)))"

fun appendQuicFrame :: "bytes \<Rightarrow> QuicFrame \<Rightarrow> appended" where
  "appendQuicFrame buffer QuicPaddingFrame = appendIntegers buffer [0x00]"
| "appendQuicFrame buffer QuicPingFrame = appendIntegers buffer [0x01]"
| "appendQuicFrame buffer QuicHandshakeDoneFrame = appendIntegers buffer [0x1e]"
| "appendQuicFrame buffer (QuicAckFrame frame) = appendAcknowledgement buffer frame"
| "appendQuicFrame buffer (QuicResetStreamFrame streamId applicationErrorCode finalSize) =
     appendIntegers buffer [0x04, streamId, applicationErrorCode, finalSize]"
| "appendQuicFrame buffer (QuicStopSendingFrame streamId applicationErrorCode) =
     appendIntegers buffer [0x05, streamId, applicationErrorCode]"
| "appendQuicFrame buffer (QuicCryptoFrame offset data) =
     appendIntegersThenRaw buffer [0x06, offset, of_nat (length data)] data"
| "appendQuicFrame buffer (QuicNewTokenFrame token) =
     appendIntegersThenRaw buffer [0x07, of_nat (length token)] token"
| "appendQuicFrame buffer (QuicStreamFrame streamId offset data isFinal) =
     appendIntegersThenRaw buffer
       ([streamFrameTypeValue offset isFinal, streamId] @ (if offset \<noteq> 0 then [offset] else [])
        @ [of_nat (length data)]) data"
| "appendQuicFrame buffer (QuicMaxDataFrame maximumData) = appendIntegers buffer [0x10, maximumData]"
| "appendQuicFrame buffer (QuicMaxStreamDataFrame streamId maximumStreamData) =
     appendIntegers buffer [0x11, streamId, maximumStreamData]"
| "appendQuicFrame buffer (QuicMaxStreamsFrame maximumStreams isUnidirectional) =
     appendIntegers buffer [if isUnidirectional then 0x13 else 0x12, maximumStreams]"
| "appendQuicFrame buffer (QuicDataBlockedFrame maximumData) = appendIntegers buffer [0x14, maximumData]"
| "appendQuicFrame buffer (QuicStreamDataBlockedFrame streamId streamDataLimit) =
     appendIntegers buffer [0x15, streamId, streamDataLimit]"
| "appendQuicFrame buffer (QuicStreamsBlockedFrame streamLimit isUnidirectional) =
     appendIntegers buffer [if isUnidirectional then 0x17 else 0x16, streamLimit]"
| "appendQuicFrame buffer (QuicNewConnectionIdFrame sequenceNumber retirePriorTo connectionId statelessResetToken) =
     appendNewConnectionId buffer sequenceNumber retirePriorTo connectionId statelessResetToken"
| "appendQuicFrame buffer (QuicRetireConnectionIdFrame sequenceNumber) =
     appendIntegers buffer [0x19, sequenceNumber]"
| "appendQuicFrame buffer (QuicPathChallengeFrame data) = appendIntegersThenRaw buffer [0x1a] data"
| "appendQuicFrame buffer (QuicPathResponseFrame data) = appendIntegersThenRaw buffer [0x1b] data"
| "appendQuicFrame buffer (QuicConnectionCloseFrame errorCode triggeredFrameType reasonPhrase) =
     appendIntegersThenRaw buffer
       ([if triggeredFrameType \<noteq> None then 0x1c else 0x1d, errorCode]
        @ (case triggeredFrameType of Some t \<Rightarrow> [t] | None \<Rightarrow> [])
        @ [of_nat (length reasonPhrase)]) reasonPhrase"

section \<open>Acknowledgement ranges from the received numbers\<close>

text \<open>The loop of \<open>buildQuicAcknowledgementRanges\<close> over the runs in descending order: runs that
  start above the acknowledged number are skipped, the loop breaks at 32 ranges, and the end of
  a run is clamped.\<close>

fun buildRangesLoop ::
  "(u64 \<times> u64) list \<Rightarrow> u64 \<Rightarrow> QuicAcknowledgementRange list \<Rightarrow> QuicAcknowledgementRange list" where
  "buildRangesLoop [] acknowledgedUpTo ranges = ranges"
| "buildRangesLoop ((runFirst, runLast) # lower) acknowledgedUpTo ranges =
     (if runFirst > acknowledgedUpTo then buildRangesLoop lower acknowledgedUpTo ranges
      else if length ranges \<ge> kQuicMaximumAcknowledgementRanges then ranges
      else buildRangesLoop lower acknowledgedUpTo
        (ranges @ [\<lparr>smallestAcknowledged = runFirst, largestAcknowledged = min runLast acknowledgedUpTo\<rparr>]))"

definition buildQuicAcknowledgementRanges ::
  "QuicReceivedPacketNumbers \<Rightarrow> u64 \<Rightarrow> QuicAcknowledgementRange list" where
  "buildQuicAcknowledgementRanges receivedPacketNumbers acknowledgedUpTo =
     (let ranges = buildRangesLoop (rev (m_ranges receivedPacketNumbers)) acknowledgedUpTo [] in
      if ranges = []
      then [\<lparr>smallestAcknowledged = acknowledgedUpTo, largestAcknowledged = acknowledgedUpTo\<rparr>]
      else ranges)"

section \<open>Well-formed frames and their bytes\<close>

fun ranges_descend :: "QuicAcknowledgementRange list \<Rightarrow> bool" where
  "ranges_descend (previous # current # rest) \<longleftrightarrow>
     smallestAcknowledged current \<le> largestAcknowledged current \<and>
     unat (largestAcknowledged current) + 2 \<le> unat (smallestAcknowledged previous) \<and>
     ranges_descend (current # rest)"
| "ranges_descend _ \<longleftrightarrow> True"

definition ack_ok :: "QuicAcknowledgementFrame \<Rightarrow> bool" where
  "ack_ok frame \<longleftrightarrow> ack_ranges frame \<noteq> [] \<and>
     largestAcknowledged (hd (ack_ranges frame)) = largestAcknowledgedPacketNumber frame \<and>
     smallestAcknowledged (hd (ack_ranges frame)) \<le> largestAcknowledgedPacketNumber frame \<and>
     ranges_descend (ack_ranges frame) \<and> length (ack_ranges frame) \<le> 2 ^ 62 \<and>
     varint_ok (largestAcknowledgedPacketNumber frame) \<and> varint_ok (acknowledgementDelay frame) \<and>
     (case ecnCounts frame of (ect0, ect1, ce) \<Rightarrow>
        if hasEcnCounts frame then varint_ok ect0 \<and> varint_ok ect1 \<and> varint_ok ce
        else ect0 = 0 \<and> ect1 = 0 \<and> ce = 0)"

abbreviation size_ok :: "bytes \<Rightarrow> bool" where
  "size_ok data \<equiv> length data < 2 ^ 62"

fun frame_ok :: "QuicFrame \<Rightarrow> bool" where
  "frame_ok (QuicAckFrame frame) \<longleftrightarrow> ack_ok frame"
| "frame_ok (QuicResetStreamFrame i e z) \<longleftrightarrow> varint_ok i \<and> varint_ok e \<and> varint_ok z"
| "frame_ok (QuicStopSendingFrame i e) \<longleftrightarrow> varint_ok i \<and> varint_ok e"
| "frame_ok (QuicCryptoFrame off data) \<longleftrightarrow> varint_ok off \<and> size_ok data"
| "frame_ok (QuicNewTokenFrame token) \<longleftrightarrow> size_ok token"
| "frame_ok (QuicStreamFrame i off data fin) \<longleftrightarrow> varint_ok i \<and> varint_ok off \<and> size_ok data"
| "frame_ok (QuicMaxDataFrame m) \<longleftrightarrow> varint_ok m"
| "frame_ok (QuicMaxStreamDataFrame i m) \<longleftrightarrow> varint_ok i \<and> varint_ok m"
| "frame_ok (QuicMaxStreamsFrame m u) \<longleftrightarrow> varint_ok m"
| "frame_ok (QuicDataBlockedFrame m) \<longleftrightarrow> varint_ok m"
| "frame_ok (QuicStreamDataBlockedFrame i l) \<longleftrightarrow> varint_ok i \<and> varint_ok l"
| "frame_ok (QuicStreamsBlockedFrame l u) \<longleftrightarrow> varint_ok l"
| "frame_ok (QuicNewConnectionIdFrame n r cid token) \<longleftrightarrow> varint_ok n \<and> varint_ok r \<and>
     1 \<le> length cid \<and> length cid \<le> 20 \<and> length token = 16"
| "frame_ok (QuicRetireConnectionIdFrame n) \<longleftrightarrow> varint_ok n"
| "frame_ok (QuicPathChallengeFrame data) \<longleftrightarrow> length data = 8"
| "frame_ok (QuicPathResponseFrame data) \<longleftrightarrow> length data = 8"
| "frame_ok (QuicConnectionCloseFrame e t reason) \<longleftrightarrow> varint_ok e \<and>
     (case t of Some v \<Rightarrow> varint_ok v | None \<Rightarrow> True) \<and> size_ok reason"
| "frame_ok _ \<longleftrightarrow> True"

text \<open>The integers of a frame in wire order, and the raw bytes after them.\<close>

definition ack_ints :: "QuicAcknowledgementFrame \<Rightarrow> u64 list" where
  "ack_ints frame = [largestAcknowledgedPacketNumber frame, acknowledgementDelay frame,
     of_nat (length (ack_ranges frame) - 1),
     largestAcknowledgedPacketNumber frame - smallestAcknowledged (hd (ack_ranges frame))]
   @ gapLengthPairs (ack_ranges frame)
   @ (if hasEcnCounts frame then (case ecnCounts frame of (a, b, c) \<Rightarrow> [a, b, c]) else [])"

fun frame_ints :: "QuicFrame \<Rightarrow> u64 list" where
  "frame_ints (QuicAckFrame frame) = ack_ints frame"
| "frame_ints (QuicResetStreamFrame i e z) = [i, e, z]"
| "frame_ints (QuicStopSendingFrame i e) = [i, e]"
| "frame_ints (QuicCryptoFrame off data) = [off, of_nat (length data)]"
| "frame_ints (QuicNewTokenFrame token) = [of_nat (length token)]"
| "frame_ints (QuicStreamFrame i off data fin) =
     [i] @ (if off \<noteq> 0 then [off] else []) @ [of_nat (length data)]"
| "frame_ints (QuicMaxDataFrame m) = [m]"
| "frame_ints (QuicMaxStreamDataFrame i m) = [i, m]"
| "frame_ints (QuicMaxStreamsFrame m u) = [m]"
| "frame_ints (QuicDataBlockedFrame m) = [m]"
| "frame_ints (QuicStreamDataBlockedFrame i l) = [i, l]"
| "frame_ints (QuicStreamsBlockedFrame l u) = [l]"
| "frame_ints (QuicNewConnectionIdFrame n r cid token) = [n, r]"
| "frame_ints (QuicRetireConnectionIdFrame n) = [n]"
| "frame_ints (QuicConnectionCloseFrame e t reason) =
     [e] @ (case t of Some v \<Rightarrow> [v] | None \<Rightarrow> []) @ [of_nat (length reason)]"
| "frame_ints _ = []"

fun frame_raw :: "QuicFrame \<Rightarrow> bytes" where
  "frame_raw (QuicCryptoFrame off data) = data"
| "frame_raw (QuicNewTokenFrame token) = token"
| "frame_raw (QuicStreamFrame i off data fin) = data"
| "frame_raw (QuicNewConnectionIdFrame n r cid token) = of_nat (length cid) # cid @ token"
| "frame_raw (QuicPathChallengeFrame data) = data"
| "frame_raw (QuicPathResponseFrame data) = data"
| "frame_raw (QuicConnectionCloseFrame e t reason) = reason"
| "frame_raw _ = []"

definition ints_bytes :: "u64 list \<Rightarrow> bytes" where
  "ints_bytes vs = concat (map varint_bytes vs)"

definition frame_bytes :: "QuicFrame \<Rightarrow> bytes" where
  "frame_bytes f = varint_bytes (quicFrameTypeValue f) @ ints_bytes (frame_ints f) @ frame_raw f"

lemma ints_bytes_simps [simp]:
  "ints_bytes [] = []"
  "ints_bytes (v # vs) = varint_bytes v @ ints_bytes vs"
  "ints_bytes (vs @ ws) = ints_bytes vs @ ints_bytes ws"
  by (simp_all add: ints_bytes_def)

lemma appendIntegers_ok:
  "(\<forall>v \<in> set vs. varint_ok v) \<Longrightarrow> appendIntegers buf vs = Inr (buf @ ints_bytes vs)"
  by (induction vs arbitrary: buf) (auto simp: append_varint)

lemma appendIntegersThenRaw_ok:
  "(\<forall>v \<in> set vs. varint_ok v) \<Longrightarrow> appendIntegersThenRaw buf vs d = Inr (buf @ ints_bytes vs @ d)"
  by (simp add: appendIntegersThenRaw_def appendIntegers_ok appendQuicRawBytes_def)

lemma size_varint: "n < 2 ^ 62 \<Longrightarrow> varint_ok (of_nat n) \<and> unat (of_nat n :: u64) = n"
  by (simp add: word_le_nat_alt unat_of_nat)

lemma size_varint_numeral [simp]:
  "n < 4611686018427387904 \<Longrightarrow> (of_nat n :: u64) \<le> 4611686018427387903"
  "n < 4611686018427387904 \<Longrightarrow> unat (of_nat n :: u64) = n"
  using size_varint [of n] by simp_all

lemma stream_type_cases:
  "streamFrameTypeValue off fin =
     (if off = 0 then (if fin then 0x0b else 0x0a) else (if fin then 0x0f else 0x0e))"
  by (simp add: streamFrameTypeValue_def)

lemma frame_type_small: "unat (quicFrameTypeValue f) < 64"
  by (cases f) (simp_all add: stream_type_cases)

lemma frame_type_ok: "varint_ok (quicFrameTypeValue f)"
  using frame_type_small [of f] by (simp add: word_le_nat_alt)

lemma gap_pairs_ok:
  "ranges_descend rs \<Longrightarrow> rs \<noteq> [] \<Longrightarrow> varint_ok (smallestAcknowledged (hd rs)) \<Longrightarrow>
   laterRangesEncodable rs \<and> (\<forall>v \<in> set (gapLengthPairs rs). varint_ok v)"
proof (induction rs rule: ranges_descend.induct)
  case (1 p c rest)
  let ?sp = "smallestAcknowledged p" and ?lc = "largestAcknowledged c" and ?sc = "smallestAcknowledged c"
  have le: "unat ?sc \<le> unat ?lc" and gap: "unat ?lc + 2 \<le> unat ?sp" and p: "unat ?sp < 2 ^ 62"
    using "1.prems" by (simp_all add: word_le_nat_alt)
  have lc2: "unat (?lc + 2) = unat ?lc + 2"
    using gap p by (simp add: unat_word_ariths)
  have "unat (?sp - (?lc + 2)) = unat ?sp - (unat ?lc + 2)"
    using gap lc2 by (simp add: unat_sub word_le_nat_alt)
  then have gap_ok: "varint_ok (?sp - ?lc - 2)"
    using p by (simp add: word_le_nat_alt diff_diff_eq)
  have "unat (?lc - ?sc) = unat ?lc - unat ?sc"
    using le by (simp add: unat_sub word_le_nat_alt)
  then have length_ok: "varint_ok (?lc - ?sc)"
    using gap p by (simp add: word_le_nat_alt)
  have "varint_ok ?sc" using le gap p by (simp add: word_le_nat_alt)
  then have "laterRangesEncodable (c # rest) \<and> (\<forall>v \<in> set (gapLengthPairs (c # rest)). varint_ok v)"
    using "1.IH" "1.prems" by simp
  then show ?case
    using gap_ok length_ok le gap lc2 by (simp add: word_less_nat_alt)
qed auto

lemma append_frame:
  assumes "frame_ok f"
  shows "appendQuicFrame buf f = Inr (buf @ frame_bytes f)"
proof (cases f)
  case (QuicAckFrame a)
  then have ok: "ack_ok a" using assms by simp
  then have "varint_ok (smallestAcknowledged (hd (ack_ranges a)))"
    by (auto simp: ack_ok_def)
  then have g: "laterRangesEncodable (ack_ranges a)" "\<forall>v \<in> set (gapLengthPairs (ack_ranges a)). varint_ok v"
    using gap_pairs_ok [of "ack_ranges a"] ok by (auto simp: ack_ok_def)
  have enc: "requireEncodableAcknowledgementRanges a"
    using ok g(1) by (cases "ack_ranges a") (simp_all add: ack_ok_def requireEncodableAcknowledgementRanges_def)
  have count: "varint_ok (of_nat (length (ack_ranges a) - 1))"
    using ok size_varint [of "length (ack_ranges a) - 1"] by (cases "ack_ranges a") (auto simp: ack_ok_def)
  have first: "varint_ok (largestAcknowledgedPacketNumber a - smallestAcknowledged (hd (ack_ranges a)))"
    using ok by (auto simp: ack_ok_def word_le_nat_alt unat_sub_if')
  obtain e0 e1 e2 where ecn: "ecnCounts a = (e0, e1, e2)" by (cases "ecnCounts a")
  have "\<forall>v \<in> set (quicFrameTypeValue f # ack_ints a). varint_ok v"
    using ok g(2) count first ecn QuicAckFrame
    by (cases "hasEcnCounts a") (auto simp: ack_ints_def ack_ok_def)
  then have "appendIntegers buf (quicFrameTypeValue f # ack_ints a) = Inr (buf @ frame_bytes f)"
    by (simp only: appendIntegers_ok) (simp add: frame_bytes_def QuicAckFrame)
  moreover have "appendQuicFrame buf f = appendIntegers buf (quicFrameTypeValue f # ack_ints a)"
    using enc QuicAckFrame by (simp add: appendAcknowledgement_def ack_ints_def)
  ultimately show ?thesis by simp
next
  case (QuicNewConnectionIdFrame n r cid token)
  then show ?thesis
    using assms by (auto simp: appendNewConnectionId_def append_varint appendQuicRawBytes_def frame_bytes_def)
qed (use assms in \<open>auto simp: frame_bytes_def appendIntegers_ok appendIntegersThenRaw_ok append_varint
    stream_type_cases split: option.splits\<close>)

end
