(* ===== verification/QuicFrameDecode.thy ===== *)
theory QuicFrameDecode
  imports QuicFrame
begin

text \<open>
  The frame decoder of \<open>src/Net/Quic/Codec/QuicFrame.cpp\<close>: the cursor's read methods, the
  acknowledgement range recursion, one function per group of cases of the big switch, and the
  loop over the payload that merges padding and clears the output when a frame is bad. The
  results: encoding and decoding are inverse, decoding always ends, and what decodes is
  well-formed.
\<close>

section \<open>\<open>FrameReader\<close>\<close>

definition readFrameType :: "bytes \<Rightarrow> QuicDecodeErrorKind + u64 \<times> bytes" where
  "readFrameType unread =
     (case decodeQuicVariableLengthInteger unread of
        Inl e \<Rightarrow> Inl Truncated
      | Inr decoded \<Rightarrow>
          if qi_byteCount decoded \<noteq> quicVariableLengthIntegerByteCount (qi_value decoded)
          then Inl Malformed
          else Inr (qi_value decoded, drop (qi_byteCount decoded) unread))"

definition readBytes :: "nat \<Rightarrow> bytes \<Rightarrow> QuicDecodeErrorKind + bytes \<times> bytes" where
  "readBytes count unread =
     (if length unread < count then Inl Truncated else Inr (take count unread, drop count unread))"

definition readByte :: "bytes \<Rightarrow> QuicDecodeErrorKind + byte \<times> bytes" where
  "readByte unread = bindR (readBytes 1 unread) (\<lambda>(data, unread). Inr (data ! 0, unread))"

definition readBigEndian16 :: "bytes \<Rightarrow> QuicDecodeErrorKind + u16 \<times> bytes" where
  "readBigEndian16 unread =
     bindR (readBytes 2 unread) (\<lambda>(data, unread).
       Inr (push_bit 8 (ucast (data ! 0)) OR ucast (data ! 1), unread))"

definition takeRemaining :: "bytes \<Rightarrow> bytes \<times> bytes" where
  "takeRemaining unread = (unread, [])"

definition readSized :: "bytes \<Rightarrow> QuicDecodeErrorKind + bytes \<times> bytes" where
  "readSized unread =
     bindR (readInteger unread) (\<lambda>(size, unread). readBytes (unat size) unread)"

section \<open>Acknowledgement ranges\<close>

primrec decodeRangeLoop ::
  "nat \<Rightarrow> u64 \<Rightarrow> bytes \<Rightarrow> QuicDecodeErrorKind + QuicAcknowledgementRange list \<times> bytes" where
  "decodeRangeLoop 0 previousSmallest unread = Inr ([], unread)"
| "decodeRangeLoop (Suc remaining) previousSmallest unread =
     bindR (readInteger unread) (\<lambda>(gap, unread).
     bindR (readInteger unread) (\<lambda>(rangeLength, unread).
       if previousSmallest < gap + 2 \<or> previousSmallest - gap - 2 < rangeLength then Inl Malformed
       else
         let rangeLargest = previousSmallest - gap - 2;
             range = \<lparr>smallestAcknowledged = rangeLargest - rangeLength, largestAcknowledged = rangeLargest\<rparr>
         in bindR (decodeRangeLoop remaining (rangeLargest - rangeLength) unread) (\<lambda>(later, unread).
              Inr (range # later, unread))))"

definition decodeAcknowledgementRanges ::
  "u64 \<Rightarrow> u64 \<Rightarrow> u64 \<Rightarrow> bytes \<Rightarrow> QuicDecodeErrorKind + QuicAcknowledgementRange list \<times> bytes" where
  "decodeAcknowledgementRanges largest firstAcknowledgedRange rangeCount unread =
     (if largest < firstAcknowledgedRange then Inl Malformed
      else
        let first = \<lparr>smallestAcknowledged = largest - firstAcknowledgedRange, largestAcknowledged = largest\<rparr> in
        if unat rangeCount > length unread div 2 then Inl Malformed
        else bindR (decodeRangeLoop (unat rangeCount) (largest - firstAcknowledgedRange) unread)
               (\<lambda>(later, unread). Inr (first # later, unread)))"

definition decodeAcknowledgement :: "bool \<Rightarrow> bytes \<Rightarrow> QuicDecodeErrorKind + QuicFrame \<times> bytes" where
  "decodeAcknowledgement hasEcn unread =
     bindR (readInteger unread) (\<lambda>(largest, unread).
     bindR (readInteger unread) (\<lambda>(delay, unread).
     bindR (readInteger unread) (\<lambda>(rangeCount, unread).
     bindR (readInteger unread) (\<lambda>(firstRange, unread).
     bindR (decodeAcknowledgementRanges largest firstRange rangeCount unread) (\<lambda>(ranges, unread).
       let frame = \<lparr>largestAcknowledgedPacketNumber = largest, acknowledgementDelay = delay,
                    ack_ranges = ranges, hasEcnCounts = False, ecnCounts = (0, 0, 0)\<rparr> in
       if hasEcn then
         bindR (readInteger unread) (\<lambda>(ect0, unread).
         bindR (readInteger unread) (\<lambda>(ect1, unread).
         bindR (readInteger unread) (\<lambda>(ce, unread).
           Inr (QuicAckFrame (frame\<lparr>hasEcnCounts := True, ecnCounts := (ect0, ect1, ce)\<rparr>), unread))))
       else Inr (QuicAckFrame frame, unread))))))"

section \<open>The other cases of the switch\<close>

text \<open>Cases that read one, two or three integers and build a frame.\<close>

definition decodeOne :: "(u64 \<Rightarrow> QuicFrame) \<Rightarrow> bytes \<Rightarrow> QuicDecodeErrorKind + QuicFrame \<times> bytes" where
  "decodeOne build unread = bindR (readInteger unread) (\<lambda>(a, unread). Inr (build a, unread))"

definition decodeTwo :: "(u64 \<Rightarrow> u64 \<Rightarrow> QuicFrame) \<Rightarrow> bytes \<Rightarrow> QuicDecodeErrorKind + QuicFrame \<times> bytes" where
  "decodeTwo build unread =
     bindR (readInteger unread) (\<lambda>(a, unread).
     bindR (readInteger unread) (\<lambda>(b, unread). Inr (build a b, unread)))"

definition decodeThree ::
  "(u64 \<Rightarrow> u64 \<Rightarrow> u64 \<Rightarrow> QuicFrame) \<Rightarrow> bytes \<Rightarrow> QuicDecodeErrorKind + QuicFrame \<times> bytes" where
  "decodeThree build unread =
     bindR (readInteger unread) (\<lambda>(a, unread).
     bindR (readInteger unread) (\<lambda>(b, unread).
     bindR (readInteger unread) (\<lambda>(c, unread). Inr (build a b c, unread))))"

definition decodeCrypto :: "bytes \<Rightarrow> QuicDecodeErrorKind + QuicFrame \<times> bytes" where
  "decodeCrypto unread =
     bindR (readInteger unread) (\<lambda>(offset, unread).
     bindR (readSized unread) (\<lambda>(data, unread). Inr (QuicCryptoFrame offset data, unread)))"

definition decodeNewToken :: "bytes \<Rightarrow> QuicDecodeErrorKind + QuicFrame \<times> bytes" where
  "decodeNewToken unread =
     bindR (readSized unread) (\<lambda>(token, unread). Inr (QuicNewTokenFrame token, unread))"

definition decodeStream :: "u64 \<Rightarrow> bytes \<Rightarrow> QuicDecodeErrorKind + QuicFrame \<times> bytes" where
  "decodeStream typeValue unread =
     bindR (readInteger unread) (\<lambda>(streamId, unread).
     bindR (if typeValue AND 0x04 \<noteq> 0 then readInteger unread else Inr (0, unread)) (\<lambda>(offset, unread).
     bindR (if typeValue AND 0x02 \<noteq> 0 then readSized unread else Inr (takeRemaining unread))
       (\<lambda>(data, unread).
          Inr (QuicStreamFrame streamId offset data (typeValue AND 0x01 \<noteq> 0), unread))))"

definition decodeNewConnectionId :: "bytes \<Rightarrow> QuicDecodeErrorKind + QuicFrame \<times> bytes" where
  "decodeNewConnectionId unread =
     bindR (readInteger unread) (\<lambda>(sequenceNumber, unread).
     bindR (readInteger unread) (\<lambda>(retirePriorTo, unread).
     bindR (readByte unread) (\<lambda>(lengthByte, unread).
       if unat lengthByte < kQuicMinimumIssuedConnectionIdLength
          \<or> unat lengthByte > kQuicMaximumConnectionIdLength then Inl Malformed
       else
         bindR (readBytes (unat lengthByte) unread) (\<lambda>(connectionId, unread).
         bindR (readBytes kQuicStatelessResetTokenByteLength unread) (\<lambda>(resetToken, unread).
           Inr (QuicNewConnectionIdFrame sequenceNumber retirePriorTo connectionId resetToken, unread))))))"

definition decodePathData :: "(bytes \<Rightarrow> QuicFrame) \<Rightarrow> bytes \<Rightarrow> QuicDecodeErrorKind + QuicFrame \<times> bytes" where
  "decodePathData build unread =
     bindR (readBytes kQuicPathValidationDataByteLength unread) (\<lambda>(data, unread). Inr (build data, unread))"

definition decodeConnectionClose :: "bool \<Rightarrow> bytes \<Rightarrow> QuicDecodeErrorKind + QuicFrame \<times> bytes" where
  "decodeConnectionClose isTransport unread =
     bindR (readInteger unread) (\<lambda>(errorCode, unread).
     bindR (if isTransport then bindR (readInteger unread) (\<lambda>(t, unread). Inr (Some t, unread))
            else Inr (None, unread)) (\<lambda>(triggered, unread).
     bindR (readSized unread) (\<lambda>(reason, unread).
       Inr (QuicConnectionCloseFrame errorCode triggered reason, unread))))"

text \<open>The switch.\<close>

definition decodeFrameBody :: "u64 \<Rightarrow> bytes \<Rightarrow> QuicDecodeErrorKind + QuicFrame \<times> bytes" where
  "decodeFrameBody t unread =
     (if t = 0x01 then Inr (QuicPingFrame, unread)
      else if t = 0x1e then Inr (QuicHandshakeDoneFrame, unread)
      else if t = 0x02 \<or> t = 0x03 then decodeAcknowledgement (t = 0x03) unread
      else if t = 0x04 then decodeThree QuicResetStreamFrame unread
      else if t = 0x05 then decodeTwo QuicStopSendingFrame unread
      else if t = 0x06 then decodeCrypto unread
      else if t = 0x07 then decodeNewToken unread
      else if 0x08 \<le> t \<and> t \<le> 0x0f then decodeStream t unread
      else if t = 0x10 then decodeOne QuicMaxDataFrame unread
      else if t = 0x14 then decodeOne QuicDataBlockedFrame unread
      else if t = 0x11 then decodeTwo QuicMaxStreamDataFrame unread
      else if t = 0x15 then decodeTwo QuicStreamDataBlockedFrame unread
      else if t = 0x12 \<or> t = 0x13 then decodeOne (\<lambda>m. QuicMaxStreamsFrame m (t = 0x13)) unread
      else if t = 0x16 \<or> t = 0x17 then decodeOne (\<lambda>l. QuicStreamsBlockedFrame l (t = 0x17)) unread
      else if t = 0x19 then decodeOne QuicRetireConnectionIdFrame unread
      else if t = 0x18 then decodeNewConnectionId unread
      else if t = 0x1a then decodePathData QuicPathChallengeFrame unread
      else if t = 0x1b then decodePathData QuicPathResponseFrame unread
      else if t = 0x1c \<or> t = 0x1d then decodeConnectionClose (t = 0x1c) unread
      else Inl Malformed)"

definition decodeOneFrame :: "bytes \<Rightarrow> QuicDecodeErrorKind + QuicFrame \<times> bytes" where
  "decodeOneFrame unread = bindR (readFrameType unread) (\<lambda>(t, unread). decodeFrameBody t unread)"

section \<open>What the readers consume\<close>

definition shrinking :: "(bytes \<Rightarrow> QuicDecodeErrorKind + 'a \<times> bytes) \<Rightarrow> bool" where
  "shrinking p \<longleftrightarrow> (\<forall>bs a rest. p bs = Inr (a, rest) \<longrightarrow> length rest \<le> length bs)"

lemma shrinkingI: "(\<And>bs a rest. p bs = Inr (a, rest) \<Longrightarrow> length rest \<le> length bs) \<Longrightarrow> shrinking p"
  by (auto simp: shrinking_def)

lemma shrinkingD: "shrinking p \<Longrightarrow> p bs = Inr (a, rest) \<Longrightarrow> length rest \<le> length bs"
  by (auto simp: shrinking_def)

lemma shrinking_bind:
  assumes "shrinking p" "\<And>a. shrinking (q a)"
  shows "shrinking (\<lambda>bs. bindR (p bs) (\<lambda>(a, rest). q a rest))"
proof (rule shrinkingI)
  fix bs b rest
  assume "bindR (p bs) (\<lambda>(a, rest). q a rest) = Inr (b, rest)"
  then obtain a mid where "p bs = Inr (a, mid)" "q a mid = Inr (b, rest)"
    by (auto elim: bindR_InrE)
  then show "length rest \<le> length bs"
    using assms by (meson order_trans shrinkingD)
qed

lemma shrinking_return: "shrinking (\<lambda>bs. Inr (f, bs))" "shrinking (\<lambda>bs. Inl e)"
  by (auto simp: shrinking_def)

lemma shrinking_if: "shrinking p \<Longrightarrow> shrinking q \<Longrightarrow> shrinking (\<lambda>bs. if c then p bs else q bs)"
  by (auto simp: shrinking_def)

lemma shrinking_readInteger: "shrinking readInteger"
  by (auto intro!: shrinkingI dest: readInteger_consumes)

lemma shrinking_readBytes: "shrinking (readBytes n)"
  by (auto simp: shrinking_def readBytes_def)

lemma shrinking_takeRemaining: "shrinking (\<lambda>bs. Inr (takeRemaining bs))"
  by (auto simp: shrinking_def takeRemaining_def)

lemmas shrinking_intros = shrinking_bind shrinking_return shrinking_if shrinking_readInteger
  shrinking_readBytes shrinking_takeRemaining

lemma shrinking_readSized: "shrinking readSized"
  unfolding readSized_def by (intro shrinking_intros)

lemma shrinking_readByte: "shrinking readByte"
  unfolding readByte_def by (intro shrinking_intros)

lemma shrinking_rangeLoop: "shrinking (decodeRangeLoop n s)"
proof (induction n arbitrary: s)
  case (Suc n)
  show ?case
    unfolding decodeRangeLoop.simps Let_def by (intro shrinking_intros Suc)
qed (simp add: shrinking_def)

lemma shrinking_ranges: "shrinking (decodeAcknowledgementRanges l f c)"
proof (rule shrinkingI)
  fix bs a rest
  assume "decodeAcknowledgementRanges l f c bs = Inr (a, rest)"
  then show "length rest \<le> length bs"
    by (auto simp: decodeAcknowledgementRanges_def Let_def split: if_splits elim!: bindR_InrE
        dest: shrinkingD [OF shrinking_rangeLoop])
qed

lemma shrinking_body: "shrinking (decodeFrameBody t)"
  unfolding decodeFrameBody_def decodeAcknowledgement_def decodeOne_def decodeTwo_def decodeThree_def
    decodeCrypto_def decodeNewToken_def decodeStream_def decodeNewConnectionId_def decodePathData_def
    decodeConnectionClose_def Let_def
  by (intro shrinking_intros shrinking_readSized shrinking_readByte shrinking_ranges)

lemma readFrameType_consumes [consumes]:
  "readFrameType bs = Inr (t, rest) \<Longrightarrow> length rest < length bs"
  by (auto simp: readFrameType_def split: sum.splits if_splits)
    (metis decode_varint_bounds(2,3) diff_less order_less_le_trans)

lemma decodeOneFrame_consumes [consumes]:
  "decodeOneFrame bs = Inr (f, rest) \<Longrightarrow> length rest < length bs"
  by (auto simp: decodeOneFrame_def elim!: bindR_InrE
      dest!: shrinkingD [OF shrinking_body] readFrameType_consumes)

section \<open>The loop over the payload\<close>

function decodeFramesLoop :: "bytes \<Rightarrow> QuicFrame list \<Rightarrow> QuicDecodeErrorKind + QuicFrame list" where
  "decodeFramesLoop unread frames =
     (case unread of [] \<Rightarrow> Inr frames
      | first # _ \<Rightarrow>
          if first = 0x00 then
            decodeFramesLoop (dropWhile (\<lambda>b. b = 0x00) unread) (frames @ [QuicPaddingFrame])
          else
            (case decodeOneFrame unread of
               Inl e \<Rightarrow> Inl e
             | Inr (frame, rest) \<Rightarrow> decodeFramesLoop rest (frames @ [frame])))"
  by pat_completeness auto
termination
  by (relation "measure (\<lambda>(unread, frames). length unread)")
    (auto simp: less_Suc_eq_le length_dropWhile_le dest: decodeOneFrame_consumes)

declare decodeFramesLoop.simps [simp del]

text \<open>The overload with an output buffer: whatever \<open>frames\<close> held is cleared on entry, and
  \<open>FailureGuard\<close> clears it again when decoding fails.\<close>

definition decodeQuicFramesInto ::
  "bytes \<Rightarrow> QuicFrame list \<Rightarrow> (QuicDecodeErrorKind + unit) \<times> QuicFrame list" where
  "decodeQuicFramesInto payload frames =
     (case decodeFramesLoop payload [] of Inl e \<Rightarrow> (Inl e, []) | Inr decoded \<Rightarrow> (Inr (), decoded))"

definition decodeQuicFrames :: "bytes \<Rightarrow> QuicDecodeErrorKind + QuicFrame list" where
  "decodeQuicFrames payload =
     (case decodeQuicFramesInto payload [] of
        (Inl e, frames) \<Rightarrow> Inl e
      | (Inr u, frames) \<Rightarrow> Inr frames)"

lemma decodeQuicFrames_loop: "decodeQuicFrames payload = decodeFramesLoop payload []"
  by (simp add: decodeQuicFrames_def decodeQuicFramesInto_def split: sum.splits)

section \<open>Reading back what was written\<close>

lemma readFrameType_varint: "varint_ok t \<Longrightarrow> readFrameType (varint_bytes t @ tail) = Inr (t, tail)"
  by (simp add: readFrameType_def decode_varint_bytes)

lemma readBytes_append: "readBytes (length d) (d @ tail) = Inr (d, tail)"
  by (simp add: readBytes_def)

lemma readBytes_append': "length d = n \<Longrightarrow> readBytes n (d @ tail) = Inr (d, tail)"
  by (simp add: readBytes_def)

lemma readSized_append:
  "size_ok d \<Longrightarrow> readSized (varint_bytes (of_nat (length d)) @ d @ tail) = Inr (d, tail)"
  using size_varint [of "length d"] by (simp add: readSized_def readInteger_varint readBytes_append)

lemma readInteger_numeral [simp]:
  "v \<le> 4611686018427387903 \<Longrightarrow> readInteger (varint_bytes v @ tail) = Inr (v, tail)"
  using readInteger_varint [of v] by simp

lemma readSized_numeral [simp]:
  "length d < 4611686018427387904 \<Longrightarrow>
   readSized (varint_bytes (of_nat (length d)) @ d @ tail) = Inr (d, tail)"
  using readSized_append [of d] by simp

lemma decodeRangeLoop_gapLengthPairs:
  "ranges_descend rs \<Longrightarrow> rs \<noteq> [] \<Longrightarrow> varint_ok (smallestAcknowledged (hd rs)) \<Longrightarrow>
   decodeRangeLoop (length rs - 1) (smallestAcknowledged (hd rs)) (ints_bytes (gapLengthPairs rs) @ tail)
     = Inr (tl rs, tail)"
proof (induction rs rule: ranges_descend.induct)
  case (1 p c rest)
  let ?sp = "smallestAcknowledged p" and ?lc = "largestAcknowledged c" and ?sc = "smallestAcknowledged c"
  have le: "unat ?sc \<le> unat ?lc" and gap: "unat ?lc + 2 \<le> unat ?sp" and p: "unat ?sp < 2 ^ 62"
    using "1.prems" by (simp_all add: word_le_nat_alt)
  have ok: "varint_ok (?sp - ?lc - 2)" "varint_ok (?lc - ?sc)"
    using gap_pairs_ok [OF "1.prems"] by auto
  have "unat (?lc + 2) = unat ?lc + 2"
    using gap p by (simp add: unat_word_ariths)
  then have "unat (?sp - (?lc + 2)) = unat ?sp - (unat ?lc + 2)"
    using gap by (simp add: unat_sub word_le_nat_alt)
  then have g: "unat (?sp - ?lc - 2) = unat ?sp - (unat ?lc + 2)"
    by (simp add: diff_diff_eq)
  have "?sp - ?lc - 2 + 2 = ?sp - ?lc" "unat (?sp - ?lc) = unat ?sp - unat ?lc"
    using gap by (simp_all add: unat_sub word_le_nat_alt)
  then have fits: "\<not> ?sp < ?sp - ?lc - 2 + 2" "?sp - (?sp - ?lc - 2) - 2 = ?lc"
    using gap by (simp_all add: word_less_nat_alt)
  have "\<not> ?lc < ?lc - ?sc"
    using le by (simp add: word_less_nat_alt unat_sub word_le_nat_alt)
  moreover have "decodeRangeLoop (length (c # rest) - 1) ?sc (ints_bytes (gapLengthPairs (c # rest)) @ tail)
      = Inr (rest, tail)"
    using "1.IH" "1.prems" le gap p by (simp add: word_le_nat_alt)
  ultimately show ?case
    using ok fits by (simp add: Let_def)
qed auto

lemma gapLengthPairs_size:
  "ranges_descend rs \<Longrightarrow> rs \<noteq> [] \<Longrightarrow> varint_ok (smallestAcknowledged (hd rs)) \<Longrightarrow>
   2 * (length rs - 1) \<le> length (ints_bytes (gapLengthPairs rs))"
proof -
  assume a: "ranges_descend rs" "rs \<noteq> []" "varint_ok (smallestAcknowledged (hd rs))"
  have "length vs \<le> length (ints_bytes vs)" if "\<forall>v \<in> set vs. varint_ok v" for vs
    using that
  proof (induction vs)
    case (Cons v vs)
    then have "quicVariableLengthIntegerByteCount v \<noteq> 0"
      using byteCount_zero_iff [of v] by auto
    then show ?case using Cons by (simp add: Suc_le_eq)
  qed simp
  moreover have "length (gapLengthPairs rs) = 2 * (length rs - 1)" if "rs \<noteq> []" for rs
    using that by (induction rs rule: gapLengthPairs.induct) auto
  ultimately show ?thesis
    using gap_pairs_ok [OF a] a(2) by metis
qed

lemma decodeAcknowledgement_ints:
  assumes ok: "ack_ok a"
  shows "decodeAcknowledgement (hasEcnCounts a) (ints_bytes (ack_ints a) @ tail) = Inr (QuicAckFrame a, tail)"
proof -
  obtain L D rs ecn e0 e1 e2 where a: "a = \<lparr>largestAcknowledgedPacketNumber = L, acknowledgementDelay = D,
      ack_ranges = rs, hasEcnCounts = ecn, ecnCounts = (e0, e1, e2)\<rparr>"
    by (cases a) (metis prod_cases3)
  obtain r later where rs: "rs = r # later"
    using ok by (cases rs) (simp_all add: ack_ok_def a)
  define S where "S = smallestAcknowledged r"
  have r: "\<lparr>smallestAcknowledged = S, largestAcknowledged = L\<rparr> = r"
    using ok by (cases r) (simp add: ack_ok_def a rs S_def)
  have SL: "S \<le> L" "varint_ok L" "varint_ok D" "ranges_descend rs" "length later < 2 ^ 62"
    using ok by (simp_all add: ack_ok_def a rs S_def Suc_le_eq)
  then have S: "varint_ok (smallestAcknowledged (hd rs))" "varint_ok (L - S)" "\<not> L < L - S" "L - (L - S) = S"
    by (auto simp: rs S_def word_le_nat_alt word_less_nat_alt unat_sub_if')
  have loop: "decodeRangeLoop (length later) S (ints_bytes (gapLengthPairs rs) @ t) = Inr (later, t)" for t
    using decodeRangeLoop_gapLengthPairs [OF SL(4) _ S(1)] by (simp add: rs S_def)
  have size: "\<not> length (ints_bytes (gapLengthPairs rs) @ t) div 2 < length later" for t
    using gapLengthPairs_size [OF SL(4) _ S(1)] by (simp add: rs)
  have ranges: "decodeAcknowledgementRanges L (L - S) (of_nat (length later)) (ints_bytes (gapLengthPairs rs) @ t)
      = Inr (rs, t)" for t
    using SL(5) S loop [of t] size [of t]
    by (simp add: decodeAcknowledgementRanges_def Let_def rs r)
  show ?thesis
    using ok SL S ranges
    by (cases ecn) (simp_all add: a decodeAcknowledgement_def ack_ints_def ack_ok_def rs S_def Let_def)
qed

lemma decodeFrameBody_bytes:
  assumes "frame_ok f" "f \<noteq> QuicPaddingFrame"
  shows "decodeFrameBody (quicFrameTypeValue f) (ints_bytes (frame_ints f) @ frame_raw f @ tail) = Inr (f, tail)"
proof (cases f)
  case (QuicAckFrame a)
  then show ?thesis
    using assms decodeAcknowledgement_ints [of a tail] by (cases "hasEcnCounts a") (simp_all add: decodeFrameBody_def)
next
  case (QuicStreamFrame i off data fin)
  then show ?thesis
    using assms by (simp add: decodeFrameBody_def stream_type_cases decodeStream_def)
next
  case (QuicNewConnectionIdFrame n r cid token)
  then show ?thesis
    using assms by (auto simp: decodeFrameBody_def decodeNewConnectionId_def readByte_def readBytes_append'
        readBytes_def unat_of_nat)
next
  case (QuicConnectionCloseFrame e t reason)
  then show ?thesis
    using assms by (cases t) (simp_all add: decodeFrameBody_def decodeConnectionClose_def)
qed (use assms in \<open>simp_all add: decodeFrameBody_def decodeOne_def decodeTwo_def decodeThree_def
    decodeCrypto_def decodeNewToken_def decodePathData_def readBytes_append'\<close>)

lemma decodeOneFrame_bytes:
  "frame_ok f \<Longrightarrow> f \<noteq> QuicPaddingFrame \<Longrightarrow> decodeOneFrame (frame_bytes f @ tail) = Inr (f, tail)"
  using decodeFrameBody_bytes [of f tail] frame_type_ok [of f]
  by (simp add: decodeOneFrame_def frame_bytes_def readFrameType_varint)

interpretation frame: wire_codec "\<lambda>f. frame_ok f \<and> f \<noteq> QuicPaddingFrame" frame_bytes decodeOneFrame
  by unfold_locales (auto simp: decodeOneFrame_bytes dest: decodeOneFrame_consumes)

lemma varint_bytes_small:
  "unat v < 64 \<Longrightarrow> varint_bytes v = [of_nat (unat v)]"
proof -
  assume v: "unat v < 64"
  then have "quicVariableLengthIntegerByteCount v = 1"
    by (simp add: quicVariableLengthIntegerByteCount_def word_le_nat_alt)
  then show ?thesis
    by (simp add: varint_bytes_def Let_def be_bytes_def lengthPrefixLoop.simps)
qed

lemma frame_bytes_Cons: "frame_bytes f = of_nat (unat (quicFrameTypeValue f)) # ints_bytes (frame_ints f) @ frame_raw f"
  by (simp only: frame_bytes_def varint_bytes_small [OF frame_type_small]) simp

lemma frame_bytes_padding: "frame_bytes QuicPaddingFrame = [0]"
  by (simp add: frame_bytes_Cons)

lemma frame_first_byte:
  "f \<noteq> QuicPaddingFrame \<Longrightarrow> hd (frame_bytes f) \<noteq> 0"
  by (cases f) (simp_all add: frame_bytes_Cons stream_type_cases)

text \<open>One run of padding bytes decodes as one frame.\<close>

function collapsePadding :: "QuicFrame list \<Rightarrow> QuicFrame list" where
  "collapsePadding [] = []"
| "collapsePadding (f # fs) =
     (if f = QuicPaddingFrame then f # collapsePadding (dropWhile (\<lambda>g. g = QuicPaddingFrame) fs)
      else f # collapsePadding fs)"
  by pat_completeness auto
termination
  by (relation "measure length") (auto simp: less_Suc_eq_le length_dropWhile_le)

lemma dropWhile_padding_bytes:
  "dropWhile (\<lambda>b. b = 0) (concat (map frame_bytes fs)) =
   concat (map frame_bytes (dropWhile (\<lambda>f. f = QuicPaddingFrame) fs))"
proof (induction fs)
  case (Cons f fs)
  show ?case
  proof (cases "f = QuicPaddingFrame")
    case True
    then show ?thesis using Cons by (simp add: frame_bytes_padding)
  next
    case False
    then obtain b bs where "frame_bytes f = b # bs" "b \<noteq> 0"
      using frame_first_byte [OF False] by (cases "frame_bytes f") (simp_all add: frame_bytes_Cons)
    then show ?thesis using False by simp
  qed
qed simp

lemma decodeFramesLoop_bytes:
  "(\<forall>f \<in> set fs. frame_ok f) \<Longrightarrow>
   decodeFramesLoop (concat (map frame_bytes fs)) acc = Inr (acc @ collapsePadding fs)"
proof (induction fs arbitrary: acc rule: collapsePadding.induct)
  case 1
  show ?case by (simp add: decodeFramesLoop.simps)
next
  case (2 f fs)
  show ?case
  proof (cases "f = QuicPaddingFrame")
    case True
    have "\<forall>g \<in> set (dropWhile (\<lambda>g. g = QuicPaddingFrame) fs). frame_ok g"
      using "2.prems" by (auto dest: set_dropWhileD)
    then show ?thesis
      using True "2.IH"(1) dropWhile_padding_bytes [of fs]
      by (subst decodeFramesLoop.simps) (simp add: frame_bytes_padding)
  next
    case False
    let ?rest = "concat (map frame_bytes fs)"
    have "decodeOneFrame (frame_bytes f @ ?rest) = Inr (f, ?rest)"
      using "2.prems" False by (intro decodeOneFrame_bytes) auto
    moreover obtain b bs where "frame_bytes f = b # bs" "b \<noteq> 0"
      using frame_first_byte [OF False] by (cases "frame_bytes f") (simp_all add: frame_bytes_Cons)
    ultimately show ?thesis
      using "2.IH"(2) [OF False] "2.prems" False by (subst decodeFramesLoop.simps) simp
  qed
qed

section \<open>What decodes is well-formed\<close>

lemma readBytes_length: "readBytes n bs = Inr (d, rest) \<Longrightarrow> length d = n"
  by (auto simp: readBytes_def split: if_splits)

lemma readSized_size: "readSized bs = Inr (d, rest) \<Longrightarrow> size_ok d"
  by (auto simp: readSized_def elim!: bindR_InrE dest!: readBytes_length readInteger_ok
      simp: word_le_nat_alt)

lemma decodeRangeLoop_descend:
  "decodeRangeLoop n s bs = Inr (rs, rest) \<Longrightarrow> smallestAcknowledged r = s \<Longrightarrow>
   length rs = n \<and> ranges_descend (r # rs)"
proof (induction n arbitrary: s bs rs r)
  case (Suc n)
  from Suc.prems(1) obtain gap len u1 u2 where
    gap: "readInteger bs = Inr (gap, u1)" and len: "readInteger u1 = Inr (len, u2)"
    and fits: "\<not> s < gap + 2" "\<not> s - gap - 2 < len"
    and more: "bindR (decodeRangeLoop n (s - gap - 2 - len) u2)
      (\<lambda>(later, unread). Inr (\<lparr>smallestAcknowledged = s - gap - 2 - len, largestAcknowledged = s - gap - 2\<rparr> # later, unread))
      = Inr (rs, rest)"
    by (auto simp: Let_def elim!: bindR_InrE split: if_splits)
  define c where "c = \<lparr>smallestAcknowledged = s - gap - 2 - len, largestAcknowledged = s - gap - 2\<rparr>"
  obtain later where later: "decodeRangeLoop n (s - gap - 2 - len) u2 = Inr (later, rest)" "rs = c # later"
    using more by (auto simp: c_def elim!: bindR_InrE)
  have IH: "length later = n \<and> ranges_descend (c # later)"
    using later(1) by (rule Suc.IH) (simp add: c_def)
  have "unat (gap + 2) = unat gap + 2"
    using readInteger_ok [OF gap] by (simp add: unat_word_ariths word_le_nat_alt)
  then have "unat (s - gap - 2) + 2 \<le> unat s"
    using fits(1) by (simp add: diff_diff_eq unat_sub word_le_nat_alt word_less_nat_alt)
  moreover have "s - gap - 2 - len \<le> s - gap - 2"
    using fits(2) by (simp add: word_le_nat_alt word_less_nat_alt unat_sub)
  ultimately show ?case
    using IH Suc.prems(2) later(2) by (simp add: c_def)
qed simp

lemma decodeAcknowledgement_ok:
  assumes "decodeAcknowledgement e bs = Inr (f, rest)"
  shows "frame_ok f \<and> f \<noteq> QuicPaddingFrame"
proof -
  obtain L D n F rs u3 u4 u5 where
    L: "varint_ok L" and D: "varint_ok D" and n: "varint_ok n" and F: "varint_ok F"
    and rs: "decodeAcknowledgementRanges L F n u4 = Inr (rs, u5)"
    and tail: "(let frame = \<lparr>largestAcknowledgedPacketNumber = L, acknowledgementDelay = D,
                    ack_ranges = rs, hasEcnCounts = False, ecnCounts = (0, 0, 0)\<rparr> in
       if e then
         bindR (readInteger u5) (\<lambda>(ect0, unread).
         bindR (readInteger unread) (\<lambda>(ect1, unread).
         bindR (readInteger unread) (\<lambda>(ce, unread).
           Inr (QuicAckFrame (frame\<lparr>hasEcnCounts := True, ecnCounts := (ect0, ect1, ce)\<rparr>), unread))))
       else Inr (QuicAckFrame frame, u5)) = Inr (f, rest)"
    using assms by (auto simp only: decodeAcknowledgement_def prod.case elim!: bindR_InrE dest!: readInteger_ok)
  define r where "r = \<lparr>smallestAcknowledged = L - F, largestAcknowledged = L\<rparr>"
  obtain later where rs': "rs = r # later" and FL: "\<not> L < F"
    and loop: "decodeRangeLoop (unat n) (L - F) u4 = Inr (later, u5)"
    using rs by (auto simp: decodeAcknowledgementRanges_def Let_def r_def elim!: bindR_InrE split: if_splits)
  have desc: "length later = unat n \<and> ranges_descend rs"
    using decodeRangeLoop_descend [OF loop, of r] by (simp add: r_def rs')
  moreover have "unat n < 2 ^ 62" using n by (simp add: word_le_nat_alt)
  moreover have "L - F \<le> L" using FL by (simp add: word_le_nat_alt word_less_nat_alt unat_sub)
  ultimately show ?thesis
    using tail L D by (cases e)
      (auto simp: Let_def ack_ok_def rs' r_def Suc_le_eq elim!: bindR_InrE dest!: readInteger_ok)
qed

lemma decodeStream_ok:
  assumes "decodeStream t bs = Inr (f, rest)" "size_ok bs"
  shows "frame_ok f \<and> f \<noteq> QuicPaddingFrame"
proof -
  obtain i u1 off u2 d where i: "readInteger bs = Inr (i, u1)"
    and off: "(if t AND 0x04 \<noteq> 0 then readInteger u1 else Inr (0, u1)) = Inr (off, u2)"
    and d: "(if t AND 0x02 \<noteq> 0 then readSized u2 else Inr (takeRemaining u2)) = Inr (d, rest)"
    and f: "f = QuicStreamFrame i off d (t AND 0x01 \<noteq> 0)"
    using assms(1) by (auto simp: decodeStream_def elim!: bindR_InrE)
  have "length u2 \<le> length bs"
    using off readInteger_consumes [OF i] by (auto split: if_splits dest: readInteger_consumes)
  then have "size_ok d"
    using d assms(2) by (auto simp: takeRemaining_def dest: readSized_size split: if_splits)
  moreover have "varint_ok off"
    using off by (auto split: if_splits dest: readInteger_ok)
  ultimately show ?thesis
    using readInteger_ok [OF i] by (simp add: f)
qed

lemma decodeNewConnectionId_ok:
  "decodeNewConnectionId bs = Inr (f, rest) \<Longrightarrow> frame_ok f \<and> f \<noteq> QuicPaddingFrame"
  by (auto simp: decodeNewConnectionId_def elim!: bindR_InrE split: if_splits
      dest!: readInteger_ok readBytes_length)

lemma decodeClose_ok:
  "decodeConnectionClose e bs = Inr (f, rest) \<Longrightarrow> frame_ok f \<and> f \<noteq> QuicPaddingFrame"
  by (cases e) (auto simp: decodeConnectionClose_def elim!: bindR_InrE dest!: readInteger_ok readSized_size)

lemma decodeInts_ok:
  "decodeOne b1 bs = Inr (f, rest) \<Longrightarrow> \<exists>x. varint_ok x \<and> f = b1 x"
  "decodeTwo b2 bs = Inr (f, rest) \<Longrightarrow> \<exists>x y. varint_ok x \<and> varint_ok y \<and> f = b2 x y"
  "decodeThree b3 bs = Inr (f, rest) \<Longrightarrow> \<exists>x y z. varint_ok x \<and> varint_ok y \<and> varint_ok z \<and> f = b3 x y z"
  by (auto simp: decodeOne_def decodeTwo_def decodeThree_def elim!: bindR_InrE dest!: readInteger_ok) blast+

lemma decodeData_ok:
  "decodeCrypto bs = Inr (f, rest) \<Longrightarrow> frame_ok f \<and> f \<noteq> QuicPaddingFrame"
  "decodeNewToken bs = Inr (f, rest) \<Longrightarrow> frame_ok f \<and> f \<noteq> QuicPaddingFrame"
  "decodePathData QuicPathChallengeFrame bs = Inr (f, rest) \<Longrightarrow> frame_ok f \<and> f \<noteq> QuicPaddingFrame"
  "decodePathData QuicPathResponseFrame bs = Inr (f, rest) \<Longrightarrow> frame_ok f \<and> f \<noteq> QuicPaddingFrame"
  by (auto simp: decodeCrypto_def decodeNewToken_def decodePathData_def elim!: bindR_InrE
      dest!: readInteger_ok readSized_size readBytes_length)

lemma decodeFrameBody_ok:
  assumes "decodeFrameBody t bs = Inr (f, rest)" "size_ok bs"
  shows "frame_ok f \<and> f \<noteq> QuicPaddingFrame"
  using assms unfolding decodeFrameBody_def
  by (auto split: if_splits dest: decodeAcknowledgement_ok decodeStream_ok decodeNewConnectionId_ok
      decodeClose_ok decodeData_ok dest!: decodeInts_ok)

lemma decodeOneFrame_ok:
  assumes "decodeOneFrame bs = Inr (f, rest)" "size_ok bs"
  shows "frame_ok f \<and> f \<noteq> QuicPaddingFrame"
proof -
  obtain t mid where "readFrameType bs = Inr (t, mid)" "decodeFrameBody t mid = Inr (f, rest)"
    using assms(1) by (auto simp: decodeOneFrame_def elim!: bindR_InrE)
  then show ?thesis
    using assms(2) by (auto intro!: decodeFrameBody_ok dest: readFrameType_consumes)
qed

lemma decodeFramesLoop_ok:
  "decodeFramesLoop unread acc = Inr out \<Longrightarrow> size_ok unread \<Longrightarrow>
   \<exists>fs. out = acc @ fs \<and> (\<forall>f \<in> set fs. frame_ok f) \<and> collapsePadding fs = fs \<and>
     (case unread of [] \<Rightarrow> fs = [] | b # bs \<Rightarrow> fs \<noteq> [] \<and> (b \<noteq> 0 \<longrightarrow> hd fs \<noteq> QuicPaddingFrame))"
proof (induction unread acc arbitrary: out rule: decodeFramesLoop.induct)
  case (1 unread acc)
  show ?case
  proof (cases unread)
    case Nil
    then show ?thesis using "1.prems"(1) by (simp add: decodeFramesLoop.simps [of "[]" acc])
  next
    case (Cons b bs)
    show ?thesis
    proof (cases "b = 0")
      case True
      let ?d = "dropWhile (\<lambda>b. b = 0) unread"
      have "decodeFramesLoop ?d (acc @ [QuicPaddingFrame]) = Inr out"
        using "1.prems"(1) Cons True by (simp add: decodeFramesLoop.simps [of "0 # bs" acc])
      moreover have "size_ok ?d"
        using "1.prems"(2) length_dropWhile_le le_less_trans by blast
      ultimately obtain fs where fs: "out = acc @ QuicPaddingFrame # fs" "\<forall>f \<in> set fs. frame_ok f"
        "collapsePadding fs = fs"
        "case ?d of [] \<Rightarrow> fs = [] | b # bs \<Rightarrow> fs \<noteq> [] \<and> (b \<noteq> 0 \<longrightarrow> hd fs \<noteq> QuicPaddingFrame)"
        using "1.IH"(1) [OF Cons True] by fastforce
      have "dropWhile (\<lambda>g. g = QuicPaddingFrame) fs = fs"
      proof (cases ?d)
        case Nil
        have "fs = []" using fs(4) unfolding Nil by simp
        then show ?thesis by simp
      next
        case (Cons c cs)
        then have "?d \<noteq> []" by simp
        then have "hd ?d \<noteq> 0" by (rule hd_dropWhile)
        then have "c \<noteq> 0" unfolding Cons by simp
        then have "fs \<noteq> [] \<and> hd fs \<noteq> QuicPaddingFrame" using fs(4) unfolding Cons by simp
        then show ?thesis by (cases fs) simp_all
      qed
      then show ?thesis
        using fs Cons True by (intro exI [of _ "QuicPaddingFrame # fs"]) simp
    next
      case False
      obtain f rest where one: "decodeOneFrame unread = Inr (f, rest)"
        and more: "decodeFramesLoop rest (acc @ [f]) = Inr out"
        using "1.prems"(1) Cons False
        by (auto simp: decodeFramesLoop.simps [of "b # bs" acc] split: sum.splits)
      have f: "frame_ok f \<and> f \<noteq> QuicPaddingFrame"
        using decodeOneFrame_ok [OF one] "1.prems"(2) by simp
      have "size_ok rest"
        using decodeOneFrame_consumes [OF one] "1.prems"(2) by simp
      then obtain fs where "out = acc @ f # fs" "\<forall>f \<in> set fs. frame_ok f" "collapsePadding fs = fs"
        using "1.IH"(2) [OF Cons False one refl more] by auto
      then show ?thesis
        using f Cons False by (intro exI [of _ "f # fs"]) simp
    qed
  qed
qed

section \<open>Properties\<close>

text \<open>Frames are appended one after the other into a packet's payload.\<close>

primrec appendFrames :: "bytes \<Rightarrow> QuicFrame list \<Rightarrow> appended" where
  "appendFrames buffer [] = Inr buffer"
| "appendFrames buffer (f # fs) = bindR (appendQuicFrame buffer f) (\<lambda>buffer. appendFrames buffer fs)"

lemma appendFrames_ok:
  "(\<forall>f \<in> set fs. frame_ok f) \<Longrightarrow> appendFrames buf fs = Inr (buf @ concat (map frame_bytes fs))"
  by (induction fs arbitrary: buf) (auto simp: append_frame)

text \<open>C2: Frame round trip. Appending any sequence of well-formed frames (every one of the twenty
  kinds) to an empty payload does not throw, and decoding the payload returns the same frames, with
  each run of consecutive PADDING frames merged into one.\<close>

theorem frames_roundtrip:
  assumes "\<forall>f \<in> set fs. frame_ok f"
  shows "\<exists>payload. appendFrames [] fs = Inr payload \<and>
    decodeQuicFrames payload = Inr (collapsePadding fs)"
  using appendFrames_ok [OF assms, of "[]"] decodeFramesLoop_bytes [OF assms, of "[]"]
  by (simp add: decodeQuicFrames_loop)

theorem frames_roundtrip_witness:
  "\<exists>payload. appendFrames [] [QuicPaddingFrame, QuicPaddingFrame, QuicStreamFrame 4 9 [1, 2] True, QuicPingFrame]
      = Inr payload \<and>
    decodeQuicFrames payload = Inr [QuicPaddingFrame, QuicStreamFrame 4 9 [1, 2] True, QuicPingFrame]"
  using frames_roundtrip [of "[QuicPaddingFrame, QuicPaddingFrame, QuicStreamFrame 4 9 [1, 2] True, QuicPingFrame]"]
  by simp

text \<open>C11: Whatever payload the decoder accepts, every frame it returns is well-formed (lengths,
  62-bit values, strictly descending acknowledgement ranges that leave a gap), so the encoder
  accepts the frames again, and decoding what it writes gives back the same frames.\<close>

theorem decoded_frames_reencode:
  assumes "decodeQuicFrames payload = Inr fs" "length payload < 2 ^ 62"
  shows "(\<forall>f \<in> set fs. frame_ok f) \<and>
    (\<exists>again. appendFrames [] fs = Inr again \<and> decodeQuicFrames again = Inr fs)"
proof -
  have fs: "\<forall>f \<in> set fs. frame_ok f" "collapsePadding fs = fs"
    using decodeFramesLoop_ok [of payload "[]" fs] assms by (auto simp: decodeQuicFrames_loop)
  then show ?thesis
    using appendFrames_ok [of fs "[]"] decodeFramesLoop_bytes [of fs "[]"] by (simp add: decodeQuicFrames_loop)
qed

theorem decoded_frames_reencode_witness:
  "\<exists>again. appendFrames [] [QuicStreamFrame 4 0 [7, 8] False] = Inr again \<and>
     decodeQuicFrames again = Inr [QuicStreamFrame 4 0 [7, 8] False]"
proof -
  have "decodeQuicFrames [0x08, 4, 7, 8] = Inr [QuicStreamFrame 4 0 [7, 8] False]"
    by code_simp
  then show ?thesis
    using decoded_frames_reencode [of "[0x08, 4, 7, 8]" "[QuicStreamFrame 4 0 [7, 8] False]"] by simp
qed

text \<open>Payloads are unambiguous: two sequences of well-formed frames without PADDING that
  append to the same bytes are the same sequence.\<close>

theorem frame_encoding_unambiguous:
  assumes "\<forall>f \<in> set fs. frame_ok f \<and> f \<noteq> QuicPaddingFrame"
    and "\<forall>g \<in> set gs. frame_ok g \<and> g \<noteq> QuicPaddingFrame"
    and "appendFrames [] fs = appendFrames [] gs"
  shows "fs = gs"
proof (rule frame.sequence_unambiguous [OF assms(1,2)])
  show "concat (map frame_bytes fs) = concat (map frame_bytes gs)"
    using assms appendFrames_ok [of fs "[]"] appendFrames_ok [of gs "[]"] by simp
qed

theorem frame_encoding_unambiguous_witness:
  "appendFrames [] [QuicMaxDataFrame 5] \<noteq> appendFrames [] [QuicPingFrame, QuicMaxDataFrame 5]"
  using frame_encoding_unambiguous [of "[QuicMaxDataFrame 5]" "[QuicPingFrame, QuicMaxDataFrame 5]"]
  by auto

section \<open>Acknowledging what was received\<close>

definition clampRun :: "u64 \<Rightarrow> u64 \<times> u64 \<Rightarrow> QuicAcknowledgementRange" where
  "clampRun upTo r = \<lparr>smallestAcknowledged = fst r, largestAcknowledged = min (snd r) upTo\<rparr>"

definition eligibleRuns :: "QuicReceivedPacketNumbers \<Rightarrow> u64 \<Rightarrow> (u64 \<times> u64) list" where
  "eligibleRuns s upTo = filter (\<lambda>r. fst r \<le> upTo) (rev (m_ranges s))"

definition acknowledged :: "QuicAcknowledgementRange list \<Rightarrow> u64 set" where
  "acknowledged rs = (\<Union>r \<in> set rs. {smallestAcknowledged r..largestAcknowledged r})"

lemma buildRangesLoop_eq:
  "length acc \<le> 32 \<Longrightarrow> buildRangesLoop l upTo acc =
     acc @ map (clampRun upTo) (take (32 - length acc) (filter (\<lambda>r. fst r \<le> upTo) l))"
proof (induction l upTo acc rule: buildRangesLoop.induct)
  case (2 a b lower upTo acc)
  show ?case
  proof (cases "a > upTo")
    case True
    then show ?thesis using "2.IH"(1) "2.prems" by auto
  next
    case False
    show ?thesis
    proof (cases "length acc \<ge> 32")
      case full: True
      then show ?thesis using False "2.prems" by simp
    next
      case room: False
      then have "32 - length acc = Suc (32 - Suc (length acc))" by simp
      moreover have "buildRangesLoop lower upTo (acc @ [clampRun upTo (a, b)]) =
          (acc @ [clampRun upTo (a, b)])
            @ map (clampRun upTo) (take (32 - length (acc @ [clampRun upTo (a, b)])) (filter (\<lambda>r. fst r \<le> upTo) lower))"
        using "2.IH"(2) False room by (simp add: clampRun_def)
      ultimately show ?thesis
        using False room by (simp add: clampRun_def not_less leD)
    qed
  qed
qed simp

lemma runs_descend:
  assumes "ranges_inv s"
  shows "sorted_wrt (\<lambda>p q. unat (snd q) + 1 < unat (fst p)) (rev (m_ranges s))"
proof -
  have sep: "separated (set (m_ranges s))" and m: "map_inv (m_ranges s)"
    using assms by (auto simp: ranges_inv_def)
  have "sorted_wrt (\<lambda>p q. unat (snd p) + 1 < unat (fst q)) l"
    if "map_inv l" "set l \<subseteq> set (m_ranges s)" for l
    using that
  proof (induction l)
    case (Cons p l)
    then show ?case
      using sep by (fastforce simp: separated_def)
  qed simp
  then show ?thesis
    using m by (simp add: sorted_wrt_rev)
qed

lemma eligible_head:
  assumes inv: "ranges_inv s" and x: "x \<in> covered s"
  obtains a b older where "eligibleRuns s x = (a, b) # older" "a \<le> x" "x \<le> b"
    "\<forall>r \<in> set older. snd r < a"
proof -
  obtain a' b' where r: "(a', b') \<in> set (m_ranges s)" "a' \<le> x" "x \<le> b'"
    using x by (auto simp: covered_def mem_cover)
  then have "(a', b') \<in> set (eligibleRuns s x)" by (simp add: eligibleRuns_def)
  then obtain p older where E: "eligibleRuns s x = p # older" by (cases "eligibleRuns s x") auto
  have srt: "sorted_wrt (\<lambda>p q. unat (snd q) + 1 < unat (fst p)) (p # older)"
    using sorted_wrt_filter [OF runs_descend [OF inv], of "\<lambda>r. fst r \<le> x"] E by (simp add: eligibleRuns_def)
  have p: "fst p \<le> x" using E by (auto simp: eligibleRuns_def filter_eq_Cons_iff)
  have "p = (a', b')"
  proof (rule ccontr)
    assume "p \<noteq> (a', b')"
    then have "(a', b') \<in> set older" using \<open>(a', b') \<in> set (eligibleRuns s x)\<close> E by auto
    then have "unat b' < unat (fst p)" using srt by auto
    then show False using p r(3) by (simp add: word_le_nat_alt)
  qed
  moreover have "\<forall>r \<in> set older. snd r < fst p" using srt by (auto simp: word_less_nat_alt)
  ultimately show thesis
    using that [of a' b' older] E r by simp
qed

lemma built_ranges:
  assumes inv: "ranges_inv s" and x: "x \<in> covered s"
  shows "buildQuicAcknowledgementRanges s x = map (clampRun x) (take 32 (eligibleRuns s x))"
    "buildQuicAcknowledgementRanges s x \<noteq> []"
    "largestAcknowledged (hd (buildQuicAcknowledgementRanges s x)) = x"
    "smallestAcknowledged (hd (buildQuicAcknowledgementRanges s x)) \<le> x"
    "ranges_descend (buildQuicAcknowledgementRanges s x)"
proof -
  obtain a b older where E: "eligibleRuns s x = (a, b) # older" "a \<le> x" "x \<le> b"
    using eligible_head [OF inv x] by metis
  have loop: "buildRangesLoop (rev (m_ranges s)) x [] = map (clampRun x) (take 32 (eligibleRuns s x))"
    by (simp add: buildRangesLoop_eq eligibleRuns_def)
  show eq: "buildQuicAcknowledgementRanges s x = map (clampRun x) (take 32 (eligibleRuns s x))"
    by (simp add: buildQuicAcknowledgementRanges_def loop E)
  show "buildQuicAcknowledgementRanges s x \<noteq> []"
    "largestAcknowledged (hd (buildQuicAcknowledgementRanges s x)) = x"
    "smallestAcknowledged (hd (buildQuicAcknowledgementRanges s x)) \<le> x"
    using E by (simp_all add: eq clampRun_def min_absorb2)
  have desc: "ranges_descend (map (clampRun x) l)"
    if "sorted_wrt (\<lambda>p q. unat (snd q) + 1 < unat (fst p)) l"
      "\<forall>r \<in> set l. fst r \<le> x \<and> fst r \<le> snd r" for l
    using that
  proof (induction l rule: induct_list012)
    case (3 p q l)
    have "unat (min (snd q) x) \<le> unat (snd q)" by (simp add: word_le_nat_alt [symmetric])
    with 3 show ?case by (simp add: clampRun_def)
  qed simp_all
  have "sorted_wrt (\<lambda>p q. unat (snd q) + 1 < unat (fst p)) (take 32 (eligibleRuns s x))"
    unfolding eligibleRuns_def by (intro sorted_wrt_take sorted_wrt_filter runs_descend inv)
  moreover have "\<forall>r \<in> set (take 32 (eligibleRuns s x)). fst r \<le> x \<and> fst r \<le> snd r"
    using inv by (auto simp: eligibleRuns_def ranges_inv_def separated_def dest!: in_set_takeD)
  ultimately show "ranges_descend (buildQuicAcknowledgementRanges s x)"
    unfolding eq by (rule desc)
qed

lemma acknowledged_built:
  assumes inv: "ranges_inv s" and x: "x \<in> covered s"
  shows "acknowledged (buildQuicAcknowledgementRanges s x) \<subseteq> {y \<in> covered s. y \<le> x}"
    "length (m_ranges s) \<le> 32 \<Longrightarrow>
       acknowledged (buildQuicAcknowledgementRanges s x) = {y \<in> covered s. y \<le> x}"
proof -
  have eq: "acknowledged (buildQuicAcknowledgementRanges s x) =
      (\<Union>r \<in> set (take 32 (eligibleRuns s x)). {fst r..min (snd r) x})"
    by (simp add: built_ranges(1) [OF inv x] acknowledged_def clampRun_def)
  have all: "(\<Union>r \<in> set (eligibleRuns s x). {fst r..min (snd r) x}) = {y \<in> covered s. y \<le> x}"
  proof (intro equalityI subsetI)
    fix y assume "y \<in> (\<Union>r \<in> set (eligibleRuns s x). {fst r..min (snd r) x})"
    then show "y \<in> {y \<in> covered s. y \<le> x}"
      by (fastforce simp: eligibleRuns_def covered_def mem_cover)
  next
    fix y assume "y \<in> {y \<in> covered s. y \<le> x}"
    then obtain a b where "(a, b) \<in> set (m_ranges s)" "a \<le> y" "y \<le> b" "y \<le> x"
      by (auto simp: covered_def mem_cover)
    then show "y \<in> (\<Union>r \<in> set (eligibleRuns s x). {fst r..min (snd r) x})"
      by (intro UN_I [of "(a, b)"]) (auto simp: eligibleRuns_def)
  qed
  show "acknowledged (buildQuicAcknowledgementRanges s x) \<subseteq> {y \<in> covered s. y \<le> x}"
    unfolding eq all [symmetric] by (rule UN_mono [OF set_take_subset subset_refl])
  assume "length (m_ranges s) \<le> 32"
  then have "length (eligibleRuns s x) \<le> 32"
    using length_filter_le [of "\<lambda>r. fst r \<le> x" "rev (m_ranges s)"] by (simp add: eligibleRuns_def)
  then show "acknowledged (buildQuicAcknowledgementRanges s x) = {y \<in> covered s. y \<le> x}"
    unfolding eq all [symmetric] by simp
qed

text \<open>The frame the connection sends: the ranges built for the largest number, without ECN counts.\<close>

definition ackFrameFor :: "QuicReceivedPacketNumbers \<Rightarrow> u64 \<Rightarrow> u64 \<Rightarrow> QuicAcknowledgementFrame" where
  "ackFrameFor s upTo delay = \<lparr>largestAcknowledgedPacketNumber = upTo, acknowledgementDelay = delay,
     ack_ranges = buildQuicAcknowledgementRanges s upTo, hasEcnCounts = False, ecnCounts = (0, 0, 0)\<rparr>"

lemma ackFrameFor_ok:
  assumes "ranges_inv s" "x \<in> covered s" "varint_ok delay"
  shows "ack_ok (ackFrameFor s x delay)"
  using built_ranges [OF assms(1,2)] covered_ok [OF assms(1,2)] assms(3)
  by (simp add: ack_ok_def ackFrameFor_def)

text \<open>C10: The acknowledgement built from the received packet numbers is honest and survives the
  wire: it acknowledges only numbers that were received and are at most \<open>acknowledgedUpTo\<close>, all of
  them when there are at most 32 runs, at most 32 ranges are sent, the encoder's checks accept it,
  and the peer decodes exactly the same ranges.\<close>

theorem acknowledgement_honest:
  assumes "ranges_inv s" "x \<in> covered s" "varint_ok delay"
  shows "length (buildQuicAcknowledgementRanges s x) \<le> 32 \<and>
    acknowledged (buildQuicAcknowledgementRanges s x) \<subseteq> {y \<in> covered s. y \<le> x} \<and>
    (length (m_ranges s) \<le> 32 \<longrightarrow>
       acknowledged (buildQuicAcknowledgementRanges s x) = {y \<in> covered s. y \<le> x}) \<and>
    (\<exists>payload. appendQuicFrame [] (QuicAckFrame (ackFrameFor s x delay)) = Inr payload \<and>
       decodeQuicFrames payload = Inr [QuicAckFrame (ackFrameFor s x delay)])"
proof -
  have ok: "\<forall>f \<in> set [QuicAckFrame (ackFrameFor s x delay)]. frame_ok f"
    using ackFrameFor_ok [OF assms] by simp
  have "appendQuicFrame [] (QuicAckFrame (ackFrameFor s x delay))
      = Inr (frame_bytes (QuicAckFrame (ackFrameFor s x delay)))"
    using append_frame [of "QuicAckFrame (ackFrameFor s x delay)" "[]"] ok by simp
  moreover have "decodeQuicFrames (frame_bytes (QuicAckFrame (ackFrameFor s x delay)))
      = Inr [QuicAckFrame (ackFrameFor s x delay)]"
    using decodeFramesLoop_bytes [OF ok, of "[]"] by (simp add: decodeQuicFrames_loop)
  ultimately show ?thesis
    using acknowledged_built [OF assms(1,2)] by (simp add: built_ranges(1) [OF assms(1,2)])
qed

theorem acknowledgement_honest_witness:
  "acknowledged (buildQuicAcknowledgementRanges (receivedPacketNumbersOf [1, 2, 5]) 5) = {1, 2, 5}"
proof -
  have s: "ranges_inv (receivedPacketNumbersOf [1, 2, 5])" "covered (receivedPacketNumbersOf [1, 2, 5]) = {1, 2, 5}"
    using received.ins_all [OF empty_ranges_inv(1), of "[1, 2, 5]"]
    by (auto simp: receivedPacketNumbersOf_def)
  have "length (m_ranges (receivedPacketNumbersOf [1, 2, 5])) \<le> 32" by code_simp
  then have "acknowledged (buildQuicAcknowledgementRanges (receivedPacketNumbersOf [1, 2, 5]) 5)
      = {y \<in> {1, 2, 5}. y \<le> 5}"
    using acknowledgement_honest [of "receivedPacketNumbersOf [1, 2, 5]" 5 0] s by simp
  also have "\<dots> = {1, 2, 5}" by auto
  finally show ?thesis .
qed

text \<open>The checks on an ACK frame leave a hole: a first range whose smallest number is above its
  largest passes \<open>requireEncodableAcknowledgementRanges\<close>. Depending on the values the appender then
  throws after it has already written the type and three fields into the buffer, or writes a frame
  that this decoder rejects as malformed.\<close>

theorem ack_first_range_unchecked:
  "(\<exists>a. requireEncodableAcknowledgementRanges a \<and>
      (\<exists>written. written \<noteq> [] \<and>
         appendQuicFrame [] (QuicAckFrame a) = Inl (InvalidArgumentException written))) \<and>
   (\<exists>a payload. appendQuicFrame [] (QuicAckFrame a) = Inr payload \<and>
      decodeQuicFrames payload = Inl Malformed)"
proof
  let ?a = "\<lparr>largestAcknowledgedPacketNumber = 5, acknowledgementDelay = 0,
    ack_ranges = [\<lparr>smallestAcknowledged = 6, largestAcknowledged = 5\<rparr>],
    hasEcnCounts = False, ecnCounts = (0, 0, 0)\<rparr>"
  have "requireEncodableAcknowledgementRanges ?a"
    "appendQuicFrame [] (QuicAckFrame ?a) = Inl (InvalidArgumentException [2, 5, 0, 0])"
    by code_simp+
  then show "\<exists>a. requireEncodableAcknowledgementRanges a \<and>
      (\<exists>written. written \<noteq> [] \<and>
         appendQuicFrame [] (QuicAckFrame a) = Inl (InvalidArgumentException written))"
    by blast
next
  let ?a = "\<lparr>largestAcknowledgedPacketNumber = 5, acknowledgementDelay = 0,
    ack_ranges = [\<lparr>smallestAcknowledged = - 1, largestAcknowledged = 5\<rparr>],
    hasEcnCounts = False, ecnCounts = (0, 0, 0)\<rparr>"
  have "appendQuicFrame [] (QuicAckFrame ?a) = Inr [2, 5, 0, 0, 6]"
    "decodeQuicFrames [2, 5, 0, 0, 6] = Inl Malformed"
    by code_simp+
  then show "\<exists>a payload. appendQuicFrame [] (QuicAckFrame a) = Inr payload \<and>
      decodeQuicFrames payload = Inl Malformed"
    by blast
qed

end
