(* ===== verification/QuicHeader.thy ===== *)
theory QuicHeader
  imports QuicFrame
begin

text \<open>
  QUIC packet headers, \<open>src/Net/Quic/Codec/QuicPacketHeader.{h,cpp}\<close>: the unprotected part of
  long and short headers, Retry packets, the second pass after header protection is removed,
  truncated packet numbers and version negotiation. Offsets into the datagram are kept, because
  the header stores them. A read past the end of the span is a value of its own.
\<close>

section \<open>Data\<close>

datatype QuicLongPacketType = LongInitial | LongZeroRtt | LongHandshake | LongRetry

record QuicPacketHeader =
  h_firstByte :: byte
  h_isLongHeader :: bool
  h_longPacketType :: QuicLongPacketType
  h_version :: u32
  h_destinationConnectionId :: bytes
  h_sourceConnectionId :: bytes
  h_token :: bytes
  h_packetNumberOffset :: nat
  h_packetByteCount :: nat
  h_packetNumberAndPayloadByteCount :: nat
  h_packetNumberByteCount :: nat
  h_packetNumber :: u64
  h_isSpinBitSet :: bool
  h_isKeyPhaseBitSet :: bool

record QuicRetryPacketHeader =
  r_version :: u32
  r_destinationConnectionId :: bytes
  r_sourceConnectionId :: bytes
  r_token :: bytes
  r_originalDestinationConnectionId :: bytes

record QuicVersionNegotiationRequest =
  v_version :: u32
  v_destinationConnectionId :: bytes
  v_sourceConnectionId :: bytes

definition kQuicVersion1 :: u32 where "kQuicVersion1 = 1"
definition kQuicVersionNegotiationVersion :: u32 where "kQuicVersionNegotiationVersion = 0"
definition kQuicLongHeaderFlagBit :: byte where "kQuicLongHeaderFlagBit = 0x80"
definition kQuicFixedBit :: byte where "kQuicFixedBit = 0x40"
definition kQuicLongPacketTypeBitMask :: byte where "kQuicLongPacketTypeBitMask = 0x30"
definition kQuicSpinBitMask :: byte where "kQuicSpinBitMask = 0x20"
definition kQuicKeyPhaseBitMask :: byte where "kQuicKeyPhaseBitMask = 0x04"
definition kQuicPacketNumberLengthBitMask :: byte where "kQuicPacketNumberLengthBitMask = 0x03"
definition kQuicRetryIntegrityTagByteLength :: nat where "kQuicRetryIntegrityTagByteLength = 16"
definition kQuicMaximumPacketNumberByteCount :: nat where "kQuicMaximumPacketNumberByteCount = 4"
definition kQuicMaximumVersionNegotiationListLength :: nat where
  "kQuicMaximumVersionNegotiationListLength = 64"

lemmas header_consts [simp] = kQuicVersion1_def kQuicVersionNegotiationVersion_def
  kQuicLongHeaderFlagBit_def kQuicFixedBit_def kQuicLongPacketTypeBitMask_def kQuicSpinBitMask_def
  kQuicKeyPhaseBitMask_def kQuicPacketNumberLengthBitMask_def kQuicRetryIntegrityTagByteLength_def
  kQuicMaximumPacketNumberByteCount_def kQuicMaximumVersionNegotiationListLength_def

definition emptyPacketHeader :: QuicPacketHeader where
  "emptyPacketHeader = \<lparr>h_firstByte = 0, h_isLongHeader = False, h_longPacketType = LongInitial,
     h_version = 0, h_destinationConnectionId = [], h_sourceConnectionId = [], h_token = [],
     h_packetNumberOffset = 0, h_packetByteCount = 0, h_packetNumberAndPayloadByteCount = 0,
     h_packetNumberByteCount = 0, h_packetNumber = 0, h_isSpinBitSet = False, h_isKeyPhaseBitSet = False\<rparr>"

definition areReservedBitsClear :: "QuicPacketHeader \<Rightarrow> bool" where
  "areReservedBitsClear header =
     (h_firstByte header AND (if h_isLongHeader header then 0x0C else 0x18) = 0)"

section \<open>Reading\<close>

text \<open>\<open>readBigEndianInteger\<close> on a span that holds at least \<open>byteCount\<close> bytes.\<close>

definition readBigEndianInteger :: "bytes \<Rightarrow> nat \<Rightarrow> u64" where
  "readBigEndianInteger data byteCount = fold (\<lambda>b value. push_bit 8 value OR ucast b) (take byteCount data) 0"

definition longPacketTypeOf :: "byte \<Rightarrow> QuicLongPacketType" where
  "longPacketTypeOf firstByte =
     (let t = unat (drop_bit 4 (firstByte AND kQuicLongPacketTypeBitMask)) in
      if t = 0 then LongInitial else if t = 1 then LongZeroRtt else if t = 2 then LongHandshake else LongRetry)"

definition packetNumberByteCountFromFirstByte :: "byte \<Rightarrow> nat" where
  "packetNumberByteCountFromFirstByte firstByte = 1 + unat (firstByte AND kQuicPacketNumberLengthBitMask)"

definition readLongHeaderConnectionId :: "bytes \<Rightarrow> nat \<Rightarrow> QuicDecodeErrorKind + bytes \<times> nat" where
  "readLongHeaderConnectionId datagram readOffset =
     (if readOffset \<ge> length datagram then Inl Truncated
      else
        let size = unat (datagram ! readOffset); readOffset = readOffset + 1 in
        if size > kQuicMaximumConnectionIdLength then Inl Malformed
        else if length datagram - readOffset < size then Inl Truncated
        else Inr (take size (drop readOffset datagram), readOffset + size))"

definition readInitialToken :: "bytes \<Rightarrow> nat \<Rightarrow> QuicDecodeErrorKind + bytes \<times> nat" where
  "readInitialToken datagram readOffset =
     (case decodeQuicVariableLengthInteger (drop readOffset datagram) of
        Inl e \<Rightarrow> Inl Truncated
      | Inr tokenLength \<Rightarrow>
          let readOffset = readOffset + qi_byteCount tokenLength; size = unat (qi_value tokenLength) in
          if length datagram - readOffset < size then Inl Truncated
          else Inr (take size (drop readOffset datagram), readOffset + size))"

definition readLengthField :: "bytes \<Rightarrow> nat \<Rightarrow> QuicDecodeErrorKind + nat \<times> nat" where
  "readLengthField datagram readOffset =
     (case decodeQuicVariableLengthInteger (drop readOffset datagram) of
        Inl e \<Rightarrow> Inl Truncated
      | Inr lengthField \<Rightarrow>
          let readOffset = readOffset + qi_byteCount lengthField; size = unat (qi_value lengthField) in
          if qi_value lengthField = 0 then Inl Malformed
          else if size > length datagram - readOffset then Inl Truncated
          else Inr (size, readOffset))"

definition decodeLongHeaderPacket ::
  "QuicPacketHeader \<Rightarrow> bytes \<Rightarrow> QuicDecodeErrorKind + QuicPacketHeader" where
  "decodeLongHeaderPacket header datagram =
     (if length datagram < 5 then Inl Truncated
      else
        let header = header\<lparr>h_version := ucast (readBigEndianInteger (drop 1 datagram) 4)\<rparr> in
        if h_version header = kQuicVersionNegotiationVersion then Inl Malformed
        else if h_version header \<noteq> kQuicVersion1 then Inl Malformed
        else if h_firstByte header AND kQuicFixedBit = 0 then Inl Malformed
        else
          let header = header\<lparr>h_longPacketType := longPacketTypeOf (h_firstByte header)\<rparr> in
          if h_longPacketType header = LongRetry then Inl Malformed
          else
            bindR (readLongHeaderConnectionId datagram 5) (\<lambda>(dcid, readOffset).
            bindR (readLongHeaderConnectionId datagram readOffset) (\<lambda>(scid, readOffset).
            bindR (if h_longPacketType header = LongInitial then readInitialToken datagram readOffset
                   else Inr ([], readOffset)) (\<lambda>(token, readOffset).
            bindR (readLengthField datagram readOffset) (\<lambda>(size, readOffset).
              Inr (header\<lparr>h_destinationConnectionId := dcid, h_sourceConnectionId := scid, h_token := token,
                     h_packetNumberOffset := readOffset, h_packetNumberAndPayloadByteCount := size,
                     h_packetByteCount := readOffset + size\<rparr>))))))"

definition decodeShortHeaderPacket ::
  "QuicPacketHeader \<Rightarrow> bytes \<Rightarrow> nat \<Rightarrow> QuicDecodeErrorKind + QuicPacketHeader" where
  "decodeShortHeaderPacket header datagram destinationConnectionIdLength =
     (if h_firstByte header AND kQuicFixedBit = 0 then Inl Malformed
      else if length datagram - 1 < destinationConnectionIdLength then Inl Truncated
      else Inr (header\<lparr>h_destinationConnectionId := take destinationConnectionIdLength (drop 1 datagram),
             h_version := 0,
             h_packetNumberOffset := 1 + destinationConnectionIdLength,
             h_packetNumberAndPayloadByteCount := length datagram - (1 + destinationConnectionIdLength),
             h_packetByteCount := length datagram\<rparr>))"

text \<open>The outer \<open>Inl\<close> is the thrown \<open>Base::InvalidArgumentException\<close>, a usage error.\<close>

definition decodeQuicPacketHeader ::
  "bytes \<Rightarrow> nat \<Rightarrow> usage_error + (QuicDecodeErrorKind + QuicPacketHeader)" where
  "decodeQuicPacketHeader datagram shortHeaderDestinationConnectionIdLength =
     (if shortHeaderDestinationConnectionIdLength > kQuicMaximumConnectionIdLength then Inl InvalidArgument
      else case datagram of [] \<Rightarrow> Inr (Inl Truncated)
      | first # _ \<Rightarrow>
          let header = emptyPacketHeader\<lparr>h_firstByte := first,
                         h_isLongHeader := (first AND kQuicLongHeaderFlagBit \<noteq> 0)\<rparr> in
          Inr (if h_isLongHeader header then decodeLongHeaderPacket header datagram
               else decodeShortHeaderPacket header datagram shortHeaderDestinationConnectionIdLength))"

definition decodeQuicRetryPacket :: "bytes \<Rightarrow> bytes \<Rightarrow> QuicDecodeErrorKind + QuicRetryPacketHeader" where
  "decodeQuicRetryPacket datagram originalDestinationConnectionId =
     (if length datagram < 1 + 4 + 1 + 1 + kQuicRetryIntegrityTagByteLength then Inl Truncated
      else if datagram ! 0 AND kQuicLongHeaderFlagBit = 0
           \<or> datagram ! 0 AND kQuicLongPacketTypeBitMask \<noteq> push_bit 4 3 then Inl Malformed
      else if datagram ! 0 AND kQuicFixedBit = 0 then Inl Malformed
      else
        let version = ucast (readBigEndianInteger (drop 1 datagram) 4) in
        if version \<noteq> kQuicVersion1 then Inl Malformed
        else
          bindR (readLongHeaderConnectionId datagram 5) (\<lambda>(dcid, readOffset).
          bindR (readLongHeaderConnectionId datagram readOffset) (\<lambda>(scid, readOffset).
            if length datagram - readOffset < kQuicRetryIntegrityTagByteLength then Inl Truncated
            else Inr \<lparr>r_version = version, r_destinationConnectionId = dcid, r_sourceConnectionId = scid,
                   r_token = take (length datagram - readOffset - kQuicRetryIntegrityTagByteLength)
                               (drop readOffset datagram),
                   r_originalDestinationConnectionId = originalDestinationConnectionId\<rparr>)))"

text \<open>The header is updated in place before the checks, so it is returned with the status.\<close>

definition refreshQuicPacketHeader ::
  "QuicPacketHeader \<Rightarrow> byte \<Rightarrow> bytes \<Rightarrow> (QuicDecodeErrorKind + unit) \<times> QuicPacketHeader" where
  "refreshQuicPacketHeader header unmaskedFirstByte datagram =
     (let header = header\<lparr>h_firstByte := unmaskedFirstByte,
            h_packetNumberByteCount := packetNumberByteCountFromFirstByte unmaskedFirstByte,
            h_isSpinBitSet := (unmaskedFirstByte AND kQuicSpinBitMask \<noteq> 0),
            h_isKeyPhaseBitSet := (unmaskedFirstByte AND kQuicKeyPhaseBitMask \<noteq> 0)\<rparr> in
      if h_packetNumberOffset header > length datagram then (Inl Truncated, header)
      else if h_packetNumberByteCount header > h_packetNumberAndPayloadByteCount header
      then (Inl Malformed, header)
      else if h_packetNumberByteCount header > length datagram - h_packetNumberOffset header
      then (Inl Truncated, header)
      else (Inr (), header\<lparr>h_packetNumber := readBigEndianInteger
              (drop (h_packetNumberOffset header) datagram) (h_packetNumberByteCount header)\<rparr>))"

section \<open>Packet numbers\<close>

text \<open>The loop over 1, 2, 3; four bytes when none of them is enough.\<close>

definition quicPacketNumberByteCountFor :: "u64 \<Rightarrow> nat" where
  "quicPacketNumberByteCountFor packetNumber =
     (case find (\<lambda>byteCount. packetNumber < push_bit (byteCount * 8 - 1) 1)
             [1..<kQuicMaximumPacketNumberByteCount] of
        Some byteCount \<Rightarrow> byteCount | None \<Rightarrow> kQuicMaximumPacketNumberByteCount)"

definition appendQuicTruncatedPacketNumber :: "bytes \<Rightarrow> u64 \<Rightarrow> nat \<Rightarrow> appended" where
  "appendQuicTruncatedPacketNumber buffer packetNumber packetNumberByteCount =
     (if packetNumberByteCount < 1 \<or> packetNumberByteCount > kQuicMaximumPacketNumberByteCount
      then Inl (InvalidArgumentException buffer)
      else Inr (buffer @ map (encodedByteAt packetNumber packetNumberByteCount) [0..<packetNumberByteCount]))"

definition restoreQuicPacketNumber :: "u64 \<Rightarrow> u64 \<Rightarrow> nat \<Rightarrow> usage_error + u64" where
  "restoreQuicPacketNumber largestReceivedPacketNumber truncatedPacketNumber packetNumberByteCount =
     (if packetNumberByteCount < 1 \<or> packetNumberByteCount > 4 then Inl InvalidArgument
      else
        let windowSize = push_bit (packetNumberByteCount * 8) 1;
            halfWindow = windowSize div 2;
            windowMask = windowSize - 1;
            expected = largestReceivedPacketNumber + 1;
            candidate = (expected AND NOT windowMask) OR truncatedPacketNumber in
        if candidate + halfWindow \<le> expected \<and> candidate < push_bit 62 1 - windowSize
        then Inr (candidate + windowSize)
        else if candidate > expected + halfWindow \<and> candidate \<ge> windowSize
        then Inr (candidate - windowSize)
        else Inr candidate)"

section \<open>Version negotiation\<close>

text \<open>The reader of these requests indexes its span without a bound of its own, so every access
  is a checked one here: an index or a subspan beyond the end is a fault at that index.\<close>

datatype memory_fault = ReadPastEnd nat

definition byteAt :: "bytes \<Rightarrow> nat \<Rightarrow> memory_fault + byte" where
  "byteAt span i = (if i < length span then Inr (span ! i) else Inl (ReadPastEnd i))"

definition spanFrom :: "bytes \<Rightarrow> nat \<Rightarrow> memory_fault + bytes" where
  "spanFrom span offset = (if offset \<le> length span then Inr (drop offset span) else Inl (ReadPastEnd offset))"

definition spanOf :: "bytes \<Rightarrow> nat \<Rightarrow> nat \<Rightarrow> memory_fault + bytes" where
  "spanOf span offset n =
     (if offset + n \<le> length span then Inr (take n (drop offset span)) else Inl (ReadPastEnd (offset + n)))"

text \<open>\<open>readBigEndianInteger\<close> with its accesses, one per round of its loop.\<close>

primrec readBigEndianSpan :: "bytes \<Rightarrow> nat \<Rightarrow> memory_fault + u64" where
  "readBigEndianSpan span 0 = Inr 0"
| "readBigEndianSpan span (Suc n) =
     bindR (readBigEndianSpan span n) (\<lambda>value.
     bindR (byteAt span n) (\<lambda>b. Inr (push_bit 8 value OR ucast b)))"

definition readQuicVersionNegotiationRequest ::
  "bytes \<Rightarrow> memory_fault + QuicVersionNegotiationRequest option" where
  "readQuicVersionNegotiationRequest datagram =
     (if length datagram < 5 then Inr None
      else bindR (byteAt datagram 0) (\<lambda>first.
        if first AND kQuicLongHeaderFlagBit = 0 then Inr None
        else bindR (spanFrom datagram 1) (\<lambda>fromVersion.
          bindR (readBigEndianSpan fromVersion 4) (\<lambda>value.
          let version = ucast value in
          if version = kQuicVersionNegotiationVersion \<or> version = kQuicVersion1 then Inr None
          else bindR (byteAt datagram 5) (\<lambda>lengthByte.
            let destinationLength = unat lengthByte; offset = 6 in
            if destinationLength > 255 \<or> offset + destinationLength > length datagram then Inr None
            else bindR (spanOf datagram offset destinationLength) (\<lambda>destination.
              let offset = offset + destinationLength in
              if offset \<ge> length datagram then Inr None
              else bindR (byteAt datagram offset) (\<lambda>lengthByte.
                let sourceLength = unat lengthByte; offset = offset + 1 in
                if sourceLength > 255 \<or> offset + sourceLength > length datagram then Inr None
                else bindR (spanOf datagram offset sourceLength) (\<lambda>source.
                  Inr (Some \<lparr>v_version = version, v_destinationConnectionId = destination,
                    v_sourceConnectionId = source\<rparr>)))))))))"

definition versionBytes :: "u32 \<Rightarrow> bytes" where
  "versionBytes version = [ucast (drop_bit 24 version), ucast (drop_bit 16 version),
     ucast (drop_bit 8 version), ucast version]"

definition buildQuicVersionNegotiationPacket :: "bytes \<Rightarrow> bytes \<Rightarrow> u32 list \<Rightarrow> usage_error + bytes" where
  "buildQuicVersionNegotiationPacket destinationConnectionId sourceConnectionId supportedVersions =
     (if length destinationConnectionId > 255 \<or> length sourceConnectionId > 255 then Inl InvalidArgument
      else if supportedVersions = []
           \<or> length supportedVersions > kQuicMaximumVersionNegotiationListLength then Inl InvalidArgument
      else Inr ([kQuicLongHeaderFlagBit OR 0x40] @ replicate 4 0
        @ [of_nat (length destinationConnectionId)] @ destinationConnectionId
        @ [of_nat (length sourceConnectionId)] @ sourceConnectionId
        @ concat (map versionBytes supportedVersions)))"

section \<open>Decoded headers\<close>

lemma readLongHeaderConnectionId_safe:
  assumes "readLongHeaderConnectionId dg off = Inr (cid, off')"
  shows "length cid \<le> 20 \<and> off' = off + 1 + length cid \<and> off' \<le> length dg"
  using assms by (auto simp: readLongHeaderConnectionId_def Let_def split: if_splits)

lemma varint_within:
  "decodeQuicVariableLengthInteger (drop off dg) = Inr q \<Longrightarrow> off + qi_byteCount q \<le> length dg \<and> 0 < qi_byteCount q"
  using decode_varint_bounds(2,3) [of "drop off dg" q] by auto

lemma readInitialToken_safe:
  assumes "readInitialToken dg off = Inr (token, off')"
  shows "off + length token < off' \<and> off' \<le> length dg"
  using assms by (auto simp: readInitialToken_def Let_def dest!: varint_within split: sum.splits if_splits)

lemma readLengthField_safe:
  assumes "readLengthField dg off = Inr (k, off')"
  shows "off < off' \<and> off' + k \<le> length dg \<and> 0 < k"
  using assms
  by (auto simp: readLengthField_def Let_def word_neq_0_conv word_less_nat_alt
      dest!: varint_within split: sum.splits if_splits)

lemmas header_readers = readLongHeaderConnectionId_safe readInitialToken_safe readLengthField_safe

definition header_within :: "bytes \<Rightarrow> QuicPacketHeader \<Rightarrow> bool" where
  "header_within dg h \<longleftrightarrow>
     h_packetNumberOffset h + h_packetNumberAndPayloadByteCount h = h_packetByteCount h \<and>
     h_packetByteCount h \<le> length dg \<and> 0 < h_packetNumberOffset h \<and>
     length (h_destinationConnectionId h) \<le> 20 \<and> length (h_sourceConnectionId h) \<le> 20 \<and>
     length (h_token h) < length dg"

lemma decodeLongHeaderPacket_safe:
  assumes "decodeLongHeaderPacket h0 dg = Inr h"
  shows "header_within dg h" "h_version h = 1" "h_longPacketType h \<noteq> LongRetry"
    "0 < h_packetNumberAndPayloadByteCount h" "h_isLongHeader h = h_isLongHeader h0"
    "h_firstByte h = h_firstByte h0"
  using assms
  by (auto simp: decodeLongHeaderPacket_def Let_def header_within_def
      elim!: bindR_InrE split: if_splits dest!: header_readers)

lemma decodeShortHeaderPacket_safe:
  assumes "decodeShortHeaderPacket h0 dg n = Inr h" "dg \<noteq> []" "n \<le> 20"
    "h_sourceConnectionId h0 = []" "h_token h0 = []"
  shows "header_within dg h" "h_version h = 0" "h_packetByteCount h = length dg"
    "h_destinationConnectionId h = take n (drop 1 dg)" "length (h_destinationConnectionId h) = n"
    "h_isLongHeader h = h_isLongHeader h0" "h_firstByte h = h_firstByte h0"
  using assms
  by (cases dg; auto simp: decodeShortHeaderPacket_def Let_def header_within_def split: if_splits)+

text \<open>C13: A header that decodes describes a packet inside the datagram: the offset of the packet
  number and the length field add up to the packet's end, which lies in the datagram and past its
  first byte, so a loop over coalesced packets makes progress; connection ids have at most 20
  bytes; a long header has version 1, is not Retry and has a non-empty payload; a short header
  takes the whole datagram and the connection id length it was asked for.\<close>

theorem decoded_header_within_datagram:
  assumes "decodeQuicPacketHeader dg n = Inr (Inr h)"
  shows "h_packetNumberOffset h + h_packetNumberAndPayloadByteCount h = h_packetByteCount h \<and>
    0 < h_packetByteCount h \<and> h_packetByteCount h \<le> length dg \<and>
    length (h_destinationConnectionId h) \<le> 20 \<and> length (h_sourceConnectionId h) \<le> 20 \<and>
    (if h_isLongHeader h
     then h_version h = 1 \<and> h_longPacketType h \<noteq> LongRetry \<and> 0 < h_packetNumberAndPayloadByteCount h
     else h_packetByteCount h = length dg \<and> h_destinationConnectionId h = take n (drop 1 dg) \<and>
       length (h_destinationConnectionId h) = n)"
proof -
  obtain b bs where dg: "dg = b # bs" and n: "n \<le> 20"
    using assms by (auto simp: decodeQuicPacketHeader_def split: if_splits list.splits)
  let ?h0 = "emptyPacketHeader\<lparr>h_firstByte := b, h_isLongHeader := (b AND kQuicLongHeaderFlagBit \<noteq> 0)\<rparr>"
  have *: "(if b AND kQuicLongHeaderFlagBit \<noteq> 0 then decodeLongHeaderPacket ?h0 dg
      else decodeShortHeaderPacket ?h0 dg n) = Inr h"
    using assms n by (auto simp: decodeQuicPacketHeader_def dg Let_def split: if_splits)
  show ?thesis
  proof (cases "b AND kQuicLongHeaderFlagBit = 0")
    case True
    then have "decodeShortHeaderPacket ?h0 dg n = Inr h" using * by simp
    from decodeShortHeaderPacket_safe [OF this _ n] show ?thesis
      using True by (simp add: dg header_within_def emptyPacketHeader_def)
  next
    case False
    then have "decodeLongHeaderPacket ?h0 dg = Inr h" using * by simp
    from decodeLongHeaderPacket_safe [OF this] show ?thesis
      using False by (simp add: header_within_def)
  qed
qed

theorem decoded_header_within_datagram_witness:
  "let dg = [0xC3, 0, 0, 0, 1, 2, 0xAA, 0xBB, 0, 0, 4, 1, 2, 3, 4] :: bytes in
   \<exists>h. decodeQuicPacketHeader dg 8 = Inr (Inr h) \<and> h_packetByteCount h = 15 \<and>
    h_packetNumberOffset h + h_packetNumberAndPayloadByteCount h = h_packetByteCount h"
proof -
  let ?dg = "[0xC3, 0, 0, 0, 1, 2, 0xAA, 0xBB, 0, 0, 4, 1, 2, 3, 4] :: bytes"
  have "case decodeQuicPacketHeader ?dg 8 of Inr (Inr h) \<Rightarrow> h_packetByteCount h = 15 | _ \<Rightarrow> False"
    by code_simp
  then obtain h where h: "decodeQuicPacketHeader ?dg 8 = Inr (Inr h)" "h_packetByteCount h = 15"
    by (auto split: sum.splits)
  then show ?thesis
    using decoded_header_within_datagram [OF h(1)] unfolding Let_def by blast
qed

section \<open>Restoring a packet number\<close>

text \<open>The same computation on natural numbers, for numbers far below the word bound.\<close>

definition nearest_number :: "nat \<Rightarrow> nat \<Rightarrow> nat \<Rightarrow> nat" where
  "nearest_number expected truncated window =
     (let candidate = expected div window * window + truncated in
      if candidate + window div 2 \<le> expected \<and> candidate + window < 2 ^ 62 then candidate + window
      else if candidate > expected + window div 2 \<and> candidate \<ge> window then candidate - window
      else candidate)"

lemma nearest_number_correct:
  assumes even: "window = 2 * half" and half: "0 < half"
    and low: "expected < p + half" and high: "p \<le> expected + half" and p: "p < 2 ^ 62"
  shows "nearest_number expected (p mod window) window = p"
proof -
  define q k t where "q = expected div window" and "k = p div window" and "t = p mod window"
  have window: "0 < window" using even half by simp
  have P: "p = k * window + t" and t: "t < window"
    using window by (simp_all add: k_def t_def)
  obtain r where E: "expected = q * window + r" and r: "r < window"
    using window q_def by (metis div_mult_mod_eq mod_less_divisor)
  have "k \<le> q + 1"
  proof (rule ccontr)
    assume "\<not> k \<le> q + 1"
    then have "(q + 2) * window \<le> k * window" by (intro mult_right_mono) auto
    then show False using P E high r even t by (simp add: algebra_simps)
  qed
  moreover have "q \<le> k + 1"
  proof (rule ccontr)
    assume "\<not> q \<le> k + 1"
    then have "(k + 2) * window \<le> q * window" by (intro mult_right_mono) auto
    then show False using P E low r even t by (simp add: algebra_simps)
  qed
  ultimately consider "k = q" | "k = q + 1" | "q = k + 1" by linarith
  then show ?thesis
    unfolding nearest_number_def q_def [symmetric] t_def [symmetric] Let_def
    using P E r t even low high p by cases (simp_all add: algebra_simps)
qed

lemma clear_low_or:
  assumes t: "unat t < 2 ^ k" and k: "k < 64"
  shows "unat (((w :: u64) AND NOT (mask k)) OR t) = unat w div 2 ^ k * 2 ^ k + unat t"
proof -
  have "t AND mask k = t"
    using t by (simp add: word_unat_eq_iff unsigned_take_bit_eq take_bit_nat_eq_self flip: take_bit_eq_mask)
  then have t_bits: "bit t n \<Longrightarrow> n < k" for n
    by (metis bit_and_iff bit_mask_iff)
  have "(w AND NOT (mask k)) AND t = 0"
    by (rule bit_word_eqI) (auto simp: bit_simps dest: t_bits)
  then have "(w AND NOT (mask k)) OR t = (w AND NOT (mask k)) + t"
    using word_plus_and_or [of "w AND NOT (mask k)" t] by simp
  moreover have "w AND NOT (mask k) = push_bit k (drop_bit k w)"
    by (rule bit_word_eqI) (auto simp: bit_simps)
  moreover have "unat (push_bit k (drop_bit k w)) = unat w div 2 ^ k * 2 ^ k"
  proof -
    have "unat w div 2 ^ k * 2 ^ k \<le> unat w" by simp
    then have "unat w div 2 ^ k * 2 ^ k < 2 ^ 64"
      using unat_u64_bound [of w] by (rule order.strict_trans1)
    then show ?thesis
      by (subst unsigned_push_bit_eq, subst unsigned_drop_bit_eq)
        (simp add: push_bit_eq_mult drop_bit_eq_div take_bit_nat_eq_self unat_u64_bound [of w, simplified])
  qed
  moreover have "unat w div 2 ^ k * 2 ^ k + unat t < 2 ^ 64"
  proof -
    have "unat w div 2 ^ k < 2 ^ (64 - k)"
      using unat_u64_bound [of w] k by (simp add: less_mult_imp_div_less flip: power_add)
    then have "Suc (unat w div 2 ^ k) * 2 ^ k \<le> 2 ^ (64 - k) * 2 ^ k"
      by (intro mult_right_mono) auto
    also have "\<dots> = 2 ^ 64" using k by (simp flip: power_add)
    finally show ?thesis using t by simp
  qed
  ultimately show ?thesis
    by (simp add: unat_plus_if')
qed

lemma restore_nearest:
  assumes n: "1 \<le> n" "n \<le> 4" and largest: "unat largest < 2 ^ 62" and t: "unat t < 256 ^ n"
  shows "\<exists>v. restoreQuicPacketNumber largest t n = Inr v \<and>
    unat v = nearest_number (unat largest + 1) (unat t) (256 ^ n)"
proof -
  define e c where "e = largest + 1" and "c = (e AND NOT (push_bit (n * 8) 1 - 1)) OR t"
  have pow: "(256::nat) ^ n = 2 ^ (n * 8)" by (simp add: power_mult mult.commute [of n])
  have e: "unat e = unat largest + 1"
    using largest by (simp add: e_def unat_word_ariths)
  have c: "unat c = unat e div 256 ^ n * 256 ^ n + unat t"
    unfolding c_def pow using clear_low_or [of t "n * 8" e] t n by (simp add: pow mask_eq_exp_minus_1)
  define w :: u64 where "w = push_bit (n * 8) 1"
  have small: "(256::nat) ^ n \<le> 256 ^ 4" using n by (intro power_increasing) auto
  have w: "unat w = 256 ^ n"
    unfolding w_def pow using n
    by (subst unsigned_push_bit_eq) (simp add: push_bit_eq_mult take_bit_nat_eq_self)
  have h: "unat (w div 2) = 256 ^ n div 2"
    by (simp add: unat_div w)
  define x where "x = unat e div 256 ^ n * 256 ^ n"
  have "x \<le> unat e" by (simp add: x_def)
  then have bound: "unat c < 2 ^ 62 + 2 ^ 33"
    using c [folded x_def] t e largest small by simp
  have guards: "c + w div 2 \<le> e \<longleftrightarrow> unat c + 256 ^ n div 2 \<le> unat e"
    "e + w div 2 < c \<longleftrightarrow> unat e + 256 ^ n div 2 < unat c"
    "c < 4611686018427387904 - w \<longleftrightarrow> unat c + 256 ^ n < 4611686018427387904"
    "w \<le> c \<longleftrightarrow> 256 ^ n \<le> unat c"
    "unat (c + w) = unat c + 256 ^ n"
    "w \<le> c \<Longrightarrow> unat (c - w) = unat c - 256 ^ n"
    using bound w h e largest small
    by (auto simp: word_le_nat_alt word_less_nat_alt unat_plus_if' unat_sub_if')
  show ?thesis
    using n unfolding restoreQuicPacketNumber_def e_def [symmetric] w_def [symmetric] Let_def
      c_def [folded w_def, symmetric]
    by (auto simp: nearest_number_def Let_def guards(1-5) guards(6) c e)
qed

lemma read_truncated:
  assumes "n \<le> 4"
  shows "unat (readBigEndianInteger (map (encodedByteAt pn n) [0..<n] @ tail) n) = unat pn mod 256 ^ n"
proof -
  have "unat pn mod 256 ^ n < 256 ^ n" by simp
  also have "(256::nat) ^ n \<le> 256 ^ 4" using assms by (intro power_increasing) auto
  finally have "be_value (be_bytes n (unat pn)) < 2 ^ 64"
    by (simp add: be_value_be_bytes)
  then show ?thesis
    unfolding readBigEndianInteger_def encodedBytes_eq
    using unat_fold_shift [of 0 "be_bytes n (unat pn)"] by (simp add: be_value_be_bytes)
qed

lemma byteCountFor_cases:
  "quicPacketNumberByteCountFor pn =
     (if unat pn < 2 ^ 7 then 1 else if unat pn < 2 ^ 15 then 2 else if unat pn < 2 ^ 23 then 3 else 4)"
  by (simp add: quicPacketNumberByteCountFor_def upt_rec word_less_nat_alt)

lemma restore_in_window:
  assumes n: "1 \<le> n" "n \<le> 4" and largest: "unat largest < 2 ^ 62" and pn: "unat pn < 2 ^ 62"
    and low: "unat largest + 1 < unat pn + 256 ^ n div 2"
    and high: "unat pn \<le> unat largest + 1 + 256 ^ n div 2"
  shows "restoreQuicPacketNumber largest
      (readBigEndianInteger (map (encodedByteAt pn n) [0..<n] @ tail) n) n = Inr pn"
proof -
  define t where "t = readBigEndianInteger (map (encodedByteAt pn n) [0..<n] @ tail) n"
  have t: "unat t = unat pn mod 256 ^ n"
    unfolding t_def using n(2) by (rule read_truncated)
  obtain m where m: "n = Suc m" using n by (cases n) auto
  have even: "(256::nat) ^ n = 2 * (256 ^ n div 2)"
    by (simp add: m)
  have "0 < (256::nat) ^ n div 2" by (simp add: m)
  from nearest_number_correct [OF even this low high pn]
  have "nearest_number (unat largest + 1) (unat t) (256 ^ n) = unat pn"
    by (simp add: t)
  then show ?thesis
    using restore_nearest [OF n largest, of t] t unfolding t_def [symmetric]
    by (auto simp: word_unat_eq_iff)
qed

text \<open>C8: A truncated packet number is restored. The sender writes the packet number in as many
  bytes as \<open>quicPacketNumberByteCountFor\<close> gives; the receiver, who has seen numbers up to
  \<open>largest\<close>, reads those bytes back and restores exactly the number sent, as long as the packet
  is not reordered by half a window or more and no more than \<open>2^31\<close> numbers were lost.\<close>

theorem packet_number_roundtrip:
  assumes "unat largest < 2 ^ 62" "unat pn < 2 ^ 62"
    and "n = quicPacketNumberByteCountFor pn"
    and "unat largest + 1 < unat pn + 256 ^ n div 2"
    and "unat pn \<le> unat largest + 2 ^ 31"
  shows "\<exists>sent. appendQuicTruncatedPacketNumber buffer pn n = Inr (buffer @ sent) \<and>
    restoreQuicPacketNumber largest (readBigEndianInteger (sent @ payload) n) n = Inr pn"
proof -
  have n: "1 \<le> n" "n \<le> 4"
    using assms(3) by (auto simp: byteCountFor_cases)
  have "unat pn \<le> unat largest + 1 + 256 ^ n div 2"
    using assms(3,5) by (auto simp: byteCountFor_cases split: if_splits)
  from restore_in_window [OF n assms(1,2,4) this] show ?thesis
    using n by (simp add: appendQuicTruncatedPacketNumber_def)
qed

theorem packet_number_roundtrip_witness:
  "\<exists>sent. appendQuicTruncatedPacketNumber [7] 0x9B32 (quicPacketNumberByteCountFor 0x9B32) = Inr ([7] @ sent) \<and>
    restoreQuicPacketNumber 0x8B00 (readBigEndianInteger (sent @ [1, 2]) 3) 3 = Inr 0x9B32"
proof -
  have n: "quicPacketNumberByteCountFor 0x9B32 = 3" by (simp add: byteCountFor_cases)
  show ?thesis
    unfolding n by (rule packet_number_roundtrip) (simp_all add: byteCountFor_cases)
qed

section \<open>Version negotiation\<close>

lemma versionBytes_eq: "versionBytes v = be_bytes 4 (unat v)"
proof -
  have shift: "ucast (drop_bit k v) = (of_nat (unat v div 2 ^ k) :: byte)" for k
  proof -
    have "(of_nat (unat (drop_bit k v)) :: byte) = of_nat (unat v div 2 ^ k)"
      by (subst unat_drop_bit_eq) (simp add: drop_bit_eq_div)
    then show ?thesis by (simp add: unsigned_of_nat)
  qed
  show ?thesis
    using shift [of 0] shift [of 8] shift [of 16] shift [of 24]
    by (simp add: versionBytes_def be_bytes_def upt_rec)
qed

lemma readBigEndian_version:
  "ucast (readBigEndianInteger (versionBytes v @ rest) 4) = v"
proof -
  have "unat v mod 256 ^ 4 = unat v"
    using unsigned_less [of v, where 'a = nat] by simp
  then have "unat (readBigEndianInteger (versionBytes v @ rest) 4) = unat v"
    unfolding readBigEndianInteger_def versionBytes_eq
    using unat_fold_shift [of 0 "be_bytes 4 (unat v)"] unsigned_less [of v, where 'a = nat]
    by (simp add: be_value_be_bytes)
  then show ?thesis
    using unsigned_less [of v, where 'a = nat]
    by (simp add: word_unat_eq_iff unsigned_ucast_eq take_bit_nat_eq_self)
qed

lemma readBigEndianSpan_within:
  "n \<le> length span \<Longrightarrow> readBigEndianSpan span n = Inr (readBigEndianInteger span n)"
  by (induction n) (simp_all add: readBigEndianInteger_def byteAt_def take_Suc_conv_app_nth)

lemma version_split:
  assumes "5 \<le> length dg"
  shows "dg = [dg ! 0] @ versionBytes (ucast (readBigEndianInteger (drop 1 dg) 4)) @ drop 5 dg"
proof -
  let ?four = "take 4 (drop 1 dg)"
  have len: "length ?four = 4" using assms by simp
  have bound: "be_value ?four < 256 ^ 4" using be_value_bound [of ?four] len by simp
  then have "unat (readBigEndianInteger (drop 1 dg) 4) = be_value ?four"
    unfolding readBigEndianInteger_def using unat_fold_shift [of 0 ?four] by simp
  then have "unat (ucast (readBigEndianInteger (drop 1 dg) 4) :: u32) = be_value ?four"
    using bound by (simp add: unsigned_ucast_eq take_bit_nat_eq_self)
  then have "versionBytes (ucast (readBigEndianInteger (drop 1 dg) 4)) = ?four"
    using be_bytes_be_value [of ?four] len by (simp add: versionBytes_eq)
  moreover have "dg = [dg ! 0] @ ?four @ drop 5 dg"
    using assms by (cases dg) (simp_all add: append_take_drop_id [of 4, symmetric] del: append_take_drop_id)
  ultimately show ?thesis by simp
qed

text \<open>The reader on a datagram with a version, by what follows the version.\<close>

lemma version_request_by_rest:
  "readQuicVersionNegotiationRequest ([first] @ versionBytes version @ rest) =
    (if first AND 0x80 = 0 \<or> version \<in> {0, 1} then Inr None
     else case rest of [] \<Rightarrow> Inl (ReadPastEnd 5)
     | n # r \<Rightarrow> if length r < unat n then Inr None
         else case drop (unat n) r of [] \<Rightarrow> Inr None
         | m # q \<Rightarrow> if length q < unat m then Inr None
             else Inr (Some \<lparr>v_version = version, v_destinationConnectionId = take (unat n) r,
                    v_sourceConnectionId = take (unat m) q\<rparr>))"
proof -
  let ?dg = "[first] @ versionBytes version @ rest"
  have v: "ucast (readBigEndianInteger (drop 1 ?dg) 4) = version"
    using readBigEndian_version by simp
  have len: "length (versionBytes version) = 4" by (simp add: versionBytes_def)
  have front: "byteAt ?dg 0 = Inr first" "spanFrom ?dg 1 = Inr (drop 1 ?dg)"
    by (simp_all add: byteAt_def spanFrom_def)
  have span: "readBigEndianSpan (drop 1 ?dg) 4 = Inr (readBigEndianInteger (drop 1 ?dg) 4)"
    by (rule readBigEndianSpan_within) (simp add: len)
  have start: "readQuicVersionNegotiationRequest ?dg =
      (if first AND 0x80 = 0 \<or> version \<in> {0, 1} then Inr None
       else bindR (byteAt ?dg 5) (\<lambda>lengthByte.
            let destinationLength = unat lengthByte; offset = 6 in
            if destinationLength > 255 \<or> offset + destinationLength > length ?dg then Inr None
            else bindR (spanOf ?dg offset destinationLength) (\<lambda>destination.
              let offset = offset + destinationLength in
              if offset \<ge> length ?dg then Inr None
              else bindR (byteAt ?dg offset) (\<lambda>lengthByte.
                let sourceLength = unat lengthByte; offset = offset + 1 in
                if sourceLength > 255 \<or> offset + sourceLength > length ?dg then Inr None
                else bindR (spanOf ?dg offset sourceLength) (\<lambda>source.
                  Inr (Some \<lparr>v_version = version, v_destinationConnectionId = destination,
                    v_sourceConnectionId = source\<rparr>))))))"
    unfolding readQuicVersionNegotiationRequest_def front span bindR_simps v Let_def
    by (simp add: len kQuicLongHeaderFlagBit_def kQuicVersionNegotiationVersion_def kQuicVersion1_def)
  show ?thesis
  proof (cases rest)
    case Nil
    then show ?thesis unfolding start by (simp add: byteAt_def len)
  next
    case (Cons n r)
    have small: "unat b \<le> 255" for b :: byte using unsigned_less [of b, where 'a = nat] by simp
    have parts: "?dg = (first # versionBytes version @ [n]) @ r" "length (first # versionBytes version @ [n]) = 6"
      by (simp_all add: Cons len)
    have drops: "drop (6 + k) ?dg = drop k r" "?dg ! (6 + k) = r ! k" for k
      unfolding parts(1) using parts(2) by (simp_all only: drop_append nth_append) simp_all
    have six: "drop 6 ?dg = r" using drops(1) [of 0] by simp
    have whole: "byteAt ?dg 5 = Inr n" "length ?dg = 6 + length r"
      by (simp_all add: byteAt_def len Cons versionBytes_def)
    show ?thesis
    proof (cases "drop (unat n) r")
      case Nil
      then show ?thesis
        unfolding start whole bindR_simps Let_def spanOf_def
        by (simp add: Cons)
    next
      case (Cons m q)
      then have "unat n < length r" by (metis drop_eq_Nil list.distinct(1) not_le)
      then have m: "unat n < length r" "r ! unat n = m" "q = drop (Suc (unat n)) r"
        using Cons by (auto simp: Cons_nth_drop_Suc [symmetric])
      have "byteAt ?dg (6 + unat n) = Inr m" by (simp only: byteAt_def drops whole) (simp add: m)
      moreover have "spanOf ?dg 6 (unat n) = Inr (take (unat n) r)"
        unfolding spanOf_def whole(2) six using m(1) by simp
      moreover have "drop (6 + unat n + 1) ?dg = q" using drops(1) [of "unat n + 1"] by (simp add: m add.assoc)
      moreover have "length r = unat n + 1 + length q" using m by simp
      ultimately show ?thesis
        using small [of n] small [of m] m(1)
        unfolding start whole bindR_simps Let_def
        by (simp add: \<open>rest = n # r\<close> Cons spanOf_def whole(2) not_less len)
    qed
  qed
qed

lemma versionBytes_inject: "versionBytes v = versionBytes w \<longleftrightarrow> v = w"
  by (metis readBigEndian_version)

text \<open>Two identifiers with their length bytes in front of them, and nothing required of the rest.\<close>

lemma request_rest:
  "(case rest of [] \<Rightarrow> False
     | n # r \<Rightarrow> if length r < unat n then False
         else case drop (unat n) r of [] \<Rightarrow> False
         | m # q \<Rightarrow> unat m \<le> length q \<and> dcid = take (unat n) r \<and> scid = take (unat m) q) \<longleftrightarrow>
   length dcid < 256 \<and> length scid < 256 \<and>
   (\<exists>tail. rest = [of_nat (length dcid) :: byte] @ dcid @ [of_nat (length scid)] @ scid @ tail)"
  (is "?reads \<longleftrightarrow> ?written")
proof
  assume ?written
  then show ?reads by (auto simp: unat_of_nat)
next
  assume reads: ?reads
  then obtain n r m q where parts: "rest = n # r" "unat n \<le> length r" "drop (unat n) r = m # q" "unat m \<le> length q"
      "dcid = take (unat n) r" "scid = take (unat m) q"
    by (auto split: list.splits if_splits)
  have "r = dcid @ m # q" "q = scid @ drop (unat m) q"
    using parts append_take_drop_id [of "unat n" r] by simp_all
  moreover have "length dcid = unat n" "length scid = unat m" using parts by simp_all
  moreover have "unat b < 256" for b :: byte using unsigned_less [of b, where 'a = nat] by simp
  moreover have "of_nat (length dcid) = n" "of_nat (length scid) = m" using calculation(3,4) by simp_all
  ultimately show ?written using parts(1) by (intro conjI exI [of _ "drop (unat m) q"]) auto
qed

text \<open>C18: What the reader of version negotiation requests does with every datagram. It answers
  with a request exactly for a long header of a version that is neither negotiation nor version 1,
  followed by two connection identifiers of any length a length byte can express, and the request
  holds that version and those identifiers. It leaves its span exactly on the datagrams of five
  bytes with such a first byte and version, where it reads the sixth byte; no other access, on any
  datagram, is out of bounds.\<close>

theorem version_request_read_exactly:
  "(readQuicVersionNegotiationRequest dg = Inr (Some \<lparr>v_version = version, v_destinationConnectionId = dcid,
        v_sourceConnectionId = scid\<rparr>) \<longleftrightarrow>
      version \<notin> {0, 1} \<and> length dcid < 256 \<and> length scid < 256 \<and>
      (\<exists>first tail. first AND 0x80 \<noteq> 0 \<and> dg = [first] @ versionBytes version @
         [of_nat (length dcid)] @ dcid @ [of_nat (length scid)] @ scid @ tail)) \<and>
   (readQuicVersionNegotiationRequest dg = Inl (ReadPastEnd i) \<longleftrightarrow>
      i = 5 \<and> (\<exists>first version. first AND 0x80 \<noteq> 0 \<and> version \<notin> {0, 1} \<and> dg = [first] @ versionBytes version))"
proof (cases "5 \<le> length dg")
  case False
  then have "readQuicVersionNegotiationRequest dg = Inr None"
    by (simp add: readQuicVersionNegotiationRequest_def)
  then show ?thesis using False by (auto simp: versionBytes_def)
next
  case True
  obtain first v rest where dg: "dg = [first] @ versionBytes v @ rest" using version_split [OF True] by blast
  have same: "[first] @ versionBytes v @ rest = [first'] @ versionBytes v' @ rest' \<longleftrightarrow>
      first = first' \<and> v = v' \<and> rest = rest'" for first' v' rest'
    using versionBytes_inject [of v v'] by (auto simp: versionBytes_def)
  have fault: "[first] @ versionBytes v @ rest = [first'] @ versionBytes v' \<longleftrightarrow> first = first' \<and> v = v' \<and> rest = []"
    for first' v' using same [of first' v' "[]"] by simp
  let ?read = "case rest of [] \<Rightarrow> Inl (ReadPastEnd 5)
     | n # r \<Rightarrow> if length r < unat n then Inr None
         else case drop (unat n) r of [] \<Rightarrow> Inr None
         | m # q \<Rightarrow> if length q < unat m then Inr None
             else Inr (Some \<lparr>v_version = v, v_destinationConnectionId = take (unat n) r,
                    v_sourceConnectionId = take (unat m) q\<rparr>)"
  have reads: "?read = Inr (Some \<lparr>v_version = version, v_destinationConnectionId = dcid,
        v_sourceConnectionId = scid\<rparr>) \<longleftrightarrow> v = version \<and> length dcid < 256 \<and> length scid < 256 \<and>
      (\<exists>tail. rest = [of_nat (length dcid) :: byte] @ dcid @ [of_nat (length scid)] @ scid @ tail)"
    unfolding request_rest [symmetric] by (auto split: list.splits)
  have faults: "?read = Inl (ReadPastEnd i) \<longleftrightarrow> rest = [] \<and> i = 5" by (auto split: list.splits)
  show ?thesis
    unfolding dg version_request_by_rest same fault using reads faults by auto
qed

text \<open>C17: A version negotiation packet is never answered with another one, and the packet decoder
  drops it as malformed.\<close>

theorem version_negotiation_never_answered:
  assumes "buildQuicVersionNegotiationPacket dcid scid versions = Inr packet"
  shows "readQuicVersionNegotiationRequest packet = Inr None \<and>
    decodeQuicPacketHeader packet n = (if n > 20 then Inl InvalidArgument else Inr (Inl Malformed))"
proof -
  have p: "packet = [0xC0, 0, 0, 0, 0, of_nat (length dcid)] @ dcid @ [of_nat (length scid)] @ scid
      @ concat (map versionBytes versions)"
    using assms by (auto simp: buildQuicVersionNegotiationPacket_def numeral_eq_Suc split: if_splits)
  have v: "readBigEndianInteger (drop 1 packet) 4 = 0"
    by (simp add: p readBigEndianInteger_def numeral_eq_Suc)
  have "packet = [0xC0] @ versionBytes 0 @ ([of_nat (length dcid)] @ dcid @ [of_nat (length scid)] @ scid
      @ concat (map versionBytes versions))"
    by (simp add: p versionBytes_def)
  then have "readQuicVersionNegotiationRequest packet = Inr None"
    by (simp only: version_request_by_rest) simp
  moreover have "decodeQuicPacketHeader packet n = (if n > 20 then Inl InvalidArgument else Inr (Inl Malformed))"
    using v by (simp add: decodeQuicPacketHeader_def p Let_def decodeLongHeaderPacket_def)
  ultimately show ?thesis ..
qed

theorem version_negotiation_never_answered_witness:
  "\<exists>packet. buildQuicVersionNegotiationPacket [1, 2] [3] [1] = Inr packet \<and>
    readQuicVersionNegotiationRequest packet = Inr None"
proof -
  obtain packet where p: "buildQuicVersionNegotiationPacket [1, 2] [3] [1] = Inr packet"
    by (simp add: buildQuicVersionNegotiationPacket_def)
  then show ?thesis
    using version_negotiation_never_answered [OF p] by blast
qed

section \<open>The second pass\<close>

text \<open>The second pass over a header that succeeds reads a packet number of one to four bytes
  that lies in the datagram and in the packet, and changes no field but the unmasked ones.\<close>

theorem refreshed_header_within_datagram:
  assumes "refreshQuicPacketHeader h first dg = (Inr (), h')"
  shows "1 \<le> h_packetNumberByteCount h' \<and> h_packetNumberByteCount h' \<le> 4 \<and>
    h_packetNumberOffset h' + h_packetNumberByteCount h' \<le> length dg \<and>
    h_packetNumberByteCount h' \<le> h_packetNumberAndPayloadByteCount h' \<and>
    unat (h_packetNumber h') < 256 ^ h_packetNumberByteCount h' \<and>
    h' = h\<lparr>h_firstByte := first, h_packetNumberByteCount := h_packetNumberByteCount h',
      h_packetNumber := h_packetNumber h', h_isSpinBitSet := (first AND kQuicSpinBitMask \<noteq> 0),
      h_isKeyPhaseBitSet := (first AND kQuicKeyPhaseBitMask \<noteq> 0)\<rparr>"
proof -
  have c: "1 \<le> packetNumberByteCountFromFirstByte first \<and> packetNumberByteCountFromFirstByte first \<le> 4"
    using word_and_le1 [of first "0x03"] by (simp add: packetNumberByteCountFromFirstByte_def word_le_nat_alt)
  have bound: "unat (readBigEndianInteger xs n) < 256 ^ n" if "n \<le> 4" "n \<le> length xs" for xs n
  proof -
    have "be_value (take n xs) < 256 ^ n"
      using be_value_bound [of "take n xs"] that by (simp add: min_absorb2)
    moreover have "(256::nat) ^ n \<le> 256 ^ 4" using that by (intro power_increasing) auto
    ultimately have "be_value (take n xs) < 2 ^ 64" by simp
    then show ?thesis
      unfolding readBigEndianInteger_def using \<open>be_value (take n xs) < 256 ^ n\<close>
      using unat_fold_shift [of 0 "take n xs"] by simp
  qed
  show ?thesis
    using assms c bound [of "packetNumberByteCountFromFirstByte first" "drop (h_packetNumberOffset h) dg"]
    by (auto simp: refreshQuicPacketHeader_def Let_def split: if_splits)
qed

theorem refreshed_header_within_datagram_witness:
  "\<exists>h'. refreshQuicPacketHeader
      (emptyPacketHeader\<lparr>h_packetNumberOffset := 3, h_packetNumberAndPayloadByteCount := 5\<rparr>) 0x41
      [0, 1, 2, 3, 4, 5, 6, 7] = (Inr (), h') \<and> h_packetNumberByteCount h' = 2 \<and>
      h_packetNumberOffset h' + h_packetNumberByteCount h' \<le> 8"
proof -
  let ?h = "emptyPacketHeader\<lparr>h_packetNumberOffset := 3, h_packetNumberAndPayloadByteCount := 5\<rparr>"
  let ?r = "refreshQuicPacketHeader ?h 0x41 [0, 1, 2, 3, 4, 5, 6, 7]"
  have "fst ?r = Inr () \<and> h_packetNumberByteCount (snd ?r) = 2"
    by code_simp
  then obtain h' where h: "?r = (Inr (), h')" "h_packetNumberByteCount h' = 2"
    by (metis prod.collapse)
  then show ?thesis
    using refreshed_header_within_datagram [OF h(1)] by auto
qed

end
