(* ===== verification/QuicPacket.thy ===== *)
theory QuicPacket
  imports QuicHeader QuicFrameDecode
begin

text \<open>
  Packet protection and the two ends of a packet: \<open>src/Net/Quic/Crypto/QuicHeaderProtection.cpp\<close>,
  \<open>QuicPacketProtection.cpp\<close> and \<open>QuicPacketKeys.cpp\<close>, the builder
  \<open>src/Net/Quic/QuicPacketBuilder.cpp\<close>, and from \<open>QuicConnectionCore.cpp\<close> the part of
  \<open>handlePacket\<close> that opens a packet and \<open>noteReceivedPacket\<close>. The ciphers are OpenSSL's and
  are the parameter \<open>crypto\<close> of the definitions.
\<close>

section \<open>Keys and ciphers\<close>

datatype QuicCipherSuite = Aes128Gcm | Aes256Gcm | ChaCha20Poly1305

record QuicPacketKeys =
  k_cipherSuite :: QuicCipherSuite
  k_encryptionKey :: bytes
  k_initializationVector :: bytes
  k_headerProtectionKey :: bytes

text \<open>OpenSSL. A call that fails gives \<open>None\<close>; a failed encryption says what it left in the
  output span; decryption tells a wrong tag from a failure.\<close>

datatype opened = LibraryFailure | TagMismatch | Plaintext bytes

record ciphers =
  aesEcbBlock :: "bytes \<Rightarrow> bytes \<Rightarrow> bytes option"
  chaCha20Zeros :: "bytes \<Rightarrow> bytes \<Rightarrow> bytes option"
  aeadEncrypt :: "QuicCipherSuite \<Rightarrow> bytes \<Rightarrow> bytes \<Rightarrow> bytes \<Rightarrow> bytes \<Rightarrow> bytes + bytes \<times> bytes"
  aeadDecrypt :: "QuicCipherSuite \<Rightarrow> bytes \<Rightarrow> bytes \<Rightarrow> bytes \<Rightarrow> bytes \<Rightarrow> bytes \<Rightarrow> opened"

definition kQuicAuthenticationTagByteLength :: nat where "kQuicAuthenticationTagByteLength = 16"
definition kQuicHeaderProtectionSampleByteLength :: nat where "kQuicHeaderProtectionSampleByteLength = 16"
definition kQuicHeaderProtectionMaskByteLength :: nat where "kQuicHeaderProtectionMaskByteLength = 5"
definition kQuicLongHeaderMaskBit :: byte where "kQuicLongHeaderMaskBit = 0x0F"
definition kQuicShortHeaderMaskBit :: byte where "kQuicShortHeaderMaskBit = 0x1F"

lemmas protection_consts [simp] = kQuicAuthenticationTagByteLength_def
  kQuicHeaderProtectionSampleByteLength_def kQuicHeaderProtectionMaskByteLength_def
  kQuicLongHeaderMaskBit_def kQuicShortHeaderMaskBit_def

definition quicCipherSuiteKeyByteLength :: "QuicCipherSuite \<Rightarrow> nat" where
  "quicCipherSuiteKeyByteLength cipherSuite = (if cipherSuite = Aes128Gcm then 16 else 32)"

definition quicCipherSuiteHeaderProtectionKeyByteLength :: "QuicCipherSuite \<Rightarrow> nat" where
  "quicCipherSuiteHeaderProtectionKeyByteLength cipherSuite = (if cipherSuite = Aes128Gcm then 16 else 32)"

definition encryptionKeyBytes :: "QuicPacketKeys \<Rightarrow> bytes" where
  "encryptionKeyBytes keys = take (quicCipherSuiteKeyByteLength (k_cipherSuite keys)) (k_encryptionKey keys)"

definition headerProtectionKeyBytes :: "QuicPacketKeys \<Rightarrow> bytes" where
  "headerProtectionKeyBytes keys =
     take (quicCipherSuiteHeaderProtectionKeyByteLength (k_cipherSuite keys)) (k_headerProtectionKey keys)"

section \<open>Payload protection\<close>

definition buildInitializationVector :: "QuicPacketKeys \<Rightarrow> u64 \<Rightarrow> bytes" where
  "buildInitializationVector keys packetNumber =
     (let base = k_initializationVector keys in
      map (\<lambda>byteIndex.
             let shiftBitCount = (length base - 1 - byteIndex) * 8;
                 packetNumberByte = (if shiftBitCount \<ge> 64 then 0
                   else ucast (drop_bit shiftBitCount packetNumber AND 0xFF)) in
             base ! byteIndex XOR packetNumberByte) [0..<length base])"

definition appendQuicProtectedPayload ::
  "ciphers \<Rightarrow> bytes \<Rightarrow> QuicPacketKeys \<Rightarrow> u64 \<Rightarrow> bytes \<Rightarrow> bytes \<Rightarrow> appended" where
  "appendQuicProtectedPayload crypto output keys packetNumber additionalData plaintext =
     (if packetNumber > kQuicMaximumIntegerValue then Inl (InvalidArgumentException output)
      else case aeadEncrypt crypto (k_cipherSuite keys) (encryptionKeyBytes keys)
                  (buildInitializationVector keys packetNumber) additionalData plaintext of
        Inl left \<Rightarrow> Inl (RuntimeException (output @ left))
      | Inr (ciphertext, tag) \<Rightarrow> Inr (output @ ciphertext @ tag))"

text \<open>The caller's span has the length of the plaintext, so only the short payload and the two
  failures of the cipher are left. The outer \<open>None\<close> is the thrown \<open>Base::Exception\<close>.\<close>

definition openQuicProtectedPayload ::
  "ciphers \<Rightarrow> QuicPacketKeys \<Rightarrow> u64 \<Rightarrow> bytes \<Rightarrow> bytes \<Rightarrow> (QuicDecodeErrorKind + bytes) option" where
  "openQuicProtectedPayload crypto keys packetNumber additionalData protectedPayload =
     (if length protectedPayload < kQuicAuthenticationTagByteLength then Some (Inl Truncated)
      else
        let plaintextLength = length protectedPayload - kQuicAuthenticationTagByteLength in
        case aeadDecrypt crypto (k_cipherSuite keys) (encryptionKeyBytes keys)
               (buildInitializationVector keys packetNumber) additionalData
               (take plaintextLength protectedPayload) (drop plaintextLength protectedPayload) of
          LibraryFailure \<Rightarrow> None
        | TagMismatch \<Rightarrow> Some (Inl AuthenticationFailed)
        | Plaintext plaintext \<Rightarrow> Some (Inr plaintext))"

section \<open>Header protection\<close>

definition extractQuicHeaderProtectionSample :: "bytes \<Rightarrow> QuicPacketHeader \<Rightarrow> QuicDecodeErrorKind + bytes" where
  "extractQuicHeaderProtectionSample packet header =
     (let sampleOffset = h_packetNumberOffset header + 4 in
      if sampleOffset > length packet
         \<or> length packet - sampleOffset < kQuicHeaderProtectionSampleByteLength then Inl Truncated
      else Inr (take kQuicHeaderProtectionSampleByteLength (drop sampleOffset packet)))"

datatype call_failure = UsageFailure | OpenSslFailure

definition generateQuicHeaderProtectionMask ::
  "ciphers \<Rightarrow> QuicPacketKeys \<Rightarrow> bytes \<Rightarrow> call_failure + bytes" where
  "generateQuicHeaderProtectionMask crypto keys sample =
     (if length sample \<noteq> kQuicHeaderProtectionSampleByteLength then Inl UsageFailure
      else
        let headerProtectionKey = headerProtectionKeyBytes keys in
        if headerProtectionKey = [] then Inl UsageFailure
        else if k_cipherSuite keys = ChaCha20Poly1305 then
          (case chaCha20Zeros crypto headerProtectionKey sample of
             None \<Rightarrow> Inl OpenSslFailure | Some maskBytes \<Rightarrow> Inr maskBytes)
        else
          (case aesEcbBlock crypto headerProtectionKey sample of
             None \<Rightarrow> Inl OpenSslFailure
           | Some block \<Rightarrow> Inr (take kQuicHeaderProtectionMaskByteLength block)))"

definition maskedBitOf :: "bool \<Rightarrow> byte" where
  "maskedBitOf isLongHeader = (if isLongHeader then kQuicLongHeaderMaskBit else kQuicShortHeaderMaskBit)"

definition packetNumberByteCountOf :: "byte \<Rightarrow> bytes \<Rightarrow> nat \<Rightarrow> QuicDecodeErrorKind + nat" where
  "packetNumberByteCountOf firstByte packet packetNumberOffset =
     (let packetNumberByteCount = 1 + unat (firstByte AND kQuicPacketNumberLengthBitMask) in
      if packetNumberOffset > length packet
         \<or> length packet - packetNumberOffset < packetNumberByteCount then Inl Truncated
      else Inr packetNumberByteCount)"

text \<open>The loop that masks the packet number field.\<close>

definition maskPacketNumber :: "bytes \<Rightarrow> nat \<Rightarrow> nat \<Rightarrow> bytes \<Rightarrow> bytes" where
  "maskPacketNumber packet packetNumberOffset packetNumberByteCount maskBytes =
     fold (\<lambda>byteIndex packet. packet[packetNumberOffset + byteIndex :=
             packet ! (packetNumberOffset + byteIndex) XOR maskBytes ! (1 + byteIndex)])
       [0..<packetNumberByteCount] packet"

text \<open>Both directions return the first byte and the packet as it is after the call.\<close>

definition removeQuicHeaderProtection ::
  "bytes \<Rightarrow> QuicPacketHeader \<Rightarrow> bytes \<Rightarrow> QuicDecodeErrorKind + byte \<times> bytes" where
  "removeQuicHeaderProtection packet header maskBytes =
     (if packet = [] then Inl Truncated
      else
        let unmaskedFirstByte = packet ! 0 XOR (maskBytes ! 0 AND maskedBitOf (h_isLongHeader header)) in
        bindR (packetNumberByteCountOf unmaskedFirstByte packet (h_packetNumberOffset header)) (\<lambda>count.
          Inr (unmaskedFirstByte,
               (maskPacketNumber packet (h_packetNumberOffset header) count maskBytes)[0 := unmaskedFirstByte])))"

definition applyQuicHeaderProtection ::
  "bytes \<Rightarrow> QuicPacketHeader \<Rightarrow> bytes \<Rightarrow> QuicDecodeErrorKind + byte \<times> bytes" where
  "applyQuicHeaderProtection packet header maskBytes =
     (if packet = [] then Inl Truncated
      else
        bindR (packetNumberByteCountOf (h_firstByte header) packet (h_packetNumberOffset header)) (\<lambda>count.
          let protectedFirstByte = h_firstByte header XOR (maskBytes ! 0 AND maskedBitOf (h_isLongHeader header)) in
          Inr (protectedFirstByte,
               (maskPacketNumber packet (h_packetNumberOffset header) count maskBytes)[0 := protectedFirstByte])))"

section \<open>The builder\<close>

record QuicOutboundPacket =
  o_isLongHeader :: bool
  o_longPacketType :: QuicLongPacketType
  o_version :: u32
  o_destinationConnectionId :: bytes
  o_sourceConnectionId :: bytes
  o_token :: bytes
  o_packetNumber :: u64
  o_packetNumberByteCount :: nat
  o_isKeyPhaseBitSet :: bool
  o_frames :: bytes

primrec longPacketTypeValue :: "QuicLongPacketType \<Rightarrow> byte" where
  "longPacketTypeValue LongInitial = 0"
| "longPacketTypeValue LongZeroRtt = 1"
| "longPacketTypeValue LongHandshake = 2"
| "longPacketTypeValue LongRetry = 3"

definition minimumPlaintextByteCount :: "nat \<Rightarrow> nat" where
  "minimumPlaintextByteCount packetNumberByteCount =
     (if packetNumberByteCount \<ge> kQuicMaximumPacketNumberByteCount then 0
      else kQuicMaximumPacketNumberByteCount - packetNumberByteCount)"

definition makeFirstByte :: "QuicOutboundPacket \<Rightarrow> nat \<Rightarrow> byte" where
  "makeFirstByte packet packetNumberByteCount =
     (let packetNumberLengthBits = of_nat (packetNumberByteCount - 1) in
      if \<not> o_isLongHeader packet
      then kQuicFixedBit OR (if o_isKeyPhaseBitSet packet then kQuicKeyPhaseBitMask else 0)
             OR packetNumberLengthBits
      else (kQuicLongHeaderFlagBit OR kQuicFixedBit) OR push_bit 4 (longPacketTypeValue (o_longPacketType packet))
             OR packetNumberLengthBits)"

definition validOutboundPacket :: "QuicOutboundPacket \<Rightarrow> bool" where
  "validOutboundPacket packet \<longleftrightarrow>
     o_frames packet \<noteq> [] \<and>
     o_packetNumber packet \<le> kQuicMaximumIntegerValue \<and>
     1 \<le> o_packetNumberByteCount packet \<and>
     o_packetNumberByteCount packet \<le> kQuicMaximumPacketNumberByteCount \<and>
     length (o_destinationConnectionId packet) \<le> kQuicMaximumConnectionIdLength \<and>
     (o_isLongHeader packet \<longrightarrow> length (o_sourceConnectionId packet) \<le> kQuicMaximumConnectionIdLength) \<and>
     (o_token packet = [] \<or> o_isLongHeader packet \<and> o_longPacketType packet = LongInitial)"

definition paddedPlaintext :: "QuicOutboundPacket \<Rightarrow> bytes" where
  "paddedPlaintext packet =
     o_frames packet @ replicate
       (minimumPlaintextByteCount (o_packetNumberByteCount packet) - length (o_frames packet)) 0x00"

text \<open>The unprotected header up to the packet number.\<close>

definition appendOutboundHeader :: "bytes \<Rightarrow> QuicOutboundPacket \<Rightarrow> nat \<Rightarrow> appended" where
  "appendOutboundHeader datagram packet plaintextByteCount =
     (let datagram = datagram @ [makeFirstByte packet (o_packetNumberByteCount packet)];
          datagram = (if o_isLongHeader packet
            then datagram @ versionBytes (o_version packet) @ [of_nat (length (o_destinationConnectionId packet))]
            else datagram);
          datagram = appendQuicRawBytes datagram (o_destinationConnectionId packet) in
      if \<not> o_isLongHeader packet then Inr datagram
      else
        let datagram = datagram @ [of_nat (length (o_sourceConnectionId packet))];
            datagram = appendQuicRawBytes datagram (o_sourceConnectionId packet) in
        bindR (if o_longPacketType packet = LongInitial
               then appendIntegersThenRaw datagram [of_nat (length (o_token packet))] (o_token packet)
               else Inr datagram) (\<lambda>datagram.
          appendQuicVariableLengthInteger datagram
            (of_nat (o_packetNumberByteCount packet + plaintextByteCount + kQuicAuthenticationTagByteLength))))"

definition appendQuicPacket ::
  "ciphers \<Rightarrow> bytes \<Rightarrow> QuicOutboundPacket \<Rightarrow> QuicPacketKeys \<Rightarrow> appended" where
  "appendQuicPacket crypto datagram packet keys =
     (if \<not> validOutboundPacket packet then Inl (InvalidArgumentException datagram)
      else
        let start = length datagram; plaintext = paddedPlaintext packet in
        bindR (appendOutboundHeader datagram packet (length plaintext)) (\<lambda>buffer.
        let packetNumberOffset = length buffer - start in
        bindR (appendQuicTruncatedPacketNumber buffer (o_packetNumber packet) (o_packetNumberByteCount packet))
          (\<lambda>buffer.
        bindR (appendQuicProtectedPayload crypto buffer keys (o_packetNumber packet) (drop start buffer) plaintext)
          (\<lambda>buffer.
        let built = drop start buffer;
            header = emptyPacketHeader\<lparr>h_isLongHeader := o_isLongHeader packet,
              h_firstByte := makeFirstByte packet (o_packetNumberByteCount packet),
              h_packetNumberOffset := packetNumberOffset\<rparr> in
        case extractQuicHeaderProtectionSample built header of
          Inl e \<Rightarrow> Inl (RuntimeException buffer)
        | Inr sample \<Rightarrow>
            (case generateQuicHeaderProtectionMask crypto keys sample of
               Inl UsageFailure \<Rightarrow> Inl (InvalidArgumentException buffer)
             | Inl OpenSslFailure \<Rightarrow> Inl (RuntimeException buffer)
             | Inr maskBytes \<Rightarrow>
                 (case applyQuicHeaderProtection built header maskBytes of
                    Inl e \<Rightarrow> Inl (RuntimeException buffer)
                  | Inr (firstByte, protected) \<Rightarrow> Inr (take start buffer @ protected)))))))"

section \<open>Retry\<close>

record QuicRetryPacket =
  y_originalDestinationConnectionId :: bytes
  y_destinationConnectionId :: bytes
  y_sourceConnectionId :: bytes
  y_token :: bytes
  y_version :: u32

definition kQuicRetryIntegrityKeyBytes :: bytes where
  "kQuicRetryIntegrityKeyBytes =
     [0xbe, 0x0c, 0x69, 0x0b, 0x9f, 0x66, 0x57, 0x5a, 0x1d, 0x76, 0x6b, 0x54, 0xe3, 0x68, 0xc8, 0x4e]"

definition kQuicRetryIntegrityVectorBytes :: bytes where
  "kQuicRetryIntegrityVectorBytes =
     [0x46, 0x15, 0x99, 0xd3, 0x5d, 0x63, 0x2b, 0xf2, 0x23, 0x98, 0x25, 0xbb]"

definition retryIntegrityKeys :: QuicPacketKeys where
  "retryIntegrityKeys = \<lparr>k_cipherSuite = Aes128Gcm, k_encryptionKey = kQuicRetryIntegrityKeyBytes @ replicate 16 0,
     k_initializationVector = kQuicRetryIntegrityVectorBytes, k_headerProtectionKey = replicate 32 0\<rparr>"

definition validRetryPacket :: "QuicRetryPacket \<Rightarrow> bool" where
  "validRetryPacket packet \<longleftrightarrow>
     length (y_destinationConnectionId packet) \<le> kQuicMaximumConnectionIdLength \<and>
     length (y_sourceConnectionId packet) \<le> kQuicMaximumConnectionIdLength \<and>
     length (y_originalDestinationConnectionId packet) \<le> kQuicMaximumConnectionIdLength \<and>
     y_token packet \<noteq> [] \<and>
     y_sourceConnectionId packet \<noteq> y_originalDestinationConnectionId packet"

text \<open>The packet is built aside and added to the datagram at the end, so a failure leaves the
  datagram as it was.\<close>

definition retryWithoutTag :: "QuicRetryPacket \<Rightarrow> bytes" where
  "retryWithoutTag packet =
     (let built = [(kQuicLongHeaderFlagBit OR kQuicFixedBit) OR push_bit 4 (longPacketTypeValue LongRetry) OR 0x0F];
          built = built @ versionBytes (y_version packet);
          built = built @ [of_nat (length (y_destinationConnectionId packet))];
          built = appendQuicRawBytes built (y_destinationConnectionId packet);
          built = built @ [of_nat (length (y_sourceConnectionId packet))];
          built = appendQuicRawBytes built (y_sourceConnectionId packet)
      in appendQuicRawBytes built (y_token packet))"

definition retryPseudoPacket :: "bytes \<Rightarrow> bytes \<Rightarrow> bytes" where
  "retryPseudoPacket originalDestinationConnectionId withoutTag =
     appendQuicRawBytes [of_nat (length originalDestinationConnectionId)] originalDestinationConnectionId
       @ withoutTag"

definition appendQuicRetryPacket :: "ciphers \<Rightarrow> bytes \<Rightarrow> QuicRetryPacket \<Rightarrow> appended" where
  "appendQuicRetryPacket crypto datagram packet =
     (if \<not> validRetryPacket packet then Inl (InvalidArgumentException datagram)
      else
        let built = retryWithoutTag packet in
        case appendQuicProtectedPayload crypto built retryIntegrityKeys 0
               (retryPseudoPacket (y_originalDestinationConnectionId packet) built) [] of
          Inl (InvalidArgumentException b) \<Rightarrow> Inl (InvalidArgumentException datagram)
        | Inl (RuntimeException b) \<Rightarrow> Inl (RuntimeException datagram)
        | Inr built \<Rightarrow> Inr (datagram @ built))"

text \<open>Every exception is caught and gives \<open>false\<close>.\<close>

definition verifyQuicRetryPacketIntegrity :: "ciphers \<Rightarrow> QuicRetryPacketHeader \<Rightarrow> bytes \<Rightarrow> bool" where
  "verifyQuicRetryPacketIntegrity crypto packet retryPacket =
     (if length retryPacket < kQuicRetryIntegrityTagByteLength
         \<or> length (r_originalDestinationConnectionId packet) > 255 then False
      else
        let packetWithoutTagByteCount = length retryPacket - kQuicRetryIntegrityTagByteLength in
        case openQuicProtectedPayload crypto retryIntegrityKeys 0
               (retryPseudoPacket (r_originalDestinationConnectionId packet)
                  (take packetWithoutTagByteCount retryPacket))
               (drop packetWithoutTagByteCount retryPacket) of
          Some (Inr plaintext) \<Rightarrow> plaintext = []
        | _ \<Rightarrow> False)"

section \<open>The receiving end\<close>

datatype PacketNumberSpace = SpaceInitial | SpaceHandshake | SpaceApplication

text \<open>The part of \<open>SpaceState\<close> and of the connection that opening a packet reads.\<close>

record SpaceState =
  s_readKeys :: "QuicPacketKeys option"
  s_nextReadKeys :: "QuicPacketKeys option"
  s_previousReadKeys :: "QuicPacketKeys option"
  s_largestReceivedPacketNumber :: "u64 option"
  s_receivedPacketNumbers :: QuicReceivedPacketNumbers
  s_receivedEcnCounts :: "u64 \<times> u64 \<times> u64"

record QuicReceiver =
  c_localConnectionId :: bytes
  c_issuedConnectionIds :: "bytes list"
  c_originalDestinationConnectionId :: bytes
  c_spaces :: "PacketNumberSpace \<Rightarrow> SpaceState"
  c_isReadKeyPhaseSet :: bool

definition levelOf :: "QuicPacketHeader \<Rightarrow> PacketNumberSpace option" where
  "levelOf header =
     (if \<not> h_isLongHeader header then Some SpaceApplication
      else case h_longPacketType header of
        LongInitial \<Rightarrow> Some SpaceInitial | LongHandshake \<Rightarrow> Some SpaceHandshake
      | LongZeroRtt \<Rightarrow> None | LongRetry \<Rightarrow> None)"

datatype packet_outcome =
    PacketDropped
  | ReservedBitsSet
  | OpenSslException
  | PacketOpened PacketNumberSpace QuicPacketHeader u64 bytes bool

definition readingKeys :: "QuicReceiver \<Rightarrow> PacketNumberSpace \<Rightarrow> bool \<Rightarrow> u64 \<Rightarrow> (QuicPacketKeys \<times> bool) option" where
  "readingKeys receiver space keyPhase packetNumber =
     (let state = c_spaces receiver space in
      if space = SpaceApplication \<and> keyPhase \<noteq> c_isReadKeyPhaseSet receiver then
        let looksNewer = (case s_largestReceivedPacketNumber state of
              None \<Rightarrow> True | Some largest \<Rightarrow> packetNumber > largest) in
        if looksNewer \<and> s_nextReadKeys state \<noteq> None
        then Some (the (s_nextReadKeys state), True)
        else if \<not> looksNewer \<and> s_previousReadKeys state \<noteq> None
        then Some (the (s_previousReadKeys state), False)
        else None
      else map_option (\<lambda>keys. (keys, False)) (s_readKeys state))"

text \<open>The identifier test, then header protection and the packet number, then the payload.\<close>

definition isOwnConnectionId :: "QuicReceiver \<Rightarrow> PacketNumberSpace \<Rightarrow> bytes \<Rightarrow> bool" where
  "isOwnConnectionId receiver space connectionId \<longleftrightarrow>
     connectionId = c_localConnectionId receiver \<or>
     connectionId \<in> set (c_issuedConnectionIds receiver) \<or>
     (space = SpaceInitial \<and> connectionId = c_originalDestinationConnectionId receiver)"

definition unprotectHeader ::
  "ciphers \<Rightarrow> SpaceState \<Rightarrow> bytes \<Rightarrow> QuicPacketHeader \<Rightarrow> packet_outcome + QuicPacketHeader \<times> bytes \<times> u64" where
  "unprotectHeader crypto state packet plainHeader =
     bindR (someOr PacketDropped (s_readKeys state)) (\<lambda>readKeys.
     bindR (failWith PacketDropped (extractQuicHeaderProtectionSample packet plainHeader)) (\<lambda>sample.
     bindR (failWith OpenSslException (generateQuicHeaderProtectionMask crypto readKeys sample)) (\<lambda>maskBytes.
     bindR (failWith PacketDropped (removeQuicHeaderProtection packet plainHeader maskBytes))
       (\<lambda>(unmaskedFirstByte, workingPacket).
     let (refreshed, header) = refreshQuicPacketHeader plainHeader unmaskedFirstByte workingPacket in
     bindR (failWith PacketDropped refreshed) (\<lambda>u.
     bindR (guardR (areReservedBitsClear header) ReservedBitsSet) (\<lambda>u.
     bindR (failWith OpenSslException
              (restoreQuicPacketNumber (case_option 0 id (s_largestReceivedPacketNumber state))
                 (h_packetNumber header) (h_packetNumberByteCount header))) (\<lambda>packetNumber.
       Inr (header, workingPacket, packetNumber))))))))"

definition openPayload ::
  "ciphers \<Rightarrow> QuicReceiver \<Rightarrow> PacketNumberSpace \<Rightarrow> QuicPacketHeader \<Rightarrow> bytes \<Rightarrow> u64 \<Rightarrow>
     packet_outcome + bytes \<times> bool" where
  "openPayload crypto receiver space header workingPacket packetNumber =
     (let headerByteCount = h_packetNumberOffset header + h_packetNumberByteCount header in
      bindR (guardR (length workingPacket > headerByteCount + kQuicAuthenticationTagByteLength) PacketDropped) (\<lambda>u.
      bindR (someOr PacketDropped (readingKeys receiver space (h_isKeyPhaseBitSet header) packetNumber))
        (\<lambda>(reading, opensWithNextKeys).
      bindR (someOr OpenSslException
               (openQuicProtectedPayload crypto reading packetNumber (take headerByteCount workingPacket)
                  (drop headerByteCount workingPacket))) (\<lambda>decrypted.
      bindR (failWith PacketDropped decrypted) (\<lambda>plaintext. Inr (plaintext, opensWithNextKeys))))))"

definition openPacket :: "ciphers \<Rightarrow> QuicReceiver \<Rightarrow> bytes \<Rightarrow> QuicPacketHeader \<Rightarrow> packet_outcome" where
  "openPacket crypto receiver packet plainHeader =
     case_sum id id (
       bindR (someOr PacketDropped (levelOf plainHeader)) (\<lambda>space.
       bindR (guardR (isOwnConnectionId receiver space (h_destinationConnectionId plainHeader)) PacketDropped) (\<lambda>u.
       bindR (unprotectHeader crypto (c_spaces receiver space) packet plainHeader)
         (\<lambda>(header, workingPacket, packetNumber).
       bindR (openPayload crypto receiver space header workingPacket packetNumber)
         (\<lambda>(plaintext, opensWithNextKeys).
           Inr (PacketOpened space header packetNumber plaintext opensWithNextKeys))))))"

definition kQuicMaximumTrackedPacketNumbers :: u64 where "kQuicMaximumTrackedPacketNumbers = 4096"

definition kEcnCodepointEctZero :: byte where "kEcnCodepointEctZero = 0x01"
definition kEcnCodepointEctOne :: byte where "kEcnCodepointEctOne = 0x02"
definition kEcnCodepointCe :: byte where "kEcnCodepointCe = 0x03"

definition countEcn :: "byte option \<Rightarrow> u64 \<times> u64 \<times> u64 \<Rightarrow> u64 \<times> u64 \<times> u64" where
  "countEcn incomingEcnCodepoint counts =
     (case (incomingEcnCodepoint, counts) of
        (None, c) \<Rightarrow> c
      | (Some codepoint, ect0, ect1, ce) \<Rightarrow>
          if codepoint = kEcnCodepointEctZero then (ect0 + 1, ect1, ce)
          else if codepoint = kEcnCodepointEctOne then (ect0, ect1 + 1, ce)
          else if codepoint = kEcnCodepointCe then (ect0, ect1, ce + 1) else (ect0, ect1, ce))"

definition noteReceivedPacket :: "byte option \<Rightarrow> SpaceState \<Rightarrow> u64 \<Rightarrow> bool \<times> SpaceState" where
  "noteReceivedPacket incomingEcnCodepoint state packetNumber =
     (case insertPacketNumber packetNumber (s_receivedPacketNumbers state) of
        (False, numbers) \<Rightarrow> (False, state\<lparr>s_receivedPacketNumbers := numbers\<rparr>)
      | (True, numbers) \<Rightarrow>
          (True, state\<lparr>s_receivedEcnCounts := countEcn incomingEcnCodepoint (s_receivedEcnCounts state),
             s_receivedPacketNumbers := dropOldestUntil kQuicMaximumTrackedPacketNumbers numbers,
             s_largestReceivedPacketNumber :=
               (case s_largestReceivedPacketNumber state of
                  None \<Rightarrow> Some packetNumber
                | Some largest \<Rightarrow> if packetNumber > largest then Some packetNumber else Some largest)\<rparr>))"

section \<open>Header protection is undone\<close>

abbreviation xor_bytes :: "bytes \<Rightarrow> bytes \<Rightarrow> bytes" where
  "xor_bytes data key \<equiv> map2 (XOR) data key"

lemma maskPacketNumber_field:
  assumes "length field \<le> length key"
  shows "maskPacketNumber (before @ field @ after) (length before) (length field) (k0 # key)
    = before @ xor_bytes field key @ after"
proof -
  have "maskPacketNumber (before @ field @ after) (length before) n (k0 # key)
      = before @ xor_bytes (take n field) key @ drop n field @ after" if "n \<le> length field" for n
    using that
  proof (induction n)
    case 0
    then show ?case by (simp add: maskPacketNumber_def)
  next
    case (Suc n)
    have n: "n < length field" "n < length key"
      using Suc.prems assms by auto
    have taken: "take (Suc n) field = take n field @ [field ! n]"
      using n by (simp add: take_Suc_conv_app_nth)
    have dropped: "drop n field = field ! n # drop (Suc n) field"
      using n by (simp add: Cons_nth_drop_Suc)
    have zipped: "xor_bytes (take n field @ [field ! n]) key
        = xor_bytes (take n field) key @ [field ! n XOR key ! n]"
      using zip_append1 [of "take n field" "[field ! n]" key] zip_append1 [of "take n field" "[]" key] n
      by (simp add: min_absorb2 Cons_nth_drop_Suc [symmetric])
    have len: "length (xor_bytes (take n field) key) = n"
      using n by simp
    show ?case
      using Suc.IH n len unfolding taken zipped
      by (simp add: maskPacketNumber_def dropped nth_append list_update_append)
  qed
  from this [of "length field"] show ?thesis
    by simp
qed

lemma xor_bytes_twice:
  "length data \<le> length key \<Longrightarrow> xor_bytes (xor_bytes data key) key = data"
  by (intro nth_equalityI) (simp_all add: xor.assoc)

lemma xor_below_mask:
  assumes "c AND d = 0"
  shows "(x XOR (k AND c)) AND d = x AND (d :: byte)"
proof -
  have "(x XOR (k AND c)) AND d = (x AND d) XOR (k AND (c AND d))"
    by (simp add: bit.conj_xor_distrib2 and.assoc)
  then show ?thesis using assms by simp
qed

text \<open>The bits that say how to read the header are never masked.\<close>

lemma masked_first_byte:
  "(x XOR (k AND maskedBitOf long)) AND 0x80 = x AND 0x80"
  "(x XOR (k AND maskedBitOf long)) AND 0x40 = x AND 0x40"
  "(x XOR (k AND maskedBitOf True)) AND 0x30 = x AND 0x30"
  by (simp_all add: maskedBitOf_def xor_below_mask)

lemma unmask_first_byte: "(x XOR (k AND m)) XOR (k AND m) = (x :: byte)"
  by (simp add: xor.assoc)

section \<open>The bytes of a built packet\<close>

definition packet_ok :: "QuicOutboundPacket \<Rightarrow> bool" where
  "packet_ok p \<longleftrightarrow> validOutboundPacket p \<and> length (o_frames p) < 2 ^ 61 \<and> length (o_token p) < 2 ^ 61 \<and>
     (o_isLongHeader p \<longrightarrow> o_version p = kQuicVersion1 \<and> o_longPacketType p \<noteq> LongRetry)"

text \<open>What the code relies on from OpenSSL: sealing keeps the length and gives a 16-byte tag,
  opening what was sealed gives it back, and a mask block has its documented length.\<close>

definition ciphers_ok :: "ciphers \<Rightarrow> bool" where
  "ciphers_ok crypto \<longleftrightarrow>
     (\<forall>suite key iv aad p c t. aeadEncrypt crypto suite key iv aad p = Inr (c, t) \<longrightarrow>
        length c = length p \<and> length t = 16 \<and> aeadDecrypt crypto suite key iv aad c t = Plaintext p) \<and>
     (\<forall>key sample block. aesEcbBlock crypto key sample = Some block \<longrightarrow> length block = 16) \<and>
     (\<forall>key sample zeros. chaCha20Zeros crypto key sample = Some zeros \<longrightarrow> length zeros = 5)"

definition header_rest :: "QuicOutboundPacket \<Rightarrow> bytes" where
  "header_rest p =
     (if o_isLongHeader p
      then versionBytes (o_version p) @ [of_nat (length (o_destinationConnectionId p))]
        @ o_destinationConnectionId p @ [of_nat (length (o_sourceConnectionId p))] @ o_sourceConnectionId p
        @ (if o_longPacketType p = LongInitial
           then varint_bytes (of_nat (length (o_token p))) @ o_token p else [])
        @ varint_bytes (of_nat (o_packetNumberByteCount p + length (paddedPlaintext p) + 16))
      else o_destinationConnectionId p)"

abbreviation first_byte :: "QuicOutboundPacket \<Rightarrow> byte" where
  "first_byte p \<equiv> makeFirstByte p (o_packetNumberByteCount p)"

abbreviation number_bytes :: "QuicOutboundPacket \<Rightarrow> bytes" where
  "number_bytes p \<equiv> be_bytes (o_packetNumberByteCount p) (unat (o_packetNumber p))"

lemma packet_number_bounds:
  assumes "packet_ok p"
  shows "1 \<le> o_packetNumberByteCount p" "o_packetNumberByteCount p \<le> 4"
    "unat (o_packetNumber p) < 2 ^ 62" "length (o_destinationConnectionId p) \<le> 20"
    "o_isLongHeader p \<Longrightarrow> length (o_sourceConnectionId p) \<le> 20"
  using assms varint_ok_unat [of "o_packetNumber p"] by (auto simp: packet_ok_def validOutboundPacket_def)

lemma padded_length:
  assumes "packet_ok p"
  shows "length (paddedPlaintext p) + 4 < 2 ^ 61 + 8" "0 < length (paddedPlaintext p)"
    "4 \<le> o_packetNumberByteCount p + length (paddedPlaintext p)"
  using assms
  by (auto simp: packet_ok_def validOutboundPacket_def paddedPlaintext_def minimumPlaintextByteCount_def)

lemma appendOutboundHeader_bytes:
  assumes "packet_ok p"
  shows "appendOutboundHeader datagram p (length (paddedPlaintext p))
    = Inr (datagram @ first_byte p # header_rest p)"
proof -
  let ?size = "o_packetNumberByteCount p + length (paddedPlaintext p) + 16"
  have size: "?size < 4611686018427387904" "length (o_token p) < 4611686018427387904"
    using padded_length(1) [OF assms] packet_number_bounds [OF assms] assms by (auto simp: packet_ok_def)
  have "varint_ok (of_nat ?size)" "varint_ok (of_nat (length (o_token p)))"
    using size by (simp_all only: kQuicMaximumIntegerValue_eq size_varint_numeral)
  then show ?thesis
    by (auto simp: appendOutboundHeader_def header_rest_def appendIntegersThenRaw_ok append_varint
        appendQuicRawBytes_def Let_def simp del: of_nat_add)
qed

lemma generated_mask:
  assumes "ciphers_ok crypto" "generateQuicHeaderProtectionMask crypto keys sample = Inr m"
  obtains m0 key where "m = m0 # key" "length key = 4"
proof -
  have "length m = 5"
    using assms
    by (auto simp: ciphers_ok_def generateQuicHeaderProtectionMask_def Let_def split: if_splits option.splits)
  then show thesis
    using that by (cases m) auto
qed

lemma first_byte_count:
  assumes "packet_ok p"
  shows "packetNumberByteCountFromFirstByte (first_byte p) = o_packetNumberByteCount p"
    "1 + unat (first_byte p AND kQuicPacketNumberLengthBitMask) = o_packetNumberByteCount p"
proof -
  have "o_packetNumberByteCount p \<in> {1, 2, 3, 4}"
    using packet_number_bounds(1,2) [OF assms] by auto
  then show "1 + unat (first_byte p AND kQuicPacketNumberLengthBitMask) = o_packetNumberByteCount p"
    by (cases "o_longPacketType p") (auto simp: makeFirstByte_def)
  then show "packetNumberByteCountFromFirstByte (first_byte p) = o_packetNumberByteCount p"
    by (simp add: packetNumberByteCountFromFirstByte_def)
qed

lemma sample_of:
  assumes "h_packetNumberOffset h = 1 + length rest" "length field \<le> 4" "20 \<le> length field + length x"
  shows "extractQuicHeaderProtectionSample (b # rest @ field @ x) h
    = Inr (take 16 (drop (4 - length field) x))"
proof -
  have "drop (1 + length rest + 4) ((b # rest @ field) @ x) = drop (4 - length field) x"
    unfolding drop_append using assms by simp
  then have "drop (1 + length rest + 4) (b # rest @ field @ x) = drop (4 - length field) x"
    by simp
  moreover have "length (b # rest @ field @ x) = 1 + length rest + length field + length x"
    by simp
  ultimately show ?thesis
    using assms
    by (simp add: extractQuicHeaderProtectionSample_def Let_def del: append_Cons append_assoc length_append
        length_Cons drop_append drop_Suc_Cons)
qed

lemma appendQuicPacket_shape:
  assumes ok: "packet_ok p" and c: "ciphers_ok crypto"
    and built: "appendQuicPacket crypto datagram p keys = Inr buffer"
  obtains ct tag m0 key where
    "aeadEncrypt crypto (k_cipherSuite keys) (encryptionKeyBytes keys)
       (buildInitializationVector keys (o_packetNumber p))
       (first_byte p # header_rest p @ number_bytes p) (paddedPlaintext p) = Inr (ct, tag)"
    "length ct = length (paddedPlaintext p)" "length tag = 16"
    "generateQuicHeaderProtectionMask crypto keys
       (take 16 (drop (4 - o_packetNumberByteCount p) (ct @ tag))) = Inr (m0 # key)" "length key = 4"
    "buffer = datagram @ (first_byte p XOR (m0 AND maskedBitOf (o_isLongHeader p))) # header_rest p
       @ xor_bytes (number_bytes p) key @ ct @ tag"
proof -
  let ?n = "o_packetNumberByteCount p" and ?P = "paddedPlaintext p"
  let ?head = "first_byte p # header_rest p"
  let ?iv = "buildInitializationVector keys (o_packetNumber p)"
  note n = packet_number_bounds [OF ok]
  have valid: "validOutboundPacket p" using ok by (simp add: packet_ok_def)
  have number: "appendQuicTruncatedPacketNumber b (o_packetNumber p) ?n = Inr (b @ number_bytes p)" for b
    using n by (simp add: appendQuicTruncatedPacketNumber_def encodedBytes_eq)
  have pn_ok: "\<not> kQuicMaximumIntegerValue < o_packetNumber p"
    using valid by (simp add: validOutboundPacket_def not_less)
  obtain ct tag where enc: "aeadEncrypt crypto (k_cipherSuite keys) (encryptionKeyBytes keys) ?iv
      (?head @ number_bytes p) ?P = Inr (ct, tag)"
    using built valid pn_ok number
    by (auto simp: appendQuicPacket_def Let_def appendOutboundHeader_bytes [OF ok] appendQuicProtectedPayload_def
        split: sum.splits)
  have len: "length ct = length ?P" "length tag = 16"
    using c enc unfolding ciphers_ok_def by blast+
  let ?body = "?head @ number_bytes p @ ct @ tag"
  let ?h = "emptyPacketHeader\<lparr>h_isLongHeader := o_isLongHeader p, h_firstByte := first_byte p,
      h_packetNumberOffset := length ?head\<rparr>"
  have sample: "extractQuicHeaderProtectionSample ?body ?h = Inr (take 16 (drop (4 - ?n) (ct @ tag)))"
    using n padded_length(3) [OF ok] len
    using sample_of [where field = "number_bytes p" and h = ?h and rest = "header_rest p"
        and x = "ct @ tag" and b = "first_byte p"] by simp
  have count: "packetNumberByteCountOf (first_byte p) ?body (length ?head) = Inr ?n"
    using first_byte_count(2) [OF ok] n by (simp add: packetNumberByteCountOf_def Let_def)
  have protected: "appendQuicProtectedPayload crypto (datagram @ ?head @ number_bytes p) keys (o_packetNumber p)
      (?head @ number_bytes p) ?P = Inr (datagram @ ?body)"
    using pn_ok enc by (simp add: appendQuicProtectedPayload_def)
  obtain m where m: "generateQuicHeaderProtectionMask crypto keys (take 16 (drop (4 - ?n) (ct @ tag))) = Inr m"
    and buffer: "\<exists>fb protected. applyQuicHeaderProtection ?body ?h m = Inr (fb, protected) \<and>
      buffer = datagram @ protected"
    using built valid number protected sample
    by (auto simp: appendQuicPacket_def Let_def appendOutboundHeader_bytes [OF ok]
        split: sum.splits call_failure.splits)
  obtain m0 key where mk: "m = m0 # key" "length key = 4"
    using generated_mask [OF c m] by blast
  have "maskPacketNumber (?head @ number_bytes p @ (ct @ tag)) (length ?head) (length (number_bytes p)) (m0 # key)
      = ?head @ xor_bytes (number_bytes p) key @ ct @ tag"
    using n mk by (intro maskPacketNumber_field) simp
  then have "buffer = datagram @ (first_byte p XOR (m0 AND maskedBitOf (o_isLongHeader p))) # header_rest p
       @ xor_bytes (number_bytes p) key @ ct @ tag"
    using buffer count mk by (simp add: applyQuicHeaderProtection_def Let_def)
  then show thesis
    using that enc len m mk by simp
qed

section \<open>Reading the header of a built packet\<close>

lemma read_connection_id:
  assumes "dg = pre @ of_nat (length cid) # cid @ post" "length cid \<le> 20"
  shows "readLongHeaderConnectionId dg (length pre) = Inr (cid, length pre + 1 + length cid)"
proof -
  have "unat (of_nat (length cid) :: byte) = length cid"
    using assms(2) by (simp add: unat_of_nat)
  then show ?thesis
    using assms by (simp add: readLongHeaderConnectionId_def Let_def nth_append)
qed

lemma read_token:
  assumes "dg = pre @ varint_bytes (of_nat (length token)) @ token @ post" "length token < 2 ^ 61"
  shows "readInitialToken dg (length pre)
    = Inr (token, length pre + length (varint_bytes (of_nat (length token))) + length token)"
proof -
  have size: "length token < 4611686018427387904" using assms(2) by simp
  then have "varint_ok (of_nat (length token))"
    by (simp only: kQuicMaximumIntegerValue_eq size_varint_numeral)
  from decode_varint_bytes [OF this] show ?thesis
    using size by (simp add: readInitialToken_def Let_def assms(1))
qed

lemma read_length_field:
  assumes "dg = pre @ varint_bytes (of_nat n) @ post" "0 < n" "n < 4611686018427387904" "n \<le> length post"
  shows "readLengthField dg (length pre) = Inr (n, length pre + length (varint_bytes (of_nat n)))"
proof -
  have "varint_ok (of_nat n)"
    using assms(3) by (simp only: kQuicMaximumIntegerValue_eq size_varint_numeral)
  from decode_varint_bytes [OF this] have "decodeQuicVariableLengthInteger (drop (length pre) dg) =
      Inr \<lparr>qi_value = of_nat n, qi_byteCount = quicVariableLengthIntegerByteCount (of_nat n)\<rparr>"
    by (simp add: assms(1))
  moreover have "(of_nat n :: u64) \<noteq> 0"
    using assms(2,3) size_varint_numeral(2) [of n] by (metis less_numeral_extra(3) unsigned_0)
  ultimately show ?thesis
    using assms by (simp add: readLengthField_def Let_def)
qed

definition built_header :: "QuicOutboundPacket \<Rightarrow> byte \<Rightarrow> QuicPacketHeader" where
  "built_header p first =
     (let body = o_packetNumberByteCount p + length (paddedPlaintext p) + 16;
          h = emptyPacketHeader\<lparr>h_firstByte := first, h_isLongHeader := o_isLongHeader p,
            h_destinationConnectionId := o_destinationConnectionId p,
            h_packetNumberOffset := 1 + length (header_rest p),
            h_packetNumberAndPayloadByteCount := body,
            h_packetByteCount := 1 + length (header_rest p) + body\<rparr> in
      if o_isLongHeader p
      then h\<lparr>h_version := 1, h_longPacketType := o_longPacketType p,
             h_sourceConnectionId := o_sourceConnectionId p, h_token := o_token p\<rparr>
      else h)"

lemma first_byte_bits:
  assumes "packet_ok p"
  shows "(first_byte p AND 0x80 = 0) = (\<not> o_isLongHeader p)" "first_byte p AND 0x40 \<noteq> 0"
    "o_isLongHeader p \<Longrightarrow> drop_bit 4 (first_byte p AND 0x30) = longPacketTypeValue (o_longPacketType p)"
    "\<not> o_isLongHeader p \<Longrightarrow> (first_byte p AND 0x04 \<noteq> 0) = o_isKeyPhaseBitSet p"
    "first_byte p AND (if o_isLongHeader p then 0x0C else 0x18) = 0"
proof -
  have "o_packetNumberByteCount p \<in> {1, 2, 3, 4}"
    using packet_number_bounds(1,2) [OF assms] by auto
  then have "((first_byte p AND 0x80 = 0) = (\<not> o_isLongHeader p)) \<and> first_byte p AND 0x40 \<noteq> 0 \<and>
    (o_isLongHeader p \<longrightarrow> drop_bit 4 (first_byte p AND 0x30) = longPacketTypeValue (o_longPacketType p)) \<and>
    (\<not> o_isLongHeader p \<longrightarrow> (first_byte p AND 0x04 \<noteq> 0) = o_isKeyPhaseBitSet p) \<and>
    first_byte p AND (if o_isLongHeader p then 0x0C else 0x18) = 0"
    by (cases "o_longPacketType p") (auto simp: makeFirstByte_def)
  then show "(first_byte p AND 0x80 = 0) = (\<not> o_isLongHeader p)" "first_byte p AND 0x40 \<noteq> 0"
    "o_isLongHeader p \<Longrightarrow> drop_bit 4 (first_byte p AND 0x30) = longPacketTypeValue (o_longPacketType p)"
    "\<not> o_isLongHeader p \<Longrightarrow> (first_byte p AND 0x04 \<noteq> 0) = o_isKeyPhaseBitSet p"
    "first_byte p AND (if o_isLongHeader p then 0x0C else 0x18) = 0"
    by blast+
qed

lemma longPacketTypeOf_value:
  "drop_bit 4 (b AND 0x30) = longPacketTypeValue t \<Longrightarrow> longPacketTypeOf b = t"
  by (cases t) (simp_all add: longPacketTypeOf_def)

lemma decode_built_long:
  assumes ok: "packet_ok p" and long: "o_isLongHeader p"
    and fb: "first AND 0x80 \<noteq> 0" "first AND 0x40 \<noteq> 0"
      "drop_bit 4 (first AND 0x30) = longPacketTypeValue (o_longPacketType p)"
    and body: "o_packetNumberByteCount p + length (paddedPlaintext p) + 16 \<le> length rest"
    and n: "n \<le> 20"
  shows "decodeQuicPacketHeader (first # header_rest p @ rest) n = Inr (Inr (built_header p first))"
proof -
  let ?d = "o_destinationConnectionId p" and ?s = "o_sourceConnectionId p" and ?t = "o_token p"
  let ?size = "o_packetNumberByteCount p + length (paddedPlaintext p) + 16"
  let ?token = "if o_longPacketType p = LongInitial then varint_bytes (of_nat (length ?t)) @ ?t else []"
  let ?dg = "first # header_rest p @ rest"
  define p1 where "p1 = first # versionBytes (o_version p)"
  define p2 where "p2 = p1 @ of_nat (length ?d) # ?d"
  define p3 where "p3 = p2 @ of_nat (length ?s) # ?s"
  define p4 where "p4 = p3 @ ?token"
  note b = packet_number_bounds [OF ok]
  have dg: "?dg = p4 @ varint_bytes (of_nat ?size) @ rest"
    by (simp add: header_rest_def long p4_def p3_def p2_def p1_def)
  have l1: "length p1 = 5" by (simp add: p1_def versionBytes_def)
  have l2: "length p1 + 1 + length ?d = length p2" by (simp add: p2_def)
  have l3: "length p2 + 1 + length ?s = length p3" by (simp add: p3_def)
  have d: "readLongHeaderConnectionId ?dg 5 = Inr (?d, length p2)"
    using read_connection_id [of ?dg p1 ?d] b(4) unfolding l1 [symmetric] l2
    by (simp add: header_rest_def long p1_def)
  have s: "readLongHeaderConnectionId ?dg (length p2) = Inr (?s, length p3)"
    using read_connection_id [of ?dg p2 ?s] b(5) [OF long] unfolding l3
    by (simp add: header_rest_def long p1_def p2_def)
  have initial: "readInitialToken ?dg (length p3) = Inr (?t, length p4)" if "o_longPacketType p = LongInitial"
    using read_token [of ?dg p3 ?t] ok that unfolding dg
    by (simp add: p4_def packet_ok_def)
  have other: "?t = []" "p4 = p3" if "o_longPacketType p \<noteq> LongInitial"
    using ok that by (auto simp: packet_ok_def validOutboundPacket_def p4_def)
  have "?size < 4611686018427387904"
    using padded_length(1) [OF ok] b by simp
  then have size: "readLengthField ?dg (length p4) = Inr (?size, length p4 + length (varint_bytes (of_nat ?size)))"
    using body by (intro read_length_field [OF dg]) simp_all
  have v: "ucast (readBigEndianInteger (drop 1 ?dg) 4) = (1 :: u32)"
    using ok long readBigEndian_version [of "o_version p"] by (simp add: header_rest_def packet_ok_def)
  have offset: "length p4 + length (varint_bytes (of_nat ?size)) = 1 + length (header_rest p)"
  proof -
    have "length ?dg = length p4 + length (varint_bytes (of_nat ?size)) + length rest"
      unfolding dg by simp
    then show ?thesis by simp
  qed
  have len5: "\<not> length ?dg < 5" unfolding dg p4_def p3_def p2_def using l1 by simp
  show ?thesis
    unfolding decodeQuicPacketHeader_def Let_def
    using n fb v len5 d s initial other size ok long unfolding offset
    by (cases "o_longPacketType p = LongInitial")
      (simp_all add: decodeLongHeaderPacket_def longPacketTypeOf_value [OF fb(3)] packet_ok_def
        built_header_def emptyPacketHeader_def)
qed

lemma decode_built_short:
  assumes ok: "packet_ok p" and short: "\<not> o_isLongHeader p"
    and fb: "first AND 0x80 = 0" "first AND 0x40 \<noteq> 0"
    and body: "o_packetNumberByteCount p + length (paddedPlaintext p) + 16 = length rest"
  shows "decodeQuicPacketHeader (first # header_rest p @ rest) (length (o_destinationConnectionId p))
    = Inr (Inr (built_header p first))"
  using packet_number_bounds [OF ok] short fb body
  by (simp add: decodeQuicPacketHeader_def decodeShortHeaderPacket_def header_rest_def built_header_def Let_def
      emptyPacketHeader_def)

section \<open>Opening a built packet\<close>

definition packet_space :: "QuicOutboundPacket \<Rightarrow> PacketNumberSpace option" where
  "packet_space p =
     (if \<not> o_isLongHeader p then Some SpaceApplication
      else if o_longPacketType p = LongInitial then Some SpaceInitial
      else if o_longPacketType p = LongHandshake then Some SpaceHandshake else None)"

text \<open>The receiver knows the connection id, reads the space with the sender's keys, is in the
  same key phase, and has not fallen half a window behind or ahead.\<close>

definition receiver_follows ::
  "QuicReceiver \<Rightarrow> PacketNumberSpace \<Rightarrow> QuicOutboundPacket \<Rightarrow> QuicPacketKeys \<Rightarrow> bool" where
  "receiver_follows receiver space p keys \<longleftrightarrow>
     (let state = c_spaces receiver space; half = 256 ^ o_packetNumberByteCount p div 2;
          largest = case_option 0 id (s_largestReceivedPacketNumber state) in
      isOwnConnectionId receiver space (o_destinationConnectionId p) \<and>
      s_readKeys state = Some keys \<and>
      (space = SpaceApplication \<longrightarrow> o_isKeyPhaseBitSet p = c_isReadKeyPhaseSet receiver) \<and>
      unat largest < 2 ^ 62 \<and>
      unat largest + 1 < unat (o_packetNumber p) + half \<and>
      unat (o_packetNumber p) \<le> unat largest + 1 + half)"

lemma unprotect_built:
  assumes ok: "packet_ok p" and m: "generateQuicHeaderProtectionMask crypto keys
       (take 16 (drop (4 - o_packetNumberByteCount p) x)) = Inr (m0 # key)" and key: "length key = 4"
    and x: "20 \<le> o_packetNumberByteCount p + length x"
    and first: "first = first_byte p XOR (m0 AND maskedBitOf (o_isLongHeader p))"
    and size: "o_packetNumberByteCount p \<le> h_packetNumberAndPayloadByteCount h"
    and h: "h_packetNumberOffset h = 1 + length (header_rest p)" "h_isLongHeader h = o_isLongHeader p"
    and keys: "s_readKeys state = Some keys"
    and largest: "largest = case_option 0 id (s_largestReceivedPacketNumber state)" "unat largest < 2 ^ 62"
    and low: "unat largest + 1 < unat (o_packetNumber p) + 256 ^ o_packetNumberByteCount p div 2"
    and high: "unat (o_packetNumber p) \<le> unat largest + 1 + 256 ^ o_packetNumberByteCount p div 2"
  shows "\<exists>h'. unprotectHeader crypto state
      (first # header_rest p @ xor_bytes (number_bytes p) key @ x) h =
    Inr (h', first_byte p # header_rest p @ number_bytes p @ x, o_packetNumber p) \<and>
    h_packetNumberOffset h' = 1 + length (header_rest p) \<and>
    h_packetNumberByteCount h' = o_packetNumberByteCount p \<and>
    (\<not> o_isLongHeader p \<longrightarrow> h_isKeyPhaseBitSet h' = o_isKeyPhaseBitSet p)"
proof -
  let ?n = "o_packetNumberByteCount p" and ?clear = "first_byte p # header_rest p @ number_bytes p @ x"
  let ?packet = "first # header_rest p @ xor_bytes (number_bytes p) key @ x"
  note n = packet_number_bounds [OF ok]
  have field: "length (xor_bytes (number_bytes p) key) = ?n"
    using n key by simp
  have sample: "extractQuicHeaderProtectionSample ?packet h = Inr (take 16 (drop (4 - ?n) x))"
    using sample_of [where h = h and rest = "header_rest p" and b = first
        and field = "xor_bytes (number_bytes p) key" and x = x] h field n x by simp
  have unmasked: "first XOR (m0 AND maskedBitOf (o_isLongHeader p)) = first_byte p"
    by (simp add: first unmask_first_byte)
  have count: "packetNumberByteCountOf (first_byte p) ?packet (1 + length (header_rest p)) = Inr ?n"
    using first_byte_count(2) [OF ok] field by (simp add: packetNumberByteCountOf_def Let_def)
  have "maskPacketNumber ((first # header_rest p) @ xor_bytes (number_bytes p) key @ x)
      (length (first # header_rest p)) (length (xor_bytes (number_bytes p) key)) (m0 # key)
    = (first # header_rest p) @ xor_bytes (xor_bytes (number_bytes p) key) key @ x"
    using n key field by (intro maskPacketNumber_field) simp
  then have masked: "maskPacketNumber ?packet (1 + length (header_rest p)) ?n (m0 # key)
      = first # header_rest p @ number_bytes p @ x"
    using xor_bytes_twice [of "number_bytes p" key] n key unfolding field by simp
  have removed: "removeQuicHeaderProtection ?packet h (m0 # key) = Inr (first_byte p, ?clear)"
    using count masked unmasked by (simp add: removeQuicHeaderProtection_def h Let_def)
  let ?h1 = "h\<lparr>h_firstByte := first_byte p, h_packetNumberByteCount := ?n,
      h_isSpinBitSet := (first_byte p AND kQuicSpinBitMask \<noteq> 0),
      h_isKeyPhaseBitSet := (first_byte p AND kQuicKeyPhaseBitMask \<noteq> 0),
      h_packetNumber := readBigEndianInteger (number_bytes p @ x) ?n\<rparr>"
  have refreshed: "refreshQuicPacketHeader h (first_byte p) ?clear = (Inr (), ?h1)"
    using h size by (simp add: refreshQuicPacketHeader_def Let_def first_byte_count(1) [OF ok])
  have clear_bits: "areReservedBitsClear ?h1"
    using first_byte_bits(5) [OF ok] h by (simp add: areReservedBitsClear_def)
  have pn: "restoreQuicPacketNumber largest (h_packetNumber ?h1) (h_packetNumberByteCount ?h1) = Inr (o_packetNumber p)"
    using restore_in_window [OF n(1,2) largest(2) n(3) low high, of x] by (simp add: encodedBytes_eq)
  have phase: "\<not> o_isLongHeader p \<Longrightarrow> h_isKeyPhaseBitSet ?h1 = o_isKeyPhaseBitSet p"
    using first_byte_bits(4) [OF ok] by simp
  show ?thesis
    using keys sample m removed refreshed clear_bits pn phase h
    by (intro exI [of _ ?h1]) (simp add: unprotectHeader_def largest(1) [symmetric])
qed

lemma drop_packet:
  "length field = n \<Longrightarrow> drop (1 + length rest + n) (b # rest @ field @ x) = x"
  "length field = n \<Longrightarrow> take (1 + length rest + n) (b # rest @ field @ x) = b # rest @ field"
  by simp_all

text \<open>C1: What \<open>appendQuicPacket\<close> adds to a datagram is one packet that the receiver can take off
  it: whatever packets were there before, and whatever coalesced packets follow a long header,
  \<open>decodeQuicPacketHeader\<close> finds the packet's own header and its exact length, and a receiver
  that follows the sender removes header protection, restores the packet number and decrypts the
  frames (with the padding the builder added). The ciphers are only assumed to open what they
  sealed.\<close>

theorem built_packet_is_opened:
  assumes "ciphers_ok crypto" "packet_ok p"
    and "appendQuicPacket crypto datagram p keys = Inr buffer"
    and "packet_space p = Some space" "receiver_follows receiver space p keys"
    and "o_isLongHeader p \<or> following = []"
  shows "\<exists>packet h h'. buffer = datagram @ packet \<and>
    decodeQuicPacketHeader (packet @ following) (length (o_destinationConnectionId p)) = Inr (Inr h) \<and>
    h_packetByteCount h = length packet \<and>
    h_destinationConnectionId h = o_destinationConnectionId p \<and>
    openPacket crypto receiver packet h =
      PacketOpened space h' (o_packetNumber p) (paddedPlaintext p) False"
proof -
  let ?n = "o_packetNumberByteCount p" and ?P = "paddedPlaintext p"
  note ok = assms(2)
  note n = packet_number_bounds [OF ok]
  obtain ct tag m0 key where
    enc: "aeadEncrypt crypto (k_cipherSuite keys) (encryptionKeyBytes keys)
       (buildInitializationVector keys (o_packetNumber p))
       (first_byte p # header_rest p @ number_bytes p) ?P = Inr (ct, tag)"
    and len: "length ct = length ?P" "length tag = 16"
    and m: "generateQuicHeaderProtectionMask crypto keys (take 16 (drop (4 - ?n) (ct @ tag))) = Inr (m0 # key)"
    and key: "length key = 4"
    and buffer: "buffer = datagram @ (first_byte p XOR (m0 AND maskedBitOf (o_isLongHeader p))) # header_rest p
       @ xor_bytes (number_bytes p) key @ ct @ tag"
    using appendQuicPacket_shape [OF ok assms(1,3)] by metis
  define first where "first = first_byte p XOR (m0 AND maskedBitOf (o_isLongHeader p))"
  define packet where "packet = first # header_rest p @ xor_bytes (number_bytes p) key @ ct @ tag"
  let ?h = "built_header p first"
  have bits: "(first AND 0x80 = 0) = (\<not> o_isLongHeader p)" "first AND 0x40 \<noteq> 0"
    "o_isLongHeader p \<Longrightarrow> drop_bit 4 (first AND 0x30) = longPacketTypeValue (o_longPacketType p)"
    using first_byte_bits(1-3) [OF ok] by (simp_all add: first_def masked_first_byte)
  have field: "length (xor_bytes (number_bytes p) key) = ?n"
    using n key by simp
  have packet_length: "length packet = 1 + length (header_rest p) + (?n + length ?P + 16)"
    using field len by (simp add: packet_def)
  have decoded: "decodeQuicPacketHeader (packet @ following) (length (o_destinationConnectionId p)) = Inr (Inr ?h)"
  proof (cases "o_isLongHeader p")
    case True
    then show ?thesis
      using decode_built_long [OF ok True _ bits(2,3), of "xor_bytes (number_bytes p) key @ ct @ tag @ following"]
        bits(1) field len n by (simp add: packet_def)
  next
    case False
    then show ?thesis
      using decode_built_short [OF ok False _ bits(2), of "xor_bytes (number_bytes p) key @ ct @ tag"]
        bits(1) field len assms(6) by (simp add: packet_def)
  qed
  have h: "h_packetNumberOffset ?h = 1 + length (header_rest p)" "h_isLongHeader ?h = o_isLongHeader p"
    "?n \<le> h_packetNumberAndPayloadByteCount ?h" "h_packetByteCount ?h = length packet"
    "h_destinationConnectionId ?h = o_destinationConnectionId p"
    unfolding packet_length by (simp_all add: built_header_def Let_def emptyPacketHeader_def)
  have level: "levelOf ?h = Some space"
    using assms(4) ok
    by (cases "o_longPacketType p") (auto simp: levelOf_def built_header_def Let_def emptyPacketHeader_def
        packet_space_def packet_ok_def split: if_splits)
  let ?state = "c_spaces receiver space"
  define largest where "largest = case_option 0 id (s_largestReceivedPacketNumber ?state)"
  have follows: "isOwnConnectionId receiver space (o_destinationConnectionId p)" "s_readKeys ?state = Some keys"
    "space = SpaceApplication \<Longrightarrow> o_isKeyPhaseBitSet p = c_isReadKeyPhaseSet receiver"
    "unat largest < 2 ^ 62" "unat largest + 1 < unat (o_packetNumber p) + 256 ^ ?n div 2"
    "unat (o_packetNumber p) \<le> unat largest + 1 + 256 ^ ?n div 2"
    using assms(5) unfolding receiver_follows_def largest_def Let_def by blast+
  have short: "space = SpaceApplication \<Longrightarrow> \<not> o_isLongHeader p"
    using assms(4) by (auto simp: packet_space_def split: if_splits)
  obtain h' where unprotected: "unprotectHeader crypto ?state packet ?h =
      Inr (h', first_byte p # header_rest p @ number_bytes p @ ct @ tag, o_packetNumber p)"
    and h': "h_packetNumberOffset h' = 1 + length (header_rest p)" "h_packetNumberByteCount h' = ?n"
    "\<not> o_isLongHeader p \<longrightarrow> h_isKeyPhaseBitSet h' = o_isKeyPhaseBitSet p"
    using unprotect_built [OF ok m key _ first_def h(3,1,2) follows(2) largest_def follows(4-6)]
      padded_length(3) [OF ok] len unfolding packet_def by auto
  have reading: "readingKeys receiver space (h_isKeyPhaseBitSet h') (o_packetNumber p) = Some (keys, False)"
    using follows(2,3) short h'(3) by (auto simp: readingKeys_def Let_def)
  have dec: "aeadDecrypt crypto (k_cipherSuite keys) (encryptionKeyBytes keys)
       (buildInitializationVector keys (o_packetNumber p))
       (first_byte p # header_rest p @ number_bytes p) ct tag = Plaintext ?P"
    using assms(1) enc unfolding ciphers_ok_def by blast
  have payload: "openPayload crypto receiver space h'
      (first_byte p # header_rest p @ number_bytes p @ ct @ tag) (o_packetNumber p) = Inr (?P, False)"
    using dec reading len padded_length(2) [OF ok] drop_packet [of "number_bytes p" ?n]
    by (simp add: openPayload_def h' openQuicProtectedPayload_def Let_def)
  have "openPacket crypto receiver packet ?h = PacketOpened space h' (o_packetNumber p) ?P False"
    using level follows(1) h(5) unprotected payload by (simp add: openPacket_def)
  then show ?thesis
    using decoded h(4,5) buffer unfolding packet_def [symmetric] first_def [symmetric] by blast
qed

text \<open>Toy ciphers that satisfy the contract: a fixed keystream, a tag made of the associated
  data and the initialization vector.\<close>

definition toy_tag :: "bytes \<Rightarrow> bytes \<Rightarrow> bytes" where
  "toy_tag iv aad = replicate 16 (fold (XOR) (iv @ aad) 0x77)"

definition toy_ciphers :: ciphers where
  "toy_ciphers = \<lparr>aesEcbBlock = (\<lambda>key sample. Some (replicate 16 0x5A)),
     chaCha20Zeros = (\<lambda>key sample. Some (replicate 5 0xA5)),
     aeadEncrypt = (\<lambda>suite key iv aad p. Inr (map ((XOR) 0x3C) p, toy_tag iv aad)),
     aeadDecrypt = (\<lambda>suite key iv aad c t. if t = toy_tag iv aad then Plaintext (map ((XOR) 0x3C) c) else TagMismatch)\<rparr>"

lemma toy_ciphers_ok: "ciphers_ok toy_ciphers"
proof -
  have "map ((XOR) (0x3C :: byte)) (map ((XOR) 0x3C) p) = p" for p
    by (induction p) (simp_all flip: xor.assoc)
  then show ?thesis
    by (auto simp: ciphers_ok_def toy_ciphers_def toy_tag_def)
qed

definition example_keys :: QuicPacketKeys where
  "example_keys = \<lparr>k_cipherSuite = Aes128Gcm, k_encryptionKey = replicate 32 1,
     k_initializationVector = replicate 12 2, k_headerProtectionKey = replicate 32 3\<rparr>"

definition example_packet :: QuicOutboundPacket where
  "example_packet = \<lparr>o_isLongHeader = True, o_longPacketType = LongInitial, o_version = 1,
     o_destinationConnectionId = [1, 2, 3, 4], o_sourceConnectionId = [9], o_token = [8, 8],
     o_packetNumber = 300, o_packetNumberByteCount = 2, o_isKeyPhaseBitSet = False, o_frames = [1]\<rparr>"

definition example_receiver :: QuicReceiver where
  "example_receiver = \<lparr>c_localConnectionId = [1, 2, 3, 4], c_issuedConnectionIds = [],
     c_originalDestinationConnectionId = [],
     c_spaces = (\<lambda>space. \<lparr>s_readKeys = Some example_keys, s_nextReadKeys = None, s_previousReadKeys = None,
       s_largestReceivedPacketNumber = Some 290, s_receivedPacketNumbers = emptyReceivedPacketNumbers,
       s_receivedEcnCounts = (0, 0, 0)\<rparr>), c_isReadKeyPhaseSet = False\<rparr>"

theorem built_packet_is_opened_witness:
  "\<exists>packet h h'. appendQuicPacket toy_ciphers [0xEE] example_packet example_keys = Inr ([0xEE] @ packet) \<and>
    decodeQuicPacketHeader (packet @ [0xC0, 0]) 4 = Inr (Inr h) \<and>
    openPacket toy_ciphers example_receiver packet h = PacketOpened SpaceInitial h' 300 [1, 0] False"
proof -
  have "case appendQuicPacket toy_ciphers [0xEE] example_packet example_keys of Inr b \<Rightarrow> True | Inl e \<Rightarrow> False"
    by code_simp
  then obtain buffer where buffer: "appendQuicPacket toy_ciphers [0xEE] example_packet example_keys = Inr buffer"
    by (auto split: sum.splits)
  have ok: "packet_ok example_packet"
    by (simp add: packet_ok_def validOutboundPacket_def example_packet_def)
  have space: "packet_space example_packet = Some SpaceInitial"
    by (simp add: packet_space_def example_packet_def)
  have follows: "receiver_follows example_receiver SpaceInitial example_packet example_keys"
    by (simp add: receiver_follows_def example_receiver_def example_packet_def isOwnConnectionId_def)
  have frames: "paddedPlaintext example_packet = [1, 0]" "o_packetNumber example_packet = 300"
    "o_destinationConnectionId example_packet = [1, 2, 3, 4]" "o_isLongHeader example_packet"
    by (simp_all add: paddedPlaintext_def example_packet_def minimumPlaintextByteCount_def)
  show ?thesis
    using built_packet_is_opened [OF toy_ciphers_ok ok buffer space follows, of "[0xC0, 0]"] buffer frames
    by (auto simp: numeral_eq_Suc simp del: replicate.simps)
qed

end
