(* ===== verification/QuicReceive.thy ===== *)
theory QuicReceive
  imports QuicPacket
begin

text \<open>
  Retry packets read back (\<open>QuicPacketBuilder.cpp\<close>, \<open>decodeQuicRetryPacket\<close>), and the
  duplicate filter of \<open>QuicConnectionCore::noteReceivedPacket\<close>: what it promises, and where
  the bound on remembered numbers makes it accept a packet again.
\<close>

section \<open>Retry\<close>

lemma retryWithoutTag_eq:
  "retryWithoutTag y = 0xFF # versionBytes (y_version y)
     @ of_nat (length (y_destinationConnectionId y)) # y_destinationConnectionId y
     @ of_nat (length (y_sourceConnectionId y)) # y_sourceConnectionId y @ y_token y"
  by (simp add: retryWithoutTag_def appendQuicRawBytes_def Let_def)

text \<open>C12: A Retry packet built for a client is read back field by field by the client and passes
  its integrity check against the client's original destination connection id.\<close>

theorem retry_roundtrip:
  assumes "ciphers_ok crypto" "y_version y = kQuicVersion1"
    and "appendQuicRetryPacket crypto datagram y = Inr buffer"
  shows "\<exists>packet h. buffer = datagram @ packet \<and>
    decodeQuicRetryPacket packet (y_originalDestinationConnectionId y) = Inr h \<and>
    r_destinationConnectionId h = y_destinationConnectionId y \<and>
    r_sourceConnectionId h = y_sourceConnectionId y \<and> r_token h = y_token y \<and> r_token h \<noteq> [] \<and>
    verifyQuicRetryPacketIntegrity crypto h packet"
proof -
  let ?d = "y_destinationConnectionId y" and ?s = "y_sourceConnectionId y" and ?o = "y_originalDestinationConnectionId y"
  let ?built = "retryWithoutTag y"
  have valid: "validRetryPacket y"
    using assms(3) by (auto simp: appendQuicRetryPacket_def split: if_splits)
  then have bounds: "length ?d \<le> 20" "length ?s \<le> 20" "length ?o \<le> 20" "y_token y \<noteq> []"
    by (auto simp: validRetryPacket_def)
  obtain tag where enc: "aeadEncrypt crypto Aes128Gcm (encryptionKeyBytes retryIntegrityKeys)
      (buildInitializationVector retryIntegrityKeys 0) (retryPseudoPacket ?o ?built) [] = Inr ([], tag)"
    and buffer: "buffer = datagram @ ?built @ tag"
  proof -
    obtain ct tag where e: "aeadEncrypt crypto Aes128Gcm (encryptionKeyBytes retryIntegrityKeys)
      (buildInitializationVector retryIntegrityKeys 0) (retryPseudoPacket ?o ?built) [] = Inr (ct, tag)"
      "buffer = datagram @ ?built @ ct @ tag"
      using assms(3) valid
      by (auto simp: appendQuicRetryPacket_def appendQuicProtectedPayload_def Let_def retryIntegrityKeys_def
          split: sum.splits thrown.splits)
    moreover have "length ct = length ([] :: bytes)"
      using assms(1) e(1) unfolding ciphers_ok_def by blast
    ultimately show thesis using that by simp
  qed
  have tag: "length tag = 16"
    and dec: "aeadDecrypt crypto Aes128Gcm (encryptionKeyBytes retryIntegrityKeys)
      (buildInitializationVector retryIntegrityKeys 0) (retryPseudoPacket ?o ?built) [] tag = Plaintext []"
    using assms(1) enc unfolding ciphers_ok_def by blast+
  define packet where "packet = ?built @ tag"
  define h where "h = \<lparr>r_version = 1, r_destinationConnectionId = ?d, r_sourceConnectionId = ?s,
    r_token = y_token y, r_originalDestinationConnectionId = ?o\<rparr>"
  define p1 p2 where "p1 = 0xFF # versionBytes (y_version y)" and "p2 = p1 @ of_nat (length ?d) # ?d"
  have l1: "length p1 = 5" by (simp add: p1_def versionBytes_def)
  have l2: "length p1 + 1 + length ?d = length p2" by (simp add: p2_def)
  have d: "readLongHeaderConnectionId packet 5 = Inr (?d, length p2)"
    using read_connection_id [of packet p1 ?d] bounds(1) unfolding l1 [symmetric] l2
    by (simp add: packet_def retryWithoutTag_eq p1_def)
  have s: "readLongHeaderConnectionId packet (length p2) = Inr (?s, length p2 + 1 + length ?s)"
    using read_connection_id [of packet p2 ?s] bounds(2)
    by (simp add: packet_def retryWithoutTag_eq p1_def p2_def)
  have v: "ucast (readBigEndianInteger (drop 1 packet) 4) = (1 :: u32)"
    using assms(2) readBigEndian_version [of "y_version y"] by (simp add: packet_def retryWithoutTag_eq)
  have split: "packet = (p2 @ of_nat (length ?s) # ?s) @ y_token y @ tag"
    by (simp add: packet_def retryWithoutTag_eq p1_def p2_def)
  have rest: "drop (length p2 + 1 + length ?s) packet = y_token y @ tag"
    unfolding split drop_append by simp
  have len: "length packet = length p2 + 1 + length ?s + length (y_token y) + 16"
    unfolding split using tag by simp
  have head: "packet ! 0 = 0xFF" by (simp add: packet_def retryWithoutTag_eq)
  have "0 < length (y_token y)" using bounds(4) by simp
  then have decoded: "decodeQuicRetryPacket packet ?o = Inr h"
    using d s v len rest head tag l1 l2 by (simp add: decodeQuicRetryPacket_def Let_def h_def)
  have "take (length packet - 16) packet = ?built" "drop (length packet - 16) packet = tag"
    using tag by (simp_all add: packet_def)
  then have "verifyQuicRetryPacketIntegrity crypto h packet"
    using dec bounds tag len
    by (simp add: verifyQuicRetryPacketIntegrity_def openQuicProtectedPayload_def h_def retryIntegrityKeys_def Let_def)
  then show ?thesis
    using decoded buffer bounds(4) unfolding packet_def [symmetric] by (auto simp: h_def)
qed

theorem retry_roundtrip_witness:
  "\<exists>packet h. decodeQuicRetryPacket packet [1, 2, 3] = Inr h \<and> r_token h = [7, 7] \<and>
    verifyQuicRetryPacketIntegrity toy_ciphers h packet"
proof -
  let ?y = "\<lparr>y_originalDestinationConnectionId = [1, 2, 3], y_destinationConnectionId = [5],
    y_sourceConnectionId = [6], y_token = [7, 7], y_version = 1\<rparr>"
  have "case appendQuicRetryPacket toy_ciphers [] ?y of Inr b \<Rightarrow> True | Inl e \<Rightarrow> False"
    by code_simp
  then obtain buffer where "appendQuicRetryPacket toy_ciphers [] ?y = Inr buffer"
    by (auto split: sum.splits)
  from retry_roundtrip [OF toy_ciphers_ok _ this] show ?thesis
    by auto
qed

section \<open>Duplicates\<close>

lemma note_covered:
  fixes ecn :: "byte option" and state :: SpaceState and pn :: u64
  assumes "ranges_inv (s_receivedPacketNumbers state)" "varint_ok pn"
  defines "state' \<equiv> snd (noteReceivedPacket ecn state pn)"
  shows "ranges_inv (s_receivedPacketNumbers state')"
    "newest (covered (s_receivedPacketNumbers state')) (insert pn (covered (s_receivedPacketNumbers state)))"
    "fst (noteReceivedPacket ecn state pn) \<longleftrightarrow> pn \<notin> covered (s_receivedPacketNumbers state)"
    "pn \<notin> covered (s_receivedPacketNumbers state) \<Longrightarrow> card (covered (s_receivedPacketNumbers state')) =
       min (card (insert pn (covered (s_receivedPacketNumbers state)))) 4096"
proof -
  let ?s = "s_receivedPacketNumbers state"
  obtain new numbers where ins: "insertPacketNumber pn ?s = (new, numbers)" by fastforce
  have f: "ranges_inv numbers" "covered numbers = insert pn (covered ?s)" "new \<longleftrightarrow> pn \<notin> covered ?s"
    using insertPacketNumber_facts [OF assms(1,2)] ins by simp_all
  note d = dropOldestUntil_spec [OF f(1), of kQuicMaximumTrackedPacketNumbers]
  show "fst (noteReceivedPacket ecn state pn) \<longleftrightarrow> pn \<notin> covered ?s"
    using f(3) ins by (cases new) (simp_all add: noteReceivedPacket_def)
  show "ranges_inv (s_receivedPacketNumbers state')"
    using f(1) d ins by (cases new) (simp_all add: state'_def noteReceivedPacket_def)
  show "newest (covered (s_receivedPacketNumbers state')) (insert pn (covered ?s))"
    using f(2,3) d ins by (cases new) (simp_all add: state'_def noteReceivedPacket_def newest_refl)
  show "card (covered (s_receivedPacketNumbers state')) = min (card (insert pn (covered ?s))) 4096"
    if "pn \<notin> covered ?s"
    using f(2,3) d ins that by (simp add: state'_def noteReceivedPacket_def kQuicMaximumTrackedPacketNumbers_def)
qed

definition receiveAll :: "(byte option \<times> u64) list \<Rightarrow> SpaceState \<Rightarrow> SpaceState" where
  "receiveAll arrivals state = fold (\<lambda>(ecn, n) state. snd (noteReceivedPacket ecn state n)) arrivals state"

text \<open>A remembered number is forgotten only when 4096 greater ones are remembered.\<close>

lemma note_keeps:
  assumes inv: "ranges_inv (s_receivedPacketNumbers state)" and n: "varint_ok n"
    and mem: "pn \<in> insert n (covered (s_receivedPacketNumbers state))"
    and few: "card {x \<in> insert n (covered (s_receivedPacketNumbers state)). pn < x} < 4096"
  shows "pn \<in> covered (s_receivedPacketNumbers (snd (noteReceivedPacket ecn state n)))"
proof (cases "n \<in> covered (s_receivedPacketNumbers state)")
  case True
  obtain new numbers where ins: "insertPacketNumber n (s_receivedPacketNumbers state) = (new, numbers)"
    by fastforce
  have "\<not> new" "covered numbers = covered (s_receivedPacketNumbers state)"
    using insertPacketNumber_facts [OF inv n] True ins by auto
  then show ?thesis
    using mem True ins by (simp add: noteReceivedPacket_def insert_absorb)
next
  case False
  let ?C = "insert n (covered (s_receivedPacketNumbers state))"
  let ?K = "covered (s_receivedPacketNumbers (snd (noteReceivedPacket ecn state n)))"
  note c = note_covered [OF inv n, where ecn = ecn]
  show ?thesis
  proof (rule ccontr)
    assume "pn \<notin> ?K"
    then have above: "?K \<subseteq> {x \<in> ?C. pn < x}"
      using c(2) mem unfolding newest_def by blast
    then have "card ?K \<le> card {x \<in> ?C. pn < x}"
      by (intro card_mono) simp_all
    then have "card ?K < 4096" using few by simp
    then have "card ?K = card ?C" using c(4) [OF False] by simp
    then have "?K = ?C"
      using c(2) unfolding newest_def by (intro card_subset_eq) simp_all
    then show False using \<open>pn \<notin> ?K\<close> mem by simp
  qed
qed

lemma receiveAll_keeps:
  assumes "ranges_inv (s_receivedPacketNumbers state)" "\<forall>(ecn, n) \<in> set arrivals. varint_ok n"
    and "pn \<in> covered (s_receivedPacketNumbers state)"
    and "card {x \<in> covered (s_receivedPacketNumbers state) \<union> snd ` set arrivals. pn < x} < 4096"
  shows "pn \<in> covered (s_receivedPacketNumbers (receiveAll arrivals state)) \<and>
    ranges_inv (s_receivedPacketNumbers (receiveAll arrivals state))"
  using assms
proof (induction arrivals arbitrary: state)
  case (Cons a arrivals)
  obtain ecn n where a: "a = (ecn, n)" by fastforce
  let ?next = "snd (noteReceivedPacket ecn state n)"
  let ?all = "covered (s_receivedPacketNumbers state) \<union> snd ` set (a # arrivals)"
  have n: "varint_ok n" using Cons.prems(2) a by auto
  note c = note_covered [OF Cons.prems(1) n, where ecn = ecn]
  have sub: "covered (s_receivedPacketNumbers ?next) \<subseteq> insert n (covered (s_receivedPacketNumbers state))"
    using c(2) by (simp add: newest_def)
  have few: "card A < 4096" if "A \<subseteq> {x \<in> ?all. pn < x}" for A
    using card_mono [OF _ that] Cons.prems(4) by simp
  have keep: "pn \<in> covered (s_receivedPacketNumbers ?next)"
    using Cons.prems(1,3) n by (intro note_keeps few) (auto simp: a)
  have "pn \<in> covered (s_receivedPacketNumbers (receiveAll arrivals ?next)) \<and>
    ranges_inv (s_receivedPacketNumbers (receiveAll arrivals ?next))"
    using c(1) Cons.prems(2) keep sub by (intro Cons.IH few) (auto simp: a)
  then show ?case
    by (simp add: receiveAll_def a)
qed (simp add: receiveAll_def)

text \<open>C3: A packet number is delivered once: after a packet was accepted it is refused when it
  arrives again, in whatever order other packets came in between, as long as fewer than 4096
  greater numbers are known.\<close>

theorem duplicate_refused_within_window:
  assumes "ranges_inv (s_receivedPacketNumbers state)" "varint_ok pn"
    and "\<forall>(ecn, n) \<in> set arrivals. varint_ok n"
    and "card {x \<in> covered (s_receivedPacketNumbers state) \<union> snd ` set arrivals. pn < x} < 4096"
  shows "\<not> fst (noteReceivedPacket ecn' (receiveAll arrivals (snd (noteReceivedPacket ecn state pn))) pn)"
proof -
  let ?one = "snd (noteReceivedPacket ecn state pn)"
  note c = note_covered [OF assms(1,2), where ecn = ecn]
  have few: "card A < 4096"
    if "A \<subseteq> {x \<in> covered (s_receivedPacketNumbers state) \<union> snd ` set arrivals. pn < x}" for A
    using card_mono [OF _ that] assms(4) by simp
  have one: "pn \<in> covered (s_receivedPacketNumbers ?one)"
    using assms(1,2) by (intro note_keeps few) auto
  have "pn \<in> covered (s_receivedPacketNumbers (receiveAll arrivals ?one)) \<and>
    ranges_inv (s_receivedPacketNumbers (receiveAll arrivals ?one))"
    using c(1,2) assms(3) one by (intro receiveAll_keeps few) (auto simp: newest_def)
  then show ?thesis
    using note_covered(3) [OF _ assms(2)] by blast
qed

definition freshSpace :: SpaceState where
  "freshSpace = \<lparr>s_readKeys = None, s_nextReadKeys = None, s_previousReadKeys = None,
     s_largestReceivedPacketNumber = None, s_receivedPacketNumbers = emptyReceivedPacketNumbers,
     s_receivedEcnCounts = (0, 0, 0)\<rparr>"

theorem duplicate_refused_within_window_witness:
  "\<not> fst (noteReceivedPacket None (receiveAll [(Some 1, 7), (None, 3)]
      (snd (noteReceivedPacket None freshSpace 5))) 5)"
proof (rule duplicate_refused_within_window)
  have "{x. (x = 7 \<or> x = 3) \<and> (5::u64) < x} \<subseteq> {7}" by auto
  then have "card {x. (x = 7 \<or> x = 3) \<and> (5::u64) < x} \<le> card {7 :: u64}"
    by (intro card_mono) simp_all
  then show "card {x \<in> covered (s_receivedPacketNumbers freshSpace) \<union> snd ` set [(Some 1 :: byte option, 7), (None, 3)].
      (5::u64) < x} < 4096"
    by (simp add: freshSpace_def)
qed (simp_all add: freshSpace_def)

text \<open>C9: Outside that window the filter fails: a packet older than everything remembered, while
  4096 numbers are remembered, is accepted every time it arrives, because it is inserted and
  trimmed again at once. RFC 9000 section 13.1, which \<open>insert\<close> quotes, forbids delivering the
  same packet number twice.\<close>

theorem forgotten_packet_accepted_again:
  assumes "ranges_inv (s_receivedPacketNumbers state)" "varint_ok pn"
    and "card (covered (s_receivedPacketNumbers state)) = 4096"
    and "\<forall>x \<in> covered (s_receivedPacketNumbers state). pn < x"
  shows "fst (noteReceivedPacket ecn state pn) \<and>
    fst (noteReceivedPacket ecn' (snd (noteReceivedPacket ecn state pn)) pn) \<and>
    covered (s_receivedPacketNumbers (snd (noteReceivedPacket ecn state pn))) =
      covered (s_receivedPacketNumbers state)"
proof -
  let ?C = "covered (s_receivedPacketNumbers state)"
  let ?K = "covered (s_receivedPacketNumbers (snd (noteReceivedPacket ecn state pn)))"
  have new: "pn \<notin> ?C" using assms(4) by blast
  note c = note_covered [OF assms(1,2), where ecn = ecn]
  have size: "card ?K = 4096"
    using c(4) [OF new] new assms(3) by simp
  have newest: "?K \<subseteq> insert pn ?C" "\<forall>x \<in> ?K. \<forall>y \<in> insert pn ?C - ?K. y < x"
    using c(2) unfolding newest_def by blast+
  have "pn \<notin> ?K"
  proof
    assume "pn \<in> ?K"
    have "y \<in> ?K" if y: "y \<in> insert pn ?C" for y
    proof (rule ccontr)
      assume "y \<notin> ?K"
      then have "y < pn" "y \<in> ?C" using y \<open>pn \<in> ?K\<close> newest(2) by blast+
      then show False using assms(4) by (meson less_asym)
    qed
    then have "insert pn ?C - ?K = {}" by blast
    then have "card (insert pn ?C) \<le> card ?K" by (intro card_mono) auto
    then show False using size new assms(3) by simp
  qed
  then have "?K = ?C"
    using newest(1) size assms(3) by (intro card_subset_eq) auto
  then show ?thesis
    using new c(3) note_covered(3) [OF c(1) assms(2), where ecn = ecn'] by simp
qed

lemma numbers_1_to_4096: "card (set (map of_nat [1..<4097] :: u64 list)) = 4096"
proof -
  have "inj_on (of_nat :: nat \<Rightarrow> u64) {1..<4097}"
    by (intro inj_onI) (simp add: word_unat_eq_iff unat_of_nat)
  then show ?thesis by (simp add: card_image)
qed

theorem forgotten_packet_accepted_again_witness:
  "let state = freshSpace\<lparr>s_receivedPacketNumbers := receivedPacketNumbersOf (map of_nat [1..<4097])\<rparr> in
   fst (noteReceivedPacket None state 0) \<and>
   fst (noteReceivedPacket None (snd (noteReceivedPacket None state 0)) 0)"
proof -
  let ?ns = "map of_nat [1..<4097] :: u64 list"
  let ?state = "freshSpace\<lparr>s_receivedPacketNumbers := receivedPacketNumbersOf ?ns\<rparr>"
  have small: "varint_ok n \<and> 0 < n" if n: "n \<in> set ?ns" for n
  proof -
    obtain k where "n = of_nat k" "1 \<le> k" "k < 4097" using n by auto
    then show ?thesis by (simp add: word_le_nat_alt word_less_nat_alt unat_of_nat)
  qed
  then have "\<forall>n \<in> set ?ns. varint_ok n" by blast
  from received.ins_all [OF empty_ranges_inv(1) this]
  have s: "ranges_inv (receivedPacketNumbersOf ?ns)" "covered (receivedPacketNumbersOf ?ns) = set ?ns"
    by (simp_all add: receivedPacketNumbersOf_def)
  show ?thesis
    unfolding Let_def
    using forgotten_packet_accepted_again [of ?state 0 None None] s numbers_1_to_4096 small
    by (simp del: set_map)
qed

end
