(* ===== verification/QuicParameters.thy ===== *)
theory QuicParameters
  imports QuicFrameDecode
begin

text \<open>
  Transport parameters, \<open>src/Net/Quic/Codec/QuicTransportParameters.{h,cpp}\<close>: the two binding
  tables, the encoder, and the decoder with its checks of role, duplicates, lengths and ranges.
  \<open>ParameterReader::readInteger\<close> and \<open>readBytes\<close> are the functions of the same names over the
  unread suffix.
\<close>

section \<open>Data\<close>

datatype QuicTransportParameterSenderRole = Client | Server

record QuicTransportParameters =
  originalDestinationConnectionId :: "bytes option"
  maximumIdleTimeoutMilliseconds :: u64
  statelessResetToken :: "bytes option"
  maximumUdpPayloadSize :: u64
  initialMaximumData :: u64
  initialMaximumStreamDataBidirectionalLocal :: u64
  initialMaximumStreamDataBidirectionalRemote :: u64
  initialMaximumStreamDataUnidirectional :: u64
  initialMaximumBidirectionalStreams :: u64
  initialMaximumUnidirectionalStreams :: u64
  acknowledgmentDelayExponent :: u64
  maximumAcknowledgmentDelayMilliseconds :: u64
  disableActiveMigration :: bool
  activeConnectionIdLimit :: u64
  initialSourceConnectionId :: "bytes option"
  retrySourceConnectionId :: "bytes option"

definition defaultTransportParameters :: QuicTransportParameters where
  "defaultTransportParameters = \<lparr>originalDestinationConnectionId = None, maximumIdleTimeoutMilliseconds = 0,
     statelessResetToken = None, maximumUdpPayloadSize = 65507, initialMaximumData = 0,
     initialMaximumStreamDataBidirectionalLocal = 0, initialMaximumStreamDataBidirectionalRemote = 0,
     initialMaximumStreamDataUnidirectional = 0, initialMaximumBidirectionalStreams = 0,
     initialMaximumUnidirectionalStreams = 0, acknowledgmentDelayExponent = 3,
     maximumAcknowledgmentDelayMilliseconds = 25, disableActiveMigration = False,
     activeConnectionIdLimit = 2, initialSourceConnectionId = None, retrySourceConnectionId = None\<rparr>"

definition kQuicStatelessResetTokenLength :: nat where
  "kQuicStatelessResetTokenLength = kQuicStatelessResetTokenByteLength"

definition kQuicMaximumAcknowledgmentDelayBound :: u64 where
  "kQuicMaximumAcknowledgmentDelayBound = push_bit 14 1"

definition isServerOnlyIdentifier :: "u64 \<Rightarrow> bool" where
  "isServerOnlyIdentifier identifier \<longleftrightarrow>
     identifier = 0x00 \<or> identifier = 0x02 \<or> identifier = 0x0d \<or> identifier = 0x10"

text \<open>A pointer to member is a pair of reader and writer.\<close>

record IntegerParameterBinding =
  ib_identifier :: u64
  ib_get :: "QuicTransportParameters \<Rightarrow> u64"
  ib_set :: "u64 \<Rightarrow> QuicTransportParameters \<Rightarrow> QuicTransportParameters"
  ib_minimumValue :: u64
  ib_maximumValue :: u64

abbreviation integer_binding where
  "integer_binding i g s lo hi \<equiv> \<lparr>ib_identifier = i, ib_get = g, ib_set = (\<lambda>v p. s (\<lambda>_. v) p),
     ib_minimumValue = lo, ib_maximumValue = hi\<rparr>"

definition kIntegerParameters :: "IntegerParameterBinding list" where
  "kIntegerParameters = [
     integer_binding 0x01 maximumIdleTimeoutMilliseconds maximumIdleTimeoutMilliseconds_update
       0 kQuicMaximumIntegerValue,
     integer_binding 0x03 maximumUdpPayloadSize maximumUdpPayloadSize_update 1200 kQuicMaximumIntegerValue,
     integer_binding 0x04 initialMaximumData initialMaximumData_update 0 kQuicMaximumIntegerValue,
     integer_binding 0x05 initialMaximumStreamDataBidirectionalLocal
       initialMaximumStreamDataBidirectionalLocal_update 0 kQuicMaximumIntegerValue,
     integer_binding 0x06 initialMaximumStreamDataBidirectionalRemote
       initialMaximumStreamDataBidirectionalRemote_update 0 kQuicMaximumIntegerValue,
     integer_binding 0x07 initialMaximumStreamDataUnidirectional
       initialMaximumStreamDataUnidirectional_update 0 kQuicMaximumIntegerValue,
     integer_binding 0x08 initialMaximumBidirectionalStreams initialMaximumBidirectionalStreams_update
       0 kQuicMaximumStreamLimitValue,
     integer_binding 0x09 initialMaximumUnidirectionalStreams initialMaximumUnidirectionalStreams_update
       0 kQuicMaximumStreamLimitValue,
     integer_binding 0x0a acknowledgmentDelayExponent acknowledgmentDelayExponent_update 0 20,
     integer_binding 0x0b maximumAcknowledgmentDelayMilliseconds
       maximumAcknowledgmentDelayMilliseconds_update 0 (kQuicMaximumAcknowledgmentDelayBound - 1),
     integer_binding 0x0e activeConnectionIdLimit activeConnectionIdLimit_update 2 kQuicMaximumIntegerValue]"

record ConnectionIdParameterBinding =
  cb_identifier :: u64
  cb_get :: "QuicTransportParameters \<Rightarrow> bytes option"
  cb_set :: "bytes option \<Rightarrow> QuicTransportParameters \<Rightarrow> QuicTransportParameters"

abbreviation cid_binding where
  "cid_binding i g s \<equiv> \<lparr>cb_identifier = i, cb_get = g, cb_set = (\<lambda>v p. s (\<lambda>_. v) p)\<rparr>"

definition kConnectionIdParameters :: "ConnectionIdParameterBinding list" where
  "kConnectionIdParameters = [
     cid_binding 0x00 originalDestinationConnectionId originalDestinationConnectionId_update,
     cid_binding 0x0f initialSourceConnectionId initialSourceConnectionId_update,
     cid_binding 0x10 retrySourceConnectionId retrySourceConnectionId_update]"

section \<open>Encoding\<close>

definition appendParameter :: "bytes \<Rightarrow> u64 \<Rightarrow> bytes \<Rightarrow> appended" where
  "appendParameter buffer identifier data =
     appendIntegersThenRaw buffer [identifier, of_nat (length data)] data"

definition appendIntegerParameter :: "bytes \<Rightarrow> u64 \<Rightarrow> u64 \<Rightarrow> appended" where
  "appendIntegerParameter buffer identifier v =
     (case appendQuicVariableLengthInteger [] v of
        Inl e \<Rightarrow> Inl (InvalidArgumentException buffer)
      | Inr encodedValue \<Rightarrow> appendParameter buffer identifier encodedValue)"

text \<open>A loop of appends: the first exception ends it.\<close>

primrec appendEach :: "(bytes \<Rightarrow> 'b \<Rightarrow> appended) \<Rightarrow> bytes \<Rightarrow> 'b list \<Rightarrow> appended" where
  "appendEach f buffer [] = Inr buffer"
| "appendEach f buffer (b # bs) = bindR (f buffer b) (\<lambda>buffer. appendEach f buffer bs)"

definition appendQuicTransportParameters :: "bytes \<Rightarrow> QuicTransportParameters \<Rightarrow> appended" where
  "appendQuicTransportParameters buffer parameters =
     bindR (appendEach (\<lambda>buffer binding. case cb_get binding parameters of
              None \<Rightarrow> Inr buffer | Some v \<Rightarrow> appendParameter buffer (cb_identifier binding) v)
            buffer kConnectionIdParameters) (\<lambda>buffer.
     bindR (appendEach (\<lambda>buffer binding.
              appendIntegerParameter buffer (ib_identifier binding) (ib_get binding parameters))
            buffer kIntegerParameters) (\<lambda>buffer.
     bindR (case statelessResetToken parameters of
              None \<Rightarrow> Inr buffer | Some token \<Rightarrow> appendParameter buffer 0x02 token) (\<lambda>buffer.
       if disableActiveMigration parameters then appendParameter buffer 0x0c [] else Inr buffer)))"

section \<open>Decoding\<close>

definition readIntegerValue :: "bytes \<Rightarrow> QuicDecodeErrorKind + u64" where
  "readIntegerValue data =
     (case decodeQuicVariableLengthInteger data of
        Inl e \<Rightarrow> Inl Truncated
      | Inr decoded \<Rightarrow> if qi_byteCount decoded \<noteq> length data then Inl Malformed else Inr (qi_value decoded))"

definition readConnectionIdValue :: "bytes \<Rightarrow> QuicDecodeErrorKind + bytes" where
  "readConnectionIdValue data =
     (if length data > kQuicMaximumConnectionIdLength then Inl Malformed else Inr data)"

definition markSeen :: "u64 \<Rightarrow> u64 \<Rightarrow> QuicDecodeErrorKind + u64" where
  "markSeen seenMask identifier =
     (if seenMask AND push_bit (unat identifier) 1 \<noteq> 0 then Inl Malformed
      else Inr (seenMask OR push_bit (unat identifier) 1))"

text \<open>One turn of the loop after identifier and value were read.\<close>

definition applyParameter ::
  "QuicTransportParameterSenderRole \<Rightarrow> u64 \<Rightarrow> bytes \<Rightarrow> QuicTransportParameters \<times> u64 \<Rightarrow>
     QuicDecodeErrorKind + QuicTransportParameters \<times> u64" where
  "applyParameter senderRole identifier data state =
     (case state of (parameters, seenMask) \<Rightarrow>
      if isServerOnlyIdentifier identifier \<and> senderRole = Client then Inl Malformed
      else case find (\<lambda>candidate. ib_identifier candidate = identifier) kIntegerParameters of
        Some binding \<Rightarrow>
          bindR (markSeen seenMask identifier) (\<lambda>seenMask.
          bindR (readIntegerValue data) (\<lambda>parsed.
            if parsed < ib_minimumValue binding \<or> parsed > ib_maximumValue binding then Inl Malformed
            else Inr (ib_set binding parsed parameters, seenMask)))
      | None \<Rightarrow>
      case find (\<lambda>candidate. cb_identifier candidate = identifier) kConnectionIdParameters of
        Some binding \<Rightarrow>
          bindR (markSeen seenMask identifier) (\<lambda>seenMask.
          bindR (readConnectionIdValue data) (\<lambda>parsed.
            Inr (cb_set binding (Some parsed) parameters, seenMask)))
      | None \<Rightarrow>
          if identifier = 0x02 then
            bindR (markSeen seenMask identifier) (\<lambda>seenMask.
              if length data \<noteq> kQuicStatelessResetTokenLength then Inl Malformed
              else Inr (parameters\<lparr>statelessResetToken := Some data\<rparr>, seenMask))
          else if identifier = 0x0c then
            bindR (markSeen seenMask identifier) (\<lambda>seenMask.
              if data \<noteq> [] then Inl Malformed
              else Inr (parameters\<lparr>disableActiveMigration := True\<rparr>, seenMask))
          else Inr (parameters, seenMask))"

definition readParameter :: "bytes \<Rightarrow> QuicDecodeErrorKind + (u64 \<times> bytes) \<times> bytes" where
  "readParameter unread =
     bindR (readInteger unread) (\<lambda>(identifier, unread).
     bindR (readInteger unread) (\<lambda>(size, unread).
     bindR (readBytes (unat size) unread) (\<lambda>(data, unread). Inr ((identifier, data), unread))))"

lemma readParameter_consumes [consumes]:
  "readParameter bs = Inr (p, rest) \<Longrightarrow> length rest < length bs"
  by (auto simp: readParameter_def readBytes_def elim!: bindR_InrE split: if_splits
      dest!: readInteger_consumes)

function decodeParametersLoop ::
  "QuicTransportParameterSenderRole \<Rightarrow> bytes \<Rightarrow> QuicTransportParameters \<times> u64 \<Rightarrow>
     QuicDecodeErrorKind + QuicTransportParameters \<times> u64" where
  "decodeParametersLoop senderRole unread state =
     (if unread = [] then Inr state
      else case readParameter unread of
        Inl e \<Rightarrow> Inl e
      | Inr ((identifier, data), rest) \<Rightarrow>
          bindR (applyParameter senderRole identifier data state) (decodeParametersLoop senderRole rest))"
  by pat_completeness auto
termination
  by (relation "measure (\<lambda>(senderRole, unread, state). length unread)") (auto dest: readParameter_consumes)

declare decodeParametersLoop.simps [simp del]

definition decodeQuicTransportParameters ::
  "bytes \<Rightarrow> QuicTransportParameterSenderRole \<Rightarrow> QuicDecodeErrorKind + QuicTransportParameters" where
  "decodeQuicTransportParameters data senderRole =
     bindR (decodeParametersLoop senderRole data (defaultTransportParameters, 0)) (\<lambda>(parameters, seenMask).
       if initialSourceConnectionId parameters = None then Inl Malformed
       else if senderRole = Server \<and> originalDestinationConnectionId parameters = None then Inl Malformed
       else Inr parameters)"

section \<open>Parameters on the wire\<close>

definition raw_parameter :: "u64 \<times> bytes \<Rightarrow> bytes" where
  "raw_parameter p = varint_bytes (fst p) @ varint_bytes (of_nat (length (snd p))) @ snd p"

definition raw_ok :: "u64 \<times> bytes \<Rightarrow> bool" where
  "raw_ok p \<longleftrightarrow> varint_ok (fst p) \<and> size_ok (snd p)"

lemma readParameter_raw:
  "raw_ok p \<Longrightarrow> readParameter (raw_parameter p @ rest) = Inr (p, rest)"
proof -
  assume p: "raw_ok p"
  obtain i v where iv: "p = (i, v)" by fastforce
  have s: "length v < 4611686018427387904" and i: "varint_ok i" using p by (auto simp: raw_ok_def iv)
  then have "varint_ok (of_nat (length v))"
    by (simp only: kQuicMaximumIntegerValue_eq size_varint_numeral)
  then show ?thesis
    using s i by (simp add: readParameter_def raw_parameter_def iv readInteger_varint readBytes_def)
qed

interpretation parameter: wire_codec raw_ok raw_parameter readParameter
  by unfold_locales (auto simp: readParameter_raw dest: readParameter_consumes)

text \<open>The loop over well-formed input is the loop over the parameters.\<close>

primrec applyParameters ::
  "QuicTransportParameterSenderRole \<Rightarrow> (u64 \<times> bytes) list \<Rightarrow> QuicTransportParameters \<times> u64 \<Rightarrow>
     QuicDecodeErrorKind + QuicTransportParameters \<times> u64" where
  "applyParameters role [] state = Inr state"
| "applyParameters role (p # ps) state =
     bindR (applyParameter role (fst p) (snd p) state) (applyParameters role ps)"

lemma decodeParametersLoop_raw:
  "(\<forall>p \<in> set ps. raw_ok p) \<Longrightarrow>
   decodeParametersLoop role (concat (map raw_parameter ps)) state = applyParameters role ps state"
proof (induction ps arbitrary: state)
  case (Cons p ps)
  obtain i v where p: "p = (i, v)" by fastforce
  have ok: "raw_ok p" using Cons.prems by simp
  have "decodeParametersLoop role (raw_parameter p @ concat (map raw_parameter ps)) state
      = bindR (applyParameter role i v state) (decodeParametersLoop role (concat (map raw_parameter ps)))"
    using readParameter_raw [OF ok] parameter.enc_nonempty [OF ok]
    by (subst decodeParametersLoop.simps) (simp add: p)
  moreover have "decodeParametersLoop role (concat (map raw_parameter ps)) = applyParameters role ps"
    using Cons by (intro ext) simp
  ultimately show ?case by (simp add: p)
qed (simp add: decodeParametersLoop.simps)

section \<open>Unknown parameters\<close>

definition recognised :: "QuicTransportParameterSenderRole \<Rightarrow> u64 \<Rightarrow> bool" where
  "recognised role identifier \<longleftrightarrow> identifier \<le> 0x10 \<and> (identifier = 0x0d \<longrightarrow> role = Client)"

lemma unrecognised_ignored:
  assumes "\<not> recognised role identifier"
  shows "applyParameter role identifier data state = Inr state"
proof -
  have "find (\<lambda>c. ib_identifier c = identifier) kIntegerParameters = None"
    "find (\<lambda>c. cb_identifier c = identifier) kConnectionIdParameters = None"
    "identifier \<noteq> 0x02" "identifier \<noteq> 0x0c" "\<not> (isServerOnlyIdentifier identifier \<and> role = Client)"
    using assms
    by (auto simp: recognised_def kIntegerParameters_def kConnectionIdParameters_def isServerOnlyIdentifier_def
        find_None_iff)
  then show ?thesis
    by (cases state) (simp add: applyParameter_def)
qed

lemma applyParameters_recognised:
  "applyParameters role ps state = applyParameters role (filter (\<lambda>p. recognised role (fst p)) ps) state"
proof (induction ps arbitrary: state)
  case (Cons p ps)
  have "applyParameters role ps = applyParameters role (filter (\<lambda>p. recognised role (fst p)) ps)"
    using Cons.IH by (intro ext)
  then show ?case
    using unrecognised_ignored [of role "fst p" "snd p" state] by simp
qed simp

text \<open>Parameters with an unknown identifier are ignored wherever they stand: the decoder gives
  the same parameters, or the same error, as on the sequence without them.\<close>

theorem unknown_parameters_ignored:
  assumes "\<forall>p \<in> set ps. raw_ok p"
  shows "decodeQuicTransportParameters (concat (map raw_parameter ps)) role =
    decodeQuicTransportParameters
      (concat (map raw_parameter (filter (\<lambda>p. recognised role (fst p)) ps))) role"
  using decodeParametersLoop_raw [OF assms, of role] decodeParametersLoop_raw [of _ role]
    applyParameters_recognised [of role ps] assms
  by (simp add: decodeQuicTransportParameters_def)

theorem unknown_parameters_ignored_witness:
  "decodeQuicTransportParameters (concat (map raw_parameter [(0x1b, [9]), (0x0f, [1]), (0x1234, [])])) Client =
   decodeQuicTransportParameters (concat (map raw_parameter [(0x0f, [1])])) Client"
proof -
  have "\<forall>p \<in> set [(0x1b, [9]), (0x0f, [1]), (0x1234, [])]. raw_ok p"
    by (simp add: raw_ok_def)
  from unknown_parameters_ignored [OF this, of Client] show ?thesis
    by (simp add: recognised_def)
qed

section \<open>What the decoder accepts\<close>

definition in_range :: "QuicTransportParameters \<Rightarrow> bool" where
  "in_range p \<longleftrightarrow>
     varint_ok (maximumIdleTimeoutMilliseconds p) \<and>
     1200 \<le> maximumUdpPayloadSize p \<and> varint_ok (maximumUdpPayloadSize p) \<and>
     varint_ok (initialMaximumData p) \<and>
     varint_ok (initialMaximumStreamDataBidirectionalLocal p) \<and>
     varint_ok (initialMaximumStreamDataBidirectionalRemote p) \<and>
     varint_ok (initialMaximumStreamDataUnidirectional p) \<and>
     initialMaximumBidirectionalStreams p \<le> kQuicMaximumStreamLimitValue \<and>
     initialMaximumUnidirectionalStreams p \<le> kQuicMaximumStreamLimitValue \<and>
     acknowledgmentDelayExponent p \<le> 20 \<and> maximumAcknowledgmentDelayMilliseconds p < 16384 \<and>
     2 \<le> activeConnectionIdLimit p \<and> varint_ok (activeConnectionIdLimit p)"

definition lengths_ok :: "QuicTransportParameters \<Rightarrow> bool" where
  "lengths_ok p \<longleftrightarrow>
     (\<forall>v. originalDestinationConnectionId p = Some v \<longrightarrow> length v \<le> 20) \<and>
     (\<forall>v. initialSourceConnectionId p = Some v \<longrightarrow> length v \<le> 20) \<and>
     (\<forall>v. retrySourceConnectionId p = Some v \<longrightarrow> length v \<le> 20) \<and>
     (\<forall>v. statelessResetToken p = Some v \<longrightarrow> length v = 16)"

definition role_ok :: "QuicTransportParameterSenderRole \<Rightarrow> QuicTransportParameters \<Rightarrow> bool" where
  "role_ok role p \<longleftrightarrow> role = Client \<longrightarrow>
     originalDestinationConnectionId p = None \<and> retrySourceConnectionId p = None \<and> statelessResetToken p = None"

lemma bound_16384: "kQuicMaximumAcknowledgmentDelayBound - 1 = 16383"
  by (simp add: kQuicMaximumAcknowledgmentDelayBound_def)

lemma le_16383: "(v :: u64) \<le> 16383 \<longleftrightarrow> v < 16384"
  by (auto simp: word_le_nat_alt word_less_nat_alt)

lemma binding_in_range:
  assumes "b \<in> set kIntegerParameters" "\<not> v < ib_minimumValue b" "\<not> v > ib_maximumValue b"
  shows "in_range p \<Longrightarrow> in_range (ib_set b v p)" "lengths_ok p \<Longrightarrow> lengths_ok (ib_set b v p)"
    "role_ok role p \<Longrightarrow> role_ok role (ib_set b v p)"
  using assms
  by (auto simp: kIntegerParameters_def in_range_def lengths_ok_def role_ok_def bound_16384 not_less le_16383)

lemma applyParameter_valid:
  assumes "applyParameter role i v (p, m) = Inr (q, n)" "in_range p" "lengths_ok p" "role_ok role p"
  shows "in_range q \<and> lengths_ok q \<and> role_ok role q"
proof (cases "find (\<lambda>c. ib_identifier c = i) kIntegerParameters")
  case (Some b)
  then have "b \<in> set kIntegerParameters" by (auto simp: find_Some_iff)
  then show ?thesis
    using assms Some binding_in_range
    by (auto simp: applyParameter_def split: if_splits elim!: bindR_InrE)
next
  case None
  show ?thesis
  proof (cases "find (\<lambda>c. cb_identifier c = i) kConnectionIdParameters")
    case (Some b)
    then have "b \<in> set kConnectionIdParameters" "cb_identifier b = i" by (auto simp: find_Some_iff)
    then show ?thesis
      using assms None Some
      by (auto simp: applyParameter_def kConnectionIdParameters_def isServerOnlyIdentifier_def
          readConnectionIdValue_def in_range_def lengths_ok_def role_ok_def split: if_splits elim!: bindR_InrE)
  next
    case cid: None
    then show ?thesis
      using assms None
      by (auto simp: applyParameter_def isServerOnlyIdentifier_def kQuicStatelessResetTokenLength_def
          in_range_def lengths_ok_def role_ok_def split: if_splits elim!: bindR_InrE)
  qed
qed

lemma decodeParametersLoop_valid:
  "decodeParametersLoop role bs (p, m) = Inr (q, n) \<Longrightarrow> in_range p \<Longrightarrow> lengths_ok p \<Longrightarrow> role_ok role p \<Longrightarrow>
   in_range q \<and> lengths_ok q \<and> role_ok role q"
proof (induction "length bs" arbitrary: bs p m rule: less_induct)
  case less
  show ?case
  proof (cases "bs = []")
    case True
    then show ?thesis using less.prems by (simp add: decodeParametersLoop.simps)
  next
    case False
    then obtain i v rest p' m' where r: "readParameter bs = Inr ((i, v), rest)"
      and a: "applyParameter role i v (p, m) = Inr (p', m')"
      and l: "decodeParametersLoop role rest (p', m') = Inr (q, n)"
      using less.prems(1) by (subst (asm) decodeParametersLoop.simps)
        (auto split: sum.splits elim!: bindR_InrE)
    show ?thesis
      using less.hyps [OF readParameter_consumes [OF r] l] applyParameter_valid [OF a less.prems(2-4)] by blast
  qed
qed

text \<open>C20: Parameters the decoder accepts are within the bounds of RFC 9000 section 18.2: every
  integer in its range, connection ids of at most 20 bytes, a reset token of 16 bytes, nothing
  server-only from a client, and the connection ids that must be present are.\<close>

theorem decoded_parameters_valid:
  assumes "decodeQuicTransportParameters data role = Inr p"
  shows "in_range p \<and> lengths_ok p \<and> role_ok role p \<and> initialSourceConnectionId p \<noteq> None \<and>
    (role = Server \<longrightarrow> originalDestinationConnectionId p \<noteq> None)"
proof -
  obtain m where loop: "decodeParametersLoop role data (defaultTransportParameters, 0) = Inr (p, m)"
    and ids: "initialSourceConnectionId p \<noteq> None"
      "role = Server \<longrightarrow> originalDestinationConnectionId p \<noteq> None"
    using assms by (auto simp: decodeQuicTransportParameters_def elim!: bindR_InrE split: if_splits)
  have "in_range defaultTransportParameters \<and> lengths_ok defaultTransportParameters \<and>
      role_ok role defaultTransportParameters"
    by (simp add: in_range_def lengths_ok_def role_ok_def defaultTransportParameters_def)
  then show ?thesis
    using decodeParametersLoop_valid [OF loop] ids by blast
qed

theorem decoded_parameters_valid_witness:
  "\<exists>p. decodeQuicTransportParameters [0x0f, 1, 7, 0x0a, 1, 5] Client = Inr p \<and>
    acknowledgmentDelayExponent p = 5 \<and> in_range p"
proof -
  have "case decodeQuicTransportParameters [0x0f, 1, 7, 0x0a, 1, 5] Client of
      Inr p \<Rightarrow> acknowledgmentDelayExponent p = 5 | Inl e \<Rightarrow> False"
    by code_simp
  then obtain p where p: "decodeQuicTransportParameters [0x0f, 1, 7, 0x0a, 1, 5] Client = Inr p"
    "acknowledgmentDelayExponent p = 5"
    by (auto split: sum.splits)
  then show ?thesis
    using decoded_parameters_valid [OF p(1)] by blast
qed

section \<open>Round trip\<close>

definition parameter_list :: "QuicTransportParameters \<Rightarrow> (u64 \<times> bytes) list" where
  "parameter_list p =
     (case originalDestinationConnectionId p of None \<Rightarrow> [] | Some v \<Rightarrow> [(0x00, v)]) @
     (case initialSourceConnectionId p of None \<Rightarrow> [] | Some v \<Rightarrow> [(0x0f, v)]) @
     (case retrySourceConnectionId p of None \<Rightarrow> [] | Some v \<Rightarrow> [(0x10, v)]) @
     map (\<lambda>b. (ib_identifier b, varint_bytes (ib_get b p))) kIntegerParameters @
     (case statelessResetToken p of None \<Rightarrow> [] | Some v \<Rightarrow> [(0x02, v)]) @
     (if disableActiveMigration p then [(0x0c, [])] else [])"

definition identifier_bit :: "u64 \<Rightarrow> u64 \<Rightarrow> bool" where
  "identifier_bit m i \<longleftrightarrow> bit m (unat i)"

lemma push_bit_one: "bit (push_bit k 1 :: u64) j \<longleftrightarrow> k = j \<and> j < 64"
  by (auto simp: bit_simps)

lemma markSeen_unseen:
  assumes "\<not> identifier_bit m i"
  shows "markSeen m i = Inr (m OR push_bit (unat i) 1)"
proof -
  have "m AND push_bit (unat i) 1 = 0"
    using assms by (intro bit_word_eqI) (auto simp: bit_simps identifier_bit_def)
  then show ?thesis by (simp add: markSeen_def)
qed

lemma identifier_bit_marked:
  "identifier_bit (m OR push_bit (unat i) 1) j \<Longrightarrow> identifier_bit m j \<or> i = j"
  by (auto simp: identifier_bit_def bit_or_iff push_bit_one word_unat_eq_iff bit_exp_iff)

text \<open>The effect of a parameter that is accepted.\<close>

definition setParameter :: "u64 \<times> bytes \<Rightarrow> QuicTransportParameters \<Rightarrow> QuicTransportParameters" where
  "setParameter p q =
     (case find (\<lambda>c. ib_identifier c = fst p) kIntegerParameters of
        Some b \<Rightarrow> ib_set b (projr (readIntegerValue (snd p))) q
      | None \<Rightarrow>
      case find (\<lambda>c. cb_identifier c = fst p) kConnectionIdParameters of
        Some b \<Rightarrow> cb_set b (Some (snd p)) q
      | None \<Rightarrow>
        if fst p = 0x02 then q\<lparr>statelessResetToken := Some (snd p)\<rparr>
        else q\<lparr>disableActiveMigration := True\<rparr>)"

definition acceptable :: "QuicTransportParameterSenderRole \<Rightarrow> u64 \<times> bytes \<Rightarrow> bool" where
  "acceptable role p \<longleftrightarrow>
     \<not> (isServerOnlyIdentifier (fst p) \<and> role = Client) \<and>
     (case find (\<lambda>c. ib_identifier c = fst p) kIntegerParameters of
        Some b \<Rightarrow> (\<exists>v. readIntegerValue (snd p) = Inr v \<and> ib_minimumValue b \<le> v \<and> v \<le> ib_maximumValue b)
      | None \<Rightarrow>
      case find (\<lambda>c. cb_identifier c = fst p) kConnectionIdParameters of
        Some b \<Rightarrow> length (snd p) \<le> 20
      | None \<Rightarrow> fst p = 0x02 \<and> length (snd p) = 16 \<or> fst p = 0x0c \<and> snd p = [])"

lemma applyParameter_acceptable:
  assumes "acceptable role p" "\<not> identifier_bit m (fst p)"
  shows "applyParameter role (fst p) (snd p) (q, m) = Inr (setParameter p q, m OR push_bit (unat (fst p)) 1)"
proof -
  note seen = markSeen_unseen [OF assms(2)]
  have role: "\<not> (isServerOnlyIdentifier (fst p) \<and> role = Client)"
    using assms(1) by (simp add: acceptable_def)
  show ?thesis
  proof (cases "find (\<lambda>c. ib_identifier c = fst p) kIntegerParameters")
    case (Some b)
    then obtain v where "readIntegerValue (snd p) = Inr v" "ib_minimumValue b \<le> v" "v \<le> ib_maximumValue b"
      using assms(1) by (auto simp: acceptable_def)
    then show ?thesis
      using Some role seen by (auto simp: applyParameter_def setParameter_def not_less)
  next
    case None
    show ?thesis
    proof (cases "find (\<lambda>c. cb_identifier c = fst p) kConnectionIdParameters")
      case (Some b)
      then show ?thesis
        using None role seen assms(1)
        by (auto simp: applyParameter_def setParameter_def acceptable_def readConnectionIdValue_def)
    next
      case cid: None
      then have "fst p = 0x02 \<and> length (snd p) = 16 \<or> fst p = 0x0c \<and> snd p = []"
        using None assms(1) by (simp add: acceptable_def)
      then show ?thesis
        using None cid role seen
        by (elim disjE) (simp_all add: applyParameter_def setParameter_def kQuicStatelessResetTokenLength_def)
    qed
  qed
qed

lemma applyParameters_acceptable:
  assumes "\<forall>p \<in> set ps. acceptable role p" "\<forall>p \<in> set ps. \<not> identifier_bit m (fst p)"
    and "distinct (map fst ps)"
  shows "\<exists>n. applyParameters role ps (q, m) = Inr (fold setParameter ps q, n)"
  using assms
proof (induction ps arbitrary: q m)
  case (Cons p ps)
  have "\<exists>n. applyParameters role ps (setParameter p q, m OR push_bit (unat (fst p)) 1)
      = Inr (fold setParameter ps (setParameter p q), n)"
  proof (rule Cons.IH)
    show "\<forall>x \<in> set ps. \<not> identifier_bit (m OR push_bit (unat (fst p)) 1) (fst x)"
    proof
      fix x assume x: "x \<in> set ps"
      then have "fst p \<noteq> fst x" "\<not> identifier_bit m (fst x)"
        using Cons.prems(2,3) by (auto simp: image_iff)
      then show "\<not> identifier_bit (m OR push_bit (unat (fst p)) 1) (fst x)"
        using identifier_bit_marked by blast
    qed
  qed (use Cons.prems in simp_all)
  then show ?case
    using Cons.prems applyParameter_acceptable [of role p m q] by simp
qed simp

lemma readIntegerValue_varint: "varint_ok v \<Longrightarrow> readIntegerValue (varint_bytes v) = Inr v"
  using decode_varint_bytes [of v "[]"] by (simp add: readIntegerValue_def)

lemma find_binding:
  "b \<in> set kIntegerParameters \<Longrightarrow> find (\<lambda>c. ib_identifier c = ib_identifier b) kIntegerParameters = Some b"
  by (auto simp: kIntegerParameters_def)

lemma binding_bounds:
  assumes "in_range p" "b \<in> set kIntegerParameters"
  shows "ib_minimumValue b \<le> ib_get b p \<and> ib_get b p \<le> ib_maximumValue b \<and> varint_ok (ib_get b p) \<and>
    \<not> isServerOnlyIdentifier (ib_identifier b)"
  using assms
  by (auto simp: kIntegerParameters_def in_range_def isServerOnlyIdentifier_def bound_16384 le_16383
      word_le_nat_alt word_less_nat_alt)

lemma parameter_list_acceptable:
  assumes "in_range p" "lengths_ok p" "role_ok role p"
  shows "\<forall>x \<in> set (parameter_list p). acceptable role x"
proof -
  have "acceptable role (ib_identifier b, varint_bytes (ib_get b p))" if "b \<in> set kIntegerParameters" for b
    using binding_bounds [OF assms(1) that] find_binding [OF that] readIntegerValue_varint
    by (simp add: acceptable_def)
  moreover have "acceptable role (0x00, v)" if "originalDestinationConnectionId p = Some v" for v
    using assms(2,3) that
    by (auto simp: acceptable_def lengths_ok_def role_ok_def kIntegerParameters_def kConnectionIdParameters_def)
  moreover have "acceptable role (0x0f, v)" if "initialSourceConnectionId p = Some v" for v
    using assms(2) that
    by (auto simp: acceptable_def lengths_ok_def kIntegerParameters_def kConnectionIdParameters_def
        isServerOnlyIdentifier_def)
  moreover have "acceptable role (0x10, v)" if "retrySourceConnectionId p = Some v" for v
    using assms(2,3) that
    by (auto simp: acceptable_def lengths_ok_def role_ok_def kIntegerParameters_def kConnectionIdParameters_def)
  moreover have "acceptable role (0x02, v)" if "statelessResetToken p = Some v" for v
    using assms(2,3) that
    by (auto simp: acceptable_def lengths_ok_def role_ok_def kIntegerParameters_def kConnectionIdParameters_def)
  moreover have "acceptable role (0x0c, [])"
    by (simp add: acceptable_def kIntegerParameters_def kConnectionIdParameters_def isServerOnlyIdentifier_def)
  ultimately show ?thesis
    by (auto simp: parameter_list_def split: option.splits if_splits)
qed

lemma parameter_list_distinct: "distinct (map fst (parameter_list p))"
  by (simp add: parameter_list_def kIntegerParameters_def split: option.splits)

lemma set_integer:
  "b \<in> set kIntegerParameters \<Longrightarrow> varint_ok v \<Longrightarrow>
   setParameter (ib_identifier b, varint_bytes v) q = ib_set b v q"
  by (simp add: setParameter_def find_binding readIntegerValue_varint)

lemma set_integers:
  assumes "\<forall>b \<in> set bs. b \<in> set kIntegerParameters \<and> varint_ok (ib_get b p)"
  shows "fold setParameter (map (\<lambda>b. (ib_identifier b, varint_bytes (ib_get b p))) bs) q
    = fold (\<lambda>b. ib_set b (ib_get b p)) bs q"
  using assms by (induction bs arbitrary: q) (simp_all add: set_integer)

lemma set_other:
  "setParameter (0x00, v) q = q\<lparr>originalDestinationConnectionId := Some v\<rparr>"
  "setParameter (0x0f, v) q = q\<lparr>initialSourceConnectionId := Some v\<rparr>"
  "setParameter (0x10, v) q = q\<lparr>retrySourceConnectionId := Some v\<rparr>"
  "setParameter (0x02, v) q = q\<lparr>statelessResetToken := Some v\<rparr>"
  "setParameter (0x0c, v) q = q\<lparr>disableActiveMigration := True\<rparr>"
  by (simp_all add: setParameter_def kIntegerParameters_def kConnectionIdParameters_def)

lemma parameter_list_effect:
  assumes "in_range p"
  shows "fold setParameter (parameter_list p) defaultTransportParameters = p"
proof -
  have "\<forall>b \<in> set kIntegerParameters. b \<in> set kIntegerParameters \<and> varint_ok (ib_get b p)"
    using binding_bounds [OF assms] by blast
  note ints = set_integers [OF this]
  show ?thesis
    unfolding parameter_list_def fold_append comp_def ints
    by (cases p) (simp add: set_other kIntegerParameters_def defaultTransportParameters_def split: option.splits)
qed

lemma parameter_list_raw_ok:
  assumes "in_range p" "lengths_ok p"
  shows "\<forall>x \<in> set (parameter_list p). raw_ok x"
proof -
  have "raw_ok (ib_identifier b, varint_bytes (ib_get b p))" if "b \<in> set kIntegerParameters" for b
  proof -
    have "length (varint_bytes (ib_get b p)) \<le> 8"
      by (simp add: quicVariableLengthIntegerByteCount_def)
    then show ?thesis
      using that by (auto simp: raw_ok_def kIntegerParameters_def)
  qed
  moreover have "raw_ok (i, v)" if "length v \<le> 20" "varint_ok i" for i v
    using that by (simp add: raw_ok_def)
  ultimately show ?thesis
    using assms(2) by (auto simp: parameter_list_def lengths_ok_def split: option.splits if_splits)
qed

section \<open>What the encoder writes\<close>

lemma appendParameter_raw:
  "raw_ok x \<Longrightarrow> appendParameter buf (fst x) (snd x) = Inr (buf @ raw_parameter x)"
proof -
  assume x: "raw_ok x"
  then have "length (snd x) < 4611686018427387904" by (simp add: raw_ok_def)
  then have "varint_ok (of_nat (length (snd x)))"
    by (simp only: kQuicMaximumIntegerValue_eq size_varint_numeral)
  then show ?thesis
    using x by (simp add: appendParameter_def appendIntegersThenRaw_ok raw_parameter_def raw_ok_def)
qed

lemma appendEach_bytes:
  assumes "\<And>buf b. b \<in> set bs \<Longrightarrow> f buf b = Inr (buf @ g b)"
  shows "appendEach f buf bs = Inr (buf @ concat (map g bs))"
  using assms by (induction bs arbitrary: buf) simp_all

definition optional_parameter :: "u64 \<Rightarrow> bytes option \<Rightarrow> (u64 \<times> bytes) list" where
  "optional_parameter i m = (case m of None \<Rightarrow> [] | Some v \<Rightarrow> [(i, v)])"

lemma append_parameters_bytes:
  assumes "in_range p" "lengths_ok p"
  shows "appendQuicTransportParameters buf p = Inr (buf @ concat (map raw_parameter (parameter_list p)))"
proof -
  note ok = parameter_list_raw_ok [OF assms]
  let ?cid = "\<lambda>b. concat (map raw_parameter (optional_parameter (cb_identifier b) (cb_get b p)))"
  let ?int = "\<lambda>b. raw_parameter (ib_identifier b, varint_bytes (ib_get b p))"
  have cids: "appendEach (\<lambda>buffer binding. case cb_get binding p of
      None \<Rightarrow> Inr buffer | Some v \<Rightarrow> appendParameter buffer (cb_identifier binding) v) buf kConnectionIdParameters
    = Inr (buf @ concat (map ?cid kConnectionIdParameters))"
  proof (rule appendEach_bytes)
    fix b buf
    assume b: "b \<in> set kConnectionIdParameters"
    show "(case cb_get b p of None \<Rightarrow> Inr buf | Some v \<Rightarrow> appendParameter buf (cb_identifier b) v)
      = Inr (buf @ ?cid b)"
    proof (cases "cb_get b p")
      case (Some v)
      then have "(cb_identifier b, v) \<in> set (parameter_list p)"
        using b by (auto simp: kConnectionIdParameters_def parameter_list_def)
      then show ?thesis
        using ok appendParameter_raw [of "(cb_identifier b, v)" buf] Some by (simp add: optional_parameter_def)
    qed (simp add: optional_parameter_def)
  qed
  have ints: "appendEach (\<lambda>buffer binding. appendIntegerParameter buffer (ib_identifier binding) (ib_get binding p))
      b0 kIntegerParameters = Inr (b0 @ concat (map ?int kIntegerParameters))" for b0
  proof (rule appendEach_bytes)
    fix b buf
    assume b: "b \<in> set kIntegerParameters"
    then have "(ib_identifier b, varint_bytes (ib_get b p)) \<in> set (parameter_list p)"
      by (auto simp: parameter_list_def)
    then show "appendIntegerParameter buf (ib_identifier b) (ib_get b p) = Inr (buf @ ?int b)"
      using ok appendParameter_raw [of "(ib_identifier b, varint_bytes (ib_get b p))" buf]
        binding_bounds [OF assms(1) b]
      by (auto simp: appendIntegerParameter_def append_varint)
  qed
  have token: "(case statelessResetToken p of None \<Rightarrow> Inr b0 | Some token \<Rightarrow> appendParameter b0 0x02 token)
    = Inr (b0 @ concat (map raw_parameter (optional_parameter 0x02 (statelessResetToken p))))" for b0
    using ok appendParameter_raw [of "(0x02, the (statelessResetToken p))" b0]
    by (auto simp: optional_parameter_def parameter_list_def split: option.splits)
  have migration: "appendParameter b0 0x0c [] = Inr (b0 @ raw_parameter (0x0c, []))" for b0
    using appendParameter_raw [of "(0x0c, [])" b0] by (simp add: raw_ok_def)
  show ?thesis
    unfolding appendQuicTransportParameters_def cids bindR_simps ints token
    by (simp add: migration parameter_list_def optional_parameter_def kConnectionIdParameters_def comp_def
        split: option.splits)
qed

text \<open>C19: What one side encodes the other side decodes to the same parameters, whatever is in the
  buffer before them, for every set of parameters within the bounds and complete for its role.\<close>

theorem transport_parameters_roundtrip:
  assumes "in_range p" "lengths_ok p" "role_ok role p" "initialSourceConnectionId p \<noteq> None"
    and "role = Server \<longrightarrow> originalDestinationConnectionId p \<noteq> None"
  shows "\<exists>sent. appendQuicTransportParameters buffer p = Inr (buffer @ sent) \<and>
    decodeQuicTransportParameters sent role = Inr p"
proof -
  note ok = parameter_list_raw_ok [OF assms(1,2)]
  have "\<exists>n. applyParameters role (parameter_list p) (defaultTransportParameters, 0)
      = Inr (fold setParameter (parameter_list p) defaultTransportParameters, n)"
    by (rule applyParameters_acceptable [OF parameter_list_acceptable [OF assms(1-3)] _ parameter_list_distinct])
      (simp add: identifier_bit_def)
  then have "decodeQuicTransportParameters (concat (map raw_parameter (parameter_list p))) role = Inr p"
    using assms(4,5) parameter_list_effect [OF assms(1)]
    by (auto simp: decodeQuicTransportParameters_def decodeParametersLoop_raw [OF ok])
  then show ?thesis
    using append_parameters_bytes [OF assms(1,2)] by blast
qed

theorem transport_parameters_roundtrip_witness:
  "let p = defaultTransportParameters\<lparr>initialSourceConnectionId := Some [1, 2], initialMaximumData := 100000\<rparr> in
   \<exists>sent. appendQuicTransportParameters [5] p = Inr ([5] @ sent) \<and>
    decodeQuicTransportParameters sent Client = Inr p"
  unfolding Let_def
  by (rule transport_parameters_roundtrip)
    (simp_all add: in_range_def lengths_ok_def role_ok_def defaultTransportParameters_def)

end
