(* ===== verification/QuicReassembly.thy ===== *)
theory QuicReassembly
  imports StdMap
begin

text \<open>
  Reassembly of a byte stream, \<open>src/Net/Quic/QuicReassemblyBuffer.{h,cpp}\<close>: fragments keyed by
  their offset, the delivered offset and a byte counter. The specification is the partial
  function from stream offsets to bytes; \<open>insert\<close> overwrites a part of it and \<open>drain\<close> moves
  the part that is contiguous with what was delivered to the output.
\<close>

section \<open>The buffer\<close>

record QuicReassemblyBuffer =
  m_fragments :: "(u64, bytes) std_map"
  m_deliveredOffset :: u64
  m_bufferedByteCount :: u64

definition emptyReassemblyBuffer :: QuicReassemblyBuffer where
  "emptyReassemblyBuffer = \<lparr>m_fragments = [], m_deliveredOffset = 0, m_bufferedByteCount = 0\<rparr>"

text \<open>\<open>std::ranges::copy\<close> of \<open>src\<close> to a position inside \<open>dst\<close>.\<close>

definition copyInto :: "bytes \<Rightarrow> nat \<Rightarrow> bytes \<Rightarrow> bytes" where
  "copyInto dst position src = take position dst @ src @ drop (position + length src) dst"

text \<open>The merge loop: \<open>fragments\<close> is the map from the cursor on. It returns the start and the
  bytes of the merged fragment, the counter, and what is left from the cursor on.\<close>

fun mergeLoop ::
  "(u64, bytes) std_map \<Rightarrow> u64 \<Rightarrow> u64 \<Rightarrow> bytes \<Rightarrow> u64 \<Rightarrow> u64 \<times> bytes \<times> u64 \<times> (u64, bytes) std_map" where
  "mergeLoop [] begin end data buffered = (begin, data, buffered, [])"
| "mergeLoop ((fragmentBegin, fragment) # later) begin end data buffered =
     (if fragmentBegin \<le> end then
        let fragmentEnd = fragmentBegin + of_nat (length fragment);
            mergedBegin = min begin fragmentBegin;
            mergedEnd = max end fragmentEnd;
            merged = replicate (unat (mergedEnd - mergedBegin)) 0;
            merged = copyInto merged (unat (fragmentBegin - mergedBegin)) fragment;
            merged = copyInto merged (unat (begin - mergedBegin)) data
        in mergeLoop later mergedBegin mergedEnd merged (buffered - of_nat (length fragment))
      else (begin, data, buffered, (fragmentBegin, fragment) # later))"

text \<open>The cursor splits the map: \<open>upper_bound(begin)\<close>, stepped back when the previous fragment
  reaches \<open>begin\<close>.\<close>

definition splitAtCursor ::
  "(u64, bytes) std_map \<Rightarrow> u64 \<Rightarrow> (u64, bytes) std_map \<times> (u64, bytes) std_map" where
  "splitAtCursor m begin =
     (let before = takeWhile (\<lambda>p. fst p \<le> begin) m; after = dropWhile (\<lambda>p. fst p \<le> begin) m in
      if before \<noteq> [] \<and> fst (last before) + of_nat (length (snd (last before))) \<ge> begin
      then (butlast before, last before # after) else (before, after))"

definition reassemblyInsert :: "u64 \<Rightarrow> bytes \<Rightarrow> QuicReassemblyBuffer \<Rightarrow> QuicReassemblyBuffer" where
  "reassemblyInsert offset data s =
     (if data = [] \<or> offset + of_nat (length data) \<le> m_deliveredOffset s then s
      else
        let skipped = (if offset < m_deliveredOffset s then unat (m_deliveredOffset s - offset) else 0);
            begin = (if offset < m_deliveredOffset s then m_deliveredOffset s else offset);
            pending = drop skipped data;
            (before, fromCursor) = splitAtCursor (m_fragments s) begin;
            (mergedBegin, merged, buffered, later) =
              mergeLoop fromCursor begin (begin + of_nat (length pending)) pending (m_bufferedByteCount s)
        in s\<lparr>m_bufferedByteCount := buffered + of_nat (length merged),
             m_fragments := map_put mergedBegin merged (before @ later)\<rparr>)"

text \<open>\<open>drain\<close> loops while a fragment starts at the delivered offset. A fragment is never empty,
  but the code does not say so, so the loop carries a bound: the number of fragments, each of
  which it erases.\<close>

fun drainLoop :: "nat \<Rightarrow> QuicReassemblyBuffer \<Rightarrow> bytes \<Rightarrow> bytes \<times> QuicReassemblyBuffer" where
  "drainLoop 0 s out = (out, s)"
| "drainLoop (Suc n) s out =
     (case map_find (m_deliveredOffset s) (m_fragments s) of
        None \<Rightarrow> (out, s)
      | Some fragment \<Rightarrow>
          drainLoop n (s\<lparr>m_deliveredOffset := m_deliveredOffset s + of_nat (length fragment),
              m_bufferedByteCount := m_bufferedByteCount s - of_nat (length fragment),
              m_fragments := map_erase (m_deliveredOffset s) (m_fragments s)\<rparr>) (out @ fragment))"

definition reassemblyDrain :: "bytes \<Rightarrow> QuicReassemblyBuffer \<Rightarrow> nat \<times> bytes \<times> QuicReassemblyBuffer" where
  "reassemblyDrain out s =
     (case drainLoop (length (m_fragments s)) s out of (out', s') \<Rightarrow> (length out' - length out, out', s'))"

section \<open>What the fragments hold\<close>

definition at :: "u64 \<times> bytes \<Rightarrow> nat \<Rightarrow> byte option" where
  "at f i = (if unat (fst f) \<le> i \<and> i < unat (fst f) + length (snd f) then Some (snd f ! (i - unat (fst f))) else None)"

definition first_of :: "byte option \<Rightarrow> byte option \<Rightarrow> byte option" where
  "first_of a b = (case a of Some x \<Rightarrow> Some x | None \<Rightarrow> b)"

primrec content :: "(u64, bytes) std_map \<Rightarrow> nat \<Rightarrow> byte option" where
  "content [] i = None"
| "content (f # m) i = first_of (at f i) (content m i)"

definition stop :: "u64 \<times> bytes \<Rightarrow> nat" where
  "stop f = unat (fst f) + length (snd f)"

text \<open>Non-empty fragments inside the range of stream offsets, in order, with a gap between two.\<close>

definition spaced :: "(u64, bytes) std_map \<Rightarrow> bool" where
  "spaced m \<longleftrightarrow> (\<forall>f \<in> set m. snd f \<noteq> [] \<and> stop f < 2 ^ 63) \<and>
     sorted_wrt (\<lambda>f g. stop f < unat (fst g)) m"

definition reassembly_inv :: "QuicReassemblyBuffer \<Rightarrow> bool" where
  "reassembly_inv s \<longleftrightarrow> spaced (m_fragments s) \<and>
     (\<forall>f \<in> set (m_fragments s). m_deliveredOffset s \<le> fst f) \<and>
     unat (m_deliveredOffset s) < 2 ^ 63 \<and>
     m_bufferedByteCount s = of_nat (sum_list (map (length \<circ> snd) (m_fragments s)))"

lemma first_of_simps [simp]:
  "first_of None b = b" "first_of (Some x) b = Some x" "first_of a None = a"
  by (simp_all add: first_of_def split: option.splits)

lemma first_of_assoc: "first_of (first_of a b) c = first_of a (first_of b c)"
  by (simp add: first_of_def split: option.splits)

lemma content_append: "content (m @ n) i = first_of (content m i) (content n i)"
  by (induction m) (simp_all add: first_of_assoc)

lemma at_None: "at f i = None \<longleftrightarrow> i < unat (fst f) \<or> stop f \<le> i"
  by (auto simp: at_def stop_def)

lemma content_None: "content m i = None \<longleftrightarrow> (\<forall>f \<in> set m. at f i = None)"
  by (induction m) (auto simp: first_of_def split: option.splits)

lemma spaced_Cons [simp]:
  "spaced (f # m) \<longleftrightarrow> snd f \<noteq> [] \<and> stop f < 2 ^ 63 \<and> (\<forall>g \<in> set m. stop f < unat (fst g)) \<and> spaced m"
  by (auto simp: spaced_def)

lemma spaced_Nil [simp]: "spaced []"
  by (simp add: spaced_def)

lemma spaced_append [simp]:
  "spaced (m @ n) \<longleftrightarrow> spaced m \<and> spaced n \<and> (\<forall>f \<in> set m. \<forall>g \<in> set n. stop f < unat (fst g))"
  by (auto simp: spaced_def sorted_wrt_append)

lemma start_before_stop: "snd f \<noteq> [] \<Longrightarrow> unat (fst f) < stop f"
  by (cases "snd f") (auto simp: stop_def)

lemma spaced_nonempty: "spaced m \<Longrightarrow> f \<in> set m \<Longrightarrow> unat (fst f) < stop f"
  by (auto simp: spaced_def start_before_stop)

lemma spaced_map_inv: "spaced m \<Longrightarrow> map_inv m"
  by (induction m) (auto simp: word_less_nat_alt dest!: start_before_stop)

section \<open>Merging\<close>

lemma length_copyInto [simp]:
  "position + length src \<le> length dst \<Longrightarrow> length (copyInto dst position src) = length dst"
  by (simp add: copyInto_def)

lemma nth_copyInto:
  "position + length src \<le> length dst \<Longrightarrow> i < length dst \<Longrightarrow>
   copyInto dst position src ! i =
     (if position \<le> i \<and> i < position + length src then src ! (i - position) else dst ! i)"
  by (auto simp: copyInto_def nth_append)

definition merge_two :: "nat \<Rightarrow> bytes \<Rightarrow> nat \<Rightarrow> bytes \<Rightarrow> bytes" where
  "merge_two b d fb fd =
     copyInto (copyInto (replicate (max (b + length d) (fb + length fd) - min b fb) 0) (fb - min b fb) fd)
       (b - min b fb) d"

lemma merge_two_length: "length (merge_two b d fb fd) = max (b + length d) (fb + length fd) - min b fb"
  by (simp add: merge_two_def)

lemma merge_two_nth:
  assumes "fb \<le> b + length d" "b \<le> fb + length fd" "i < max (b + length d) (fb + length fd) - min b fb"
  shows "merge_two b d fb fd ! i =
    (if b \<le> min b fb + i \<and> min b fb + i < b + length d then d ! (min b fb + i - b)
     else fd ! (min b fb + i - fb))"
  using assms by (auto simp: merge_two_def nth_copyInto min_def max_def add.commute split: if_splits)

lemma at_merge_two:
  assumes "unat fb \<le> unat b + length d" "unat b \<le> unat fb + length fd"
    and "unat mb = min (unat b) (unat fb)"
  shows "at (mb, merge_two (unat b) d (unat fb) fd) i = first_of (at (b, d) i) (at (fb, fd) i)"
proof -
  let ?lo = "min (unat b) (unat fb)" and ?hi = "max (unat b + length d) (unat fb + length fd)"
  have inside: "i < unat b + length d \<and> unat b \<le> i \<or> i < unat fb + length fd \<and> unat fb \<le> i \<longleftrightarrow> ?lo \<le> i \<and> i < ?hi"
    using assms(1,2) by (auto simp: min_def max_def)
  show ?thesis
  proof (cases "?lo \<le> i \<and> i < ?hi")
    case True
    then have "at (mb, merge_two (unat b) d (unat fb) fd) i = Some (merge_two (unat b) d (unat fb) fd ! (i - ?lo))"
      using assms(3) by (auto simp: at_def merge_two_length)
    moreover have "i - ?lo < ?hi - ?lo" using True by auto
    ultimately show ?thesis
      using True inside merge_two_nth [OF assms(1,2), of "i - ?lo"] by (auto simp: at_def)
  next
    case False
    then have "at (b, d) i = None" "at (fb, fd) i = None"
      using inside by (auto simp: at_def)
    then show ?thesis
      using False assms(3) by (auto simp: at_def merge_two_length)
  qed
qed

lemma mergeLoop_step:
  assumes "fb \<le> e" "e = b + of_nat (length d)" "unat b + length d < 2 ^ 63" "unat fb + length fd < 2 ^ 63"
  defines "mb \<equiv> min b fb" and "md \<equiv> merge_two (unat b) d (unat fb) fd"
  shows "mergeLoop ((fb, fd) # later) b e d buf =
      mergeLoop later mb (mb + of_nat (length md)) md (buf - of_nat (length fd))"
    "unat mb = min (unat b) (unat fb)"
    "unat mb + length md = max (unat b + length d) (unat fb + length fd)"
    "unat fb \<le> unat b + length d"
proof -
  let ?fe = "fb + of_nat (length fd)"
  have e: "unat e = unat b + length d" and fe: "unat ?fe = unat fb + length fd"
    using assms(2-4) by (simp_all add: unat_word_ariths unat_of_nat)
  show fb: "unat fb \<le> unat b + length d"
    using assms(1) e by (simp add: word_le_nat_alt)
  show mb: "unat mb = min (unat b) (unat fb)"
    by (simp add: mb_def min_def word_le_nat_alt)
  have me: "unat (max e ?fe) = max (unat b + length d) (unat fb + length fd)"
    unfolding e [symmetric] fe [symmetric] by (simp add: max_def word_le_nat_alt)
  have len: "length md = max (unat b + length d) (unat fb + length fd) - min (unat b) (unat fb)"
    by (simp add: md_def merge_two_length)
  show sum: "unat mb + length md = max (unat b + length d) (unat fb + length fd)"
    unfolding mb len by simp
  have diff: "unat (max e ?fe - mb) = length md"
    using sum me by (subst unat_sub) (auto simp: word_le_nat_alt)
  have ends: "max e ?fe = mb + of_nat (length md)"
    by (simp flip: diff)
  have "copyInto (copyInto (replicate (unat (max e ?fe - mb)) 0) (unat (fb - mb)) fd) (unat (b - mb)) d = md"
  proof -
    have "unat (fb - mb) = unat fb - min (unat b) (unat fb)" "unat (b - mb) = unat b - min (unat b) (unat fb)"
      using mb by (simp_all add: unat_sub word_le_nat_alt)
    then show ?thesis
      by (simp add: diff len) (simp add: md_def merge_two_def)
  qed
  then show "mergeLoop ((fb, fd) # later) b e d buf =
      mergeLoop later mb (mb + of_nat (length md)) md (buf - of_nat (length fd))"
    using assms(1) ends by (simp add: mb_def [symmetric])
qed

lemma mergeLoop_spec:
  assumes "spaced frags" "d \<noteq> []" "unat b + length d < 2 ^ 63" "\<forall>f \<in> set frags. unat b \<le> stop f"
  shows "\<exists>b' d' taken later. mergeLoop frags b (b + of_nat (length d)) d buf =
        (b', d', buf - of_nat (sum_list (map (length \<circ> snd) taken)), later) \<and>
      frags = taken @ later \<and> unat b' \<le> unat b \<and> d' \<noteq> [] \<and> stop (b', d') < 2 ^ 63 \<and>
      (\<forall>i. at (b', d') i = first_of (at (b, d) i) (content taken i)) \<and>
      (\<forall>g \<in> set later. stop (b', d') < unat (fst g)) \<and>
      (b' = b \<or> (\<exists>f \<in> set frags. b' = fst f))"
  using assms
proof (induction frags arbitrary: b d buf)
  case Nil
  then show ?case
    by (intro exI [of _ b] exI [of _ d] exI [of _ "[]"]) (simp add: stop_def)
next
  case (Cons f later)
  obtain fb fd where f: "f = (fb, fd)" by fastforce
  have fits: "unat fb + length fd < 2 ^ 63"
    using Cons.prems(1) by (simp add: f stop_def)
  show ?case
  proof (cases "fb \<le> b + of_nat (length d)")
    case False
    have "unat (b + of_nat (length d)) = unat b + length d"
      using Cons.prems(3) by (simp add: unat_word_ariths unat_of_nat)
    then have "unat b + length d < unat fb"
      using False by (simp add: word_le_nat_alt)
    moreover have "unat fb < stop f" "\<forall>g \<in> set later. stop f < unat (fst g)"
      using Cons.prems(1) start_before_stop [of f] by (auto simp: f)
    ultimately have "\<forall>g \<in> set (f # later). stop (b, d) < unat (fst g)"
      by (auto simp: f stop_def)
    moreover have "mergeLoop (f # later) b (b + of_nat (length d)) d buf =
        (b, d, buf - of_nat (sum_list (map (length \<circ> snd) [])), f # later)"
      using False by (simp add: f)
    moreover have "f # later = [] @ f # later" "stop (b, d) < 2 ^ 63"
      "\<And>i. at (b, d) i = first_of (at (b, d) i) (content [] i)"
      using Cons.prems(3) by (simp_all add: stop_def)
    ultimately show ?thesis
      using Cons.prems(2) order_refl by blast
  next
    case True
    define mb md where "mb = min b fb" and "md = merge_two (unat b) d (unat fb) fd"
    note step = mergeLoop_step [OF True refl Cons.prems(3) fits, folded mb_def md_def]
    have b: "unat b \<le> unat fb + length fd"
      using Cons.prems(4) by (simp add: f stop_def)
    have at1: "at (mb, md) i = first_of (at (b, d) i) (at (fb, fd) i)" for i
      unfolding md_def using step(4) b step(2) by (rule at_merge_two)
    have "md \<noteq> []"
      using step(3) step(2) Cons.prems(2) by (cases md) (auto simp: min_def max_def split: if_splits)
    moreover have "unat mb + length md < 2 ^ 63"
      using step(3) Cons.prems(3) fits by simp
    moreover have "\<forall>g \<in> set later. unat mb \<le> stop g"
      using Cons.prems(4) step(2) by auto
    moreover have "spaced later" using Cons.prems(1) by simp
    ultimately obtain b' d' taken rest where ih:
        "mergeLoop later mb (mb + of_nat (length md)) md (buf - of_nat (length fd)) =
          (b', d', buf - of_nat (length fd) - of_nat (sum_list (map (length \<circ> snd) taken)), rest)"
      and r: "later = taken @ rest" "unat b' \<le> unat mb" "d' \<noteq> []" "stop (b', d') < 2 ^ 63"
        "\<forall>i. at (b', d') i = first_of (at (mb, md) i) (content taken i)"
        "\<forall>g \<in> set rest. stop (b', d') < unat (fst g)" "b' = mb \<or> (\<exists>f \<in> set later. b' = fst f)"
      using Cons.IH [of md mb "buf - of_nat (length fd)"] by blast
    have "b' = b \<or> (\<exists>g \<in> set (f # later). b' = fst g)"
      using r(7) by (auto simp: mb_def min_def f split: if_splits)
    moreover have "unat b' \<le> unat b" using r(2) step(2) by simp
    moreover have "at (b', d') i = first_of (at (b, d) i) (content (f # taken) i)" for i
      using r(5) at1 by (simp add: f first_of_assoc)
    moreover have "mergeLoop (f # later) b (b + of_nat (length d)) d buf =
        (b', d', buf - of_nat (sum_list (map (length \<circ> snd) (f # taken))), rest)"
      using ih unfolding f step(1) by (simp add: diff_diff_eq)
    moreover have "f # later = (f # taken) @ rest" using r(1) by simp
    ultimately show ?thesis
      using r(3,4,6) by blast
  qed
qed

section \<open>Inserting\<close>

lemma takeWhile_sorted:
  "spaced m \<Longrightarrow> takeWhile (\<lambda>p. fst p \<le> k) m @ dropWhile (\<lambda>p. fst p \<le> k) m = m \<and>
     (\<forall>f \<in> set (takeWhile (\<lambda>p. fst p \<le> k) m). fst f \<le> k) \<and>
     (\<forall>f \<in> set (dropWhile (\<lambda>p. fst p \<le> k) m). k < fst f)"
proof (induction m)
  case (Cons f m)
  have "\<forall>g \<in> set m. fst f < fst g"
    using Cons.prems spaced_map_inv [of "f # m"] by auto
  then show ?case
    using Cons by (auto simp: not_le dest: less_trans)
qed simp

lemma butlast_last_append: "xs \<noteq> [] \<Longrightarrow> butlast xs @ last xs # ys = xs @ ys"
  by (metis append.assoc append_Cons append_Nil append_butlast_last_id)

lemma splitAtCursor_spec:
  assumes "spaced m" "splitAtCursor m begin = (before, frags)" "unat begin < 2 ^ 63"
  shows "m = before @ frags" "\<forall>f \<in> set before. stop f < unat begin" "\<forall>f \<in> set frags. unat begin \<le> stop f"
proof -
  let ?tw = "takeWhile (\<lambda>p. fst p \<le> begin) m" and ?dw = "dropWhile (\<lambda>p. fst p \<le> begin) m"
  note tw = takeWhile_sorted [OF assms(1), of "begin"]
  have sp: "spaced (?tw @ ?dw)" using assms(1) tw by simp
  have after: "\<forall>f \<in> set ?dw. unat begin \<le> stop f"
    using tw by (auto simp: stop_def word_less_nat_alt)
  have reach: "fst f + of_nat (length (snd f)) \<ge> begin \<longleftrightarrow> unat begin \<le> stop f" if "f \<in> set m" for f
  proof -
    have "stop f < 2 ^ 63" using assms(1) that by (auto simp: spaced_def)
    then show ?thesis by (simp add: stop_def word_le_nat_alt unat_word_ariths unat_of_nat)
  qed
  have "before @ frags = ?tw @ ?dw"
    using assms(2) by (auto simp: splitAtCursor_def Let_def butlast_last_append simp del: takeWhile_dropWhile_id
        split: if_splits)
  then show "m = before @ frags" using tw by simp
  show "\<forall>f \<in> set before. stop f < unat begin" "\<forall>f \<in> set frags. unat begin \<le> stop f"
  proof -
    have "(\<forall>f \<in> set before. stop f < unat begin) \<and> (\<forall>f \<in> set frags. unat begin \<le> stop f)"
    proof (cases "?tw = []")
      case True
      then show ?thesis using assms(2) after by (auto simp: splitAtCursor_def)
    next
      case False
      then have split: "?tw = butlast ?tw @ [last ?tw]" by simp
      have last: "last ?tw \<in> set m" "fst (last ?tw) \<le> begin"
        using tw False by (metis last_in_set set_append UnCI, blast intro: last_in_set)
      have earlier: "stop f < unat (fst (last ?tw))" if "f \<in> set (butlast ?tw)" for f
        using sp that by (subst (asm) split) auto
      have below: "stop f < unat begin" if "f \<in> set (butlast ?tw)" for f
        using earlier [OF that] last(2) by (simp add: word_le_nat_alt)
      show ?thesis
      proof (cases "unat begin \<le> stop (last ?tw)")
        case True
        then show ?thesis
          using assms(2) False reach [OF last(1)] below after by (auto simp: splitAtCursor_def Let_def)
      next
        case short: False
        have "stop f < unat begin" if "f \<in> set ?tw" for f
          using that below [of f] short by (subst (asm) split) auto
        then show ?thesis
          using assms(2) False reach [OF last(1)] short after by (auto simp: splitAtCursor_def Let_def)
      qed
    qed
    then show "\<forall>f \<in> set before. stop f < unat begin" "\<forall>f \<in> set frags. unat begin \<le> stop f" by blast+
  qed
qed

lemma map_put_between:
  "(\<forall>f \<in> set before. fst f < k) \<Longrightarrow> (\<forall>g \<in> set later. k < fst g) \<Longrightarrow>
   map_put k v (before @ later) = before @ (k, v) # later"
proof (induction before)
  case Nil
  then show ?case by (cases later) auto
next
  case (Cons f before)
  then show ?case by (cases f) auto
qed

lemma reassemblyInsert_spec:
  assumes inv: "reassembly_inv s" and fits: "unat offset + length data < 2 ^ 63"
  defines "s' \<equiv> reassemblyInsert offset data s"
  shows "reassembly_inv s'" "m_deliveredOffset s' = m_deliveredOffset s"
    "content (m_fragments s') i =
      (if unat offset \<le> i \<and> i < unat offset + length data \<and> unat (m_deliveredOffset s) \<le> i
       then Some (data ! (i - unat offset)) else content (m_fragments s) i)"
proof -
  let ?del = "m_deliveredOffset s"
  have end_nat: "unat (offset + of_nat (length data)) = unat offset + length data"
    using fits by (simp add: unat_word_ariths unat_of_nat)
  have all: "reassembly_inv s' \<and> m_deliveredOffset s' = ?del \<and> (\<forall>i. content (m_fragments s') i =
      (if unat offset \<le> i \<and> i < unat offset + length data \<and> unat ?del \<le> i
       then Some (data ! (i - unat offset)) else content (m_fragments s) i))"
  proof (cases "data = [] \<or> offset + of_nat (length data) \<le> ?del")
    case True
    then show ?thesis
      using inv end_nat by (auto simp: s'_def reassemblyInsert_def word_le_nat_alt)
  next
    case False
    define "begin" where "begin = (if offset < ?del then ?del else offset)"
    define skipped where "skipped = (if offset < ?del then unat (?del - offset) else 0)"
    define pending where "pending = drop skipped data"
    have late: "unat ?del < unat offset + length data"
      using False end_nat by (simp add: word_le_nat_alt)
    have start: "unat begin = max (unat offset) (unat ?del)" "unat begin = unat offset + skipped"
      by (auto simp: begin_def skipped_def word_less_nat_alt unat_sub word_le_nat_alt max_def)
    have pending: "pending \<noteq> []" "unat begin + length pending = unat offset + length data"
      using start late False by (auto simp: pending_def max_def split: if_splits)
    obtain before frags where split: "splitAtCursor (m_fragments s) begin = (before, frags)" by fastforce
    have sp: "spaced (m_fragments s)" using inv by (simp add: reassembly_inv_def)
    have "unat begin < 2 ^ 63" using pending(2) fits by simp
    note cur = splitAtCursor_spec [OF sp split this]
    have parts: "spaced before" "spaced frags" "\<forall>f \<in> set before. \<forall>g \<in> set frags. stop f < unat (fst g)"
      using sp unfolding cur(1) by simp_all
    have fits': "unat begin + length pending < 2 ^ 63" using pending(2) fits by simp
    obtain b' d' taken later where m: "mergeLoop frags begin (begin + of_nat (length pending)) pending (m_bufferedByteCount s) =
        (b', d', m_bufferedByteCount s - of_nat (sum_list (map (length \<circ> snd) taken)), later)"
      and r: "frags = taken @ later" "unat b' \<le> unat begin" "d' \<noteq> []" "stop (b', d') < 2 ^ 63"
        "\<forall>i. at (b', d') i = first_of (at (begin, pending) i) (content taken i)"
        "\<forall>g \<in> set later. stop (b', d') < unat (fst g)" "b' = begin \<or> (\<exists>f \<in> set frags. b' = fst f)"
      using mergeLoop_spec [OF parts(2) pending(1) fits' cur(3), of "m_bufferedByteCount s"] by blast
    have before_b: "\<forall>f \<in> set before. stop f < unat b'"
      using r(7) cur(2) parts(3) by blast
    have keys: "\<forall>f \<in> set before. fst f < b'" "\<forall>g \<in> set later. b' < fst g"
      using before_b r(3,6) start_before_stop [of "(b', d')"]
      by (fastforce simp: word_less_nat_alt stop_def)+
    have s': "s' = s\<lparr>m_bufferedByteCount := m_bufferedByteCount s - of_nat (sum_list (map (length \<circ> snd) taken))
          + of_nat (length d'), m_fragments := before @ (b', d') # later\<rparr>"
      using False split m map_put_between [OF keys, of d']
      unfolding s'_def reassemblyInsert_def Let_def begin_def [symmetric] skipped_def [symmetric] pending_def [symmetric]
      by simp
    have "spaced (before @ (b', d') # later)"
      using parts r(1,3,4,6) before_b by simp
    moreover have "\<forall>f \<in> set (before @ (b', d') # later). ?del \<le> fst f"
      using inv cur(1) r(1,7) start(1) by (auto simp: reassembly_inv_def word_le_nat_alt)
    moreover have "m_bufferedByteCount s - of_nat (sum_list (map (length \<circ> snd) taken)) + of_nat (length d')
        = of_nat (sum_list (map (length \<circ> snd) (before @ (b', d') # later)))"
      using inv cur(1) r(1) by (simp add: reassembly_inv_def)
    ultimately have inv': "reassembly_inv s'"
      using inv by (simp add: s' reassembly_inv_def)
    have "content (before @ (b', d') # later) i =
        (if unat offset \<le> i \<and> i < unat offset + length data \<and> unat ?del \<le> i
         then Some (data ! (i - unat offset)) else content (m_fragments s) i)" for i
    proof -
      have new: "at (begin, pending) i =
          (if unat offset \<le> i \<and> i < unat offset + length data \<and> unat ?del \<le> i
           then Some (data ! (i - unat offset)) else None)"
      proof -
        have "pending ! (i - unat begin) = data ! (i - unat offset)" if "unat begin \<le> i"
        proof -
          have "skipped \<le> length data" using pending(1) by (auto simp: pending_def)
          moreover have "skipped + (i - unat begin) = i - unat offset" using start(2) that by simp
          ultimately show ?thesis by (simp add: pending_def)
        qed
        then show ?thesis
          using start(1) pending(2) by (auto simp: at_def)
      qed
      have old: "content (m_fragments s) i = first_of (content before i) (first_of (content taken i) (content later i))"
        by (simp add: cur(1) r(1) content_append)
      have "content before i = None" if "unat begin \<le> i"
        using cur(2) that by (auto simp: content_None at_None)
      then show ?thesis
        using new start(1) unfolding old by (auto simp: content_append r(5) first_of_assoc)
    qed
    then show ?thesis
      using inv' by (simp add: s')
  qed
  show "reassembly_inv s'" "m_deliveredOffset s' = ?del" using all by simp_all
  show "content (m_fragments s') i =
      (if unat offset \<le> i \<and> i < unat offset + length data \<and> unat ?del \<le> i
       then Some (data ! (i - unat offset)) else content (m_fragments s) i)"
    using all by blast
qed

section \<open>Draining\<close>

lemma map_erase_head: "\<forall>g \<in> set m. (k::'k::linorder) < fst g \<Longrightarrow> map_erase k ((k, v) # m) = m"
proof -
  assume "\<forall>g \<in> set m. k < fst g"
  then have "filter (\<lambda>p. fst p \<noteq> k) m = m" by (intro filter_True) force
  then show ?thesis by (simp add: map_erase_def)
qed

text \<open>At most one fragment starts at the delivered offset, because fragments leave gaps: the loop
  runs once or not at all, and ends because no fragment starts there.\<close>

lemma drainLoop_spec:
  assumes inv: "reassembly_inv s" and n: "length (m_fragments s) \<le> n"
  obtains (none) "drainLoop n s out = (out, s)" "content (m_fragments s) (unat (m_deliveredOffset s)) = None"
  | (one) d later where "m_fragments s = (m_deliveredOffset s, d) # later"
      "drainLoop n s out = (out @ d, s\<lparr>m_deliveredOffset := m_deliveredOffset s + of_nat (length d),
         m_bufferedByteCount := m_bufferedByteCount s - of_nat (length d), m_fragments := later\<rparr>)"
proof (cases "map_find (m_deliveredOffset s) (m_fragments s)")
  case None
  have "at f (unat (m_deliveredOffset s)) = None" if "f \<in> set (m_fragments s)" for f
  proof -
    have "m_deliveredOffset s \<le> fst f" using inv that by (auto simp: reassembly_inv_def)
    moreover have "fst f \<noteq> m_deliveredOffset s"
      using None that by (force simp: map_find_def map_of_eq_None_iff)
    ultimately have "m_deliveredOffset s < fst f" by auto
    then show ?thesis by (simp add: at_None word_less_nat_alt)
  qed
  then have "content (m_fragments s) (unat (m_deliveredOffset s)) = None"
    by (simp add: content_None)
  moreover have "drainLoop n s out = (out, s)" using None by (cases n) simp_all
  ultimately show thesis by (rule none [rotated])
next
  case (Some d)
  have sp: "spaced (m_fragments s)" and above: "\<forall>f \<in> set (m_fragments s). m_deliveredOffset s \<le> fst f"
    using inv by (simp_all add: reassembly_inv_def)
  have mem: "(m_deliveredOffset s, d) \<in> set (m_fragments s)"
    using Some by (simp add: map_find_def map_of_SomeD)
  obtain f later where fl: "m_fragments s = f # later"
    using mem by (cases "m_fragments s") auto
  have key: "\<forall>g \<in> set later. fst f < fst g"
    using spaced_map_inv [OF sp] by (simp add: fl)
  have f: "f = (m_deliveredOffset s, d)"
    using mem above key by (auto simp: fl not_less [symmetric])
  obtain k where k: "n = Suc k" using n fl by (cases n) auto
  let ?s = "s\<lparr>m_deliveredOffset := m_deliveredOffset s + of_nat (length d),
         m_bufferedByteCount := m_bufferedByteCount s - of_nat (length d), m_fragments := later\<rparr>"
  have ends: "unat (m_deliveredOffset s + of_nat (length d)) = stop f"
    using sp by (simp add: fl f stop_def unat_word_ariths unat_of_nat)
  have "fst g \<noteq> m_deliveredOffset s + of_nat (length d)" if "g \<in> set later" for g
  proof -
    have "stop f < unat (fst g)" using sp that by (simp add: fl)
    then show ?thesis using ends by auto
  qed
  then have "map_find (m_deliveredOffset s + of_nat (length d)) later = None"
    by (force simp: map_find_def map_of_eq_None_iff)
  then have last: "drainLoop k ?s (out @ d) = (out @ d, ?s)" by (cases k) simp_all
  have "drainLoop n s out = (out @ d, ?s)"
    using Some last key map_erase_head [of later "m_deliveredOffset s" d] by (simp add: k fl f)
  then show thesis using fl f by (intro one) auto
qed

lemma content_single:
  assumes "spaced (f # later)"
  shows "content (f # later) i = (if unat (fst f) \<le> i \<and> i < stop f then Some (snd f ! (i - unat (fst f)))
    else content later i)"
  by (auto simp: at_def stop_def)

lemma reassemblyDrain_spec:
  assumes inv: "reassembly_inv s" and d: "reassemblyDrain out s = (k, out', s')"
  shows "reassembly_inv s'" "unat (m_deliveredOffset s') = unat (m_deliveredOffset s) + k"
    "\<exists>new. out' = out @ new \<and> length new = k \<and>
       (\<forall>j < k. content (m_fragments s) (unat (m_deliveredOffset s) + j) = Some (new ! j))"
    "content (m_fragments s') i = (if i < unat (m_deliveredOffset s') then None else content (m_fragments s) i)"
    "content (m_fragments s') (unat (m_deliveredOffset s')) = None"
proof -
  have below: "content (m_fragments s) j = None" if "j < unat (m_deliveredOffset s)" for j
    using inv that by (force simp: reassembly_inv_def content_None at_None word_le_nat_alt)
  have all: "reassembly_inv s' \<and> unat (m_deliveredOffset s') = unat (m_deliveredOffset s) + k \<and>
    (\<exists>new. out' = out @ new \<and> length new = k \<and>
       (\<forall>j < k. content (m_fragments s) (unat (m_deliveredOffset s) + j) = Some (new ! j))) \<and>
    (\<forall>i. content (m_fragments s') i = (if i < unat (m_deliveredOffset s') then None else content (m_fragments s) i)) \<and>
    content (m_fragments s') (unat (m_deliveredOffset s')) = None"
  proof (rule drainLoop_spec [OF inv order_refl, of out])
    assume "drainLoop (length (m_fragments s)) s out = (out, s)"
      "content (m_fragments s) (unat (m_deliveredOffset s)) = None"
    then show ?thesis
      using d inv below by (auto simp: reassemblyDrain_def)
  next
    fix data later
    assume m: "m_fragments s = (m_deliveredOffset s, data) # later"
      and l: "drainLoop (length (m_fragments s)) s out = (out @ data,
        s\<lparr>m_deliveredOffset := m_deliveredOffset s + of_nat (length data),
         m_bufferedByteCount := m_bufferedByteCount s - of_nat (length data), m_fragments := later\<rparr>)"
    have sp: "spaced ((m_deliveredOffset s, data) # later)"
      using inv m by (simp add: reassembly_inv_def)
    have ends: "unat (m_deliveredOffset s + of_nat (length data)) = unat (m_deliveredOffset s) + length data"
      using sp by (simp add: stop_def unat_word_ariths unat_of_nat)
    have k: "k = length data" "out' = out @ data"
      and s': "s' = s\<lparr>m_deliveredOffset := m_deliveredOffset s + of_nat (length data),
         m_bufferedByteCount := m_bufferedByteCount s - of_nat (length data), m_fragments := later\<rparr>"
      using d l by (auto simp: reassemblyDrain_def)
    have later: "at g i = None" if "g \<in> set later" "i \<le> unat (m_deliveredOffset s) + length data" for g i
      using sp that by (force simp: at_None stop_def)
    have "reassembly_inv s'"
      using inv sp ends by (force simp: s' reassembly_inv_def m stop_def word_le_nat_alt)
    moreover have "content later i =
        (if i < unat (m_deliveredOffset s) + length data then None else content (m_fragments s) i)" for i
      using later [of _ i] content_single [OF sp, of i] by (auto simp: m stop_def content_None)
    moreover have "content later (unat (m_deliveredOffset s) + length data) = None"
      using later by (auto simp: content_None)
    moreover have "content (m_fragments s) (unat (m_deliveredOffset s) + j) = Some (data ! j)" if "j < length data" for j
      using content_single [OF sp, of "unat (m_deliveredOffset s) + j"] that by (simp add: m stop_def)
    ultimately show ?thesis
      using ends by (auto simp: k s')
  qed
  then show "reassembly_inv s'" "unat (m_deliveredOffset s') = unat (m_deliveredOffset s) + k"
    "\<exists>new. out' = out @ new \<and> length new = k \<and>
       (\<forall>j < k. content (m_fragments s) (unat (m_deliveredOffset s) + j) = Some (new ! j))"
    "content (m_fragments s') i = (if i < unat (m_deliveredOffset s') then None else content (m_fragments s) i)"
    "content (m_fragments s') (unat (m_deliveredOffset s')) = None"
    by blast+
qed

section \<open>Any order of arrival\<close>

text \<open>The runs of a buffer on a stream \<open>S\<close>: segments of \<open>S\<close> arrive in any order, with repetitions
  and overlaps, and the buffer is drained at any moment. \<open>A\<close> collects the offsets that arrived.\<close>

inductive reassembles :: "(nat \<Rightarrow> byte) \<Rightarrow> nat set \<Rightarrow> QuicReassemblyBuffer \<Rightarrow> bytes \<Rightarrow> bool" for S where
  start: "reassembles S {} emptyReassemblyBuffer []"
| arrive: "reassembles S A s out \<Longrightarrow> unat offset + length data < 2 ^ 63 \<Longrightarrow>
    \<forall>j < length data. data ! j = S (unat offset + j) \<Longrightarrow>
    reassembles S (A \<union> {unat offset..<unat offset + length data}) (reassemblyInsert offset data s) out"
| drained: "reassembles S A s out \<Longrightarrow> reassemblyDrain out s = (k, out', s') \<Longrightarrow> reassembles S A s' out'"

definition holds_stream :: "(nat \<Rightarrow> byte) \<Rightarrow> nat set \<Rightarrow> QuicReassemblyBuffer \<Rightarrow> bytes \<Rightarrow> bool" where
  "holds_stream S A s out \<longleftrightarrow> reassembly_inv s \<and>
     out = map S [0..<unat (m_deliveredOffset s)] \<and> {..<unat (m_deliveredOffset s)} \<subseteq> A \<and>
     (\<forall>i. content (m_fragments s) i = (if i \<in> A \<and> unat (m_deliveredOffset s) \<le> i then Some (S i) else None))"

lemma holds_stream_start: "holds_stream S {} emptyReassemblyBuffer []"
  by (simp add: holds_stream_def emptyReassemblyBuffer_def reassembly_inv_def)

lemma holds_stream_arrive:
  assumes "holds_stream S A s out" "unat offset + length data < 2 ^ 63"
    and data: "\<forall>j < length data. data ! j = S (unat offset + j)"
  shows "holds_stream S (A \<union> {unat offset..<unat offset + length data}) (reassemblyInsert offset data s) out"
proof -
  have inv: "reassembly_inv s" using assms(1) by (simp add: holds_stream_def)
  note i = reassemblyInsert_spec [OF inv assms(2)]
  have "data ! (j - unat offset) = S j" if "unat offset \<le> j" "j < unat offset + length data" for j
    using data [rule_format, of "j - unat offset"] that by simp
  then show ?thesis
    using assms(1) i by (auto simp: holds_stream_def)
qed

lemma holds_stream_drained:
  assumes "holds_stream S A s out" "reassemblyDrain out s = (k, out', s')"
  shows "holds_stream S A s' out'" "unat (m_deliveredOffset s') \<notin> A"
proof -
  have inv: "reassembly_inv s" using assms(1) by (simp add: holds_stream_def)
  note d = reassemblyDrain_spec [OF inv assms(2)]
  let ?a = "unat (m_deliveredOffset s)"
  obtain new where new: "out' = out @ new" "length new = k" "\<forall>j < k. content (m_fragments s) (?a + j) = Some (new ! j)"
    using d(3) by blast
  have each: "?a + j \<in> A \<and> new ! j = S (?a + j)" if "j < k" for j
    using new(3) assms(1) that by (auto simp: holds_stream_def split: if_splits)
  have "new = map S [?a..<?a + k]"
    using new(2) each by (intro nth_equalityI) simp_all
  then have out: "out' = map S [0..<?a + k]"
    using assms(1) new(1) by (simp add: holds_stream_def upt_add_eq_append [of 0])
  have arrived: "i \<in> A" if "i < ?a + k" for i
  proof (cases "i < ?a")
    case True
    then show ?thesis using assms(1) by (auto simp: holds_stream_def)
  next
    case False
    then show ?thesis using each [of "i - ?a"] that by simp
  qed
  show "holds_stream S A s' out'"
    unfolding holds_stream_def
  proof (intro conjI allI)
    show "reassembly_inv s'" by (rule d(1))
    show "out' = map S [0..<unat (m_deliveredOffset s')]" using out d(2) by simp
    show "{..<unat (m_deliveredOffset s')} \<subseteq> A" using arrived d(2) by auto
    fix i
    show "content (m_fragments s') i = (if i \<in> A \<and> unat (m_deliveredOffset s') \<le> i then Some (S i) else None)"
      using assms(1) d(2,4) by (auto simp: holds_stream_def)
  qed
  show "unat (m_deliveredOffset s') \<notin> A"
  proof -
    have "content (m_fragments s) (unat (m_deliveredOffset s')) = None"
      using d(5) d(4) by simp
    then show ?thesis
      using assms(1) d(2) by (auto simp: holds_stream_def split: if_splits)
  qed
qed

lemma reassembles_holds: "reassembles S A s out \<Longrightarrow> holds_stream S A s out"
proof (induction rule: reassembles.induct)
  case start
  show ?case by (rule holds_stream_start)
next
  case arrive
  then show ?case by (intro holds_stream_arrive)
next
  case drained
  then show ?case by (elim holds_stream_drained(1))
qed

lemma buffered_bytes:
  assumes "spaced m"
  shows "card {i. content m i \<noteq> None} = sum_list (map (length \<circ> snd) m)"
  using assms
proof (induction m)
  case (Cons f m)
  have "{i. content (f # m) i \<noteq> None} = {unat (fst f)..<stop f} \<union> {i. content m i \<noteq> None}"
    by (rule set_eqI) (simp only: mem_Collect_eq Un_iff atLeastLessThan_iff content_single [OF Cons.prems], auto)
  moreover have "{unat (fst f)..<stop f} \<inter> {i. content m i \<noteq> None} = {}"
  proof -
    have "content m i = None" if i: "i < stop f" for i
      unfolding content_None
    proof
      fix g assume "g \<in> set m"
      then have "stop f < unat (fst g)" using Cons.prems by simp
      then show "at g i = None" using i by (simp add: at_None)
    qed
    then show ?thesis by force
  qed
  moreover have "finite {i. content m i \<noteq> None}"
  proof (rule finite_subset)
    show "{i. content m i \<noteq> None} \<subseteq> (\<Union>g \<in> set m. {..<stop g})"
      by (auto simp: content_None at_None)
  qed simp
  ultimately show ?case
    using Cons by (simp add: card_Un_disjoint stop_def)
qed simp

text \<open>C22: A reassembly buffer delivers the stream. After segments of a stream arrived in any order,
  with any overlaps and repetitions and with drains in between, the bytes handed out are exactly a
  prefix of the stream, everything before the delivered offset did arrive, and the byte counter is
  the number of bytes that arrived and wait.\<close>

theorem reassembly_delivers_prefix:
  assumes "reassembles S A s out"
  shows "out = map S [0..<unat (m_deliveredOffset s)] \<and> {..<unat (m_deliveredOffset s)} \<subseteq> A \<and>
    m_bufferedByteCount s = of_nat (card (A \<inter> {unat (m_deliveredOffset s)..}))"
proof -
  have h: "holds_stream S A s out" by (rule reassembles_holds [OF assms])
  then have "{i. content (m_fragments s) i \<noteq> None} = A \<inter> {unat (m_deliveredOffset s)..}"
    by (auto simp: holds_stream_def)
  then show ?thesis
    using h buffered_bytes [of "m_fragments s"] by (simp add: holds_stream_def reassembly_inv_def)
qed

text \<open>Two segments of the stream \<open>0, 1, 2, \<dots>\<close>, out of order and overlapping, and a drain.\<close>

definition example_arrivals :: QuicReassemblyBuffer where
  "example_arrivals = reassemblyInsert 0 [0, 1, 2] (reassemblyInsert 2 [2, 3] emptyReassemblyBuffer)"

lemma example_arrivals_reassembles: "reassembles of_nat {0..<4} example_arrivals []"
proof -
  have "reassembles of_nat ({} \<union> {unat (2::u64)..<unat (2::u64) + length [2, 3 :: byte]})
      (reassemblyInsert 2 [2, 3] emptyReassemblyBuffer) []"
    by (rule reassembles.arrive [OF reassembles.start]) (auto simp: less_Suc_eq)
  then have "reassembles of_nat ({2..<4} \<union> {unat (0::u64)..<unat (0::u64) + length [0, 1, 2 :: byte]})
      example_arrivals []"
    unfolding example_arrivals_def by (intro reassembles.arrive) (auto simp: less_Suc_eq)
  moreover have "{2..<4} \<union> {unat (0::u64)..<unat (0::u64) + length [0, 1, 2 :: byte]} = {0..<4::nat}"
    by auto
  ultimately show ?thesis by simp
qed

definition example_drained :: QuicReassemblyBuffer where
  "example_drained = \<lparr>m_fragments = [], m_deliveredOffset = 4, m_bufferedByteCount = 0\<rparr>"

lemma example_drain: "reassemblyDrain [] example_arrivals = (4, [0, 1, 2, 3], example_drained)"
  by code_simp

theorem reassembly_delivers_prefix_witness:
  "[0, 1, 2, 3 :: byte] = map of_nat [0..<unat (m_deliveredOffset example_drained)]"
  using reassembly_delivers_prefix
    [OF reassembles.drained [OF example_arrivals_reassembles example_drain]] by (rule conjunct1)

text \<open>C23: Draining hands out everything it can: afterwards the delivered offset is the first offset
  of the stream that has not arrived.\<close>

theorem reassembly_delivers_all:
  assumes "reassembles S A s out" "reassemblyDrain out s = (k, out', s')"
  shows "unat (m_deliveredOffset s') = (LEAST i. i \<notin> A) \<and> out' = map S [0..<(LEAST i. i \<notin> A)]"
proof -
  note h = reassembles_holds [OF assms(1)]
  note d = holds_stream_drained [OF h assms(2)]
  have "(LEAST i. i \<notin> A) = unat (m_deliveredOffset s')"
  proof (rule Least_equality)
    show "unat (m_deliveredOffset s') \<le> i" if "i \<notin> A" for i
      using d(1) that by (force simp: holds_stream_def not_less [symmetric])
  qed (rule d(2))
  then show ?thesis
    using d(1) by (simp add: holds_stream_def)
qed

theorem reassembly_delivers_all_witness:
  "unat (m_deliveredOffset example_drained) = (LEAST i. i \<notin> {0..<4})"
  using reassembly_delivers_all [OF example_arrivals_reassembles example_drain] by (rule conjunct1)

end
