(* ===== verification/QuicSupport.thy ===== *)
theory QuicSupport
  imports Prelude
begin

text \<open>
  What recovery, congestion control and path MTU discovery share: \<open>QuicTime\<close> of
  \<open>src/Net/Quic/Recovery/QuicRecovery.h\<close> and \<open>saturatingSubtract\<close> of
  \<open>src/Net/Quic/QuicSupport.h\<close>. A \<open>QuicTime\<close> is a signed 64-bit count of microseconds;
  signed overflow is undefined behaviour of the language, so the model takes the count as an
  integer. A \<open>size_t\<close> is a 64-bit word.
\<close>

type_synonym QuicTime = int

definition saturatingSubtract :: "u64 \<Rightarrow> u64 \<Rightarrow> u64" where
  "saturatingSubtract entire share = (if share > entire then 0 else entire - share)"

lemma saturatingSubtract_exact:
  "unat (saturatingSubtract entire share) = unat entire - unat share"
  by (auto simp: saturatingSubtract_def word_less_nat_alt unat_sub word_le_nat_alt not_less)

lemma saturatingSubtract_le [simp]: "saturatingSubtract entire share \<le> entire"
  by (simp add: word_le_nat_alt saturatingSubtract_exact)

end
