(* ===== verification/QuicPathMtu.thy ===== *)
theory QuicPathMtu
  imports QuicSupport
begin

text \<open>
  Datagram packetization-layer path MTU discovery, \<open>src/Net/Quic/QuicPathMtuDiscovery.{h,cpp}\<close>:
  the state machine that offers probe sizes, raises the datagram size when a probe is
  acknowledged and gives a size up after three probes of it expired.
\<close>

section \<open>The state machine\<close>

datatype QuicPathMtuPhase = Disabled | Base | Searching | SearchComplete

definition kBaseDatagramPayloadByteLength :: u64 where
  "kBaseDatagramPayloadByteLength = 1200"

definition kMinimumDatagramPayloadByteLength :: u64 where
  "kMinimumDatagramPayloadByteLength = kBaseDatagramPayloadByteLength"

definition kMaximumFailedProbeCount :: u64 where
  "kMaximumFailedProbeCount = 3"

definition kProbeSizeTable :: "u64 list" where
  "kProbeSizeTable = [1232, 1452, 8952]"

definition kLargestProbedDatagramPayloadByteLength :: u64 where
  "kLargestProbedDatagramPayloadByteLength = last kProbeSizeTable"

lemmas path_mtu_constants [code_unfold] =
  kBaseDatagramPayloadByteLength_def kMinimumDatagramPayloadByteLength_def
  kMaximumFailedProbeCount_def kProbeSizeTable_def kLargestProbedDatagramPayloadByteLength_def

record QuicPathMtuDiscovery =
  m_probeTimeout :: QuicTime
  m_raiseTimeout :: QuicTime
  m_datagramPayloadByteLength :: u64
  m_probedByteLength :: u64
  m_peerMaximumPayloadByteLength :: u64
  m_failedProbeCount :: u64
  m_mtuPhase :: QuicPathMtuPhase
  m_isProbeOutstanding :: bool
  m_deadline :: "QuicTime option"

definition newPathMtuDiscovery :: "QuicTime \<Rightarrow> QuicTime \<Rightarrow> QuicPathMtuDiscovery" where
  "newPathMtuDiscovery probeTimeout raiseTimeout =
     \<lparr>m_probeTimeout = probeTimeout, m_raiseTimeout = raiseTimeout,
      m_datagramPayloadByteLength = kMinimumDatagramPayloadByteLength,
      m_probedByteLength = kMinimumDatagramPayloadByteLength,
      m_peerMaximumPayloadByteLength = kLargestProbedDatagramPayloadByteLength,
      m_failedProbeCount = 0, m_mtuPhase = Disabled, m_isProbeOutstanding = False, m_deadline = None\<rparr>"

definition firstProbeByteLengthAtMost :: "u64 \<Rightarrow> u64" where
  "firstProbeByteLengthAtMost ceiling =
     (case find (\<lambda>candidate. candidate \<le> ceiling) kProbeSizeTable of
        Some candidate \<Rightarrow> candidate
      | None \<Rightarrow> kBaseDatagramPayloadByteLength)"

definition ceilingByteLength :: "QuicPathMtuDiscovery \<Rightarrow> u64" where
  "ceilingByteLength s = m_peerMaximumPayloadByteLength s"

definition advanceProbedByteLength :: "QuicPathMtuDiscovery \<Rightarrow> bool \<times> QuicPathMtuDiscovery" where
  "advanceProbedByteLength s =
     (case find (\<lambda>candidate. candidate > m_datagramPayloadByteLength s \<and> candidate \<le> ceilingByteLength s)
             kProbeSizeTable of
        Some candidate \<Rightarrow> (True, s\<lparr>m_probedByteLength := candidate\<rparr>)
      | None \<Rightarrow> (False, s\<lparr>m_probedByteLength := m_datagramPayloadByteLength s\<rparr>))"

text \<open>\<open>onHandshakeConfirmed\<close> and \<open>onConnectivityLost\<close> end with the same statements.\<close>

definition startFromBase :: "QuicTime \<Rightarrow> QuicPathMtuDiscovery \<Rightarrow> QuicPathMtuDiscovery" where
  "startFromBase now s =
     (let s = s\<lparr>m_datagramPayloadByteLength := kBaseDatagramPayloadByteLength,
            m_probedByteLength := firstProbeByteLengthAtMost (ceilingByteLength s),
            m_failedProbeCount := 0, m_isProbeOutstanding := False\<rparr> in
      if m_probedByteLength s \<le> m_datagramPayloadByteLength s
      then s\<lparr>m_mtuPhase := SearchComplete, m_deadline := Some (now + m_raiseTimeout s)\<rparr>
      else s\<lparr>m_mtuPhase := Base, m_deadline := Some now\<rparr>)"

definition onHandshakeConfirmed :: "QuicTime \<Rightarrow> QuicPathMtuDiscovery \<Rightarrow> QuicPathMtuDiscovery" where
  "onHandshakeConfirmed now s = (if m_mtuPhase s \<noteq> Disabled then s else startFromBase now s)"

definition onConnectivityLost :: "QuicTime \<Rightarrow> QuicPathMtuDiscovery \<Rightarrow> QuicPathMtuDiscovery" where
  "onConnectivityLost now s = (if m_mtuPhase s = Disabled then s else startFromBase now s)"

definition clamp :: "u64 \<Rightarrow> u64 \<Rightarrow> u64 \<Rightarrow> u64" where
  "clamp v lo hi = (if v < lo then lo else if hi < v then hi else v)"

definition onPeerMaximumPayload :: "u64 \<Rightarrow> QuicPathMtuDiscovery \<Rightarrow> QuicPathMtuDiscovery" where
  "onPeerMaximumPayload peerMaximumPayloadByteLength s =
     (let s = s\<lparr>m_peerMaximumPayloadByteLength :=
            clamp (min peerMaximumPayloadByteLength kLargestProbedDatagramPayloadByteLength)
              kMinimumDatagramPayloadByteLength kLargestProbedDatagramPayloadByteLength\<rparr>;
          s = s\<lparr>m_datagramPayloadByteLength := min (m_datagramPayloadByteLength s) (ceilingByteLength s)\<rparr> in
      if m_probedByteLength s > ceilingByteLength s
      then s\<lparr>m_probedByteLength := m_datagramPayloadByteLength s\<rparr> else s)"

definition probeByteLengthIfDue ::
  "QuicTime \<Rightarrow> u64 \<Rightarrow> QuicPathMtuDiscovery \<Rightarrow> u64 option \<times> QuicPathMtuDiscovery" where
  "probeByteLengthIfDue now availableByteBudget s =
     (if m_isProbeOutstanding s \<or> (case m_deadline s of None \<Rightarrow> True | Some d \<Rightarrow> now < d) \<or>
         m_mtuPhase s = Disabled \<or> m_mtuPhase s = SearchComplete then (None, s)
      else if m_probedByteLength s \<le> m_datagramPayloadByteLength s then (None, s)
      else if m_probedByteLength s > availableByteBudget
      then (None, s\<lparr>m_deadline := Some (now + m_probeTimeout s)\<rparr>)
      else (Some (m_probedByteLength s),
            s\<lparr>m_isProbeOutstanding := True, m_mtuPhase := Searching, m_deadline := Some (now + m_probeTimeout s)\<rparr>))"

definition onProbeAcknowledged :: "QuicTime \<Rightarrow> QuicPathMtuDiscovery \<Rightarrow> QuicPathMtuDiscovery" where
  "onProbeAcknowledged now s =
     (if \<not> m_isProbeOutstanding s then s
      else
        let s = s\<lparr>m_isProbeOutstanding := False, m_failedProbeCount := 0,
              m_datagramPayloadByteLength := min (m_probedByteLength s) (ceilingByteLength s)\<rparr>;
            (advanced, s) = advanceProbedByteLength s in
        if advanced then s\<lparr>m_mtuPhase := Searching, m_deadline := Some (now + m_probeTimeout s)\<rparr>
        else s\<lparr>m_mtuPhase := SearchComplete, m_deadline := Some (now + m_raiseTimeout s)\<rparr>)"

definition onMtuDeadlineReached :: "QuicTime \<Rightarrow> QuicPathMtuDiscovery \<Rightarrow> QuicPathMtuDiscovery" where
  "onMtuDeadlineReached now s =
     (if (case m_deadline s of None \<Rightarrow> True | Some d \<Rightarrow> now < d) then s
      else if m_mtuPhase s = SearchComplete then
        let s = s\<lparr>m_failedProbeCount := 0, m_probedByteLength := m_datagramPayloadByteLength s\<rparr>;
            (advanced, s) = advanceProbedByteLength s in
        if advanced then s\<lparr>m_mtuPhase := Searching, m_deadline := Some now\<rparr>
        else s\<lparr>m_deadline := Some (now + m_raiseTimeout s)\<rparr>
      else if \<not> m_isProbeOutstanding s then s\<lparr>m_deadline := Some now\<rparr>
      else
        let s = s\<lparr>m_isProbeOutstanding := False, m_failedProbeCount := m_failedProbeCount s + 1\<rparr> in
        if m_failedProbeCount s < kMaximumFailedProbeCount then s\<lparr>m_deadline := Some now\<rparr>
        else s\<lparr>m_failedProbeCount := 0, m_probedByteLength := m_datagramPayloadByteLength s,
               m_mtuPhase := SearchComplete, m_deadline := Some (now + m_raiseTimeout s)\<rparr>)"

lemmas path_mtu_defs =
  newPathMtuDiscovery_def firstProbeByteLengthAtMost_def ceilingByteLength_def
  advanceProbedByteLength_def startFromBase_def onHandshakeConfirmed_def onConnectivityLost_def
  clamp_def onPeerMaximumPayload_def probeByteLengthIfDue_def onProbeAcknowledged_def
  onMtuDeadlineReached_def

section \<open>The invariant\<close>

definition mtu_inv :: "QuicPathMtuDiscovery \<Rightarrow> bool" where
  "mtu_inv s \<longleftrightarrow>
     kBaseDatagramPayloadByteLength \<le> m_datagramPayloadByteLength s \<and>
     m_datagramPayloadByteLength s \<le> m_probedByteLength s \<and> m_probedByteLength s \<le> ceilingByteLength s \<and>
     ceilingByteLength s \<le> kLargestProbedDatagramPayloadByteLength \<and>
     m_failedProbeCount s < kMaximumFailedProbeCount \<and>
     (m_isProbeOutstanding s \<longrightarrow> m_mtuPhase s = Searching) \<and>
     (m_failedProbeCount s \<noteq> 0 \<longrightarrow> m_mtuPhase s = Searching) \<and>
     (m_mtuPhase s = Disabled \<longleftrightarrow> m_deadline s = None) \<and>
     (m_mtuPhase s \<in> {Disabled, SearchComplete} \<longrightarrow> m_probedByteLength s = m_datagramPayloadByteLength s)"

lemma ceilingByteLength_simps [simp]:
  "ceilingByteLength (s\<lparr>m_datagramPayloadByteLength := a\<rparr>) = ceilingByteLength s"
  "ceilingByteLength (s\<lparr>m_probedByteLength := a\<rparr>) = ceilingByteLength s"
  "ceilingByteLength (s\<lparr>m_failedProbeCount := a\<rparr>) = ceilingByteLength s"
  "ceilingByteLength (s\<lparr>m_isProbeOutstanding := b\<rparr>) = ceilingByteLength s"
  "ceilingByteLength (s\<lparr>m_mtuPhase := ph\<rparr>) = ceilingByteLength s"
  "ceilingByteLength (s\<lparr>m_deadline := d\<rparr>) = ceilingByteLength s"
  "ceilingByteLength (s\<lparr>m_peerMaximumPayloadByteLength := a\<rparr>) = a"
  by (simp_all add: ceilingByteLength_def)

lemma advance_cases:
  obtains (advanced) c where "advanceProbedByteLength s = (True, s\<lparr>m_probedByteLength := c\<rparr>)"
      "m_datagramPayloadByteLength s < c" "c \<le> ceilingByteLength s"
  | (stuck) "advanceProbedByteLength s = (False, s\<lparr>m_probedByteLength := m_datagramPayloadByteLength s\<rparr>)"
  by (cases "find (\<lambda>candidate. candidate > m_datagramPayloadByteLength s \<and> candidate \<le> ceilingByteLength s)
        kProbeSizeTable") (auto simp: advanceProbedByteLength_def find_Some_iff)

lemma new_mtu_inv [simp]: "mtu_inv (newPathMtuDiscovery a b)"
  by (simp add: mtu_inv_def newPathMtuDiscovery_def ceilingByteLength_def path_mtu_constants)

lemma firstProbe_bounds:
  assumes "kBaseDatagramPayloadByteLength \<le> c"
  shows "kBaseDatagramPayloadByteLength \<le> firstProbeByteLengthAtMost c" "firstProbeByteLengthAtMost c \<le> c"
  using assms by (auto simp: firstProbeByteLengthAtMost_def path_mtu_constants split: option.splits)

lemma startFromBase_inv:
  assumes "mtu_inv s"
  shows "mtu_inv (startFromBase now s)"
proof -
  have "kBaseDatagramPayloadByteLength \<le> ceilingByteLength s"
    using assms by (auto simp: mtu_inv_def)
  from firstProbe_bounds [OF this] show ?thesis
    using assms by (auto simp: mtu_inv_def startFromBase_def Let_def kMaximumFailedProbeCount_def)
qed

lemma clamp_bounds: "lo \<le> hi \<Longrightarrow> lo \<le> clamp v lo hi \<and> clamp v lo hi \<le> hi"
  by (auto simp: clamp_def)

lemma peer_ceiling_bounds:
  "kBaseDatagramPayloadByteLength \<le> clamp v kMinimumDatagramPayloadByteLength kLargestProbedDatagramPayloadByteLength"
  "clamp v kMinimumDatagramPayloadByteLength kLargestProbedDatagramPayloadByteLength \<le> kLargestProbedDatagramPayloadByteLength"
  using clamp_bounds [of kMinimumDatagramPayloadByteLength kLargestProbedDatagramPayloadByteLength v]
  by (simp_all add: path_mtu_constants)

lemma onPeerMaximumPayload_inv:
  assumes "mtu_inv s"
  shows "mtu_inv (onPeerMaximumPayload v s)"
proof -
  obtain c where c: "c = clamp (min v kLargestProbedDatagramPayloadByteLength)
      kMinimumDatagramPayloadByteLength kLargestProbedDatagramPayloadByteLength" by simp
  note b = peer_ceiling_bounds [of "min v kLargestProbedDatagramPayloadByteLength", folded c]
  let ?s = "s\<lparr>m_peerMaximumPayloadByteLength := c,
      m_datagramPayloadByteLength := min (m_datagramPayloadByteLength s) c\<rparr>"
  have "onPeerMaximumPayload v s =
      (if m_probedByteLength s > c then ?s\<lparr>m_probedByteLength := m_datagramPayloadByteLength ?s\<rparr> else ?s)"
    by (simp add: onPeerMaximumPayload_def c Let_def)
  then show ?thesis
    using assms b unfolding mtu_inv_def
    by (cases "m_probedByteLength s > c"; cases "m_datagramPayloadByteLength s \<le> c")
      (auto simp: min_def)
qed

lemma probeByteLengthIfDue_inv: "mtu_inv s \<Longrightarrow> mtu_inv (snd (probeByteLengthIfDue now budget s))"
  by (auto simp: mtu_inv_def probeByteLengthIfDue_def)

lemma onProbeAcknowledged_inv:
  assumes "mtu_inv s"
  shows "mtu_inv (onProbeAcknowledged now s)"
proof (cases "m_isProbeOutstanding s")
  case True
  let ?s = "s\<lparr>m_isProbeOutstanding := False, m_failedProbeCount := 0,
    m_datagramPayloadByteLength := min (m_probedByteLength s) (ceilingByteLength s)\<rparr>"
  show ?thesis
    using assms True
    by (cases rule: advance_cases [of ?s])
      (auto simp: mtu_inv_def onProbeAcknowledged_def Let_def min_def kMaximumFailedProbeCount_def)
qed (simp add: onProbeAcknowledged_def assms)

lemma onMtuDeadlineReached_inv:
  assumes "mtu_inv s"
  shows "mtu_inv (onMtuDeadlineReached now s)"
proof (cases "m_mtuPhase s = SearchComplete")
  case True
  let ?s = "s\<lparr>m_failedProbeCount := 0, m_probedByteLength := m_datagramPayloadByteLength s\<rparr>"
  show ?thesis
    using assms True
    by (cases rule: advance_cases [of ?s])
      (auto simp: mtu_inv_def onMtuDeadlineReached_def Let_def kMaximumFailedProbeCount_def)
next
  case False
  then show ?thesis
    using assms by (auto simp: mtu_inv_def onMtuDeadlineReached_def Let_def kMaximumFailedProbeCount_def)
qed

section \<open>Runs\<close>

text \<open>The calls the connection core makes. A run remembers the last size offered for a probe and
  collects the offered sizes whose acknowledgement arrived while the probe was outstanding: the
  sizes the path has been shown to carry.\<close>

datatype path_event = HandshakeConfirmed QuicTime | PeerMaximum u64 | AskProbe QuicTime u64
  | ProbeAcknowledged QuicTime | DeadlineReached QuicTime | ConnectivityLost QuicTime

record path_run =
  machine :: QuicPathMtuDiscovery
  offered :: "u64 option"
  proved :: "u64 set"

fun path_step :: "path_event \<Rightarrow> path_run \<Rightarrow> path_run" where
  "path_step (HandshakeConfirmed now) r = r\<lparr>machine := onHandshakeConfirmed now (machine r)\<rparr>"
| "path_step (PeerMaximum v) r = r\<lparr>machine := onPeerMaximumPayload v (machine r)\<rparr>"
| "path_step (AskProbe now budget) r =
     (case probeByteLengthIfDue now budget (machine r) of
        (None, s) \<Rightarrow> r\<lparr>machine := s\<rparr>
      | (Some probe, s) \<Rightarrow> r\<lparr>machine := s, offered := Some probe\<rparr>)"
| "path_step (ProbeAcknowledged now) r =
     r\<lparr>machine := onProbeAcknowledged now (machine r),
       proved := (if m_isProbeOutstanding (machine r) then set_option (offered r) else {}) \<union> proved r\<rparr>"
| "path_step (DeadlineReached now) r = r\<lparr>machine := onMtuDeadlineReached now (machine r)\<rparr>"
| "path_step (ConnectivityLost now) r = r\<lparr>machine := onConnectivityLost now (machine r)\<rparr>"

definition path_runs :: "QuicTime \<Rightarrow> QuicTime \<Rightarrow> path_event list \<Rightarrow> path_run" where
  "path_runs probeTimeout raiseTimeout events =
     fold path_step events \<lparr>machine = newPathMtuDiscovery probeTimeout raiseTimeout, offered = None, proved = {}\<rparr>"

definition evidence :: "path_run \<Rightarrow> bool" where
  "evidence r \<longleftrightarrow> mtu_inv (machine r) \<and>
     (m_isProbeOutstanding (machine r) \<longrightarrow>
        (\<exists>probe. offered r = Some probe \<and> m_probedByteLength (machine r) \<le> probe)) \<and>
     (m_datagramPayloadByteLength (machine r) = kBaseDatagramPayloadByteLength \<or>
        (\<exists>probe \<in> proved r. m_datagramPayloadByteLength (machine r) \<le> probe))"

lemma startFromBase_outstanding [simp]:
  "m_isProbeOutstanding (startFromBase now s) = False"
  "m_datagramPayloadByteLength (startFromBase now s) = kBaseDatagramPayloadByteLength"
  by (simp_all add: startFromBase_def Let_def)

lemma onPeerMaximumPayload_lowers:
  assumes "mtu_inv s"
  shows "m_isProbeOutstanding (onPeerMaximumPayload v s) = m_isProbeOutstanding s"
    "m_datagramPayloadByteLength (onPeerMaximumPayload v s) \<le> m_datagramPayloadByteLength s"
    "m_probedByteLength (onPeerMaximumPayload v s) \<le> m_probedByteLength s"
  using assms by (auto simp: onPeerMaximumPayload_def Let_def mtu_inv_def min.coboundedI1)

lemma onMtuDeadlineReached_frame:
  "m_isProbeOutstanding (onMtuDeadlineReached now s) \<Longrightarrow>
     m_isProbeOutstanding s \<and> (m_mtuPhase s \<noteq> SearchComplete \<longrightarrow> onMtuDeadlineReached now s = s)"
  "m_datagramPayloadByteLength (onMtuDeadlineReached now s) = m_datagramPayloadByteLength s"
  by (auto simp: onMtuDeadlineReached_def advanceProbedByteLength_def Let_def
      split: option.splits if_splits prod.splits)

lemma onProbeAcknowledged_adopts:
  "m_isProbeOutstanding (onProbeAcknowledged now s) = False"
  "m_isProbeOutstanding s \<Longrightarrow>
     m_datagramPayloadByteLength (onProbeAcknowledged now s) = min (m_probedByteLength s) (ceilingByteLength s)"
  by (auto simp: onProbeAcknowledged_def advanceProbedByteLength_def Let_def split: option.splits)

lemma onProbeAcknowledged_idle: "\<not> m_isProbeOutstanding s \<Longrightarrow> onProbeAcknowledged now s = s"
  by (simp add: onProbeAcknowledged_def)

lemma evidence_step:
  assumes "evidence r"
  shows "evidence (path_step e r)"
proof (cases e)
  case (HandshakeConfirmed now)
  then show ?thesis
    using assms by (auto simp: evidence_def onHandshakeConfirmed_def startFromBase_inv)
next
  case (PeerMaximum v)
  define s where "s = onPeerMaximumPayload v (machine r)"
  have inv: "mtu_inv (machine r)" using assms by (simp add: evidence_def)
  note low = onPeerMaximumPayload_lowers [OF inv, of v, folded s_def]
  have s: "mtu_inv s" unfolding s_def by (rule onPeerMaximumPayload_inv [OF inv])
  have floor: "kBaseDatagramPayloadByteLength \<le> m_datagramPayloadByteLength s"
    using s by (simp add: mtu_inv_def)
  have "m_datagramPayloadByteLength s = kBaseDatagramPayloadByteLength \<or>
      (\<exists>probe \<in> proved r. m_datagramPayloadByteLength s \<le> probe)"
    using assms low(2) floor unfolding evidence_def by (metis antisym order_trans)
  moreover have "\<exists>probe. offered r = Some probe \<and> m_probedByteLength s \<le> probe"
    if "m_isProbeOutstanding s"
    using assms low(1,3) that unfolding evidence_def by (metis order_trans)
  ultimately show ?thesis
    using s by (simp add: PeerMaximum evidence_def s_def)
next
  case (AskProbe now budget)
  then show ?thesis
    using assms probeByteLengthIfDue_inv [of "machine r" now budget]
    by (auto simp: evidence_def probeByteLengthIfDue_def)
next
  case (ProbeAcknowledged now)
  then show ?thesis
    using assms onProbeAcknowledged_inv [of "machine r" now]
    by (cases "m_isProbeOutstanding (machine r)")
      (auto simp: evidence_def onProbeAcknowledged_adopts onProbeAcknowledged_idle min.coboundedI1)
next
  case (DeadlineReached now)
  have "mtu_inv (machine r)" using assms by (simp add: evidence_def)
  then have "m_isProbeOutstanding (machine r) \<Longrightarrow> m_mtuPhase (machine r) \<noteq> SearchComplete"
    by (auto simp: mtu_inv_def)
  then show ?thesis
    using assms DeadlineReached onMtuDeadlineReached_frame [of now "machine r"]
      onMtuDeadlineReached_inv [of "machine r" now]
    by (auto simp: evidence_def)
next
  case (ConnectivityLost now)
  then show ?thesis
    using assms by (auto simp: evidence_def onConnectivityLost_def startFromBase_inv)
qed

lemma evidence_start:
  "evidence \<lparr>machine = newPathMtuDiscovery probeTimeout raiseTimeout, offered = None, proved = {}\<rparr>"
  by (simp add: evidence_def) (simp add: newPathMtuDiscovery_def kMinimumDatagramPayloadByteLength_def)

lemma evidence_runs: "evidence (path_runs probeTimeout raiseTimeout events)"
proof -
  have "evidence r \<Longrightarrow> evidence (fold path_step events r)" for r
    by (induction events arbitrary: r) (simp_all add: evidence_step)
  then show ?thesis
    unfolding path_runs_def using evidence_start by blast
qed

text \<open>C25: A datagram size above the minimum is never used without evidence: after any sequence of
  calls the size is the 1200 bytes every path carries, or a probe of at least that size was offered
  and its acknowledgement arrived. It is never below 1200, never above the peer's limit or 8952, and
  at most two expired probes are on the count.\<close>

theorem path_mtu_proved:
  "let r = path_runs probeTimeout raiseTimeout events; limit = m_datagramPayloadByteLength (machine r) in
     (limit = 1200 \<or> (\<exists>probe. probe \<in> proved r \<and> limit \<le> probe)) \<and>
     1200 \<le> limit \<and> limit \<le> ceilingByteLength (machine r) \<and> limit \<le> 8952 \<and>
     m_failedProbeCount (machine r) < 3"
proof -
  have e: "evidence (path_runs probeTimeout raiseTimeout events)" by (rule evidence_runs)
  show ?thesis
    unfolding Let_def
    using e by (auto simp: evidence_def mtu_inv_def path_mtu_constants)
qed

section \<open>The search ends, and finds what the path carries\<close>

text \<open>The connection's timer fires at the deadline; the probe offered then is acknowledged after
  \<open>rtt\<close> when the path carries it and never otherwise. The window has room for any probe.\<close>

definition pathTick :: "QuicTime \<Rightarrow> u64 \<Rightarrow> QuicPathMtuDiscovery \<Rightarrow> QuicPathMtuDiscovery" where
  "pathTick rtt capacity s =
     (case m_deadline s of None \<Rightarrow> s
      | Some now \<Rightarrow>
          (case probeByteLengthIfDue now kLargestProbedDatagramPayloadByteLength (onMtuDeadlineReached now s) of
             (None, s) \<Rightarrow> s
           | (Some probe, s) \<Rightarrow> if probe \<le> capacity then onProbeAcknowledged (now + rtt) s else s))"

definition next_probe :: "QuicPathMtuDiscovery \<Rightarrow> u64 option" where
  "next_probe s = find (\<lambda>c. c > m_datagramPayloadByteLength s \<and> c \<le> ceilingByteLength s) kProbeSizeTable"

definition blocked :: "u64 \<Rightarrow> QuicPathMtuDiscovery \<Rightarrow> bool" where
  "blocked capacity s \<longleftrightarrow> (\<forall>p. next_probe s = Some p \<longrightarrow> capacity < p)"

definition search_inv :: "u64 \<Rightarrow> QuicPathMtuDiscovery \<Rightarrow> bool" where
  "search_inv capacity s \<longleftrightarrow>
     m_deadline s \<noteq> None \<and> m_mtuPhase s \<noteq> Disabled \<and>
     m_datagramPayloadByteLength s \<in> insert 1200 (set kProbeSizeTable) \<and>
     m_datagramPayloadByteLength s \<le> capacity \<and> m_datagramPayloadByteLength s \<le> ceilingByteLength s \<and>
     m_failedProbeCount s < 3 \<and>
     (m_isProbeOutstanding s \<longrightarrow> m_mtuPhase s = Searching \<and> capacity < m_probedByteLength s) \<and>
     (m_failedProbeCount s \<noteq> 0 \<longrightarrow> m_isProbeOutstanding s) \<and>
     (m_mtuPhase s \<noteq> SearchComplete \<longrightarrow> next_probe s = Some (m_probedByteLength s)) \<and>
     (m_mtuPhase s = SearchComplete \<longrightarrow> \<not> m_isProbeOutstanding s \<and> blocked capacity s)"

lemma next_probe_simps [simp]:
  "next_probe (s\<lparr>m_probedByteLength := a\<rparr>) = next_probe s"
  "next_probe (s\<lparr>m_failedProbeCount := a\<rparr>) = next_probe s"
  "next_probe (s\<lparr>m_isProbeOutstanding := b\<rparr>) = next_probe s"
  "next_probe (s\<lparr>m_mtuPhase := ph\<rparr>) = next_probe s"
  "next_probe (s\<lparr>m_deadline := d\<rparr>) = next_probe s"
  by (simp_all add: next_probe_def)

lemma blocked_simps [simp]:
  "blocked c (s\<lparr>m_probedByteLength := a\<rparr>) = blocked c s"
  "blocked c (s\<lparr>m_failedProbeCount := a\<rparr>) = blocked c s"
  "blocked c (s\<lparr>m_isProbeOutstanding := b\<rparr>) = blocked c s"
  "blocked c (s\<lparr>m_mtuPhase := ph\<rparr>) = blocked c s"
  "blocked c (s\<lparr>m_deadline := d\<rparr>) = blocked c s"
  by (simp_all add: blocked_def)

lemma advance_next:
  "advanceProbedByteLength s = (case next_probe s of Some c \<Rightarrow> (True, s\<lparr>m_probedByteLength := c\<rparr>)
     | None \<Rightarrow> (False, s\<lparr>m_probedByteLength := m_datagramPayloadByteLength s\<rparr>))"
  by (simp add: advanceProbedByteLength_def next_probe_def)

lemma next_probe_Some:
  "next_probe s = Some p \<Longrightarrow>
     p \<in> set kProbeSizeTable \<and> m_datagramPayloadByteLength s < p \<and> p \<le> ceilingByteLength s \<and>
     \<not> p \<le> m_datagramPayloadByteLength s \<and> \<not> kLargestProbedDatagramPayloadByteLength < p"
  by (auto simp: next_probe_def path_mtu_constants split: if_splits)

text \<open>A tick while the path still carries the next size: the size is raised.\<close>

lemma tick_raises:
  assumes "search_inv c s" "\<not> blocked c s"
  obtains p where "next_probe s = Some p" "p \<le> c" "m_datagramPayloadByteLength (pathTick rtt c s) = p"
    "search_inv c (pathTick rtt c s)" "ceilingByteLength (pathTick rtt c s) = ceilingByteLength s"
proof -
  obtain p where p: "next_probe s = Some p" "p \<le> c"
    using assms(2) by (auto simp: blocked_def)
  obtain now where now: "m_deadline s = Some now"
    using assms(1) by (auto simp: search_inv_def)
  have s: "m_mtuPhase s \<noteq> SearchComplete" "m_mtuPhase s \<noteq> Disabled" "m_probedByteLength s = p"
    "\<not> m_isProbeOutstanding s"
    using assms p by (auto simp: search_inv_def)
  note b = next_probe_Some [OF p(1)]
  have tick: "pathTick rtt c s = onProbeAcknowledged (now + rtt)
      (s\<lparr>m_isProbeOutstanding := True, m_mtuPhase := Searching, m_deadline := Some (now + m_probeTimeout s)\<rparr>)"
    using s now b p(2) by (simp add: pathTick_def onMtuDeadlineReached_def probeByteLengthIfDue_def)
  define following where "following = find (\<lambda>c. c > p \<and> c \<le> ceilingByteLength s) kProbeSizeTable"
  have following: "next_probe t = following"
    if "m_datagramPayloadByteLength t = p" "ceilingByteLength t = ceilingByteLength s" for t
    using that by (simp add: next_probe_def following_def)
  let ?s = "s\<lparr>m_isProbeOutstanding := False, m_failedProbeCount := 0, m_datagramPayloadByteLength := p\<rparr>"
  have result: "pathTick rtt c s = (case following of
        Some q \<Rightarrow> ?s\<lparr>m_probedByteLength := q, m_mtuPhase := Searching, m_deadline := Some (now + rtt + m_probeTimeout s)\<rparr>
      | None \<Rightarrow> ?s\<lparr>m_probedByteLength := p, m_mtuPhase := SearchComplete, m_deadline := Some (now + rtt + m_raiseTimeout s)\<rparr>)"
    using s b by (simp add: tick onProbeAcknowledged_def advance_next following min_def Let_def split: option.splits)
  have frame: "m_datagramPayloadByteLength (pathTick rtt c s) = p"
    "ceilingByteLength (pathTick rtt c s) = ceilingByteLength s"
    by (simp_all add: result split: option.splits)
  then have "search_inv c (pathTick rtt c s)"
    using p b unfolding search_inv_def blocked_def following [OF frame] by (auto simp: result split: option.splits)
  then show thesis using p frame by (intro that)
qed

text \<open>A tick after that: the size stays, and each expired probe counts until the search stops.\<close>

lemma tick_blocked:
  assumes "search_inv c s" "blocked c s"
  shows "search_inv c (pathTick rtt c s) \<and>
    m_datagramPayloadByteLength (pathTick rtt c s) = m_datagramPayloadByteLength s \<and>
    ceilingByteLength (pathTick rtt c s) = ceilingByteLength s \<and>
    (m_mtuPhase s = SearchComplete \<or>
     (if m_isProbeOutstanding s
      then m_mtuPhase (pathTick rtt c s) = SearchComplete \<or>
        m_isProbeOutstanding (pathTick rtt c s) \<and> m_failedProbeCount (pathTick rtt c s) = m_failedProbeCount s + 1
      else m_isProbeOutstanding (pathTick rtt c s)))"
proof -
  obtain now where now: "m_deadline s = Some now"
    using assms(1) by (auto simp: search_inv_def)
  let ?offered = "\<lambda>s. s\<lparr>m_isProbeOutstanding := True, m_mtuPhase := Searching, m_deadline := Some (now + m_probeTimeout s)\<rparr>"
  consider (complete) "m_mtuPhase s = SearchComplete"
    | (due) p where "m_mtuPhase s \<noteq> SearchComplete" "\<not> m_isProbeOutstanding s" "next_probe s = Some p"
    | (waiting) p where "m_isProbeOutstanding s" "next_probe s = Some p" "m_mtuPhase s \<noteq> SearchComplete"
    using assms(1) by (auto simp: search_inv_def)
  then show ?thesis
  proof cases
    case complete
    have idle: "\<not> m_isProbeOutstanding s" using complete assms(1) by (simp add: search_inv_def)
    have "pathTick rtt c s = (case next_probe s of
        Some q \<Rightarrow> ?offered (s\<lparr>m_failedProbeCount := 0, m_probedByteLength := q\<rparr>)
      | None \<Rightarrow> s\<lparr>m_failedProbeCount := 0, m_probedByteLength := m_datagramPayloadByteLength s, m_deadline := Some (now + m_raiseTimeout s)\<rparr>)"
    proof (cases "next_probe s")
      case None
      then show ?thesis
        using complete now by (simp add: pathTick_def onMtuDeadlineReached_def probeByteLengthIfDue_def advance_next Let_def)
    next
      case (Some q)
      have "\<not> q \<le> c" using assms(2) Some by (simp add: blocked_def not_le)
      then show ?thesis
        using complete now idle Some next_probe_Some [OF Some]
        by (simp add: pathTick_def onMtuDeadlineReached_def probeByteLengthIfDue_def advance_next Let_def)
    qed
    then show ?thesis
      using complete assms by (auto simp: search_inv_def blocked_def split: option.splits)
  next
    case due
    note b = next_probe_Some [OF due(3)]
    have "\<not> p \<le> c" "m_mtuPhase s \<noteq> Disabled" "m_probedByteLength s = p"
      using assms due by (auto simp: blocked_def search_inv_def not_le)
    then have "pathTick rtt c s = ?offered s"
      using due now b by (simp add: pathTick_def onMtuDeadlineReached_def probeByteLengthIfDue_def)
    then show ?thesis
      using due assms by (auto simp: search_inv_def blocked_def)
  next
    case waiting
    note b = next_probe_Some [OF waiting(2)]
    have w: "\<not> p \<le> c" "m_mtuPhase s \<noteq> Disabled" "m_probedByteLength s = p"
      using assms waiting by (auto simp: blocked_def search_inv_def not_le)
    let ?s = "s\<lparr>m_isProbeOutstanding := False, m_failedProbeCount := m_failedProbeCount s + 1\<rparr>"
    have "pathTick rtt c s = (if m_failedProbeCount s + 1 < kMaximumFailedProbeCount then ?offered ?s
      else ?s\<lparr>m_failedProbeCount := 0, m_probedByteLength := m_datagramPayloadByteLength s,
             m_mtuPhase := SearchComplete, m_deadline := Some (now + m_raiseTimeout s)\<rparr>)"
      using waiting now b w by (simp add: pathTick_def onMtuDeadlineReached_def probeByteLengthIfDue_def Let_def)
    then show ?thesis
      using waiting assms by (auto simp: search_inv_def blocked_def kMaximumFailedProbeCount_def)
  qed
qed

lemma tick_search_inv:
  "search_inv c s \<Longrightarrow> search_inv c (pathTick rtt c s) \<and> ceilingByteLength (pathTick rtt c s) = ceilingByteLength s"
  using tick_raises [of c s thesis for thesis] tick_blocked by (metis tick_raises)

lemma ticks_search_inv:
  "search_inv c s \<Longrightarrow> search_inv c ((pathTick rtt c ^^ n) s) \<and>
     ceilingByteLength ((pathTick rtt c ^^ n) s) = ceilingByteLength s"
  by (induction n) (auto simp: tick_search_inv)

lemma blocked_cong:
  "m_datagramPayloadByteLength s = m_datagramPayloadByteLength t \<Longrightarrow> ceilingByteLength s = ceilingByteLength t \<Longrightarrow>
     blocked c s = blocked c t"
  by (simp add: blocked_def next_probe_def)

lemma ticks_blocked:
  "search_inv c s \<Longrightarrow> blocked c s \<Longrightarrow>
     blocked c ((pathTick rtt c ^^ n) s) \<and>
     m_datagramPayloadByteLength ((pathTick rtt c ^^ n) s) = m_datagramPayloadByteLength s"
proof (induction n)
  case (Suc n)
  let ?t = "(pathTick rtt c ^^ n) s"
  have "search_inv c ?t" "blocked c ?t" using Suc ticks_search_inv by blast+
  from tick_blocked [OF this, of rtt] show ?case
    using Suc blocked_cong [of "pathTick rtt c ?t" ?t c] by simp
qed simp

definition larger_sizes :: "QuicPathMtuDiscovery \<Rightarrow> nat" where
  "larger_sizes s = length (filter (\<lambda>p. m_datagramPayloadByteLength s < p) kProbeSizeTable)"

lemma larger_sizes_drop:
  assumes "p \<in> set kProbeSizeTable" "m_datagramPayloadByteLength s < p" "m_datagramPayloadByteLength t = p"
  shows "larger_sizes t < larger_sizes s"
proof -
  have sub: "filter (\<lambda>q. p < q) kProbeSizeTable = filter (\<lambda>q. p < q) (filter (\<lambda>q. m_datagramPayloadByteLength s < q) kProbeSizeTable)"
    using assms(2) by (auto intro!: filter_cong)
  have "p \<in> set (filter (\<lambda>q. m_datagramPayloadByteLength s < q) kProbeSizeTable)" using assms by simp
  then show ?thesis
    unfolding larger_sizes_def assms(3) by (subst sub) (rule length_filter_less, auto)
qed

lemma search_blocks:
  "search_inv c s \<Longrightarrow> larger_sizes s \<le> k \<Longrightarrow> blocked c ((pathTick rtt c ^^ k) s)"
proof (induction k arbitrary: s)
  case 0
  then have "\<forall>p \<in> set kProbeSizeTable. \<not> m_datagramPayloadByteLength s < p"
    by (simp add: larger_sizes_def filter_empty_conv)
  then show ?case using next_probe_Some by (fastforce simp: blocked_def)
next
  case (Suc k)
  show ?case
  proof (cases "blocked c s")
    case True
    then show ?thesis using ticks_blocked [OF Suc.prems(1)] by blast
  next
    case False
    obtain p where p: "next_probe s = Some p" "m_datagramPayloadByteLength (pathTick rtt c s) = p"
      "search_inv c (pathTick rtt c s)"
      using tick_raises [OF Suc.prems(1) False, of rtt] by metis
    have "larger_sizes (pathTick rtt c s) \<le> k"
      using larger_sizes_drop [of p s] p next_probe_Some [OF p(1)] Suc.prems(2) by fastforce
    from Suc.IH [OF p(3) this] show ?thesis by (simp add: funpow_swap1)
  qed
qed

lemma search_stops:
  assumes "search_inv c s" "blocked c s"
  shows "\<exists>n \<le> 4. m_mtuPhase ((pathTick rtt c ^^ n) s) = SearchComplete"
proof -
  let ?t = "\<lambda>n. (pathTick rtt c ^^ n) s"
  have inv: "search_inv c (?t n)" "blocked c (?t n)" for n
    using assms ticks_search_inv ticks_blocked by blast+
  have adv: "m_mtuPhase (?t n) = SearchComplete \<or>
     (if m_isProbeOutstanding (?t n)
      then m_mtuPhase (?t (Suc n)) = SearchComplete \<or>
        m_isProbeOutstanding (?t (Suc n)) \<and> m_failedProbeCount (?t (Suc n)) = m_failedProbeCount (?t n) + 1
      else m_isProbeOutstanding (?t (Suc n)))" for n
    using tick_blocked [OF inv [of n], of rtt] by (auto split: if_splits)
  have few: "m_failedProbeCount (?t n) < 3" for n
    using inv(1) [of n] by (simp add: search_inv_def)
  have count: "m_isProbeOutstanding (?t (Suc n)) \<and> of_nat n \<le> m_failedProbeCount (?t (Suc n))"
    if "\<forall>j \<le> n. m_mtuPhase (?t (Suc j)) \<noteq> SearchComplete" "m_mtuPhase s \<noteq> SearchComplete" "n \<le> 3" for n
    using that
  proof (induction n)
    case 0
    then show ?case using adv [of 0] by (auto split: if_splits)
  next
    case (Suc n)
    then have "m_isProbeOutstanding (?t (Suc n))" "of_nat n \<le> m_failedProbeCount (?t (Suc n))" by auto
    moreover have "n \<le> 2" using Suc.prems by simp
    ultimately show ?case
      using adv [of "Suc n"] few [of "Suc n"] Suc.prems(1)
      by (auto simp: word_le_nat_alt word_less_nat_alt unat_word_ariths unat_of_nat split: if_splits)
  qed
  show ?thesis
  proof (rule ccontr)
    assume c: "\<not> ?thesis"
    have all: "m_mtuPhase (?t j) \<noteq> SearchComplete" if "j \<le> 4" for j using c that by blast
    have "\<forall>j \<le> 3. m_mtuPhase (?t (Suc j)) \<noteq> SearchComplete" using all by (auto simp del: funpow.simps)
    then have "of_nat 3 \<le> m_failedProbeCount (?t (Suc 3))"
      using count [of 3] all [of 0] by (simp del: funpow.simps add: funpow_0)
    then show False using few [of 4] by (simp add: not_less [symmetric])
  qed
qed

lemma next_probe_least:
  assumes "p \<in> set kProbeSizeTable" "m_datagramPayloadByteLength s < p" "p \<le> ceilingByteLength s"
  shows "\<exists>q. next_probe s = Some q \<and> q \<le> p"
proof -
  have "\<exists>q. find (\<lambda>c. c > d \<and> c \<le> m) kProbeSizeTable = Some q \<and> q \<le> p"
    if "d < p" "p \<le> m" for d m
    using assms(1) that by (auto simp: kProbeSizeTable_def)
  then show ?thesis using assms(2,3) by (simp add: next_probe_def)
qed

lemma largest_carried:
  assumes "search_inv c s" "blocked c s"
  shows "m_datagramPayloadByteLength s = Max (insert 1200 {p \<in> set kProbeSizeTable. p \<le> c \<and> p \<le> ceilingByteLength s})"
proof (rule Max_eqI [symmetric])
  show "m_datagramPayloadByteLength s \<in> insert 1200 {p \<in> set kProbeSizeTable. p \<le> c \<and> p \<le> ceilingByteLength s}"
    using assms(1) by (auto simp: search_inv_def)
  fix p assume p: "p \<in> insert 1200 {p \<in> set kProbeSizeTable. p \<le> c \<and> p \<le> ceilingByteLength s}"
  show "p \<le> m_datagramPayloadByteLength s"
  proof (rule ccontr)
    assume less: "\<not> ?thesis"
    have "p \<noteq> 1200" using less assms(1) by (auto simp: search_inv_def kProbeSizeTable_def)
    then have mem: "p \<in> set kProbeSizeTable" "p \<le> c" "p \<le> ceilingByteLength s" using p by auto
    then obtain q where "next_probe s = Some q" "q \<le> p"
      using next_probe_least less by (metis not_le)
    then show False using assms(2) mem(2) by (auto simp: blocked_def)
  qed
qed simp

lemma confirmed_search_inv:
  assumes "1200 \<le> c"
  shows "search_inv c (onHandshakeConfirmed now (onPeerMaximumPayload peer (newPathMtuDiscovery probeTimeout raiseTimeout)))"
proof -
  define s where "s = onPeerMaximumPayload peer (newPathMtuDiscovery probeTimeout raiseTimeout)"
  have s: "mtu_inv s" "m_mtuPhase s = Disabled"
    by (simp add: s_def onPeerMaximumPayload_inv)
      (simp add: s_def onPeerMaximumPayload_def Let_def newPathMtuDiscovery_def)
  have ceil: "1200 \<le> ceilingByteLength s"
    using s(1) by (auto simp: mtu_inv_def kBaseDatagramPayloadByteLength_def)
  have start: "onHandshakeConfirmed now s = startFromBase now s"
    using s(2) by (simp add: onHandshakeConfirmed_def)
  let ?b = "s\<lparr>m_datagramPayloadByteLength := 1200\<rparr>"
  have first: "firstProbeByteLengthAtMost (ceilingByteLength s) =
      (case next_probe ?b of None \<Rightarrow> 1200 | Some p \<Rightarrow> p)"
    by (simp add: firstProbeByteLengthAtMost_def next_probe_def path_mtu_constants)
  show ?thesis
  proof (cases "next_probe ?b")
    case None
    then have "startFromBase now s = s\<lparr>m_datagramPayloadByteLength := 1200, m_probedByteLength := 1200,
        m_failedProbeCount := 0, m_isProbeOutstanding := False,
        m_mtuPhase := SearchComplete, m_deadline := Some (now + m_raiseTimeout s)\<rparr>"
      by (simp add: startFromBase_def first kBaseDatagramPayloadByteLength_def)
    then show ?thesis
      using assms ceil None unfolding s_def [symmetric] start
      by (simp add: search_inv_def blocked_def next_probe_def)
  next
    case (Some p)
    then have "\<not> p \<le> 1200" using next_probe_Some [OF Some] by simp
    then have "startFromBase now s = s\<lparr>m_datagramPayloadByteLength := 1200, m_probedByteLength := p,
        m_failedProbeCount := 0, m_isProbeOutstanding := False, m_mtuPhase := Base, m_deadline := Some now\<rparr>"
      using Some by (simp add: startFromBase_def first kBaseDatagramPayloadByteLength_def)
    then show ?thesis
      using assms ceil Some unfolding s_def [symmetric] start
      by (simp add: search_inv_def blocked_def next_probe_def)
  qed
qed

text \<open>C24: The search ends and finds what the path carries. Once the handshake is confirmed, on a
  path that carries every datagram up to \<open>capacity\<close> bytes and drops larger ones, the machine is in
  \<open>SearchComplete\<close> after at most seven timer expiries; from the third one on the datagram size is,
  for ever, the largest size of the table that fits the path and the peer's limit, or 1200.\<close>

theorem path_mtu_found:
  assumes "1200 \<le> capacity"
    and "s = onHandshakeConfirmed now (onPeerMaximumPayload peer (newPathMtuDiscovery probeTimeout raiseTimeout))"
  shows "(\<exists>n \<le> 7. m_mtuPhase ((pathTick rtt capacity ^^ n) s) = SearchComplete) \<and>
    (\<forall>n \<ge> 3. m_datagramPayloadByteLength ((pathTick rtt capacity ^^ n) s) =
       Max (insert 1200 {p \<in> set kProbeSizeTable. p \<le> capacity \<and> p \<le> ceilingByteLength s}))"
proof -
  have inv: "search_inv capacity s" using confirmed_search_inv [OF assms(1)] by (simp add: assms(2))
  have "larger_sizes s \<le> 3"
    unfolding larger_sizes_def by (rule order_trans [OF length_filter_le]) (simp add: kProbeSizeTable_def)
  then have at3: "blocked capacity ((pathTick rtt capacity ^^ 3) s)" by (rule search_blocks [OF inv])
  have inv3: "search_inv capacity ((pathTick rtt capacity ^^ 3) s)"
    "ceilingByteLength ((pathTick rtt capacity ^^ 3) s) = ceilingByteLength s"
    using ticks_search_inv [OF inv] by blast+
  obtain n where n: "n \<le> 4" "m_mtuPhase ((pathTick rtt capacity ^^ n) ((pathTick rtt capacity ^^ 3) s)) = SearchComplete"
    using search_stops [OF inv3(1) at3] by blast
  then have "m_mtuPhase ((pathTick rtt capacity ^^ (n + 3)) s) = SearchComplete"
    by (simp only: funpow_add o_apply)
  moreover have "n + 3 \<le> 7" using n(1) by simp
  moreover have "m_datagramPayloadByteLength ((pathTick rtt capacity ^^ m) s) =
      Max (insert 1200 {p \<in> set kProbeSizeTable. p \<le> capacity \<and> p \<le> ceilingByteLength s})" if "3 \<le> m" for m
  proof -
    define k where "k = m - 3"
    have "m = k + 3" using that by (simp add: k_def)
    then have "(pathTick rtt capacity ^^ m) s = (pathTick rtt capacity ^^ k) ((pathTick rtt capacity ^^ 3) s)"
      by (simp only: funpow_add o_apply)
    then show ?thesis
      using ticks_blocked [OF inv3(1) at3] largest_carried [OF inv3(1) at3] inv3(2) by simp
  qed
  ultimately show ?thesis by blast
qed

text \<open>A path of 1500-byte Ethernet frames.\<close>

definition example_search :: QuicPathMtuDiscovery where
  "example_search = onHandshakeConfirmed 0 (onPeerMaximumPayload 65507 (newPathMtuDiscovery 16000000 600000000))"

theorem path_mtu_found_witness:
  "\<exists>n \<le> 7. m_mtuPhase ((pathTick 20000 1472 ^^ n) example_search) = SearchComplete"
proof -
  have "(1200 :: u64) \<le> 1472" by simp
  from path_mtu_found [OF this example_search_def] show ?thesis by (rule conjunct1)
qed

text \<open>C26: A peer limit that arrives during the search can stall it. When a limit below the size about
  to be probed arrives between two probes, no probe is offered again, and every expiry of the timer
  sets it to the present: the timer is due again at once, for ever.\<close>

theorem lowered_limit_stalls:
  assumes "mtu_inv s" "m_mtuPhase s \<in> {Base, Searching}" "\<not> m_isProbeOutstanding s"
    and "v < m_probedByteLength s" "1200 < m_probedByteLength s"
  shows "let stalled = onPeerMaximumPayload v s in
      (\<forall>now. (case m_deadline stalled of Some d \<Rightarrow> d \<le> now | None \<Rightarrow> False) \<longrightarrow>
         onMtuDeadlineReached now stalled = stalled\<lparr>m_deadline := Some now\<rparr>) \<and>
      (\<forall>now budget deadline. probeByteLengthIfDue now budget (stalled\<lparr>m_deadline := deadline\<rparr>) =
         (None, stalled\<lparr>m_deadline := deadline\<rparr>))"
proof -
  define c where "c = clamp (min v 8952) 1200 8952"
  have le: "m_probedByteLength s \<le> 8952"
    using assms(1) by (auto simp: mtu_inv_def kLargestProbedDatagramPayloadByteLength_def kProbeSizeTable_def)
  have "c < m_probedByteLength s"
  proof (cases "v < 1200")
    case True
    then have "v \<le> 8952" by (simp add: word_less_nat_alt word_le_nat_alt)
    then have "min v 8952 = v" by simp
    then show ?thesis using True assms(5) by (simp add: c_def clamp_def)
  next
    case False
    have "v < 8952" by (rule less_le_trans [OF assms(4) le])
    then have "min v 8952 = v" "\<not> 8952 < v" by simp_all
    then show ?thesis using False assms(4) by (simp add: c_def clamp_def)
  qed
  then have "onPeerMaximumPayload v s = s\<lparr>m_peerMaximumPayloadByteLength := c,
      m_datagramPayloadByteLength := min (m_datagramPayloadByteLength s) c,
      m_probedByteLength := min (m_datagramPayloadByteLength s) c\<rparr>"
    by (simp add: onPeerMaximumPayload_def c_def path_mtu_constants Let_def)
  then show ?thesis
    using assms(2,3) by (auto simp: onMtuDeadlineReached_def probeByteLengthIfDue_def Let_def split: option.splits)
qed

theorem lowered_limit_stalls_witness:
  "let stalled = onPeerMaximumPayload 1200 example_search in
     onMtuDeadlineReached 5 stalled = stalled\<lparr>m_deadline := Some 5\<rparr>"
proof -
  have "mtu_inv example_search" unfolding mtu_inv_def by code_simp
  moreover have "m_mtuPhase example_search \<in> {Base, Searching}" "\<not> m_isProbeOutstanding example_search"
    "(1200 :: u64) < m_probedByteLength example_search"
    "case m_deadline (onPeerMaximumPayload 1200 example_search) of Some d \<Rightarrow> d \<le> 5 | None \<Rightarrow> False"
    by code_simp+
  ultimately show ?thesis
    using lowered_limit_stalls [of example_search 1200] by (simp add: Let_def)
qed

end
