(* ===== verification/QuicRecovery.thy ===== *)
theory QuicRecovery
  imports QuicPacket QuicSupport "HOL-Library.Signed_Division" "HOL-Library.Multiset"
begin

text \<open>
  Loss detection of RFC 9002, \<open>src/Net/Quic/Recovery/QuicRecovery.{h,cpp}\<close>: the packets that
  are not acknowledged, the round trip estimate, loss by packet and time threshold, the probe
  timeout, ECN validation and persistent congestion. The array of three spaces is a function of
  the space. \<open>QuicTime\<close> division truncates towards zero, as \<open>sdiv\<close> does.
\<close>

section \<open>Data\<close>

datatype QuicRecoverySpace = Initial | Handshake | Application

datatype QuicEcnState = Testing | Capable | Failed

record QuicCryptoRange =
  crypto_beginOffset :: u64
  crypto_endOffset :: u64

record QuicStreamRange =
  range_streamId :: u64
  range_beginOffset :: u64
  range_endOffset :: u64
  range_isFinal :: bool

record QuicStreamAnnouncement =
  announcement_streamId :: u64
  isResetStream :: bool

record QuicSentPacketInfo =
  packetNumber :: u64
  timeSent :: QuicTime
  byteCount :: u64
  isAckEliciting :: bool
  ecnCodepoint :: byte
  cryptoRange :: "QuicCryptoRange option"
  streamRanges :: "QuicStreamRange list"
  streamAnnouncements :: "QuicStreamAnnouncement list"
  carriesHandshakeDone :: bool
  carriesConnectionIdFrames :: bool
  retiredConnectionIdSequences :: "u64 list"
  isPathMtuProbe :: bool

record QuicAcknowledgementUpdate =
  u_acknowledged :: "QuicSentPacketInfo list"
  u_lost :: "QuicSentPacketInfo list"
  isRoundTripSampled :: bool
  isPersistentCongestionDetected :: bool
  ecnCongestionEventTime :: "QuicTime option"

record QuicRecoveryTimeoutAction =
  action_lost :: "QuicSentPacketInfo list"
  lostSpace :: QuicRecoverySpace
  isProbeTimeout :: bool
  probeSpace :: QuicRecoverySpace

record QuicRoundTripTimeEstimate =
  rtt_minimum :: QuicTime
  rtt_smoothed :: QuicTime
  rtt_variation :: QuicTime
  rtt_latest :: QuicTime
  rtt_probeTimeout :: QuicTime

record RecoverySpaceState =
  s_unacknowledged :: "(u64, QuicSentPacketInfo) std_map"
  s_lossTime :: "QuicTime option"
  s_largestAcknowledged :: "u64 option"

record QuicRecovery =
  m_spaces :: "QuicRecoverySpace \<Rightarrow> RecoverySpaceState"
  m_estimate :: QuicRoundTripTimeEstimate
  m_hasRoundTripSample :: bool
  m_probeBackoffExponent :: u64
  m_inFlightByteCount :: u64
  m_isHandshakeConfirmed :: bool
  m_peerMaximumAcknowledgmentDelay :: QuicTime
  m_lossGapEarliestSentTime :: "QuicTime option"
  m_lossGapLatestSentTime :: "QuicTime option"
  m_lossGapAckedAfterStart :: "QuicTime option"
  m_firstRoundTripSampleTime :: "QuicTime option"
  m_ecnState :: QuicEcnState
  m_ecnMarkedSentTotals :: "QuicRecoverySpace \<Rightarrow> u64 \<times> u64"
  m_ecnMarkedResolvedCount :: u64
  m_ecnMarkedLostCount :: u64
  m_ecnReportedCounts :: "QuicRecoverySpace \<Rightarrow> u64 \<times> u64 \<times> u64"
  m_isAnyMarkedPacketAcknowledged :: bool

text \<open>Times are counts of microseconds.\<close>

definition kInitialRoundTripTime :: QuicTime where "kInitialRoundTripTime = 333000"
definition kTimerGranularity :: QuicTime where "kTimerGranularity = 1000"
definition kPacketReorderingThreshold :: u64 where "kPacketReorderingThreshold = 3"
definition kTimeThresholdNumerator :: int where "kTimeThresholdNumerator = 9"
definition kTimeThresholdDenominator :: int where "kTimeThresholdDenominator = 8"
definition kPersistentCongestionThresholdMultiplier :: int where "kPersistentCongestionThresholdMultiplier = 3"
definition kEcnMinimumMarkedPacketCount :: u64 where "kEcnMinimumMarkedPacketCount = 10"
definition kEcnCodepointNotCapable :: byte where "kEcnCodepointNotCapable = 0x00"

definition emptyEstimate :: QuicRoundTripTimeEstimate where
  "emptyEstimate = \<lparr>rtt_minimum = 0, rtt_smoothed = 0, rtt_variation = 0, rtt_latest = 0, rtt_probeTimeout = 0\<rparr>"

definition newRecovery :: QuicRecovery where
  "newRecovery =
     \<lparr>m_spaces = (\<lambda>_. \<lparr>s_unacknowledged = [], s_lossTime = None, s_largestAcknowledged = None\<rparr>),
      m_estimate = emptyEstimate\<lparr>rtt_smoothed := kInitialRoundTripTime,
        rtt_variation := kInitialRoundTripTime sdiv 2\<rparr>,
      m_hasRoundTripSample = False, m_probeBackoffExponent = 0, m_inFlightByteCount = 0,
      m_isHandshakeConfirmed = False, m_peerMaximumAcknowledgmentDelay = 25000,
      m_lossGapEarliestSentTime = None, m_lossGapLatestSentTime = None, m_lossGapAckedAfterStart = None,
      m_firstRoundTripSampleTime = None, m_ecnState = Testing,
      m_ecnMarkedSentTotals = (\<lambda>_. (0, 0)), m_ecnMarkedResolvedCount = 0, m_ecnMarkedLostCount = 0,
      m_ecnReportedCounts = (\<lambda>_. (0, 0, 0)), m_isAnyMarkedPacketAcknowledged = False\<rparr>"

section \<open>Operations\<close>

abbreviation setSpace :: "QuicRecoverySpace \<Rightarrow> RecoverySpaceState \<Rightarrow> QuicRecovery \<Rightarrow> QuicRecovery" where
  "setSpace space state s \<equiv> s\<lparr>m_spaces := (m_spaces s)(space := state)\<rparr>"

definition recoveryPacketSent :: "QuicRecoverySpace \<Rightarrow> QuicSentPacketInfo \<Rightarrow> QuicRecovery \<Rightarrow> QuicRecovery" where
  "recoveryPacketSent space packet s =
     (let state = m_spaces s space;
          existing = map_find (packetNumber packet) (s_unacknowledged state);
          s = (case existing of
                 Some old \<Rightarrow> s\<lparr>m_inFlightByteCount := m_inFlightByteCount s - byteCount old\<rparr>
               | None \<Rightarrow> s);
          s = setSpace space (state\<lparr>s_unacknowledged := map_put (packetNumber packet) packet (s_unacknowledged state)\<rparr>) s;
          s = s\<lparr>m_inFlightByteCount := m_inFlightByteCount s + byteCount packet\<rparr>;
          (ectZero, ectOne) = m_ecnMarkedSentTotals s space in
      if ecnCodepoint packet = kEcnCodepointEctZero
      then s\<lparr>m_ecnMarkedSentTotals := (m_ecnMarkedSentTotals s)(space := (ectZero + 1, ectOne))\<rparr>
      else if ecnCodepoint packet = kEcnCodepointEctOne
      then s\<lparr>m_ecnMarkedSentTotals := (m_ecnMarkedSentTotals s)(space := (ectZero, ectOne + 1))\<rparr>
      else s)"

definition noteEcnMarkedResolution :: "QuicSentPacketInfo \<Rightarrow> bool \<Rightarrow> QuicRecovery \<Rightarrow> QuicRecovery" where
  "noteEcnMarkedResolution packet isLost s =
     (if ecnCodepoint packet \<noteq> kEcnCodepointEctZero \<and> ecnCodepoint packet \<noteq> kEcnCodepointEctOne then s
      else
        let s = s\<lparr>m_ecnMarkedResolvedCount := m_ecnMarkedResolvedCount s + 1\<rparr>;
            s = (if isLost then s\<lparr>m_ecnMarkedLostCount := m_ecnMarkedLostCount s + 1\<rparr> else s) in
        if m_ecnState s \<noteq> Failed \<and> m_ecnMarkedResolvedCount s \<ge> kEcnMinimumMarkedPacketCount \<and>
           m_ecnMarkedLostCount s = m_ecnMarkedResolvedCount s
        then s\<lparr>m_ecnState := Failed\<rparr> else s)"

definition updateRoundTripTime :: "QuicTime \<Rightarrow> QuicTime \<Rightarrow> QuicRecovery \<Rightarrow> QuicRecovery" where
  "updateRoundTripTime latestRoundTripTime delay s =
     (let e = (m_estimate s)\<lparr>rtt_latest := latestRoundTripTime\<rparr> in
      if \<not> m_hasRoundTripSample s then
        s\<lparr>m_hasRoundTripSample := True,
          m_estimate := e\<lparr>rtt_minimum := latestRoundTripTime, rtt_smoothed := latestRoundTripTime,
            rtt_variation := latestRoundTripTime sdiv 2\<rparr>\<rparr>
      else
        let minimum = min (rtt_minimum e) latestRoundTripTime;
            clampedDelay = (if m_isHandshakeConfirmed s
              then min delay (m_peerMaximumAcknowledgmentDelay s) else delay);
            adjustedRoundTripTime = (if latestRoundTripTime \<ge> minimum + clampedDelay
              then latestRoundTripTime - clampedDelay else latestRoundTripTime);
            variationSample = (if rtt_smoothed e > adjustedRoundTripTime
              then rtt_smoothed e - adjustedRoundTripTime else adjustedRoundTripTime - rtt_smoothed e)
        in s\<lparr>m_estimate := e\<lparr>rtt_minimum := minimum,
               rtt_variation := (3 * rtt_variation e + variationSample) sdiv 4,
               rtt_smoothed := rtt_smoothed e + (adjustedRoundTripTime - rtt_smoothed e) sdiv 8\<rparr>\<rparr>)"

text \<open>\<open>detectLostPackets\<close>: the loop over the unacknowledged packets of a space up to the largest
  acknowledged number. It carries the state, the lost packets and the space's loss time, and
  returns what it left in the map.\<close>

fun detectLostLoop ::
  "u64 \<Rightarrow> QuicTime \<Rightarrow> QuicTime \<Rightarrow> (u64, QuicSentPacketInfo) std_map \<Rightarrow>
     QuicRecovery \<times> QuicSentPacketInfo list \<times> QuicTime option \<Rightarrow>
     (QuicRecovery \<times> QuicSentPacketInfo list \<times> QuicTime option) \<times> (u64, QuicSentPacketInfo) std_map" where
  "detectLostLoop largest lossDelay lostSendTime [] r = (r, [])"
| "detectLostLoop largest lossDelay lostSendTime ((key, packet) # later) (s, lost, lossTime) =
     (if packetNumber packet > largest then ((s, lost, lossTime), (key, packet) # later)
      else
        let isPastPacketThreshold = largest \<ge> packetNumber packet + kPacketReorderingThreshold in
        if timeSent packet \<le> lostSendTime \<or> isPastPacketThreshold then
          detectLostLoop largest lossDelay lostSendTime later
            (noteEcnMarkedResolution packet True (s\<lparr>m_inFlightByteCount := m_inFlightByteCount s - byteCount packet\<rparr>),
             lost @ [packet], lossTime)
        else
          let candidate = timeSent packet + lossDelay;
              lossTime = (case lossTime of None \<Rightarrow> Some candidate
                | Some t \<Rightarrow> if candidate < t then Some candidate else Some t);
              (r, kept) = detectLostLoop largest lossDelay lostSendTime later (s, lost, lossTime)
          in (r, (key, packet) # kept))"

definition lossDelayOf :: "QuicRecovery \<Rightarrow> QuicTime" where
  "lossDelayOf s =
     (let largestObserved = max (rtt_latest (m_estimate s)) (rtt_smoothed (m_estimate s))
      in max (largestObserved * kTimeThresholdNumerator sdiv kTimeThresholdDenominator) kTimerGranularity)"

definition detectLostPackets ::
  "QuicRecoverySpace \<Rightarrow> QuicTime \<Rightarrow> QuicRecovery \<Rightarrow> QuicSentPacketInfo list \<times> QuicRecovery" where
  "detectLostPackets space now s =
     (let state = m_spaces s space in
      case s_largestAcknowledged state of
        None \<Rightarrow> ([], setSpace space (state\<lparr>s_lossTime := None\<rparr>) s)
      | Some largest \<Rightarrow>
          let lossDelay = lossDelayOf s;
              ((s, lost, lossTime), kept) =
                detectLostLoop largest lossDelay (now - lossDelay) (s_unacknowledged state) (s, [], None)
          in (lost, setSpace space (state\<lparr>s_lossTime := lossTime, s_unacknowledged := kept\<rparr>) s))"

text \<open>ECN counts reported by the peer, checked against what was sent and acknowledged.\<close>

definition ecnMarkedCount :: "byte \<Rightarrow> QuicSentPacketInfo list \<Rightarrow> u64" where
  "ecnMarkedCount codepoint packets = of_nat (length (filter (\<lambda>p. ecnCodepoint p = codepoint) packets))"

definition processEcnFeedback ::
  "QuicRecoverySpace \<Rightarrow> QuicAcknowledgementFrame \<Rightarrow> QuicSentPacketInfo list \<Rightarrow> QuicTime option \<Rightarrow> bool \<Rightarrow>
     QuicAcknowledgementUpdate \<Rightarrow> QuicRecovery \<Rightarrow> QuicAcknowledgementUpdate \<times> QuicRecovery" where
  "processEcnFeedback space acknowledgement acked largestAcknowledgedSentTime increasesLargestAcknowledged update s =
     (let acknowledgedEctZeroCount = ecnMarkedCount kEcnCodepointEctZero acked;
          acknowledgedEctOneCount = ecnMarkedCount kEcnCodepointEctOne acked;
          hasMarkedAcknowledgements = acknowledgedEctZeroCount + acknowledgedEctOneCount > 0 in
      if \<not> hasEcnCounts acknowledgement then
        (update, if hasMarkedAcknowledgements then s\<lparr>m_ecnState := Failed\<rparr> else s)
      else if \<not> increasesLargestAcknowledged then (update, s)
      else
        let (reported0, reported1, reported2) = ecnCounts acknowledgement;
            (previous0, previous1, previous2) = m_ecnReportedCounts s space;
            (sent0, sent1) = m_ecnMarkedSentTotals s space;
            isNonDecreasing = reported0 \<ge> previous0 \<and> reported1 \<ge> previous1 \<and> reported2 \<ge> previous2 in
        if \<not> isNonDecreasing then (update, s\<lparr>m_ecnState := Failed\<rparr>)
        else
          let increase0 = reported0 - previous0; increase1 = reported1 - previous1; increase2 = reported2 - previous2;
              coversMarkedPackets = increase0 + increase2 \<ge> acknowledgedEctZeroCount \<and>
                increase1 + increase2 \<ge> acknowledgedEctOneCount;
              isWithinSentTotals = reported0 \<le> sent0 \<and> reported1 \<le> sent1 in
          if \<not> coversMarkedPackets \<or> \<not> isWithinSentTotals then (update, s\<lparr>m_ecnState := Failed\<rparr>)
          else
            let s = s\<lparr>m_ecnReportedCounts := (m_ecnReportedCounts s)(space := ecnCounts acknowledgement)\<rparr>;
                s = (if hasMarkedAcknowledgements then
                       s\<lparr>m_isAnyMarkedPacketAcknowledged := True,
                         m_ecnState := (if m_ecnState s = Testing then Capable else m_ecnState s)\<rparr>
                     else s) in
            (if increase2 > 0 \<and> m_isAnyMarkedPacketAcknowledged s \<and> largestAcknowledgedSentTime \<noteq> None
             then update\<lparr>ecnCongestionEventTime := largestAcknowledgedSentTime\<rparr> else update, s))"

text \<open>Persistent congestion: the span of lost packets with no acknowledgement in between.\<close>

definition basePeriod :: "QuicRecovery \<Rightarrow> QuicTime" where
  "basePeriod s = rtt_smoothed (m_estimate s) + max (4 * rtt_variation (m_estimate s)) kTimerGranularity"

definition persistentCongestionDuration :: "QuicRecovery \<Rightarrow> QuicTime" where
  "persistentCongestionDuration s =
     (basePeriod s + m_peerMaximumAcknowledgmentDelay s) * kPersistentCongestionThresholdMultiplier"

definition extendLossGapBy :: "QuicSentPacketInfo \<Rightarrow> QuicRecovery \<Rightarrow> QuicRecovery" where
  "extendLossGapBy packet s =
     (if \<not> isAckEliciting packet \<or> isPathMtuProbe packet then s
      else if (case m_firstRoundTripSampleTime s of None \<Rightarrow> True | Some t \<Rightarrow> timeSent packet < t) then s
      else
        let s = (case m_lossGapEarliestSentTime s of
                   None \<Rightarrow> s\<lparr>m_lossGapEarliestSentTime := Some (timeSent packet), m_lossGapAckedAfterStart := None\<rparr>
                 | Some earliest \<Rightarrow>
                     if timeSent packet < earliest then s\<lparr>m_lossGapEarliestSentTime := Some (timeSent packet)\<rparr> else s)
        in case m_lossGapLatestSentTime s of
             None \<Rightarrow> s\<lparr>m_lossGapLatestSentTime := Some (timeSent packet)\<rparr>
           | Some latest \<Rightarrow>
               if timeSent packet > latest then s\<lparr>m_lossGapLatestSentTime := Some (timeSent packet)\<rparr> else s)"

definition extendLossGap :: "QuicSentPacketInfo list \<Rightarrow> QuicRecovery \<Rightarrow> QuicRecovery" where
  "extendLossGap lost s = fold extendLossGapBy lost s"

definition noteAckedAfterStart :: "QuicTime \<Rightarrow> QuicSentPacketInfo \<Rightarrow> QuicRecovery \<Rightarrow> QuicRecovery" where
  "noteAckedAfterStart earliest packet s =
     (if timeSent packet > earliest \<and>
         (case m_lossGapAckedAfterStart s of None \<Rightarrow> True | Some t \<Rightarrow> timeSent packet < t)
      then s\<lparr>m_lossGapAckedAfterStart := Some (timeSent packet)\<rparr> else s)"

definition resetLossGap :: "QuicRecovery \<Rightarrow> QuicRecovery" where
  "resetLossGap s =
     s\<lparr>m_lossGapEarliestSentTime := None, m_lossGapLatestSentTime := None, m_lossGapAckedAfterStart := None\<rparr>"

definition notePersistentCongestionSpan ::
  "QuicSentPacketInfo list \<Rightarrow> QuicSentPacketInfo list \<Rightarrow> QuicRecovery \<Rightarrow> bool \<times> QuicRecovery" where
  "notePersistentCongestionSpan acked lost s =
     (let s = extendLossGap lost s;
          s = (case m_lossGapEarliestSentTime s of
                 None \<Rightarrow> s | Some earliest \<Rightarrow> fold (noteAckedAfterStart earliest) acked s) in
      case (m_lossGapEarliestSentTime s, m_lossGapLatestSentTime s) of
        (Some earliest, Some latest) \<Rightarrow>
          if (case m_lossGapAckedAfterStart s of None \<Rightarrow> False | Some t \<Rightarrow> t \<le> latest)
          then (False, resetLossGap s)
          else if latest - earliest \<le> persistentCongestionDuration s then (False, s)
          else (True, resetLossGap s)
      | _ \<Rightarrow> (False, s))"

section \<open>Acknowledgements\<close>

text \<open>The loops over the ranges and, from \<open>lower_bound\<close> on, over the packets of a range carry the
  state, the acknowledged packets and the one with the largest number.\<close>

type_synonym acknowledging = "QuicRecovery \<times> QuicSentPacketInfo list \<times> QuicSentPacketInfo option"

fun acknowledgePacket :: "QuicSentPacketInfo \<Rightarrow> acknowledging \<Rightarrow> acknowledging" where
  "acknowledgePacket packet (s, acked, largestPacket) =
     (noteEcnMarkedResolution packet False (s\<lparr>m_inFlightByteCount := m_inFlightByteCount s - byteCount packet\<rparr>),
      acked @ [packet],
      (case largestPacket of None \<Rightarrow> Some packet
       | Some p \<Rightarrow> if packetNumber packet > packetNumber p then Some packet else Some p))"

fun acknowledgeRun ::
  "u64 \<Rightarrow> (u64, QuicSentPacketInfo) std_map \<Rightarrow> acknowledging \<Rightarrow>
     acknowledging \<times> (u64, QuicSentPacketInfo) std_map" where
  "acknowledgeRun largest [] a = (a, [])"
| "acknowledgeRun largest ((key, packet) # later) a =
     (if key \<le> largest then acknowledgeRun largest later (acknowledgePacket packet a)
      else (a, (key, packet) # later))"

definition acknowledgeRange ::
  "QuicAcknowledgementRange \<Rightarrow> acknowledging \<times> (u64, QuicSentPacketInfo) std_map \<Rightarrow>
     acknowledging \<times> (u64, QuicSentPacketInfo) std_map" where
  "acknowledgeRange ackRange = (\<lambda>(a, unacked).
     let before = takeWhile (\<lambda>p. fst p < smallestAcknowledged ackRange) unacked;
         (a, later) = acknowledgeRun (largestAcknowledged ackRange)
           (dropWhile (\<lambda>p. fst p < smallestAcknowledged ackRange) unacked) a
     in (a, before @ later))"

definition emptyUpdate :: QuicAcknowledgementUpdate where
  "emptyUpdate = \<lparr>u_acknowledged = [], u_lost = [], isRoundTripSampled = False,
     isPersistentCongestionDetected = False, ecnCongestionEventTime = None\<rparr>"

text \<open>No packet is the largest exactly when none was acknowledged: the early exit of a repeated
  acknowledgement.\<close>

text \<open>The end both exits share: lost packets, then persistent congestion.\<close>

definition finishAcknowledgement ::
  "QuicRecoverySpace \<Rightarrow> QuicTime \<Rightarrow> QuicAcknowledgementUpdate \<Rightarrow> QuicRecovery \<Rightarrow>
     QuicAcknowledgementUpdate \<times> QuicRecovery" where
  "finishAcknowledgement space acknowledgementTime update s =
     (let (lost, s) = detectLostPackets space acknowledgementTime s;
          (persistent, s) = notePersistentCongestionSpan (u_acknowledged update) lost s
      in (update\<lparr>u_lost := lost, isPersistentCongestionDetected := persistent\<rparr>, s))"

definition onAcknowledgementReceived ::
  "QuicRecoverySpace \<Rightarrow> QuicAcknowledgementFrame \<Rightarrow> QuicTime \<Rightarrow> QuicTime \<Rightarrow> QuicRecovery \<Rightarrow>
     QuicAcknowledgementUpdate \<times> QuicRecovery" where
  "onAcknowledgementReceived space acknowledgement acknowledgementTime delay s =
     (let state = m_spaces s space;
          largest = largestAcknowledgedPacketNumber acknowledgement;
          increasesLargestAcknowledged =
            (case s_largestAcknowledged state of None \<Rightarrow> True | Some l \<Rightarrow> largest > l);
          ((s, acked, largestPacket), kept) =
            fold acknowledgeRange (rev (ack_ranges acknowledgement)) ((s, [], None), s_unacknowledged state);
          s = setSpace space (state\<lparr>s_largestAcknowledged :=
                Some (max (case s_largestAcknowledged state of None \<Rightarrow> largest | Some l \<Rightarrow> l) largest),
                s_unacknowledged := kept\<rparr>) s;
          update = emptyUpdate\<lparr>u_acknowledged := acked\<rparr> in
      case largestPacket of
        None \<Rightarrow>
          (case processEcnFeedback space acknowledgement acked None False update s of
             (update, s) \<Rightarrow> finishAcknowledgement space acknowledgementTime update s)
      | Some packet \<Rightarrow>
          let sampled = packetNumber packet = largest \<and> (\<exists>p \<in> set acked. isAckEliciting p);
              s = (if sampled then
                     updateRoundTripTime (acknowledgementTime - timeSent packet) delay
                       (s\<lparr>m_firstRoundTripSampleTime :=
                          (case m_firstRoundTripSampleTime s of None \<Rightarrow> Some acknowledgementTime | Some t \<Rightarrow> Some t)\<rparr>)
                   else s);
              update = update\<lparr>isRoundTripSampled := sampled\<rparr>;
              (update, s) = processEcnFeedback space acknowledgement acked (Some (timeSent packet))
                increasesLargestAcknowledged update s;
              (update, s) = finishAcknowledgement space acknowledgementTime update s
          in (update, s\<lparr>m_probeBackoffExponent := 0\<rparr>))"

section \<open>Timers\<close>

definition allSpaces :: "QuicRecoverySpace list" where
  "allSpaces = [Initial, Handshake, Application]"

definition earlier :: "QuicTime option \<Rightarrow> QuicTime option \<Rightarrow> bool" where
  "earlier a earliest = (case a of None \<Rightarrow> False
     | Some t \<Rightarrow> (case earliest of None \<Rightarrow> True | Some e \<Rightarrow> t < e))"

definition earliestLossTime :: "QuicRecovery \<Rightarrow> QuicTime option \<times> QuicRecoverySpace" where
  "earliestLossTime s =
     fold (\<lambda>candidate (earliest, space).
       if earlier (s_lossTime (m_spaces s candidate)) earliest
       then (s_lossTime (m_spaces s candidate), candidate) else (earliest, space))
     allSpaces (None, Initial)"

definition lastAckElicitingSentTime :: "RecoverySpaceState \<Rightarrow> QuicTime option" where
  "lastAckElicitingSentTime state =
     map_option (timeSent \<circ> snd) (find (\<lambda>p. isAckEliciting (snd p)) (rev (s_unacknowledged state)))"

definition backoffFactor :: "QuicRecovery \<Rightarrow> int" where
  "backoffFactor s = 2 ^ unat (min (m_probeBackoffExponent s) 16)"

definition probeDeadlineOf :: "QuicRecovery \<Rightarrow> QuicRecoverySpace \<Rightarrow> QuicTime option" where
  "probeDeadlineOf s candidate =
     (case lastAckElicitingSentTime (m_spaces s candidate) of
        None \<Rightarrow> None
      | Some lastSent \<Rightarrow>
          if candidate = Application \<and> \<not> m_isHandshakeConfirmed s then None
          else Some (lastSent + (basePeriod s * backoffFactor s +
            (if candidate = Application then m_peerMaximumAcknowledgmentDelay s * backoffFactor s else 0))))"

definition probeTimeoutDeadline :: "QuicRecovery \<Rightarrow> QuicTime option \<times> QuicRecoverySpace" where
  "probeTimeoutDeadline s =
     fold (\<lambda>candidate (earliest, space).
       if earlier (probeDeadlineOf s candidate) earliest then (probeDeadlineOf s candidate, candidate)
       else (earliest, space))
     allSpaces (None, Initial)"

definition recoveryNextDeadline :: "QuicRecovery \<Rightarrow> QuicTime option" where
  "recoveryNextDeadline s =
     (case fst (earliestLossTime s) of Some t \<Rightarrow> Some t | None \<Rightarrow> fst (probeTimeoutDeadline s))"

definition noAction :: QuicRecoveryTimeoutAction where
  "noAction = \<lparr>action_lost = [], lostSpace = Initial, isProbeTimeout = False, probeSpace = Initial\<rparr>"

definition recoveryDeadlineReached ::
  "QuicTime \<Rightarrow> QuicRecovery \<Rightarrow> QuicRecoveryTimeoutAction \<times> QuicRecovery" where
  "recoveryDeadlineReached now s =
     (case earliestLossTime s of
        (Some lossTime, lossSpace) \<Rightarrow>
          if lossTime > now then (noAction, s)
          else let (lost, s) = detectLostPackets lossSpace now s
               in (noAction\<lparr>action_lost := lost, lostSpace := lossSpace\<rparr>, extendLossGap lost s)
      | (None, _) \<Rightarrow>
          (case probeTimeoutDeadline s of
             (Some probeDeadline, space) \<Rightarrow>
               if probeDeadline > now then (noAction, s)
               else (noAction\<lparr>isProbeTimeout := True, probeSpace := space\<rparr>,
                     s\<lparr>m_probeBackoffExponent := m_probeBackoffExponent s + 1\<rparr>)
           | (None, _) \<Rightarrow> (noAction, s)))"

section \<open>The other operations\<close>

definition recoveryHandshakeConfirmed :: "QuicTime \<Rightarrow> QuicRecovery \<Rightarrow> QuicRecovery" where
  "recoveryHandshakeConfirmed peerMaximumAcknowledgmentDelay s =
     s\<lparr>m_isHandshakeConfirmed := True, m_peerMaximumAcknowledgmentDelay := peerMaximumAcknowledgmentDelay\<rparr>"

definition outgoingEcnCodepoint :: "QuicRecovery \<Rightarrow> byte" where
  "outgoingEcnCodepoint s =
     (if m_ecnState s = Testing \<or> m_ecnState s = Capable then kEcnCodepointEctZero else kEcnCodepointNotCapable)"

definition disableEcn :: "QuicRecovery \<Rightarrow> QuicRecovery" where
  "disableEcn s = s\<lparr>m_ecnState := Failed\<rparr>"

definition recoveryDiscardSpace :: "QuicRecoverySpace \<Rightarrow> QuicRecovery \<Rightarrow> QuicRecovery" where
  "recoveryDiscardSpace space s =
     (let state = m_spaces s space;
          s = fold (\<lambda>p s. noteEcnMarkedResolution (snd p) False
                (s\<lparr>m_inFlightByteCount := m_inFlightByteCount s - byteCount (snd p)\<rparr>))
              (s_unacknowledged state) s
      in setSpace space (state\<lparr>s_unacknowledged := [], s_lossTime := None\<rparr>) s)"

definition unacknowledgedPackets :: "QuicRecoverySpace \<Rightarrow> QuicRecovery \<Rightarrow> QuicSentPacketInfo list" where
  "unacknowledgedPackets space s = map snd (s_unacknowledged (m_spaces s space))"

definition roundTripTimeEstimate :: "QuicRecovery \<Rightarrow> QuicRoundTripTimeEstimate" where
  "roundTripTimeEstimate s = (m_estimate s)\<lparr>rtt_probeTimeout := basePeriod s * backoffFactor s\<rparr>"

definition initialProbeTimeout :: "QuicRecovery \<Rightarrow> QuicTime" where
  "initialProbeTimeout s =
     kInitialRoundTripTime + max (4 * (kInitialRoundTripTime sdiv 2)) kTimerGranularity + m_peerMaximumAcknowledgmentDelay s"

definition resetForPathChange :: "QuicRecovery \<Rightarrow> QuicRecovery" where
  "resetForPathChange s =
     s\<lparr>m_estimate := (m_estimate s)\<lparr>rtt_smoothed := kInitialRoundTripTime,
         rtt_variation := kInitialRoundTripTime sdiv 2, rtt_latest := 0, rtt_minimum := 0\<rparr>,
       m_hasRoundTripSample := False, m_firstRoundTripSampleTime := None, m_probeBackoffExponent := 0\<rparr>"

end
