(* ===== verification/QuicRecoveryProofs.thy ===== *)
theory QuicRecoveryProofs
  imports QuicRecovery
begin

text \<open>
  What loss detection guarantees: every packet leaves the books exactly once, the byte counter is
  the sum of what is outstanding, exactly the packets the thresholds name are lost, and the timer
  is armed whenever something can be waited for.
\<close>

section \<open>What each step leaves alone\<close>

named_theorems recovery_frame \<open>parts of the state an operation does not change\<close>

lemma noteEcnMarkedResolution_frame [recovery_frame, simp]:
  "m_spaces (noteEcnMarkedResolution p l s) = m_spaces s"
  "m_inFlightByteCount (noteEcnMarkedResolution p l s) = m_inFlightByteCount s"
  "m_estimate (noteEcnMarkedResolution p l s) = m_estimate s"
  "m_probeBackoffExponent (noteEcnMarkedResolution p l s) = m_probeBackoffExponent s"
  "m_isHandshakeConfirmed (noteEcnMarkedResolution p l s) = m_isHandshakeConfirmed s"
  by (simp_all add: noteEcnMarkedResolution_def Let_def)

lemma updateRoundTripTime_frame [recovery_frame, simp]:
  "m_spaces (updateRoundTripTime t d s) = m_spaces s"
  "m_inFlightByteCount (updateRoundTripTime t d s) = m_inFlightByteCount s"
  "m_ecnState (updateRoundTripTime t d s) = m_ecnState s"
  by (simp_all add: updateRoundTripTime_def Let_def)

lemma processEcnFeedback_frame [recovery_frame, simp]:
  "m_spaces (snd (processEcnFeedback sp f acked t i u s)) = m_spaces s"
  "m_inFlightByteCount (snd (processEcnFeedback sp f acked t i u s)) = m_inFlightByteCount s"
  "m_estimate (snd (processEcnFeedback sp f acked t i u s)) = m_estimate s"
  "u_acknowledged (fst (processEcnFeedback sp f acked t i u s)) = u_acknowledged u"
  by (simp_all add: processEcnFeedback_def Let_def split: prod.splits)

lemma extendLossGapBy_frame [recovery_frame, simp]:
  "m_spaces (extendLossGapBy p s) = m_spaces s"
  "m_inFlightByteCount (extendLossGapBy p s) = m_inFlightByteCount s"
  "m_ecnState (extendLossGapBy p s) = m_ecnState s"
  "m_estimate (extendLossGapBy p s) = m_estimate s"
  by (simp_all add: extendLossGapBy_def Let_def split: option.splits)

lemma extendLossGap_frame [recovery_frame, simp]:
  "m_spaces (extendLossGap ps s) = m_spaces s"
  "m_inFlightByteCount (extendLossGap ps s) = m_inFlightByteCount s"
  "m_ecnState (extendLossGap ps s) = m_ecnState s"
  "m_estimate (extendLossGap ps s) = m_estimate s"
  unfolding extendLossGap_def by (induction ps arbitrary: s) simp_all

lemma noteAckedAfterStart_frame [recovery_frame, simp]:
  "m_spaces (noteAckedAfterStart t p s) = m_spaces s"
  "m_inFlightByteCount (noteAckedAfterStart t p s) = m_inFlightByteCount s"
  "m_ecnState (noteAckedAfterStart t p s) = m_ecnState s"
  "m_estimate (noteAckedAfterStart t p s) = m_estimate s"
  by (simp_all add: noteAckedAfterStart_def)

lemma fold_noteAckedAfterStart_frame [recovery_frame, simp]:
  "m_spaces (fold (noteAckedAfterStart t) ps s) = m_spaces s"
  "m_inFlightByteCount (fold (noteAckedAfterStart t) ps s) = m_inFlightByteCount s"
  "m_ecnState (fold (noteAckedAfterStart t) ps s) = m_ecnState s"
  "m_estimate (fold (noteAckedAfterStart t) ps s) = m_estimate s"
  by (induction ps arbitrary: s) simp_all

lemma resetLossGap_frame [recovery_frame, simp]:
  "m_spaces (resetLossGap s) = m_spaces s"
  "m_inFlightByteCount (resetLossGap s) = m_inFlightByteCount s"
  "m_ecnState (resetLossGap s) = m_ecnState s"
  "m_estimate (resetLossGap s) = m_estimate s"
  by (simp_all add: resetLossGap_def)

lemma notePersistentCongestionSpan_frame [recovery_frame, simp]:
  "m_spaces (snd (notePersistentCongestionSpan acked lost s)) = m_spaces s"
  "m_inFlightByteCount (snd (notePersistentCongestionSpan acked lost s)) = m_inFlightByteCount s"
  "m_ecnState (snd (notePersistentCongestionSpan acked lost s)) = m_ecnState s"
  "m_estimate (snd (notePersistentCongestionSpan acked lost s)) = m_estimate s"
  by (simp_all add: notePersistentCongestionSpan_def Let_def split: option.splits)

section \<open>The books\<close>

definition packetBytes :: "QuicSentPacketInfo list \<Rightarrow> nat" where
  "packetBytes ps = sum_list (map (unat \<circ> byteCount) ps)"

lemma packetBytes_simps [simp]:
  "packetBytes [] = 0" "packetBytes (p # ps) = unat (byteCount p) + packetBytes ps"
  "packetBytes (ps @ qs) = packetBytes ps + packetBytes qs"
  by (simp_all add: packetBytes_def)

definition keyed :: "(u64, QuicSentPacketInfo) std_map \<Rightarrow> bool" where
  "keyed m \<longleftrightarrow> map_inv m \<and> (\<forall>(k, p) \<in> set m. packetNumber p = k)"

lemma keyed_simps [simp]:
  "keyed []"
  "keyed (q # m) \<longleftrightarrow> packetNumber (snd q) = fst q \<and> (\<forall>r \<in> set m. fst q < fst r) \<and> keyed m"
  by (auto simp: keyed_def)

lemma keyed_filter: "keyed m \<Longrightarrow> keyed (filter P m)"
  by (induction m) auto

lemma keyed_put: "keyed m \<Longrightarrow> keyed (map_put (packetNumber p) p m)"
  by (auto simp: keyed_def set_map_put map_inv_put)

text \<open>The packets the thresholds of RFC 9002 section 6.1 declare lost.\<close>

definition declaredLost :: "u64 \<Rightarrow> QuicTime \<Rightarrow> QuicSentPacketInfo \<Rightarrow> bool" where
  "declaredLost largest lostSendTime p \<longleftrightarrow> packetNumber p \<le> largest \<and>
     (timeSent p \<le> lostSendTime \<or> packetNumber p + kPacketReorderingThreshold \<le> largest)"

fun earliestOf :: "QuicTime option \<Rightarrow> QuicTime list \<Rightarrow> QuicTime option" where
  "earliestOf start [] = start"
| "earliestOf start (t # ts) = earliestOf (Some (case start of None \<Rightarrow> t | Some e \<Rightarrow> min e t)) ts"

lemma earliestOf_Some: "earliestOf (Some e) ts = Some (Min (insert e (set ts)))"
proof (induction ts arbitrary: e)
  case (Cons t ts)
  have "Min (insert (min e t) (set ts)) = Min (insert e (insert t (set ts)))"
    by (cases "ts = []") (auto simp: min.assoc)
  then show ?case by (simp add: Cons.IH)
qed simp

lemma earliestOf_None: "earliestOf None ts = (if ts = [] then None else Some (Min (set ts)))"
  by (cases ts) (simp_all add: earliestOf_Some)

text \<open>The loop of \<open>detectLostPackets\<close> in closed form.\<close>

definition pendingLoss :: "u64 \<Rightarrow> QuicTime \<Rightarrow> QuicSentPacketInfo \<Rightarrow> bool" where
  "pendingLoss largest lostSendTime p \<longleftrightarrow> packetNumber p \<le> largest \<and> \<not> declaredLost largest lostSendTime p"

lemma detectLostLoop_spec:
  assumes "keyed m" "detectLostLoop largest lossDelay lostSendTime m (s, lost, lossTime) = ((s', lost', lossTime'), kept)"
  shows "kept = filter (\<lambda>(k, p). \<not> declaredLost largest lostSendTime p) m \<and>
    lost' = lost @ filter (declaredLost largest lostSendTime) (map snd m) \<and>
    lossTime' = earliestOf lossTime (map (\<lambda>p. timeSent p + lossDelay) (filter (pendingLoss largest lostSendTime) (map snd m))) \<and>
    m_spaces s' = m_spaces s \<and> m_estimate s' = m_estimate s \<and>
    m_inFlightByteCount s' = m_inFlightByteCount s - of_nat (packetBytes (filter (declaredLost largest lostSendTime) (map snd m)))"
  using assms
proof (induction m arbitrary: s lost lossTime s' lost' lossTime' kept)
  case (Cons q m)
  obtain k p where q: "q = (k, p)" by force
  consider (stop) "packetNumber p > largest" | (loses) "declaredLost largest lostSendTime p"
    | (waits) "packetNumber p \<le> largest" "\<not> declaredLost largest lostSendTime p"
    using not_le by blast
  then show ?case
  proof cases
    case stop
    have all: "largest < packetNumber (snd r)" if "r \<in> set (q # m)" for r
    proof (cases "r = q")
      case False
      then have "fst q < fst r" "packetNumber (snd r) = fst r" "packetNumber (snd q) = fst q"
        using that Cons.prems(1) by (auto simp: keyed_def)
      then show ?thesis using stop by (simp add: q)
    qed (simp add: stop q)
    then have none: "\<forall>r \<in> set (q # m). \<not> declaredLost largest lostSendTime (snd r) \<and> \<not> pendingLoss largest lostSendTime (snd r)"
      unfolding declaredLost_def pendingLoss_def not_le [symmetric] by blast
    then have all_kept: "filter (\<lambda>(k, p). \<not> declaredLost largest lostSendTime p) (q # m) = q # m"
      by (intro filter_True) (simp add: case_prod_beta)
    have no_loss: "filter (declaredLost largest lostSendTime) (map snd (q # m)) = []"
      "filter (pendingLoss largest lostSendTime) (map snd (q # m)) = []"
      using none by (auto simp: filter_empty_conv)
    have result: "s' = s" "lost' = lost" "lossTime' = lossTime" "kept = q # m"
      using Cons.prems(2) stop by (simp_all add: q)
    show ?thesis
      unfolding result all_kept no_loss by simp
  next
    case loses
    then have "\<not> packetNumber p > largest" by (simp add: declaredLost_def not_less)
    moreover have "timeSent p \<le> lostSendTime \<or> largest \<ge> packetNumber p + kPacketReorderingThreshold"
      using loses by (simp add: declaredLost_def)
    ultimately have "detectLostLoop largest lossDelay lostSendTime m
        (noteEcnMarkedResolution p True (s\<lparr>m_inFlightByteCount := m_inFlightByteCount s - byteCount p\<rparr>), lost @ [p], lossTime) =
        ((s', lost', lossTime'), kept)"
      using Cons.prems(2) by (simp add: q)
    from Cons.IH [OF _ this] show ?thesis
      using loses Cons.prems(1) by (simp add: q pendingLoss_def)
  next
    case waits
    define lossTime1 where "lossTime1 = Some (case lossTime of None \<Rightarrow> timeSent p + lossDelay
      | Some t \<Rightarrow> min t (timeSent p + lossDelay))"
    have "(case lossTime of None \<Rightarrow> Some (timeSent p + lossDelay)
        | Some t \<Rightarrow> if timeSent p + lossDelay < t then Some (timeSent p + lossDelay) else Some t) = lossTime1"
      by (auto simp: lossTime1_def min_def split: option.splits)
    moreover have "\<not> packetNumber p > largest"
      "\<not> (timeSent p \<le> lostSendTime \<or> largest \<ge> packetNumber p + kPacketReorderingThreshold)"
      using waits by (auto simp: declaredLost_def not_less)
    moreover obtain s1 lost1 t1 kept1 where
      r: "detectLostLoop largest lossDelay lostSendTime m (s, lost, lossTime1) = ((s1, lost1, t1), kept1)"
      by (metis prod.exhaust)
    ultimately have "s' = s1" "lost' = lost1" "lossTime' = t1" "kept = q # kept1"
      using Cons.prems(2) by (auto simp: q Let_def)
    with Cons.IH [OF _ r] show ?thesis
      using waits Cons.prems(1) by (simp add: q pendingLoss_def lossTime1_def)
  qed
qed simp

lemma detectLostPackets_spec:
  assumes "keyed (s_unacknowledged (m_spaces s space))"
    and "detectLostPackets space now s = (lost, s')"
    and "s_largestAcknowledged (m_spaces s space) = Some largest"
  defines "old \<equiv> s_unacknowledged (m_spaces s space)" and "sendTime \<equiv> now - lossDelayOf s"
  shows "lost = filter (declaredLost largest sendTime) (map snd old)"
    "s_unacknowledged (m_spaces s' space) = filter (\<lambda>(k, p). \<not> declaredLost largest sendTime p) old"
    "s_lossTime (m_spaces s' space) =
       earliestOf None (map (\<lambda>p. timeSent p + lossDelayOf s) (filter (pendingLoss largest sendTime) (map snd old)))"
    "s_largestAcknowledged (m_spaces s' space) = Some largest"
    "\<And>other. other \<noteq> space \<Longrightarrow> m_spaces s' other = m_spaces s other"
    "m_inFlightByteCount s' = m_inFlightByteCount s - of_nat (packetBytes lost)"
    "m_estimate s' = m_estimate s"
proof -
  obtain s1 t kept where
    r: "detectLostLoop largest (lossDelayOf s) sendTime old (s, [], None) = ((s1, lost, t), kept)"
    and s': "s' = setSpace space ((m_spaces s space)\<lparr>s_lossTime := t, s_unacknowledged := kept\<rparr>) s1"
    using assms(2,3) by (auto simp: detectLostPackets_def old_def sendTime_def Let_def split: prod.splits)
  note spec = detectLostLoop_spec [OF assms(1)[folded old_def] r]
  show "lost = filter (declaredLost largest sendTime) (map snd old)"
    "s_unacknowledged (m_spaces s' space) = filter (\<lambda>(k, p). \<not> declaredLost largest sendTime p) old"
    "s_lossTime (m_spaces s' space) =
       earliestOf None (map (\<lambda>p. timeSent p + lossDelayOf s) (filter (pendingLoss largest sendTime) (map snd old)))"
    "s_largestAcknowledged (m_spaces s' space) = Some largest"
    "\<And>other. other \<noteq> space \<Longrightarrow> m_spaces s' other = m_spaces s other"
    "m_inFlightByteCount s' = m_inFlightByteCount s - of_nat (packetBytes lost)"
    "m_estimate s' = m_estimate s"
    using spec by (simp_all add: s' assms(3))
qed

section \<open>Acknowledged packets\<close>

definition inRange :: "QuicAcknowledgementRange \<Rightarrow> QuicSentPacketInfo \<Rightarrow> bool" where
  "inRange r p \<longleftrightarrow> smallestAcknowledged r \<le> packetNumber p \<and> packetNumber p \<le> largestAcknowledged r"

definition inRanges :: "QuicAcknowledgementRange list \<Rightarrow> QuicSentPacketInfo \<Rightarrow> bool" where
  "inRanges rs p \<longleftrightarrow> (\<exists>r \<in> set rs. inRange r p)"

lemma acknowledgeRun_eq:
  "acknowledgeRun l m a =
     (fold acknowledgePacket (map snd (takeWhile (\<lambda>p. fst p \<le> l) m)) a, dropWhile (\<lambda>p. fst p \<le> l) m)"
  by (induction l m a rule: acknowledgeRun.induct) simp_all

lemma while_sorted:
  assumes "map_inv m" "\<And>x y. P y \<Longrightarrow> x < y \<Longrightarrow> P x"
  shows "takeWhile (\<lambda>p. P (fst p)) m = filter (\<lambda>p. P (fst p)) m \<and>
    dropWhile (\<lambda>p. P (fst p)) m = filter (\<lambda>p. \<not> P (fst p)) m"
  using assms(1)
proof (induction m)
  case (Cons q m)
  show ?case
  proof (cases "P (fst q)")
    case False
    then have none: "\<forall>r \<in> set m. \<not> P (fst r)" using Cons.prems assms(2) by auto
    then have "filter (\<lambda>p. P (fst p)) m = []" "filter (\<lambda>p. \<not> P (fst p)) m = m"
      by (simp_all add: filter_empty_conv filter_id_conv)
    then show ?thesis using False by simp
  qed (use Cons in simp)
qed simp

lemma take_drop_le:
  assumes "map_inv m"
  shows "takeWhile (\<lambda>p. fst p \<le> l) m = filter (\<lambda>p. fst p \<le> l) m"
    "dropWhile (\<lambda>p. fst p \<le> l) m = filter (\<lambda>p. \<not> fst p \<le> l) m"
  using while_sorted [OF assms, where P = "\<lambda>k. k \<le> l"] by auto

lemma take_drop_less:
  assumes "map_inv m"
  shows "takeWhile (\<lambda>p. fst p < l) m = filter (\<lambda>p. fst p < l) m"
    "dropWhile (\<lambda>p. fst p < l) m = filter (\<lambda>p. \<not> fst p < l) m"
  using while_sorted [OF assms, where P = "\<lambda>k. k < l"] by auto

lemma map_inv_filter: "map_inv m \<Longrightarrow> map_inv (filter P m)"
  by (induction m) auto

lemma keyed_filter_key: "keyed m \<Longrightarrow> filter (\<lambda>p. Q (fst p)) m = filter (\<lambda>(k, p). Q (packetNumber p)) m"
  by (intro filter_cong) (auto simp: keyed_def)

lemma acknowledgeRange_eq:
  assumes "keyed m"
  shows "acknowledgeRange r (a, m) =
    (fold acknowledgePacket (filter (inRange r) (map snd m)) a, filter (\<lambda>(k, p). \<not> inRange r p) m)"
proof -
  let ?lo = "smallestAcknowledged r" and ?hi = "largestAcknowledged r"
  have inv: "map_inv m" and key: "\<forall>q \<in> set m. packetNumber (snd q) = fst q"
    using assms by (auto simp: keyed_def)
  let ?from = "filter (\<lambda>p. \<not> fst p < ?lo) m"
  have from_inv: "map_inv ?from" by (rule map_inv_filter [OF inv])
  have lo: "takeWhile (\<lambda>p. fst p < ?lo) m = filter (\<lambda>p. fst p < ?lo) m" "dropWhile (\<lambda>p. fst p < ?lo) m = ?from"
    using take_drop_less [OF inv] by simp_all
  have hi: "takeWhile (\<lambda>p. fst p \<le> ?hi) ?from = filter (\<lambda>p. fst p \<le> ?hi) ?from"
    "dropWhile (\<lambda>p. fst p \<le> ?hi) ?from = filter (\<lambda>p. \<not> fst p \<le> ?hi) ?from"
    using take_drop_le [OF from_inv] by simp_all
  have "filter (\<lambda>p. fst p \<le> ?hi) ?from = filter (\<lambda>q. inRange r (snd q)) m"
    unfolding filter_filter using key by (intro filter_cong) (auto simp: inRange_def not_less)
  then have acked: "map snd (filter (\<lambda>p. fst p \<le> ?hi) ?from) = filter (inRange r) (map snd m)"
    by (simp add: filter_map o_def)
  have kept: "filter (\<lambda>p. fst p < ?lo) m @ filter (\<lambda>p. \<not> fst p \<le> ?hi) ?from = filter (\<lambda>q. \<not> inRange r (snd q)) m"
    using inv key
  proof (induction m)
    case (Cons q m)
    show ?case
    proof (cases "fst q < ?lo")
      case True
      then have "\<not> ?lo \<le> fst q" by (simp add: not_le)
      then show ?thesis using Cons True by (simp add: inRange_def)
    next
      case False
      then have "\<forall>s \<in> set m. \<not> fst s < ?lo" using Cons.prems(1) by auto
      then have "filter (\<lambda>p. fst p < ?lo) m = []" by (simp add: filter_empty_conv)
      moreover have "?lo \<le> fst q" using False by (simp add: not_less)
      ultimately show ?thesis using Cons False by (simp add: inRange_def)
    qed
  qed simp
  show ?thesis
    unfolding acknowledgeRange_def prod.case lo acknowledgeRun_eq hi Let_def acked kept
    by (simp add: case_prod_unfold)
qed

lemma fold_acknowledgeRange:
  assumes "keyed m"
  obtains ps where
    "fold acknowledgeRange rs (a, m) = (fold acknowledgePacket ps a, filter (\<lambda>(k, p). \<not> inRanges rs p) m)"
    "mset ps = mset (filter (inRanges rs) (map snd m))"
  using assms
proof (induction rs arbitrary: a m thesis)
  case Nil
  have "filter (\<lambda>(k, p). \<not> inRanges [] p) m = m" by (simp add: inRanges_def case_prod_beta)
  then show ?case using Nil(1) [of "[]"] by (simp add: inRanges_def)
next
  case (Cons r rs)
  let ?m = "filter (\<lambda>(k, p). \<not> inRange r p) m"
  let ?now = "filter (inRange r) (map snd m)"
  obtain ps where ps:
    "fold acknowledgeRange rs (fold acknowledgePacket ?now a, ?m) =
       (fold acknowledgePacket ps (fold acknowledgePacket ?now a), filter (\<lambda>(k, p). \<not> inRanges rs p) ?m)"
    "mset ps = mset (filter (inRanges rs) (map snd ?m))"
    using Cons.IH [OF _ keyed_filter [OF Cons.prems(2)]] by blast
  have "filter (\<lambda>(k, p). \<not> inRanges rs p) ?m = filter (\<lambda>(k, p). \<not> inRanges (r # rs) p) m"
    by (auto simp: inRanges_def intro!: filter_cong)
  then have "fold acknowledgeRange (r # rs) (a, m) =
      (fold acknowledgePacket (?now @ ps) a, filter (\<lambda>(k, p). \<not> inRanges (r # rs) p) m)"
    by (simp add: acknowledgeRange_eq [OF Cons.prems(2)] ps(1))
  moreover have "mset (?now @ ps) = mset (filter (inRanges (r # rs)) (map snd m))"
    unfolding mset_append ps(2) by (induction m) (auto simp: inRanges_def)
  ultimately show ?case by (rule Cons.prems(1))
qed

lemma fold_acknowledgePacket:
  assumes "fold acknowledgePacket ps (s, acked, best) = (s', acked', best')"
  shows "acked' = acked @ ps \<and> m_spaces s' = m_spaces s \<and> m_estimate s' = m_estimate s \<and>
    m_inFlightByteCount s' = m_inFlightByteCount s - of_nat (packetBytes ps) \<and>
    (best' = None \<longleftrightarrow> best = None \<and> ps = [])"
  using assms
proof (induction ps arbitrary: s acked best)
  case (Cons p ps)
  define best1 where "best1 = (case best of None \<Rightarrow> p | Some q \<Rightarrow> if packetNumber p > packetNumber q then p else q)"
  have best1: "acknowledgePacket p (s, acked, best) =
      (noteEcnMarkedResolution p False (s\<lparr>m_inFlightByteCount := m_inFlightByteCount s - byteCount p\<rparr>),
       acked @ [p], Some best1)"
    by (simp add: best1_def split: option.split)
  have "fold acknowledgePacket ps
      (noteEcnMarkedResolution p False (s\<lparr>m_inFlightByteCount := m_inFlightByteCount s - byteCount p\<rparr>),
       acked @ [p], Some best1) = (s', acked', best')"
    using Cons.prems by (simp only: fold_Cons o_apply best1)
  from Cons.IH [OF this] show ?case
    by (simp add: diff_diff_eq)
qed simp

text \<open>Everything an acknowledgement does to the books.\<close>

lemma finishAcknowledgement_spec:
  assumes "finishAcknowledgement space now update s = (update', s')"
  obtains s1 where "detectLostPackets space now s = (u_lost update', s1)" "u_acknowledged update' = u_acknowledged update"
    "m_spaces s' = m_spaces s1" "m_inFlightByteCount s' = m_inFlightByteCount s1" "m_estimate s' = m_estimate s1"
proof -
  obtain lost s1 where d: "detectLostPackets space now s = (lost, s1)" by force
  obtain per s2 where n: "notePersistentCongestionSpan (u_acknowledged update) lost s1 = (per, s2)" by force
  have "update' = update\<lparr>u_lost := lost, isPersistentCongestionDetected := per\<rparr>" "s' = s2"
    using assms by (simp_all add: finishAcknowledgement_def d n)
  moreover have "m_spaces s2 = m_spaces s1" "m_inFlightByteCount s2 = m_inFlightByteCount s1" "m_estimate s2 = m_estimate s1"
    using notePersistentCongestionSpan_frame [of "u_acknowledged update" lost s1] by (simp_all add: n)
  ultimately show thesis using d by (intro that [of s1]) simp_all
qed

lemma onAcknowledgementReceived_spec:
  assumes "keyed (s_unacknowledged (m_spaces s space))"
    and "onAcknowledgementReceived space f now delay s = (update, s')"
  defines "old \<equiv> s_unacknowledged (m_spaces s space)"
    and "largest \<equiv> (case s_largestAcknowledged (m_spaces s space) of
      None \<Rightarrow> largestAcknowledgedPacketNumber f | Some l \<Rightarrow> max l (largestAcknowledgedPacketNumber f))"
  shows "mset (u_acknowledged update) = mset (filter (inRanges (ack_ranges f)) (map snd old))"
    "let delay = lossDelayOf s'; lost = declaredLost largest (now - delay);
         left = filter (\<lambda>(k, p). \<not> inRanges (ack_ranges f) p) old in
       u_lost update = filter lost (map snd left) \<and>
       s_unacknowledged (m_spaces s' space) = filter (\<lambda>(k, p). \<not> lost p) left \<and>
       s_lossTime (m_spaces s' space) = earliestOf None (map (\<lambda>p. timeSent p + delay)
         (filter (pendingLoss largest (now - delay)) (map snd left)))"
    "s_largestAcknowledged (m_spaces s' space) = Some largest"
    "\<And>other. other \<noteq> space \<Longrightarrow> m_spaces s' other = m_spaces s other"
    "m_inFlightByteCount s' = m_inFlightByteCount s - of_nat (packetBytes (u_acknowledged update) + packetBytes (u_lost update))"
proof -
  let ?left = "filter (\<lambda>(k, p). \<not> inRanges (ack_ranges f) p) old"
  have old: "keyed old" using assms(1) by (simp add: old_def)
  obtain ps where ps: "mset ps = mset (filter (inRanges (ack_ranges f)) (map snd old))"
    and run: "fold acknowledgeRange (rev (ack_ranges f)) ((s, [], None), old) = (fold acknowledgePacket ps (s, [], None), ?left)"
    using fold_acknowledgeRange [OF old, of "rev (ack_ranges f)" "(s, [], None)"]
    by (auto simp: inRanges_def)
  obtain s1 acked best where a: "fold acknowledgePacket ps (s, [], None) = (s1, acked, best)"
    by (metis prod.exhaust)
  note packets = fold_acknowledgePacket [OF a]
  define s2 where "s2 = setSpace space ((m_spaces s space)\<lparr>s_largestAcknowledged := Some largest, s_unacknowledged := ?left\<rparr>) s1"
  have spaces2: "s_unacknowledged (m_spaces s2 space) = ?left" "s_largestAcknowledged (m_spaces s2 space) = Some largest"
    "\<And>other. other \<noteq> space \<Longrightarrow> m_spaces s2 other = m_spaces s other"
    "m_inFlightByteCount s2 = m_inFlightByteCount s - of_nat (packetBytes ps)"
    using packets by (simp_all add: s2_def)
  have acked: "acked = ps" using packets by simp
  have max_eq: "max (case s_largestAcknowledged (m_spaces s space) of None \<Rightarrow> largestAcknowledgedPacketNumber f | Some l \<Rightarrow> l)
      (largestAcknowledgedPacketNumber f) = largest"
    by (simp add: largest_def split: option.splits)
  note step = assms(2) [unfolded onAcknowledgementReceived_def Let_def old_def [symmetric] run prod.case a acked
      max_eq s2_def [symmetric]]
  have mid: "\<exists>s3 u s4. finishAcknowledgement space now u s3 = (update, s4) \<and> u_acknowledged u = ps \<and>
      m_spaces s3 = m_spaces s2 \<and> m_inFlightByteCount s3 = m_inFlightByteCount s2 \<and>
      m_spaces s' = m_spaces s4 \<and> m_inFlightByteCount s' = m_inFlightByteCount s4 \<and> m_estimate s' = m_estimate s4"
  proof (cases best)
    case None
    obtain u s3 where e: "processEcnFeedback space f ps None False (emptyUpdate\<lparr>u_acknowledged := ps\<rparr>) s2 = (u, s3)"
      by force
    have "finishAcknowledgement space now u s3 = (update, s')"
      using step None e by simp
    moreover have "u_acknowledged u = ps" "m_spaces s3 = m_spaces s2" "m_inFlightByteCount s3 = m_inFlightByteCount s2"
      using processEcnFeedback_frame [of space f ps None False "emptyUpdate\<lparr>u_acknowledged := ps\<rparr>" s2]
      unfolding e by simp_all
    ultimately show ?thesis by blast
  next
    case (Some p)
    define sampled where "sampled = (packetNumber p = largestAcknowledgedPacketNumber f \<and> (\<exists>p \<in> set ps. isAckEliciting p))"
    define s2' where "s2' = (if sampled then updateRoundTripTime (now - timeSent p) delay
        (s2\<lparr>m_firstRoundTripSampleTime :=
          (case m_firstRoundTripSampleTime s2 of None \<Rightarrow> Some now | Some t \<Rightarrow> Some t)\<rparr>) else s2)"
    define inc where "inc = (case s_largestAcknowledged (m_spaces s space) of None \<Rightarrow> True
        | Some l \<Rightarrow> largestAcknowledgedPacketNumber f > l)"
    let ?u = "emptyUpdate\<lparr>u_acknowledged := ps, isRoundTripSampled := sampled\<rparr>"
    obtain u s3 where e: "processEcnFeedback space f ps (Some (timeSent p)) inc ?u s2' = (u, s3)"
      by force
    obtain s4 where fin: "finishAcknowledgement space now u s3 = (update, s4)" and s': "s' = s4\<lparr>m_probeBackoffExponent := 0\<rparr>"
      using step [unfolded Some option.case, folded sampled_def inc_def, folded s2'_def]
      by (auto simp: e split: prod.splits)
    have "m_spaces s2' = m_spaces s2" "m_inFlightByteCount s2' = m_inFlightByteCount s2"
      by (simp_all add: s2'_def)
    moreover have "u_acknowledged u = ps" "m_spaces s3 = m_spaces s2'" "m_inFlightByteCount s3 = m_inFlightByteCount s2'"
      using processEcnFeedback_frame [of space f ps "Some (timeSent p)" inc ?u s2']
      unfolding e by simp_all
    moreover have "m_spaces s' = m_spaces s4" "m_inFlightByteCount s' = m_inFlightByteCount s4" "m_estimate s' = m_estimate s4"
      by (simp_all add: s')
    ultimately show ?thesis using fin by metis
  qed
  then obtain s3 u s4 where fin: "finishAcknowledgement space now u s3 = (update, s4)" "u_acknowledged u = ps"
    and s3: "m_spaces s3 = m_spaces s2" "m_inFlightByteCount s3 = m_inFlightByteCount s2"
    and s4: "m_spaces s' = m_spaces s4" "m_inFlightByteCount s' = m_inFlightByteCount s4" "m_estimate s' = m_estimate s4"
    by blast
  obtain s5 where d: "detectLostPackets space now s3 = (u_lost update, s5)" "u_acknowledged update = ps"
    and s5: "m_spaces s4 = m_spaces s5" "m_inFlightByteCount s4 = m_inFlightByteCount s5" "m_estimate s4 = m_estimate s5"
    using finishAcknowledgement_spec [OF fin(1)] fin(2) by metis
  have left: "keyed (s_unacknowledged (m_spaces s3 space))"
    using keyed_filter [OF old] by (simp add: s3 spaces2)
  have l3: "s_largestAcknowledged (m_spaces s3 space) = Some largest" by (simp add: s3 spaces2)
  note spec = detectLostPackets_spec [OF left d(1) l3]
  show "mset (u_acknowledged update) = mset (filter (inRanges (ack_ranges f)) (map snd old))"
    by (simp add: d(2) ps)
  have delay: "lossDelayOf s' = lossDelayOf s3"
    using spec(7) by (simp add: lossDelayOf_def s4 s5)
  show "let delay = lossDelayOf s'; lost = declaredLost largest (now - delay);
         left = filter (\<lambda>(k, p). \<not> inRanges (ack_ranges f) p) old in
       u_lost update = filter lost (map snd left) \<and>
       s_unacknowledged (m_spaces s' space) = filter (\<lambda>(k, p). \<not> lost p) left \<and>
       s_lossTime (m_spaces s' space) = earliestOf None (map (\<lambda>p. timeSent p + delay)
         (filter (pendingLoss largest (now - delay)) (map snd left)))"
    using spec(1-3) by (simp add: Let_def s4 s5 s3 spaces2 delay)
  show "s_largestAcknowledged (m_spaces s' space) = Some largest"
    using spec(4) by (simp add: s4 s5)
  show "m_spaces s' other = m_spaces s other" if "other \<noteq> space" for other
    using spec(5) [OF that] spaces2(3) [OF that] by (simp add: s4 s5 s3)
  show "m_inFlightByteCount s' = m_inFlightByteCount s - of_nat (packetBytes (u_acknowledged update) + packetBytes (u_lost update))"
    using spec(6) by (simp add: s4 s5 s3 spaces2 d(2) diff_diff_eq)
qed

section \<open>Runs\<close>

type_synonym booked = "QuicRecoverySpace \<times> QuicSentPacketInfo"

text \<open>What became of the packets: sent, acknowledged, declared lost, and given up with their keys.\<close>

record recovery_history =
  h_sent :: "booked multiset"
  h_acknowledged :: "booked multiset"
  h_lost :: "booked multiset"
  h_discarded :: "booked multiset"

definition emptyHistory :: recovery_history where
  "emptyHistory = \<lparr>h_sent = {#}, h_acknowledged = {#}, h_lost = {#}, h_discarded = {#}\<rparr>"

definition booked :: "QuicRecoverySpace \<Rightarrow> QuicSentPacketInfo list \<Rightarrow> booked multiset" where
  "booked space ps = image_mset (Pair space) (mset ps)"

text \<open>The calls of the connection. A packet number is used once in its space, as
  \<open>nextPacketNumber\<close> of the core provides.\<close>

inductive recovery_step ::
  "QuicRecovery \<times> recovery_history \<Rightarrow> QuicRecovery \<times> recovery_history \<Rightarrow> bool" where
  sent: "\<forall>q. (space, q) \<in># h_sent h \<longrightarrow> packetNumber q \<noteq> packetNumber p \<Longrightarrow>
    recovery_step (s, h) (recoveryPacketSent space p s, h\<lparr>h_sent := add_mset (space, p) (h_sent h)\<rparr>)"
| acknowledged: "onAcknowledgementReceived space f now delay s = (u, s') \<Longrightarrow>
    recovery_step (s, h) (s', h\<lparr>h_acknowledged := h_acknowledged h + booked space (u_acknowledged u),
      h_lost := h_lost h + booked space (u_lost u)\<rparr>)"
| expired: "recoveryDeadlineReached now s = (action, s') \<Longrightarrow>
    recovery_step (s, h) (s', h\<lparr>h_lost := h_lost h + booked (lostSpace action) (action_lost action)\<rparr>)"
| discarded: "recovery_step (s, h) (recoveryDiscardSpace space s,
    h\<lparr>h_discarded := h_discarded h + booked space (unacknowledgedPackets space s)\<rparr>)"
| confirmed: "recovery_step (s, h) (recoveryHandshakeConfirmed delay s, h)"
| ecn_disabled: "recovery_step (s, h) (disableEcn s, h)"
| path_changed: "recovery_step (s, h) (resetForPathChange s, h)"

abbreviation recovery_reaches :: "QuicRecovery \<Rightarrow> recovery_history \<Rightarrow> bool" where
  "recovery_reaches s h \<equiv> recovery_step\<^sup>*\<^sup>* (newRecovery, emptyHistory) (s, h)"

definition outstanding :: "QuicRecovery \<Rightarrow> booked multiset" where
  "outstanding s = booked Initial (unacknowledgedPackets Initial s) + booked Handshake (unacknowledgedPackets Handshake s) +
     booked Application (unacknowledgedPackets Application s)"

definition totalBytes :: "booked multiset \<Rightarrow> nat" where
  "totalBytes M = (\<Sum>x \<in># M. unat (byteCount (snd x)))"

lemma booked_simps [simp]:
  "booked space [] = {#}" "booked space (p # ps) = add_mset (space, p) (booked space ps)"
  "booked space (ps @ qs) = booked space ps + booked space qs"
  by (simp_all add: booked_def)

lemma booked_cong: "mset ps = mset qs \<Longrightarrow> booked space ps = booked space qs"
  by (simp add: booked_def)

lemma booked_split: "booked space ps = booked space (filter P ps) + booked space (filter (\<lambda>p. \<not> P p) ps)"
  by (induction ps) auto

lemma totalBytes_simps [simp]:
  "totalBytes {#} = 0" "totalBytes (add_mset x M) = unat (byteCount (snd x)) + totalBytes M"
  "totalBytes (M + N) = totalBytes M + totalBytes N"
  by (simp_all add: totalBytes_def)

lemma totalBytes_booked: "totalBytes (booked space ps) = packetBytes ps"
  by (induction ps) simp_all

text \<open>A change in one space moves the difference.\<close>

lemma outstanding_change:
  assumes "\<And>other. other \<noteq> space \<Longrightarrow> m_spaces s' other = m_spaces s other"
    and "booked space (unacknowledgedPackets space s) = booked space (unacknowledgedPackets space s') + gone"
  shows "outstanding s = outstanding s' + gone"
proof -
  have other: "unacknowledgedPackets other s' = unacknowledgedPackets other s" if "other \<noteq> space" for other
    using assms(1) [OF that] by (simp add: unacknowledgedPackets_def)
  show ?thesis
    using assms(2) by (cases space) (simp_all add: outstanding_def other)
qed

definition books :: "QuicRecovery \<Rightarrow> bool" where
  "books s \<longleftrightarrow> (\<forall>space. keyed (s_unacknowledged (m_spaces s space))) \<and>
     m_inFlightByteCount s = of_nat (totalBytes (outstanding s))"

text \<open>Packets that leave a space take their bytes with them.\<close>

lemma books_remove:
  assumes "books s"
    and other: "\<And>other. other \<noteq> space \<Longrightarrow> m_spaces s' other = m_spaces s other"
    and left: "s_unacknowledged (m_spaces s' space) = filter (\<lambda>(k, p). \<not> P p) (s_unacknowledged (m_spaces s space))"
    and gone: "mset gone = mset (filter P (unacknowledgedPackets space s))"
    and bytes: "m_inFlightByteCount s' = m_inFlightByteCount s - of_nat (packetBytes gone)"
  shows "books s' \<and> outstanding s = outstanding s' + booked space gone"
proof -
  have "unacknowledgedPackets space s' = filter (\<lambda>p. \<not> P p) (unacknowledgedPackets space s)"
    by (simp add: unacknowledgedPackets_def left filter_map o_def case_prod_unfold)
  then have out: "outstanding s = outstanding s' + booked space gone"
    using outstanding_change [OF other, of space "booked space gone"]
      booked_split [of space "unacknowledgedPackets space s" P] booked_cong [OF gone]
    by (simp add: union_commute)
  have "keyed (s_unacknowledged (m_spaces s' sp))" for sp
    using assms(1) keyed_filter other left by (cases "sp = space") (auto simp: books_def)
  moreover have "m_inFlightByteCount s' = of_nat (totalBytes (outstanding s'))"
    using assms(1) bytes by (simp add: books_def out totalBytes_booked)
  ultimately show ?thesis using out by (simp add: books_def)
qed

lemma unacknowledgedPackets_put:
  assumes "keyed (s_unacknowledged (m_spaces s space))" "map_find (packetNumber p) (s_unacknowledged (m_spaces s space)) = None"
  shows "mset (map snd (map_put (packetNumber p) p (s_unacknowledged (m_spaces s space)))) =
    add_mset p (mset (unacknowledgedPackets space s))"
proof -
  have "map_find k m = None \<Longrightarrow> mset (map snd (map_put k p m)) = add_mset p (mset (map snd m))" for k m
    by (induction k p m rule: map_put.induct) (auto simp: map_find_def split: if_splits)
  then show ?thesis using assms(2) by (simp add: unacknowledgedPackets_def)
qed

lemma recoveryPacketSent_books:
  assumes "books s" "map_find (packetNumber p) (s_unacknowledged (m_spaces s space)) = None"
  shows "books (recoveryPacketSent space p s) \<and>
    outstanding (recoveryPacketSent space p s) = add_mset (space, p) (outstanding s)"
proof -
  let ?s = "recoveryPacketSent space p s"
  have spaces: "m_spaces ?s = (m_spaces s)(space := (m_spaces s space)\<lparr>s_unacknowledged :=
      map_put (packetNumber p) p (s_unacknowledged (m_spaces s space))\<rparr>)"
    and bytes: "m_inFlightByteCount ?s = m_inFlightByteCount s + byteCount p"
    using assms(2) by (simp_all add: recoveryPacketSent_def Let_def split: prod.splits)
  have k: "keyed (s_unacknowledged (m_spaces s sp))" for sp using assms(1) by (simp add: books_def)
  have "booked space (unacknowledgedPackets space ?s) = booked space (unacknowledgedPackets space s) + {#(space, p)#}"
    using unacknowledgedPackets_put [OF k assms(2)]
    by (simp add: booked_def unacknowledgedPackets_def spaces)
  then have out: "outstanding ?s = add_mset (space, p) (outstanding s)"
    using outstanding_change [of space s ?s "{#(space, p)#}"] by (simp add: spaces)
  have "keyed (s_unacknowledged (m_spaces ?s sp))" for sp
    using k keyed_put by (simp add: spaces)
  then show ?thesis
    using assms(1) out bytes by (simp add: books_def add.commute)
qed

lemma detectLostPackets_books:
  assumes "books s" "detectLostPackets space now s = (lost, s')"
  shows "books s' \<and> outstanding s = outstanding s' + booked space lost"
proof (cases "s_largestAcknowledged (m_spaces s space)")
  case None
  then have "lost = []" "s' = setSpace space ((m_spaces s space)\<lparr>s_lossTime := None\<rparr>) s"
    using assms(2) by (simp_all add: detectLostPackets_def)
  then show ?thesis
    using books_remove [OF assms(1), of space s' "\<lambda>_. False" "[]"] by (simp add: case_prod_unfold)
next
  case (Some largest)
  have "keyed (s_unacknowledged (m_spaces s space))" using assms(1) by (simp add: books_def)
  note spec = detectLostPackets_spec [OF this assms(2) Some]
  have "mset lost = mset (filter (declaredLost largest (now - lossDelayOf s)) (unacknowledgedPackets space s))"
    by (subst spec(1)) (simp add: unacknowledgedPackets_def)
  from books_remove [OF assms(1) spec(5) spec(2) this spec(6)] show ?thesis .
qed

lemma onAcknowledgementReceived_books:
  assumes "books s" "onAcknowledgementReceived space f now delay s = (u, s')"
  shows "books s' \<and> outstanding s = outstanding s' + booked space (u_acknowledged u) + booked space (u_lost u)"
proof -
  have "keyed (s_unacknowledged (m_spaces s space))" using assms(1) by (simp add: books_def)
  note spec = onAcknowledgementReceived_spec [OF this assms(2)]
  obtain lost where lost: "u_lost u = filter lost (map snd (filter (\<lambda>(k, p). \<not> inRanges (ack_ranges f) p) (s_unacknowledged (m_spaces s space))))"
    "s_unacknowledged (m_spaces s' space) = filter (\<lambda>(k, p). \<not> lost p)
       (filter (\<lambda>(k, p). \<not> inRanges (ack_ranges f) p) (s_unacknowledged (m_spaces s space)))"
    using spec(2) by (auto simp: Let_def)
  let ?P = "\<lambda>p. inRanges (ack_ranges f) p \<or> lost p"
  have left: "s_unacknowledged (m_spaces s' space) = filter (\<lambda>(k, p). \<not> ?P p) (s_unacknowledged (m_spaces s space))"
    unfolding lost(2) filter_filter by (intro filter_cong) auto
  have "mset (filter ?P ps) = mset (filter (inRanges (ack_ranges f)) ps) +
      mset (filter lost (filter (\<lambda>p. \<not> inRanges (ack_ranges f) p) ps))" for ps
    by (induction ps) (simp_all del: mset_filter)
  moreover have "u_lost u = filter lost (filter (\<lambda>p. \<not> inRanges (ack_ranges f) p) (unacknowledgedPackets space s))"
    by (simp add: lost(1) unacknowledgedPackets_def filter_map o_def case_prod_unfold)
  moreover have "mset (u_acknowledged u) = mset (filter (inRanges (ack_ranges f)) (unacknowledgedPackets space s))"
    by (subst spec(1)) (simp only: unacknowledgedPackets_def)
  ultimately have gone: "mset (u_acknowledged u @ u_lost u) = mset (filter ?P (unacknowledgedPackets space s))"
    by (simp only: mset_append)
  have "books s' \<and> outstanding s = outstanding s' + booked space (u_acknowledged u @ u_lost u)"
    by (rule books_remove [OF assms(1) spec(4) left gone]) (simp_all add: spec(5))
  then show ?thesis by (simp add: union_assoc)
qed

lemma recoveryDiscardSpace_books:
  assumes "books s"
  shows "books (recoveryDiscardSpace space s) \<and>
    outstanding s = outstanding (recoveryDiscardSpace space s) + booked space (unacknowledgedPackets space s)"
proof -
  let ?step = "\<lambda>(p :: u64 \<times> QuicSentPacketInfo) s. noteEcnMarkedResolution (snd p) False (s\<lparr>m_inFlightByteCount := m_inFlightByteCount s - byteCount (snd p)\<rparr>)"
  have frame: "m_spaces (fold ?step m s) = m_spaces s \<and>
      m_inFlightByteCount (fold ?step m s) = m_inFlightByteCount s - of_nat (packetBytes (map snd m))" for m s
    by (induction m arbitrary: s) (simp_all add: diff_diff_eq)
  let ?s = "recoveryDiscardSpace space s"
  have spaces: "m_spaces ?s = (m_spaces s)(space := (m_spaces s space)\<lparr>s_unacknowledged := [], s_lossTime := None\<rparr>)"
    and bytes: "m_inFlightByteCount ?s = m_inFlightByteCount s - of_nat (packetBytes (unacknowledgedPackets space s))"
    using frame by (simp_all add: recoveryDiscardSpace_def Let_def unacknowledgedPackets_def)
  show ?thesis
    by (rule books_remove [OF assms, of space ?s "\<lambda>_. True"]) (simp_all add: spaces bytes)
qed

lemma recoveryDeadlineReached_books:
  assumes "books s" "recoveryDeadlineReached now s = (a, s')"
  shows "books s' \<and> outstanding s = outstanding s' + booked (lostSpace a) (action_lost a)"
proof -
  consider (none) "action_lost a = []" "m_spaces s' = m_spaces s" "m_inFlightByteCount s' = m_inFlightByteCount s"
    | (lost) s1 where "detectLostPackets (lostSpace a) now s = (action_lost a, s1)" "m_spaces s' = m_spaces s1"
        "m_inFlightByteCount s' = m_inFlightByteCount s1"
    using assms(2)
    by (auto simp: recoveryDeadlineReached_def noAction_def Let_def split: prod.splits option.splits if_splits)
  then show ?thesis
  proof cases
    case none
    then show ?thesis using assms(1) by (simp add: books_def outstanding_def unacknowledgedPackets_def)
  next
    case lost
    then show ?thesis
      using detectLostPackets_books [OF assms(1) lost(1)]
      by (simp add: books_def outstanding_def unacknowledgedPackets_def)
  qed
qed

definition accounted :: "QuicRecovery \<times> recovery_history \<Rightarrow> bool" where
  "accounted = (\<lambda>(s, h). books s \<and> h_sent h = h_acknowledged h + h_lost h + h_discarded h + outstanding s \<and>
     (\<forall>x. count (h_sent h) x \<le> 1))"

lemma accounted_same:
  assumes "m_spaces s' = m_spaces s" "m_inFlightByteCount s' = m_inFlightByteCount s" "accounted (s, h)"
  shows "accounted (s', h)"
proof -
  have "outstanding s' = outstanding s" by (simp add: outstanding_def unacknowledgedPackets_def assms(1))
  then have "accounted (s', h) = accounted (s, h)" by (simp only: accounted_def books_def prod.case assms(1,2))
  then show ?thesis using assms(3) by simp
qed

text \<open>Outstanding packets move to the other columns of the history.\<close>

lemma accounted_move:
  assumes "accounted (s, h)" "books s'" "outstanding s = outstanding s' + (A + L + D)"
    and "h_sent h' = h_sent h" "h_acknowledged h' = h_acknowledged h + A" "h_lost h' = h_lost h + L"
      "h_discarded h' = h_discarded h + D"
  shows "accounted (s', h')"
proof -
  have "h_sent h = h_acknowledged h + h_lost h + h_discarded h + outstanding s" "\<forall>x. count (h_sent h) x \<le> 1"
    using assms(1) unfolding accounted_def prod.case by blast+
  moreover have "h_acknowledged h + h_lost h + h_discarded h + outstanding s =
      h_acknowledged h' + h_lost h' + h_discarded h' + outstanding s'"
    by (simp add: assms(3,5-7) ac_simps)
  ultimately show ?thesis
    unfolding accounted_def prod.case assms(4) using assms(2) by (intro conjI) simp_all
qed

lemma accounted_start: "accounted (newRecovery, emptyHistory)"
proof -
  have "m_spaces newRecovery = (\<lambda>_. \<lparr>s_unacknowledged = [], s_lossTime = None, s_largestAcknowledged = None\<rparr>)"
    "m_inFlightByteCount newRecovery = 0" by (simp_all add: newRecovery_def)
  then show ?thesis
    by (simp add: accounted_def books_def emptyHistory_def outstanding_def unacknowledgedPackets_def)
qed

lemma accounted_step: "recovery_step x y \<Longrightarrow> accounted x \<Longrightarrow> accounted y"
proof (induction rule: recovery_step.induct)
  case (sent space h p s)
  have k: "keyed (s_unacknowledged (m_spaces s space))" using sent.prems by (simp add: accounted_def books_def)
  have "map_find (packetNumber p) (s_unacknowledged (m_spaces s space)) = None"
  proof (rule ccontr)
    assume "\<not> ?thesis"
    then obtain q where "(packetNumber p, q) \<in> set (s_unacknowledged (m_spaces s space))"
      by (auto simp: map_find_def dest: map_of_SomeD)
    then have "q \<in> set (unacknowledgedPackets space s)" "packetNumber q = packetNumber p"
      using k by (force simp: unacknowledgedPackets_def keyed_def)+
    then have "(space, q) \<in># outstanding s" "packetNumber q = packetNumber p"
      by (cases space; simp add: outstanding_def booked_def)+
    then show False using sent by (auto simp: accounted_def)
  qed
  then have "books (recoveryPacketSent space p s)"
    "outstanding (recoveryPacketSent space p s) = add_mset (space, p) (outstanding s)"
    using recoveryPacketSent_books sent.prems by (auto simp: accounted_def)
  moreover have "(space, p) \<notin># h_sent h" using sent.hyps by blast
  ultimately show ?case
    using sent.prems by (auto simp: accounted_def not_in_iff)
next
  case (acknowledged space f now delay s u s' h)
  then have "books s" by (simp add: accounted_def)
  note b = onAcknowledgementReceived_books [OF this acknowledged.hyps]
  show ?case
    by (rule accounted_move [where A = "booked space (u_acknowledged u)" and L = "booked space (u_lost u)" and D = "{#}",
          OF acknowledged.prems]) (use b in simp_all)
next
  case (expired now s action s' h)
  then have "books s" by (simp add: accounted_def)
  note b = recoveryDeadlineReached_books [OF this expired.hyps]
  show ?case
    by (rule accounted_move [where A = "{#}" and L = "booked (lostSpace action) (action_lost action)" and D = "{#}",
          OF expired.prems]) (use b in simp_all)
next
  case (discarded s h space)
  then have "books s" by (simp add: accounted_def)
  note b = recoveryDiscardSpace_books [OF this, of space]
  show ?case
    by (rule accounted_move [where A = "{#}" and L = "{#}" and D = "booked space (unacknowledgedPackets space s)",
          OF discarded.prems]) (use b in simp_all)
next
  case confirmed
  then show ?case by (rule accounted_same [rotated 2]) (simp_all add: recoveryHandshakeConfirmed_def)
next
  case ecn_disabled
  then show ?case by (rule accounted_same [rotated 2]) (simp_all add: disableEcn_def)
next
  case path_changed
  then show ?case by (rule accounted_same [rotated 2]) (simp_all add: resetForPathChange_def)
qed

lemma accounted_reaches: "recovery_reaches s h \<Longrightarrow> accounted (s, h)"
proof (induction rule: rtranclp_induct)
  case base
  show ?case by (rule accounted_start)
next
  case (step y z)
  show ?case by (rule accounted_step [OF step.hyps(2) step.IH])
qed

text \<open>C6: Every packet is accounted for exactly once. Whatever is sent, acknowledged, timed out or
  discarded, in any order, the packets sent are the ones acknowledged, the ones declared lost, the
  ones discarded with their keys and the ones outstanding, each of them once; and the byte counter
  of the packets in flight is their sum.\<close>

theorem packets_accounted:
  assumes "recovery_reaches s h"
  shows "h_sent h = h_acknowledged h + h_lost h + h_discarded h + outstanding s \<and>
    (\<forall>x. count (h_acknowledged h + h_lost h + h_discarded h + outstanding s) x \<le> 1) \<and>
    m_inFlightByteCount s = of_nat (totalBytes (outstanding s))"
proof -
  have a: "h_sent h = h_acknowledged h + h_lost h + h_discarded h + outstanding s"
    and b: "\<forall>x. count (h_sent h) x \<le> 1" and c: "books s"
    using accounted_reaches [OF assms] unfolding accounted_def prod.case by blast+
  have "m_inFlightByteCount s = of_nat (totalBytes (outstanding s))" using c by (simp only: books_def)
  moreover have "\<forall>x. count (h_acknowledged h + h_lost h + h_discarded h + outstanding s) x \<le> 1"
    using b unfolding a .
  ultimately show ?thesis using a by blast
qed

text \<open>Three packets, the second and third acknowledged by a range: the first is not late enough to be
  lost.\<close>

definition example_packet :: "u64 \<Rightarrow> QuicTime \<Rightarrow> QuicSentPacketInfo" where
  "example_packet number t = \<lparr>packetNumber = number, timeSent = t, byteCount = 1200, isAckEliciting = True,
     ecnCodepoint = 1, cryptoRange = None, streamRanges = [], streamAnnouncements = [], carriesHandshakeDone = False,
     carriesConnectionIdFrames = False, retiredConnectionIdSequences = [], isPathMtuProbe = False\<rparr>"

definition example_ack :: "u64 \<Rightarrow> u64 \<Rightarrow> QuicAcknowledgementFrame" where
  "example_ack lo hi = \<lparr>largestAcknowledgedPacketNumber = hi, acknowledgementDelay = 0,
     ack_ranges = [\<lparr>smallestAcknowledged = lo, largestAcknowledged = hi\<rparr>], hasEcnCounts = False, ecnCounts = (0, 0, 0)\<rparr>"

definition example_sent :: QuicRecovery where
  "example_sent = recoveryPacketSent Initial (example_packet 1 10) (recoveryPacketSent Initial (example_packet 0 0) newRecovery)"

definition example_history :: recovery_history where
  "example_history = emptyHistory\<lparr>h_sent := {#(Initial, example_packet 1 10), (Initial, example_packet 0 0)#}\<rparr>"

lemma example_reaches: "recovery_reaches example_sent example_history"
proof -
  have "recovery_step (newRecovery, emptyHistory) (recoveryPacketSent Initial (example_packet 0 0) newRecovery,
      emptyHistory\<lparr>h_sent := add_mset (Initial, example_packet 0 0) (h_sent emptyHistory)\<rparr>)"
    by (rule recovery_step.sent) (simp add: emptyHistory_def)
  moreover have "recovery_step (recoveryPacketSent Initial (example_packet 0 0) newRecovery,
      emptyHistory\<lparr>h_sent := add_mset (Initial, example_packet 0 0) (h_sent emptyHistory)\<rparr>)
      (example_sent, emptyHistory\<lparr>h_sent := add_mset (Initial, example_packet 0 0) (h_sent emptyHistory),
        h_sent := add_mset (Initial, example_packet 1 10) (h_sent (emptyHistory\<lparr>h_sent := add_mset (Initial, example_packet 0 0) (h_sent emptyHistory)\<rparr>))\<rparr>)"
    unfolding example_sent_def by (rule recovery_step.sent) (simp add: emptyHistory_def example_packet_def)
  ultimately show ?thesis
    by (simp add: example_history_def emptyHistory_def)
qed

theorem packets_accounted_witness:
  "m_inFlightByteCount example_sent = of_nat (totalBytes (outstanding example_sent))"
  using packets_accounted [OF example_reaches] by blast

text \<open>C27: An acknowledgement takes exactly what it names, and losses are exactly what RFC 9002
  section 6.1 names. The acknowledged packets are the outstanding ones of the space inside the
  ranges. Of the rest, those up to the largest acknowledged number are lost that were sent three or
  more numbers before it, or at least the loss delay (9/8 of the larger of the latest and the
  smoothed round trip, not under a millisecond) before now. The others stay, and the loss timer of
  the space is set to the earliest moment one of them can be lost, which is in the future.\<close>

theorem acknowledgement_effect:
  assumes "recovery_reaches s h" "onAcknowledgementReceived space f now ackDelay s = (u, s')"
  shows "let left = filter (\<lambda>p. \<not> inRanges (ack_ranges f) p) (unacknowledgedPackets space s);
      largest = (case s_largestAcknowledged (m_spaces s space) of
        None \<Rightarrow> largestAcknowledgedPacketNumber f | Some l \<Rightarrow> max l (largestAcknowledgedPacketNumber f));
      lost = (\<lambda>p. packetNumber p \<le> largest \<and>
        (timeSent p \<le> now - lossDelayOf s' \<or> packetNumber p + 3 \<le> largest));
      waiting = {timeSent p + lossDelayOf s' | p. p \<in> set left \<and> packetNumber p \<le> largest \<and> \<not> lost p} in
    mset (u_acknowledged u) = mset (filter (inRanges (ack_ranges f)) (unacknowledgedPackets space s)) \<and>
    u_lost u = filter lost left \<and>
    unacknowledgedPackets space s' = filter (\<lambda>p. \<not> lost p) left \<and>
    s_lossTime (m_spaces s' space) = (if waiting = {} then None else Some (Min waiting)) \<and>
    (\<forall>t \<in> waiting. now < t)"
proof -
  let ?old = "s_unacknowledged (m_spaces s space)" and ?d = "lossDelayOf s'"
  let ?left = "filter (\<lambda>(k, p). \<not> inRanges (ack_ranges f) p) ?old"
  have "keyed ?old" using accounted_reaches [OF assms(1)] by (simp add: accounted_def books_def)
  note spec = onAcknowledgementReceived_spec [OF this assms(2)]
  define largest where "largest = (case s_largestAcknowledged (m_spaces s space) of
        None \<Rightarrow> largestAcknowledgedPacketNumber f | Some l \<Rightarrow> max l (largestAcknowledgedPacketNumber f))"
  define waiting where "waiting = {timeSent p + ?d | p. p \<in> set (map snd ?left) \<and> packetNumber p \<le> largest \<and>
      \<not> declaredLost largest (now - ?d) p}"
  have left: "filter (\<lambda>p. \<not> inRanges (ack_ranges f) p) (unacknowledgedPackets space s) = map snd ?left"
    by (simp add: unacknowledgedPackets_def filter_map o_def case_prod_unfold)
  have lost: "declaredLost largest (now - ?d) = (\<lambda>p. packetNumber p \<le> largest \<and>
      (timeSent p \<le> now - ?d \<or> packetNumber p + 3 \<le> largest))"
    by (simp add: declaredLost_def kPacketReorderingThreshold_def fun_eq_iff)
  have losses: "u_lost u = filter (declaredLost largest (now - ?d)) (map snd ?left)"
    "unacknowledgedPackets space s' = filter (\<lambda>p. \<not> declaredLost largest (now - ?d) p) (map snd ?left)"
    "s_lossTime (m_spaces s' space) = earliestOf None (map (\<lambda>p. timeSent p + ?d)
         (filter (pendingLoss largest (now - ?d)) (map snd ?left)))"
    using spec(2) unfolding largest_def [symmetric] Let_def
    by (simp_all add: unacknowledgedPackets_def filter_map o_def case_prod_unfold)
  have "waiting = set (map (\<lambda>p. timeSent p + ?d) (filter (pendingLoss largest (now - ?d)) (map snd ?left)))"
    by (auto simp: waiting_def pendingLoss_def)
  then have time: "s_lossTime (m_spaces s' space) = (if waiting = {} then None else Some (Min waiting))"
    by (simp only: losses(3) earliestOf_None set_empty)
  have later: "\<forall>t \<in> waiting. now < t" by (auto simp: waiting_def declaredLost_def)
  have acked: "mset (u_acknowledged u) = mset (filter (inRanges (ack_ranges f)) (unacknowledgedPackets space s))"
    by (subst spec(1)) (simp only: unacknowledgedPackets_def)
  show ?thesis
    using acked losses(1,2) time later
    unfolding Let_def left largest_def [symmetric] waiting_def lost by blast
qed

theorem acknowledgement_effect_witness:
  "let (u, s') = onAcknowledgementReceived Initial (example_ack 1 1) 30 0 example_sent in
     map packetNumber (u_acknowledged u) = [1] \<and> u_lost u = [] \<and> s_lossTime (m_spaces s' Initial) = Some 1000 \<and>
     mset (u_acknowledged u) = mset (filter (inRanges [\<lparr>smallestAcknowledged = 1, largestAcknowledged = 1\<rparr>])
       (unacknowledgedPackets Initial example_sent))"
proof -
  obtain u s' where r: "onAcknowledgementReceived Initial (example_ack 1 1) 30 0 example_sent = (u, s')" by force
  have "case onAcknowledgementReceived Initial (example_ack 1 1) 30 0 example_sent of (u, s') \<Rightarrow>
      map packetNumber (u_acknowledged u) = [1] \<and> u_lost u = [] \<and> s_lossTime (m_spaces s' Initial) = Some 1000"
    by code_simp
  moreover have "mset (u_acknowledged u) = mset (filter (inRanges [\<lparr>smallestAcknowledged = 1, largestAcknowledged = 1\<rparr>])
       (unacknowledgedPackets Initial example_sent))"
    using acknowledgement_effect [OF example_reaches r] unfolding Let_def example_ack_def by simp
  ultimately show ?thesis unfolding r by simp
qed

section \<open>Timers\<close>

lemma earlier_simps [simp]:
  "\<not> earlier None e" "earlier (Some t) None" "earlier (Some t) (Some e') \<longleftrightarrow> t < e'"
  by (simp_all add: earlier_def)

lemma earlier_chain:
  "fst (fold (\<lambda>c (e, sp). if earlier (g c) e then (g c, c) else (e, sp)) cs (e, sp)) = None \<longleftrightarrow>
     e = None \<and> (\<forall>c \<in> set cs. g c = None)"
proof (induction cs arbitrary: e sp)
  case (Cons c cs)
  show ?case
    by (cases e; cases "g c") (simp_all add: Cons.IH not_None_eq [symmetric] del: not_None_eq)
qed simp

lemma earlier_from:
  "fold (\<lambda>c (e, sp). if earlier (g c) e then (g c, c) else (e, sp)) cs (e, sp) = (Some t, sp') \<Longrightarrow>
     e = Some t \<and> sp' = sp \<or> g sp' = Some t"
proof (induction cs arbitrary: e sp)
  case (Cons c cs)
  then show ?case by (auto split: if_splits)
qed simp

lemma lossTime_from: "earliestLossTime s = (Some t, sp) \<Longrightarrow> s_lossTime (m_spaces s sp) = Some t"
  using earlier_from [of "\<lambda>c. s_lossTime (m_spaces s c)" allSpaces None Initial t sp]
  by (simp add: earliestLossTime_def)

lemma all_spaces: "(\<forall>c \<in> set allSpaces. P c) \<longleftrightarrow> (\<forall>c. P c)"
  by (auto simp: allSpaces_def) (metis QuicRecoverySpace.exhaust)

lemma lastAckEliciting_None:
  "lastAckElicitingSentTime (m_spaces s c) = None \<longleftrightarrow> \<not> (\<exists>p \<in> set (unacknowledgedPackets c s). isAckEliciting p)"
  by (auto simp: lastAckElicitingSentTime_def unacknowledgedPackets_def find_None_iff)

lemma probeDeadlineOf_None:
  "probeDeadlineOf s c = None \<longleftrightarrow>
     \<not> (\<exists>p \<in> set (unacknowledgedPackets c s). isAckEliciting p) \<or> c = Application \<and> \<not> m_isHandshakeConfirmed s"
  unfolding lastAckEliciting_None [symmetric] by (simp add: probeDeadlineOf_def split: option.split)

text \<open>C28: The timer is armed exactly when something can be waited for: a packet that can be lost by
  time, or an ack-eliciting packet outstanding in a space whose probes may be sent (the application
  space only after the handshake is confirmed). When it expires, something happens: the loss timer's
  space is scanned and its timer is off or in the future, or a probe is due and the next one backs
  off.\<close>

theorem recovery_timer_live:
  assumes "recovery_reaches s h"
  shows "(recoveryNextDeadline s \<noteq> None \<longleftrightarrow>
      (\<exists>space. s_lossTime (m_spaces s space) \<noteq> None) \<or>
      (\<exists>space. (\<exists>p \<in> set (unacknowledgedPackets space s). isAckEliciting p) \<and>
         (space = Application \<longrightarrow> m_isHandshakeConfirmed s))) \<and>
    (\<forall>now t action s'. recoveryNextDeadline s = Some t \<and> t \<le> now \<and> recoveryDeadlineReached now s = (action, s') \<longrightarrow>
       (if isProbeTimeout action then m_probeBackoffExponent s' = m_probeBackoffExponent s + 1
        else s_lossTime (m_spaces s (lostSpace action)) = Some t \<and>
          (case s_lossTime (m_spaces s' (lostSpace action)) of None \<Rightarrow> True | Some t' \<Rightarrow> now < t')))"
proof -
  have loss: "fst (earliestLossTime s) = None \<longleftrightarrow> (\<forall>c. s_lossTime (m_spaces s c) = None)"
    by (simp add: earliestLossTime_def earlier_chain all_spaces)
  have probe: "fst (probeTimeoutDeadline s) = None \<longleftrightarrow> (\<forall>c. probeDeadlineOf s c = None)"
    by (simp add: probeTimeoutDeadline_def earlier_chain all_spaces)
  have "recoveryNextDeadline s = None \<longleftrightarrow> fst (earliestLossTime s) = None \<and> fst (probeTimeoutDeadline s) = None"
    by (simp add: recoveryNextDeadline_def split: option.splits)
  then have armed: "recoveryNextDeadline s \<noteq> None \<longleftrightarrow>
      (\<exists>space. s_lossTime (m_spaces s space) \<noteq> None) \<or>
      (\<exists>space. (\<exists>p \<in> set (unacknowledgedPackets space s). isAckEliciting p) \<and>
         (space = Application \<longrightarrow> m_isHandshakeConfirmed s))"
    unfolding loss probe probeDeadlineOf_None by (simp only: de_Morgan_conj not_all de_Morgan_disj not_not imp_conv_disj)
  have "if isProbeTimeout action then m_probeBackoffExponent s' = m_probeBackoffExponent s + 1
        else s_lossTime (m_spaces s (lostSpace action)) = Some t \<and>
          (case s_lossTime (m_spaces s' (lostSpace action)) of None \<Rightarrow> True | Some t' \<Rightarrow> now < t')"
    if due: "recoveryNextDeadline s = Some t" "t \<le> now" and r: "recoveryDeadlineReached now s = (action, s')" for now t action s'
  proof (cases "earliestLossTime s")
    case (Pair l sp)
    show ?thesis
    proof (cases l)
      case None
      obtain pd sp' where "probeTimeoutDeadline s = (pd, sp')" by force
      then show ?thesis
        using due r Pair None by (auto simp: recoveryNextDeadline_def recoveryDeadlineReached_def noAction_def)
    next
      case (Some t')
      have t: "t' = t" using due(1) Pair Some by (simp add: recoveryNextDeadline_def)
      obtain lost s1 where d: "detectLostPackets sp now s = (lost, s1)" by force
      have a: "action = noAction\<lparr>action_lost := lost, lostSpace := sp\<rparr>" "s' = extendLossGap lost s1"
        using r due(2) by (simp_all add: recoveryDeadlineReached_def Pair Some t d)
      have "case s_lossTime (m_spaces s1 sp) of None \<Rightarrow> True | Some t' \<Rightarrow> now < t'"
      proof (cases "s_largestAcknowledged (m_spaces s sp)")
        case None
        then show ?thesis using d by (auto simp: detectLostPackets_def)
      next
        case (Some largest)
        have "keyed (s_unacknowledged (m_spaces s sp))"
          using accounted_reaches [OF assms] by (simp add: accounted_def books_def)
        note spec = detectLostPackets_spec [OF this d Some]
        have "\<forall>t \<in> set (map (\<lambda>p. timeSent p + lossDelayOf s)
            (filter (pendingLoss largest (now - lossDelayOf s)) (map snd (s_unacknowledged (m_spaces s sp))))). now < t"
          by (auto simp: pendingLoss_def declaredLost_def)
        then show ?thesis
          unfolding spec(3) earliestOf_None by (simp add: Min_gr_iff del: set_map set_filter)
      qed
      then show ?thesis
        using lossTime_from [of s t sp] Pair Some t by (simp add: a noAction_def)
    qed
  qed
  with armed show ?thesis by blast
qed

theorem recovery_timer_live_witness: "recoveryNextDeadline example_sent \<noteq> None"
proof -
  have "example_packet 0 0 \<in> set (unacknowledgedPackets Initial example_sent)" "isAckEliciting (example_packet 0 0)"
    by code_simp+
  then show ?thesis using recovery_timer_live [OF example_reaches] by blast
qed

section \<open>The round trip estimate\<close>

lemma sdiv_between:
  fixes d :: int
  assumes "0 < n"
  shows "0 \<le> d \<Longrightarrow> 0 \<le> d sdiv n \<and> d sdiv n \<le> d" "d \<le> 0 \<Longrightarrow> d \<le> d sdiv n \<and> d sdiv n \<le> 0"
proof -
  have le: "c div n \<le> c" "0 \<le> c div n" if "0 \<le> c" for c
    using that assms zdiv_mono2 [of c 1 n] by (simp_all add: pos_imp_zdiv_nonneg_iff)
  show "0 \<le> d sdiv n \<and> d sdiv n \<le> d" if "0 \<le> d"
    using le [OF that] that assms by (cases "d = 0") (simp_all add: signed_divide_int_def)
  show "d \<le> d sdiv n \<and> d sdiv n \<le> 0" if "d \<le> 0"
    using le [of "- d"] that assms by (cases "d = 0") (simp_all add: signed_divide_int_def)
qed

text \<open>C29: A round trip sample keeps the estimate inside its bounds: no component turns negative, the
  minimum does not exceed the sample, the smoothed value moves towards the sample and stays between
  what it was, the minimum and the sample, and the loss delay is never under a millisecond.\<close>

theorem round_trip_bounds:
  assumes "0 \<le> latest" "0 \<le> ackDelay" "0 \<le> m_peerMaximumAcknowledgmentDelay s"
    and "m_hasRoundTripSample s \<longrightarrow> 0 \<le> rtt_minimum (m_estimate s)"
    and "0 \<le> rtt_smoothed (m_estimate s)" "0 \<le> rtt_variation (m_estimate s)"
  shows "let e = m_estimate s; s' = updateRoundTripTime latest ackDelay s; e' = m_estimate s' in
    0 \<le> rtt_minimum e' \<and> rtt_minimum e' \<le> latest \<and> 0 \<le> rtt_smoothed e' \<and> 0 \<le> rtt_variation e' \<and>
    (m_hasRoundTripSample s \<longrightarrow>
       min (rtt_smoothed e) (rtt_minimum e') \<le> rtt_smoothed e' \<and> rtt_smoothed e' \<le> max (rtt_smoothed e) latest) \<and>
    kTimerGranularity \<le> lossDelayOf s'"
proof (cases "m_hasRoundTripSample s")
  case False
  then show ?thesis
    using assms sdiv_between(1) [of 2 latest] by (simp add: updateRoundTripTime_def Let_def lossDelayOf_def)
next
  case True
  let ?e = "m_estimate s"
  define minimum where "minimum = min (rtt_minimum ?e) latest"
  define clamped where "clamped = (if m_isHandshakeConfirmed s then min ackDelay (m_peerMaximumAcknowledgmentDelay s) else ackDelay)"
  define adjusted where "adjusted = (if latest \<ge> minimum + clamped then latest - clamped else latest)"
  define sample where "sample = (if rtt_smoothed ?e > adjusted then rtt_smoothed ?e - adjusted else adjusted - rtt_smoothed ?e)"
  have e': "m_estimate (updateRoundTripTime latest ackDelay s) = ?e\<lparr>rtt_latest := latest, rtt_minimum := minimum,
      rtt_variation := (3 * rtt_variation ?e + sample) sdiv 4,
      rtt_smoothed := rtt_smoothed ?e + (adjusted - rtt_smoothed ?e) sdiv 8\<rparr>"
    using True by (simp add: updateRoundTripTime_def Let_def minimum_def clamped_def adjusted_def sample_def)
  have "0 \<le> clamped" using assms by (simp add: clamped_def)
  moreover have m: "0 \<le> minimum" "minimum \<le> latest" using assms True by (auto simp: minimum_def)
  ultimately have adj: "minimum \<le> adjusted" "adjusted \<le> latest" by (auto simp: adjusted_def)
  have "0 \<le> sample" by (simp add: sample_def)
  then have var: "0 \<le> (3 * rtt_variation ?e + sample) sdiv 4"
    using assms(6) sdiv_between(1) [of 4 "3 * rtt_variation ?e + sample"] by simp
  have move: "min (rtt_smoothed ?e) adjusted \<le> rtt_smoothed ?e + (adjusted - rtt_smoothed ?e) sdiv 8"
    "rtt_smoothed ?e + (adjusted - rtt_smoothed ?e) sdiv 8 \<le> max (rtt_smoothed ?e) adjusted"
    using sdiv_between [of 8 "adjusted - rtt_smoothed ?e"] by (auto simp: min_def max_def)
  show ?thesis
    unfolding Let_def e' lossDelayOf_def using m adj var move assms(5) by auto
qed

theorem round_trip_bounds_witness:
  "0 \<le> rtt_smoothed (m_estimate (updateRoundTripTime 50000 8000 newRecovery))"
proof -
  have "0 \<le> m_peerMaximumAcknowledgmentDelay newRecovery" "0 \<le> rtt_smoothed (m_estimate newRecovery)"
    "0 \<le> rtt_variation (m_estimate newRecovery)" "m_hasRoundTripSample newRecovery \<longrightarrow> 0 \<le> rtt_minimum (m_estimate newRecovery)"
    by code_simp+
  then show ?thesis using round_trip_bounds [of 50000 8000 newRecovery] by (simp add: Let_def)
qed

section \<open>ECN\<close>

lemma noteEcn_failed: "m_ecnState s = Failed \<Longrightarrow> m_ecnState (noteEcnMarkedResolution p l s) = Failed"
  by (simp add: noteEcnMarkedResolution_def Let_def)

lemma detectLostLoop_failed:
  "m_ecnState (fst r) = Failed \<Longrightarrow> m_ecnState (fst (fst (detectLostLoop largest d t m r))) = Failed"
  by (induction largest d t m r rule: detectLostLoop.induct)
    (simp_all add: noteEcn_failed Let_def case_prod_beta)

lemma detectLostPackets_failed:
  assumes "m_ecnState s = Failed"
  shows "m_ecnState (snd (detectLostPackets space now s)) = Failed"
  using assms detectLostLoop_failed [of "(s, [], None)"]
  by (simp add: detectLostPackets_def Let_def split: option.split prod.split) (metis fst_conv)

lemma acknowledgePackets_failed:
  "m_ecnState (fst a) = Failed \<Longrightarrow> m_ecnState (fst (fold acknowledgePacket ps a)) = Failed"
proof (induction ps arbitrary: a)
  case (Cons p ps)
  show ?case by (cases a) (use Cons in \<open>simp add: noteEcn_failed\<close>)
qed simp

lemma acknowledgeRanges_failed:
  "m_ecnState (fst (fst x)) = Failed \<Longrightarrow> m_ecnState (fst (fst (fold acknowledgeRange rs x))) = Failed"
proof (induction rs arbitrary: x)
  case (Cons r rs)
  obtain a m where x: "x = (a, m)" by (cases x)
  have "m_ecnState (fst (fst (acknowledgeRange r x))) = Failed"
    using Cons.prems by (simp add: x acknowledgeRange_def acknowledgeRun_eq Let_def acknowledgePackets_failed)
  then show ?case by (simp add: Cons.IH)
qed simp

lemma processEcnFeedback_failed:
  "m_ecnState s = Failed \<Longrightarrow> m_ecnState (snd (processEcnFeedback sp f acked t i u s)) = Failed"
  by (simp add: processEcnFeedback_def Let_def split: prod.split)

lemma finishAcknowledgement_failed:
  "m_ecnState s = Failed \<Longrightarrow> m_ecnState (snd (finishAcknowledgement sp now u s)) = Failed"
  using detectLostPackets_failed [of s sp now]
  by (simp add: finishAcknowledgement_def Let_def case_prod_beta)

lemma onAcknowledgementReceived_failed:
  assumes "m_ecnState s = Failed"
  shows "m_ecnState (snd (onAcknowledgementReceived sp f now d s)) = Failed"
proof -
  obtain s1 acked best kept where
    r: "fold acknowledgeRange (rev (ack_ranges f)) ((s, [], None), s_unacknowledged (m_spaces s sp)) = ((s1, acked, best), kept)"
    by (metis prod.exhaust)
  have s1: "m_ecnState s1 = Failed"
    using acknowledgeRanges_failed [of "((s, [], None), s_unacknowledged (m_spaces s sp))" "rev (ack_ranges f)"] assms
    by (simp add: r)
  show ?thesis
    by (cases best)
      (simp_all add: onAcknowledgementReceived_def r Let_def case_prod_beta finishAcknowledgement_failed
        processEcnFeedback_failed s1)
qed

lemma failed_step:
  assumes "recovery_step x y" "m_ecnState (fst x) = Failed"
  shows "m_ecnState (fst y) = Failed"
  using assms
proof (induction rule: recovery_step.induct)
  case sent
  then show ?case by (auto simp: recoveryPacketSent_def Let_def split: option.split prod.split)
next
  case (acknowledged space f now delay s u s' h)
  then show ?case using onAcknowledgementReceived_failed [of s space f now delay] by simp
next
  case (expired now s action s' h)
  obtain l sp where l: "earliestLossTime s = (l, sp)" by force
  have "m_ecnState (snd (recoveryDeadlineReached now s)) = Failed"
    using expired.prems detectLostPackets_failed [of s sp now]
    by (simp add: recoveryDeadlineReached_def l Let_def case_prod_beta split: option.split)
  then show ?case using expired.hyps by simp
next
  case (discarded s h space)
  have "m_ecnState (fold (\<lambda>p s. noteEcnMarkedResolution (snd p) False
        (s\<lparr>m_inFlightByteCount := m_inFlightByteCount s - byteCount (snd p)\<rparr>)) m s) = Failed"
    if "m_ecnState s = Failed" for s and m :: "(u64, QuicSentPacketInfo) std_map"
    using that by (induction m arbitrary: s) (simp_all add: noteEcn_failed)
  then show ?case using discarded by (simp add: recoveryDiscardSpace_def Let_def)
qed (simp_all add: recoveryHandshakeConfirmed_def disableEcn_def resetForPathChange_def)

text \<open>C30: Failed ECN validation is final. Once validation has failed, no later acknowledgement, loss,
  timeout or path change brings it back, and every packet leaves unmarked.\<close>

theorem ecn_failure_final:
  assumes "recovery_step\<^sup>*\<^sup>* (s, h) (s', h')" "m_ecnState s = Failed"
  shows "m_ecnState s' = Failed \<and> outgoingEcnCodepoint s' = 0"
proof -
  have "m_ecnState (fst (s', h')) = Failed"
    using assms(1)
  proof (induction rule: rtranclp_induct)
    case (step y z)
    show ?case by (rule failed_step [OF step.hyps(2) step.IH])
  qed (simp add: assms(2))
  then show ?thesis by (simp add: outgoingEcnCodepoint_def kEcnCodepointNotCapable_def)
qed

theorem ecn_failure_final_witness:
  "outgoingEcnCodepoint (recoveryHandshakeConfirmed 25000 (disableEcn newRecovery)) = 0"
proof -
  have "recovery_step\<^sup>*\<^sup>* (disableEcn newRecovery, emptyHistory) (recoveryHandshakeConfirmed 25000 (disableEcn newRecovery), emptyHistory)"
    by (intro r_into_rtranclp recovery_step.confirmed)
  then show ?thesis using ecn_failure_final by (simp add: disableEcn_def)
qed

end
