(* ===== verification/QuicCongestion.thy ===== *)
theory QuicCongestion
  imports QuicRecoveryProofs
begin

text \<open>
  Congestion control, \<open>src/Net/Quic/Recovery/QuicCongestionAlgorithm.{h,cpp}\<close> with its two
  algorithms \<open>QuicCongestionControl.cpp\<close> (NewReno) and \<open>QuicCubicCongestion.{h,cpp}\<close>. The
  class hierarchy is a record with an extension: an operation of the base class works on every
  extension and takes the virtual functions as arguments. The locale \<open>congestion_algorithm\<close> is
  what the base class expects of them; both algorithms interpret it.

  \<open>double\<close> arithmetic is a parameter: a record of the operations CUBIC uses. Nothing is assumed
  of their rounding.
\<close>

section \<open>The base class\<close>

datatype QuicCongestionAlgorithmKind = NewReno | Cubic

datatype QuicCongestionPhase = SlowStart | InRecovery | CongestionAvoidance

record QuicCongestionAlgorithm =
  m_maximumDatagramByteLength :: u64
  m_congestionWindowByteLength :: u64
  m_slowStartThresholdByteLength :: u64
  m_bytesInFlight :: u64
  m_recoveryStartTime :: "QuicTime option"
  m_smoothedRoundTripTime :: QuicTime

definition kInitialWindowFloorByteLength :: u64 where "kInitialWindowFloorByteLength = 14720"
definition kInitialWindowDatagramMultiple :: u64 where "kInitialWindowDatagramMultiple = 10"
definition kMinimumWindowDatagramMultiple :: u64 where "kMinimumWindowDatagramMultiple = 2"

text \<open>\<open>initialWindowByteLength\<close> and \<open>minimumWindowByteLength\<close> of a datagram size.\<close>

definition initialWindow :: "u64 \<Rightarrow> u64" where
  "initialWindow datagram = min (kInitialWindowDatagramMultiple * datagram)
     (max (kMinimumWindowDatagramMultiple * datagram) kInitialWindowFloorByteLength)"

definition minimumWindow :: "u64 \<Rightarrow> u64" where
  "minimumWindow datagram = kMinimumWindowDatagramMultiple * datagram"

abbreviation initialWindowByteLength :: "'z QuicCongestionAlgorithm_scheme \<Rightarrow> u64" where
  "initialWindowByteLength s \<equiv> initialWindow (m_maximumDatagramByteLength s)"

abbreviation minimumWindowByteLength :: "'z QuicCongestionAlgorithm_scheme \<Rightarrow> u64" where
  "minimumWindowByteLength s \<equiv> minimumWindow (m_maximumDatagramByteLength s)"

definition constructAlgorithm :: "u64 \<Rightarrow> 'z \<Rightarrow> 'z QuicCongestionAlgorithm_scheme" where
  "constructAlgorithm maximumDatagramByteLength extension =
     \<lparr>m_maximumDatagramByteLength = maximumDatagramByteLength,
      m_congestionWindowByteLength = initialWindow maximumDatagramByteLength,
      m_slowStartThresholdByteLength = - 1, m_bytesInFlight = 0, m_recoveryStartTime = None,
      m_smoothedRoundTripTime = 0, \<dots> = extension\<rparr>"

definition setMaximumDatagramByteLength ::
  "u64 \<Rightarrow> 'z QuicCongestionAlgorithm_scheme \<Rightarrow> 'z QuicCongestionAlgorithm_scheme" where
  "setMaximumDatagramByteLength maximumDatagramByteLength s =
     (if maximumDatagramByteLength = 0 then s
      else s\<lparr>m_maximumDatagramByteLength := maximumDatagramByteLength\<rparr>)"

definition congestionPacketSent ::
  "QuicSentPacketInfo \<Rightarrow> 'z QuicCongestionAlgorithm_scheme \<Rightarrow> 'z QuicCongestionAlgorithm_scheme" where
  "congestionPacketSent packet s =
     (if isAckEliciting packet then s\<lparr>m_bytesInFlight := m_bytesInFlight s + byteCount packet\<rparr> else s)"

definition setSmoothedRoundTripTime ::
  "QuicTime \<Rightarrow> 'z QuicCongestionAlgorithm_scheme \<Rightarrow> 'z QuicCongestionAlgorithm_scheme" where
  "setSmoothedRoundTripTime smoothed s = s\<lparr>m_smoothedRoundTripTime := smoothed\<rparr>"

definition isInRecovery :: "'z QuicCongestionAlgorithm_scheme \<Rightarrow> bool" where
  "isInRecovery s \<longleftrightarrow> m_recoveryStartTime s \<noteq> None"

text \<open>The loop that takes ack-eliciting packets off the bytes in flight.\<close>

definition settlePacket ::
  "QuicSentPacketInfo \<Rightarrow> 'z QuicCongestionAlgorithm_scheme \<Rightarrow> 'z QuicCongestionAlgorithm_scheme" where
  "settlePacket packet s =
     (if isAckEliciting packet
      then s\<lparr>m_bytesInFlight := saturatingSubtract (m_bytesInFlight s) (byteCount packet)\<rparr> else s)"

definition onPacketsDiscarded ::
  "QuicSentPacketInfo list \<Rightarrow> 'z QuicCongestionAlgorithm_scheme \<Rightarrow> 'z QuicCongestionAlgorithm_scheme" where
  "onPacketsDiscarded discardedPackets s = fold settlePacket discardedPackets s"

definition startCongestionEvent ::
  "('z QuicCongestionAlgorithm_scheme \<Rightarrow> 'z QuicCongestionAlgorithm_scheme) \<Rightarrow> QuicTime \<Rightarrow>
     'z QuicCongestionAlgorithm_scheme \<Rightarrow> 'z QuicCongestionAlgorithm_scheme" where
  "startCongestionEvent applyCongestionWindowDecrease eventTime s =
     (if isInRecovery s then s
      else (applyCongestionWindowDecrease s)\<lparr>m_recoveryStartTime := Some eventTime\<rparr>)"

definition noteEcnCongestionEvent ::
  "('z QuicCongestionAlgorithm_scheme \<Rightarrow> 'z QuicCongestionAlgorithm_scheme) \<Rightarrow> QuicTime \<Rightarrow>
     'z QuicCongestionAlgorithm_scheme \<Rightarrow> 'z QuicCongestionAlgorithm_scheme" where
  "noteEcnCongestionEvent applyCongestionWindowDecrease eventTime s =
     startCongestionEvent applyCongestionWindowDecrease eventTime s"

text \<open>A packet counts for growth when it elicits acknowledgement and was sent after recovery began.\<close>

definition countsForGrowth :: "QuicTime option \<Rightarrow> QuicSentPacketInfo \<Rightarrow> bool" where
  "countsForGrowth recoveryStart packet \<longleftrightarrow> isAckEliciting packet \<and>
     \<not> (case recoveryStart of None \<Rightarrow> False | Some t \<Rightarrow> timeSent packet \<le> t)"

definition growthLoop :: "QuicTime option \<Rightarrow> QuicSentPacketInfo list \<Rightarrow> u64 \<times> bool" where
  "growthLoop recoveryStart acked =
     fold (\<lambda>packet (growthByteCount, endsRecovery).
       if countsForGrowth recoveryStart packet then (growthByteCount + byteCount packet, True)
       else (growthByteCount, endsRecovery)) acked (0, False)"

definition onCongestionUpdate ::
  "('z QuicCongestionAlgorithm_scheme \<Rightarrow> 'z QuicCongestionAlgorithm_scheme) \<Rightarrow>
   (u64 \<Rightarrow> QuicTime \<Rightarrow> 'z QuicCongestionAlgorithm_scheme \<Rightarrow> 'z QuicCongestionAlgorithm_scheme) \<Rightarrow>
   QuicSentPacketInfo list \<Rightarrow> QuicSentPacketInfo list \<Rightarrow> QuicTime \<Rightarrow>
   'z QuicCongestionAlgorithm_scheme \<Rightarrow> 'z QuicCongestionAlgorithm_scheme" where
  "onCongestionUpdate applyCongestionWindowDecrease applyCongestionAvoidanceGrowth acked lost eventTime s =
     (let s = fold settlePacket acked s;
          s = fold settlePacket lost s;
          (growthByteCount, endsRecovery) = growthLoop (m_recoveryStartTime s) acked;
          s = (if endsRecovery then s\<lparr>m_recoveryStartTime := None\<rparr> else s) in
      if (\<exists>packet \<in> set lost. \<not> isPathMtuProbe packet)
      then startCongestionEvent applyCongestionWindowDecrease eventTime s
      else if isInRecovery s \<or> growthByteCount = 0 then s
      else if m_congestionWindowByteLength s < m_slowStartThresholdByteLength s
      then s\<lparr>m_congestionWindowByteLength := m_congestionWindowByteLength s + growthByteCount\<rparr>
      else applyCongestionAvoidanceGrowth growthByteCount eventTime s)"

definition restartAfterPersistentCongestion ::
  "('z QuicCongestionAlgorithm_scheme \<Rightarrow> 'z QuicCongestionAlgorithm_scheme) \<Rightarrow>
     'z QuicCongestionAlgorithm_scheme \<Rightarrow> 'z QuicCongestionAlgorithm_scheme" where
  "restartAfterPersistentCongestion onWindowReset s =
     (let floorByteLength = minimumWindowByteLength s in
      onWindowReset (s\<lparr>m_congestionWindowByteLength := floorByteLength,
        m_slowStartThresholdByteLength := floorByteLength, m_recoveryStartTime := None\<rparr>))"

definition resetToInitialState ::
  "('z QuicCongestionAlgorithm_scheme \<Rightarrow> 'z QuicCongestionAlgorithm_scheme) \<Rightarrow>
     'z QuicCongestionAlgorithm_scheme \<Rightarrow> 'z QuicCongestionAlgorithm_scheme" where
  "resetToInitialState onWindowReset s =
     onWindowReset (s\<lparr>m_congestionWindowByteLength := initialWindowByteLength s,
       m_slowStartThresholdByteLength := - 1, m_recoveryStartTime := None\<rparr>)"

definition remainingByteBudget :: "'z QuicCongestionAlgorithm_scheme \<Rightarrow> u64" where
  "remainingByteBudget s = saturatingSubtract (m_congestionWindowByteLength s) (m_bytesInFlight s)"

definition maySend :: "u64 \<Rightarrow> 'z QuicCongestionAlgorithm_scheme \<Rightarrow> bool" where
  "maySend packetByteCount s \<longleftrightarrow> packetByteCount \<le> remainingByteBudget s"

definition congestionPhase :: "'z QuicCongestionAlgorithm_scheme \<Rightarrow> QuicCongestionPhase" where
  "congestionPhase s =
     (if isInRecovery s then InRecovery
      else if m_congestionWindowByteLength s < m_slowStartThresholdByteLength s then SlowStart
      else CongestionAvoidance)"

section \<open>NewReno\<close>

definition kLossReductionDivisor :: u64 where "kLossReductionDivisor = 2"

definition newRenoDecrease :: "QuicCongestionAlgorithm \<Rightarrow> QuicCongestionAlgorithm" where
  "newRenoDecrease s =
     (let threshold = max (m_congestionWindowByteLength s div kLossReductionDivisor) (minimumWindowByteLength s)
      in s\<lparr>m_slowStartThresholdByteLength := threshold, m_congestionWindowByteLength := threshold\<rparr>)"

definition newRenoGrowth :: "u64 \<Rightarrow> QuicTime \<Rightarrow> QuicCongestionAlgorithm \<Rightarrow> QuicCongestionAlgorithm" where
  "newRenoGrowth acknowledgedByteCount eventTime s =
     s\<lparr>m_congestionWindowByteLength := m_congestionWindowByteLength s +
        max 1 (m_maximumDatagramByteLength s * acknowledgedByteCount div m_congestionWindowByteLength s)\<rparr>"

definition newRenoReset :: "QuicCongestionAlgorithm \<Rightarrow> QuicCongestionAlgorithm" where
  "newRenoReset s = s"

definition newReno :: "u64 \<Rightarrow> QuicCongestionAlgorithm" where
  "newReno maximumDatagramByteLength = constructAlgorithm maximumDatagramByteLength ()"

section \<open>CUBIC\<close>

text \<open>The \<open>double\<close> operations of the algorithm: conversions, arithmetic, comparison, the cube root,
  and decimal literals given as numerator and denominator.\<close>

record 'd double_ops =
  d_ofSize :: "u64 \<Rightarrow> 'd"
  d_ofCount :: "int \<Rightarrow> 'd"
  d_toSize :: "'d \<Rightarrow> u64"
  d_literal :: "int \<Rightarrow> int \<Rightarrow> 'd"
  d_add :: "'d \<Rightarrow> 'd \<Rightarrow> 'd"
  d_sub :: "'d \<Rightarrow> 'd \<Rightarrow> 'd"
  d_mul :: "'d \<Rightarrow> 'd \<Rightarrow> 'd"
  d_div :: "'d \<Rightarrow> 'd \<Rightarrow> 'd"
  d_less :: "'d \<Rightarrow> 'd \<Rightarrow> bool"
  d_atLeast :: "'d \<Rightarrow> 'd \<Rightarrow> bool"
  d_cbrt :: "'d \<Rightarrow> 'd"

definition d_max :: "'d double_ops \<Rightarrow> 'd \<Rightarrow> 'd \<Rightarrow> 'd" where
  "d_max D a b = (if d_less D a b then b else a)"

definition d_clamp :: "'d double_ops \<Rightarrow> 'd \<Rightarrow> 'd \<Rightarrow> 'd \<Rightarrow> 'd" where
  "d_clamp D v lo hi = (if d_less D v lo then lo else if d_less D hi v then hi else v)"

record 'd CongestionAvoidanceEpoch =
  epoch_startTime :: QuicTime
  epoch_kSeconds :: 'd
  epoch_wMaxSegments :: 'd

record 'd QuicCubicCongestion = QuicCongestionAlgorithm +
  m_maximumWindowBeforeDecrease :: "u64 option"
  m_windowAtDecrease :: "u64 option"
  m_epoch :: "'d CongestionAvoidanceEpoch option"
  m_renoFriendlyWindow :: "'d option"

definition kDecreaseNumerator :: u64 where "kDecreaseNumerator = 7"
definition kDecreaseDenominator :: u64 where "kDecreaseDenominator = 10"
definition kFastConvergenceNumerator :: u64 where "kFastConvergenceNumerator = 17"
definition kFastConvergenceDenominator :: u64 where "kFastConvergenceDenominator = 20"
definition kCubicScalingC :: "'d double_ops \<Rightarrow> 'd" where "kCubicScalingC D = d_literal D 4 10"

definition kRenoFriendlyAlpha :: "'d double_ops \<Rightarrow> 'd" where
  "kRenoFriendlyAlpha D = d_div D (d_mul D (d_literal D 3 1) (d_literal D 3 10)) (d_literal D 17 10)"

definition kMaximumTargetWindowFactor :: "'d double_ops \<Rightarrow> 'd" where
  "kMaximumTargetWindowFactor D = d_literal D 15 10"

definition kMicrosecondsPerSecond :: "'d double_ops \<Rightarrow> 'd" where
  "kMicrosecondsPerSecond D = d_literal D 1000000 1"

definition cubicWindowSegments :: "'d double_ops \<Rightarrow> 'd \<Rightarrow> 'd \<Rightarrow> 'd \<Rightarrow> 'd" where
  "cubicWindowSegments D secondsSinceEpoch kSeconds wMaxSegments =
     (let offset = d_sub D secondsSinceEpoch kSeconds in
      d_add D (d_mul D (d_mul D (d_mul D (kCubicScalingC D) offset) offset) offset) wMaxSegments)"

definition valueOr :: "'a option \<Rightarrow> 'a \<Rightarrow> 'a" where
  "valueOr m d = (case m of None \<Rightarrow> d | Some v \<Rightarrow> v)"

definition cubicDecrease :: "'d QuicCubicCongestion \<Rightarrow> 'd QuicCubicCongestion" where
  "cubicDecrease s =
     (let windowBeforeDecrease = m_congestionWindowByteLength s;
          s = s\<lparr>m_windowAtDecrease := Some windowBeforeDecrease,
                m_maximumWindowBeforeDecrease :=
                  (case m_maximumWindowBeforeDecrease s of
                     None \<Rightarrow> Some windowBeforeDecrease
                   | Some wMax \<Rightarrow>
                       if windowBeforeDecrease < wMax
                       then Some (windowBeforeDecrease * kFastConvergenceNumerator div kFastConvergenceDenominator)
                       else Some windowBeforeDecrease)\<rparr>;
          threshold = max (windowBeforeDecrease * kDecreaseNumerator div kDecreaseDenominator) (minimumWindowByteLength s)
      in s\<lparr>m_slowStartThresholdByteLength := threshold, m_congestionWindowByteLength := threshold,
           m_epoch := None, m_renoFriendlyWindow := None\<rparr>)"

definition beginCongestionAvoidanceEpoch ::
  "'d double_ops \<Rightarrow> QuicTime \<Rightarrow> 'd QuicCubicCongestion \<Rightarrow> 'd QuicCubicCongestion" where
  "beginCongestionAvoidanceEpoch D eventTime s =
     (let datagramSize = d_ofSize D (m_maximumDatagramByteLength s);
          windowEpochSeg = d_div D (d_ofSize D (m_congestionWindowByteLength s)) datagramSize;
          wMaxSegments = d_div D (d_ofSize D (valueOr (m_maximumWindowBeforeDecrease s) (m_congestionWindowByteLength s)))
            datagramSize;
          kSeconds = (if d_less D windowEpochSeg wMaxSegments
            then d_cbrt D (d_div D (d_sub D wMaxSegments windowEpochSeg) (kCubicScalingC D)) else d_literal D 0 1)
      in s\<lparr>m_epoch := Some \<lparr>epoch_startTime = eventTime, epoch_kSeconds = kSeconds, epoch_wMaxSegments = wMaxSegments\<rparr>,
           m_renoFriendlyWindow := Some windowEpochSeg\<rparr>)"

definition cubicGrowth ::
  "'d double_ops \<Rightarrow> u64 \<Rightarrow> QuicTime \<Rightarrow> 'd QuicCubicCongestion \<Rightarrow> 'd QuicCubicCongestion" where
  "cubicGrowth D acknowledgedByteCount eventTime s =
     (let datagramSize = d_ofSize D (m_maximumDatagramByteLength s);
          windowSegments = d_div D (d_ofSize D (m_congestionWindowByteLength s)) datagramSize;
          s = (if m_bytesInFlight s < m_congestionWindowByteLength s div 2 \<or> m_epoch s = None
               then beginCongestionAvoidanceEpoch D eventTime s else s);
          epoch = the (m_epoch s);
          elapsedSeconds = d_max D (d_literal D 0 1)
            (d_div D (d_ofCount D (eventTime - epoch_startTime epoch)) (kMicrosecondsPerSecond D));
          smoothedRttSeconds = d_div D (d_ofCount D (max (m_smoothedRoundTripTime s) 1)) (kMicrosecondsPerSecond D);
          targetSegments = d_clamp D
            (cubicWindowSegments D (d_add D elapsedSeconds smoothedRttSeconds) (epoch_kSeconds epoch) (epoch_wMaxSegments epoch))
            windowSegments (d_mul D windowSegments (kMaximumTargetWindowFactor D));
          cwndPriorSegments = d_div D (d_ofSize D (valueOr (m_windowAtDecrease s) (m_congestionWindowByteLength s))) datagramSize;
          alpha = (if d_atLeast D (valueOr (m_renoFriendlyWindow s) windowSegments) cwndPriorSegments
            then d_literal D 1 1 else kRenoFriendlyAlpha D);
          friendlySegments = d_add D (valueOr (m_renoFriendlyWindow s) windowSegments)
            (d_div D (d_mul D alpha (d_div D (d_ofSize D acknowledgedByteCount) datagramSize)) windowSegments);
          s = s\<lparr>m_renoFriendlyWindow := Some friendlySegments\<rparr>;
          cubicAtNowSegments = cubicWindowSegments D elapsedSeconds (epoch_kSeconds epoch) (epoch_wMaxSegments epoch) in
      if d_less D cubicAtNowSegments friendlySegments then
        let friendlyBytes = d_toSize D (d_mul D friendlySegments datagramSize) in
        s\<lparr>m_congestionWindowByteLength := max (m_congestionWindowByteLength s) friendlyBytes\<rparr>
      else
        let targetBytes = d_mul D targetSegments datagramSize;
            increment = d_div D
              (d_mul D (d_sub D targetBytes (d_ofSize D (m_congestionWindowByteLength s))) (d_ofSize D acknowledgedByteCount))
              (d_ofSize D (m_congestionWindowByteLength s)) in
        if d_less D (d_literal D 0 1) increment
        then s\<lparr>m_congestionWindowByteLength := m_congestionWindowByteLength s + d_toSize D increment\<rparr>
        else s)"

definition cubicReset :: "'d QuicCubicCongestion \<Rightarrow> 'd QuicCubicCongestion" where
  "cubicReset s = s\<lparr>m_maximumWindowBeforeDecrease := None, m_windowAtDecrease := None,
     m_epoch := None, m_renoFriendlyWindow := None\<rparr>"

definition cubic :: "u64 \<Rightarrow> 'd QuicCubicCongestion" where
  "cubic maximumDatagramByteLength = constructAlgorithm maximumDatagramByteLength
     (QuicCubicCongestion.fields None None None None)"

definition makeQuicCongestionAlgorithm ::
  "QuicCongestionAlgorithmKind \<Rightarrow> u64 \<Rightarrow> QuicCongestionAlgorithm + 'd QuicCubicCongestion" where
  "makeQuicCongestionAlgorithm kind maximumDatagramByteLength =
     (case kind of Cubic \<Rightarrow> Inr (cubic maximumDatagramByteLength)
      | NewReno \<Rightarrow> Inl (newReno maximumDatagramByteLength))"

section \<open>What the base class expects\<close>

lemmas congestion_constants =
  kInitialWindowFloorByteLength_def kInitialWindowDatagramMultiple_def kMinimumWindowDatagramMultiple_def
  kLossReductionDivisor_def kDecreaseNumerator_def kDecreaseDenominator_def
  kFastConvergenceNumerator_def kFastConvergenceDenominator_def

definition elicitingBytes :: "QuicSentPacketInfo list \<Rightarrow> nat" where
  "elicitingBytes ps = sum_list (map (unat \<circ> byteCount) (filter isAckEliciting ps))"

lemma elicitingBytes_simps [simp]:
  "elicitingBytes [] = 0"
  "elicitingBytes (p # ps) = (if isAckEliciting p then unat (byteCount p) else 0) + elicitingBytes ps"
  "elicitingBytes (ps @ qs) = elicitingBytes ps + elicitingBytes qs"
  by (simp_all add: elicitingBytes_def)

lemma settle_frame [simp]:
  "m_maximumDatagramByteLength (fold settlePacket ps s) = m_maximumDatagramByteLength s"
  "m_congestionWindowByteLength (fold settlePacket ps s) = m_congestionWindowByteLength s"
  "m_slowStartThresholdByteLength (fold settlePacket ps s) = m_slowStartThresholdByteLength s"
  "m_recoveryStartTime (fold settlePacket ps s) = m_recoveryStartTime s"
  by (induction ps arbitrary: s) (simp_all add: settlePacket_def)

lemma settle_bytes: "unat (m_bytesInFlight (fold settlePacket ps s)) = unat (m_bytesInFlight s) - elicitingBytes ps"
  by (induction ps arbitrary: s) (simp_all add: settlePacket_def saturatingSubtract_exact)

definition growthBytes :: "QuicTime option \<Rightarrow> QuicSentPacketInfo list \<Rightarrow> QuicSentPacketInfo list" where
  "growthBytes start ps = filter (countsForGrowth start) ps"

lemma growthLoop_eq:
  "growthLoop start acked = (of_nat (packetBytes (growthBytes start acked)), growthBytes start acked \<noteq> [])"
proof -
  have "fold (\<lambda>packet (growthByteCount, endsRecovery).
       if countsForGrowth start packet then (growthByteCount + byteCount packet, True)
       else (growthByteCount, endsRecovery)) ps (n, b) =
     (n + of_nat (packetBytes (growthBytes start ps)), b \<or> growthBytes start ps \<noteq> [])" for ps n b
    by (induction ps arbitrary: n b) (simp_all add: growthBytes_def add.assoc)
  then show ?thesis by (simp add: growthLoop_def)
qed

text \<open>The virtual functions: a decrease sets window and threshold to one value between the minimum and
  the old window, growth touches the window only and enlarges it when it is \<open>sound\<close> to compute, a
  reset touches the subclass only.\<close>

locale congestion_algorithm =
  fixes decrease :: "'z QuicCongestionAlgorithm_scheme \<Rightarrow> 'z QuicCongestionAlgorithm_scheme"
    and growth :: "u64 \<Rightarrow> QuicTime \<Rightarrow> 'z QuicCongestionAlgorithm_scheme \<Rightarrow> 'z QuicCongestionAlgorithm_scheme"
    and reset :: "'z QuicCongestionAlgorithm_scheme \<Rightarrow> 'z QuicCongestionAlgorithm_scheme"
    and sound :: "u64 \<Rightarrow> QuicTime \<Rightarrow> 'z QuicCongestionAlgorithm_scheme \<Rightarrow> bool"
  assumes decrease_window: "m_slowStartThresholdByteLength (decrease s) = m_congestionWindowByteLength (decrease s)"
      "minimumWindowByteLength s \<le> m_congestionWindowByteLength (decrease s)"
      "minimumWindowByteLength s \<le> m_congestionWindowByteLength s \<Longrightarrow>
         m_congestionWindowByteLength (decrease s) \<le> m_congestionWindowByteLength s"
    and decrease_frame: "m_maximumDatagramByteLength (decrease s) = m_maximumDatagramByteLength s"
      "m_bytesInFlight (decrease s) = m_bytesInFlight s"
    and growth_window: "sound n t s \<Longrightarrow> m_congestionWindowByteLength s \<le> m_congestionWindowByteLength (growth n t s)"
    and growth_frame: "m_maximumDatagramByteLength (growth n t s) = m_maximumDatagramByteLength s"
      "m_slowStartThresholdByteLength (growth n t s) = m_slowStartThresholdByteLength s"
      "m_bytesInFlight (growth n t s) = m_bytesInFlight s"
      "m_recoveryStartTime (growth n t s) = m_recoveryStartTime s"
    and reset_frame: "m_maximumDatagramByteLength (reset s) = m_maximumDatagramByteLength s"
      "m_congestionWindowByteLength (reset s) = m_congestionWindowByteLength s"
      "m_slowStartThresholdByteLength (reset s) = m_slowStartThresholdByteLength s"
      "m_bytesInFlight (reset s) = m_bytesInFlight s"
      "m_recoveryStartTime (reset s) = m_recoveryStartTime s"
begin

abbreviation "update \<equiv> onCongestionUpdate decrease growth"

lemma startCongestionEvent_frame:
  "m_maximumDatagramByteLength (startCongestionEvent decrease t s) = m_maximumDatagramByteLength s"
  "m_bytesInFlight (startCongestionEvent decrease t s) = m_bytesInFlight s"
  by (simp_all add: startCongestionEvent_def decrease_frame)

text \<open>Bytes in flight are settled for every acknowledged and lost packet, whatever the window does.\<close>

lemma update_bytes:
  "unat (m_bytesInFlight (update acked lost t s)) = unat (m_bytesInFlight s) - elicitingBytes acked - elicitingBytes lost"
proof -
  have "m_bytesInFlight (update acked lost t s) = m_bytesInFlight (fold settlePacket lost (fold settlePacket acked s))"
    by (simp add: onCongestionUpdate_def Let_def growthLoop_eq startCongestionEvent_frame growth_frame)
  then show ?thesis by (simp add: settle_bytes)
qed

lemma reset_bytes:
  "m_bytesInFlight (restartAfterPersistentCongestion reset s) = m_bytesInFlight s"
  "m_bytesInFlight (resetToInitialState reset s) = m_bytesInFlight s"
  by (simp_all add: restartAfterPersistentCongestion_def resetToInitialState_def reset_frame Let_def)

lemma update_datagram: "m_maximumDatagramByteLength (update acked lost t s) = m_maximumDatagramByteLength s"
  by (simp add: onCongestionUpdate_def Let_def growthLoop_eq startCongestionEvent_frame growth_frame)

text \<open>In recovery nothing moves until a packet sent after its start is acknowledged.\<close>

lemma update_frozen:
  assumes "isInRecovery s" "\<forall>p \<in> set acked. \<not> countsForGrowth (m_recoveryStartTime s) p"
  shows "m_congestionWindowByteLength (update acked lost t s) = m_congestionWindowByteLength s"
    "m_slowStartThresholdByteLength (update acked lost t s) = m_slowStartThresholdByteLength s"
    "m_recoveryStartTime (update acked lost t s) = m_recoveryStartTime s"
proof -
  have none: "growthBytes (m_recoveryStartTime s) acked = []"
    using assms(2) by (simp add: growthBytes_def filter_empty_conv)
  let ?s = "fold settlePacket lost (fold settlePacket acked s)"
  have "isInRecovery ?s" using assms(1) by (simp add: isInRecovery_def)
  then have "update acked lost t s = ?s"
    by (simp add: onCongestionUpdate_def Let_def growthLoop_eq none startCongestionEvent_def)
  then show "m_congestionWindowByteLength (update acked lost t s) = m_congestionWindowByteLength s"
    "m_slowStartThresholdByteLength (update acked lost t s) = m_slowStartThresholdByteLength s"
    "m_recoveryStartTime (update acked lost t s) = m_recoveryStartTime s"
    by simp_all
qed

text \<open>A loss outside recovery decreases the window once and starts recovery.\<close>

lemma update_loss:
  assumes "\<exists>p \<in> set lost. \<not> isPathMtuProbe p"
    and "\<not> isInRecovery s \<or> (\<exists>p \<in> set acked. countsForGrowth (m_recoveryStartTime s) p)"
    and "minimumWindowByteLength s \<le> m_congestionWindowByteLength s"
  shows "m_recoveryStartTime (update acked lost t s) = Some t"
    "minimumWindowByteLength s \<le> m_congestionWindowByteLength (update acked lost t s)"
    "m_congestionWindowByteLength (update acked lost t s) \<le> m_congestionWindowByteLength s"
    "m_slowStartThresholdByteLength (update acked lost t s) = m_congestionWindowByteLength (update acked lost t s)"
proof -
  let ?s = "fold settlePacket lost (fold settlePacket acked s)"
  define u where "u = (if growthBytes (m_recoveryStartTime s) acked \<noteq> [] then ?s\<lparr>m_recoveryStartTime := None\<rparr> else ?s)"
  have "\<not> isInRecovery u"
    using assms(2) by (auto simp: u_def isInRecovery_def growthBytes_def filter_empty_conv)
  then have eq: "update acked lost t s = (decrease u)\<lparr>m_recoveryStartTime := Some t\<rparr>"
    using assms(1) by (simp add: onCongestionUpdate_def Let_def growthLoop_eq u_def startCongestionEvent_def)
  have u: "m_congestionWindowByteLength u = m_congestionWindowByteLength s"
    "m_maximumDatagramByteLength u = m_maximumDatagramByteLength s"
    by (simp_all add: u_def)
  show "m_recoveryStartTime (update acked lost t s) = Some t" by (simp add: eq)
  show "minimumWindowByteLength s \<le> m_congestionWindowByteLength (update acked lost t s)"
    "m_congestionWindowByteLength (update acked lost t s) \<le> m_congestionWindowByteLength s"
    "m_slowStartThresholdByteLength (update acked lost t s) = m_congestionWindowByteLength (update acked lost t s)"
    using decrease_window [of u] assms(3) by (simp_all add: eq u)
qed

end

section \<open>NewReno and CUBIC provide it\<close>

definition newRenoSound :: "u64 \<Rightarrow> QuicTime \<Rightarrow> QuicCongestionAlgorithm \<Rightarrow> bool" where
  "newRenoSound n t s \<longleftrightarrow> 2 \<le> m_congestionWindowByteLength s \<and> m_congestionWindowByteLength s < 2 ^ 63"

lemma newReno_growth_window:
  assumes "newRenoSound n t s"
  shows "m_congestionWindowByteLength s \<le> m_congestionWindowByteLength (newRenoGrowth n t s)"
proof -
  let ?w = "m_congestionWindowByteLength s"
  let ?q = "m_maximumDatagramByteLength s * n div ?w"
  have w: "2 \<le> unat ?w" "unat ?w < 2 ^ 63"
    using assms by (simp_all add: newRenoSound_def word_le_nat_alt word_less_nat_alt)
  have "unat ?q \<le> unat (m_maximumDatagramByteLength s * n) div 2"
    using w(1) by (simp add: unat_div div_le_mono2)
  also have "\<dots> < 2 ^ 63" using unat_u64_bound [of "m_maximumDatagramByteLength s * n"] by simp
  finally have q: "unat ?q < 2 ^ 63" .
  have "unat (max 1 ?q) < 2 ^ 63" using q by (simp add: max_def)
  then have "unat (?w + max 1 ?q) = unat ?w + unat (max 1 ?q)"
    using w by (simp add: unat_word_ariths)
  then show ?thesis by (simp add: newRenoGrowth_def word_le_nat_alt)
qed

lemma word_div_le: "(a :: u64) div b \<le> a"
  by (simp add: word_le_nat_alt unat_div)

interpretation newRenoAlgorithm: congestion_algorithm newRenoDecrease newRenoGrowth newRenoReset newRenoSound
proof
  fix s n t
  show "newRenoSound n t s \<Longrightarrow> m_congestionWindowByteLength s \<le> m_congestionWindowByteLength (newRenoGrowth n t s)"
    by (rule newReno_growth_window)
qed (simp_all add: newRenoDecrease_def newRenoGrowth_def newRenoReset_def Let_def word_div_le)

definition cubicSound :: "'d double_ops \<Rightarrow> u64 \<Rightarrow> QuicTime \<Rightarrow> 'd QuicCubicCongestion \<Rightarrow> bool" where
  "cubicSound D n t s \<longleftrightarrow> (\<forall>x. unat (m_congestionWindowByteLength s) + unat (d_toSize D x) < 2 ^ 64)"

lemma beginEpoch_frame [simp]:
  "m_maximumDatagramByteLength (beginCongestionAvoidanceEpoch D t s) = m_maximumDatagramByteLength s"
  "m_congestionWindowByteLength (beginCongestionAvoidanceEpoch D t s) = m_congestionWindowByteLength s"
  "m_slowStartThresholdByteLength (beginCongestionAvoidanceEpoch D t s) = m_slowStartThresholdByteLength s"
  "m_bytesInFlight (beginCongestionAvoidanceEpoch D t s) = m_bytesInFlight s"
  "m_recoveryStartTime (beginCongestionAvoidanceEpoch D t s) = m_recoveryStartTime s"
  by (simp_all add: beginCongestionAvoidanceEpoch_def Let_def)

lemma cubic_share: "w * 7 div 10 \<le> (w :: u64)"
proof -
  have "unat (w * 7) \<le> unat w * 7" by (simp add: unat_word_ariths)
  then have "unat (w * 7) div 10 \<le> unat w" by simp
  then show ?thesis by (simp add: word_le_nat_alt unat_div)
qed

lemma cubicGrowth_frame:
  "m_maximumDatagramByteLength (cubicGrowth D n t s) = m_maximumDatagramByteLength s"
  "m_slowStartThresholdByteLength (cubicGrowth D n t s) = m_slowStartThresholdByteLength s"
  "m_bytesInFlight (cubicGrowth D n t s) = m_bytesInFlight s"
  "m_recoveryStartTime (cubicGrowth D n t s) = m_recoveryStartTime s"
  by (simp_all add: cubicGrowth_def Let_def)

lemma word_grows: "unat (a :: u64) + unat b < 2 ^ 64 \<Longrightarrow> a \<le> a + b"
  by (simp add: word_le_nat_alt unat_word_ariths)

lemma cubicGrowth_window:
  "cubicSound D n t s \<Longrightarrow> m_congestionWindowByteLength s \<le> m_congestionWindowByteLength (cubicGrowth D n t s)"
  by (simp add: cubicGrowth_def Let_def cubicSound_def word_grows)

interpretation cubicAlgorithm: congestion_algorithm cubicDecrease "cubicGrowth D" cubicReset "cubicSound D" for D
proof
  fix s :: "'a QuicCubicCongestion" and n t
  show "cubicSound D n t s \<Longrightarrow> m_congestionWindowByteLength s \<le> m_congestionWindowByteLength (cubicGrowth D n t s)"
    by (rule cubicGrowth_window)
qed (simp_all add: cubicDecrease_def cubicReset_def cubicGrowth_frame Let_def cubic_share congestion_constants)

text \<open>C32: In recovery the window is frozen, for both algorithms: until a packet sent after recovery
  began is acknowledged, no acknowledgement grows the window and no further loss shrinks it; the bytes
  in flight are settled all the same.\<close>

theorem window_frozen_in_recovery:
  fixes n :: QuicCongestionAlgorithm and c :: "'d QuicCubicCongestion"
  assumes "m_recoveryStartTime n = Some start" "m_recoveryStartTime c = Some start"
    and "\<forall>p \<in> set acked. isAckEliciting p \<longrightarrow> timeSent p \<le> start"
  shows "let n' = onCongestionUpdate newRenoDecrease newRenoGrowth acked lost now n;
      c' = onCongestionUpdate cubicDecrease (cubicGrowth D) acked lost now c in
    m_congestionWindowByteLength n' = m_congestionWindowByteLength n \<and> m_recoveryStartTime n' = Some start \<and>
    m_congestionWindowByteLength c' = m_congestionWindowByteLength c \<and> m_recoveryStartTime c' = Some start \<and>
    unat (m_bytesInFlight n') = unat (m_bytesInFlight n) - elicitingBytes (acked @ lost) \<and>
    unat (m_bytesInFlight c') = unat (m_bytesInFlight c) - elicitingBytes (acked @ lost)"
proof -
  have "\<forall>p \<in> set acked. \<not> countsForGrowth (Some start) p"
    using assms(3) by (auto simp: countsForGrowth_def)
  then show ?thesis
    using newRenoAlgorithm.update_frozen [of n acked lost now] cubicAlgorithm.update_frozen [of c acked D lost now]
      newRenoAlgorithm.update_bytes [of acked lost now n] cubicAlgorithm.update_bytes [of D acked lost now c] assms(1,2)
    by (simp add: isInRecovery_def)
qed

text \<open>An arithmetic to run CUBIC with: integers.\<close>

definition integerArithmetic :: "int double_ops" where
  "integerArithmetic = \<lparr>d_ofSize = uint, d_ofCount = id, d_toSize = word_of_int, d_literal = (\<lambda>n d. n div d),
     d_add = (+), d_sub = (-), d_mul = (*), d_div = (div), d_less = (<), d_atLeast = (\<ge>), d_cbrt = id\<rparr>"

definition example_lost :: QuicSentPacketInfo where
  "example_lost = example_packet 7 3"

theorem window_frozen_in_recovery_witness:
  "m_congestionWindowByteLength (onCongestionUpdate cubicDecrease (cubicGrowth integerArithmetic)
     [example_packet 8 4] [example_lost] 30 ((cubic 1200)\<lparr>m_recoveryStartTime := Some 10\<rparr>)) = 12000"
proof -
  have "\<forall>p \<in> set [example_packet 8 4]. isAckEliciting p \<longrightarrow> timeSent p \<le> 10" by (simp add: example_packet_def)
  moreover have "m_recoveryStartTime ((newReno 1200)\<lparr>m_recoveryStartTime := Some 10\<rparr>) = Some 10"
    "m_recoveryStartTime ((cubic 1200 :: int QuicCubicCongestion)\<lparr>m_recoveryStartTime := Some 10\<rparr>) = Some 10"
    by simp_all
  moreover have "m_congestionWindowByteLength ((cubic 1200 :: int QuicCubicCongestion)\<lparr>m_recoveryStartTime := Some 10\<rparr>) = 12000"
    by code_simp
  ultimately show ?thesis
    using window_frozen_in_recovery [of "(newReno 1200)\<lparr>m_recoveryStartTime := Some 10\<rparr>" 10
      "(cubic 1200 :: int QuicCubicCongestion)\<lparr>m_recoveryStartTime := Some 10\<rparr>" "[example_packet 8 4]" "[example_lost]" 30 integerArithmetic]
    unfolding Let_def by metis
qed

section \<open>The NewReno window\<close>

datatype congestion_event = Sends QuicSentPacketInfo
  | Updates "QuicSentPacketInfo list" "QuicSentPacketInfo list" QuicTime
  | EcnMark QuicTime | PersistentCongestion | Resets | Discards "QuicSentPacketInfo list" | SmoothedRtt QuicTime
  | Resize u64

primrec newRenoStep :: "congestion_event \<Rightarrow> QuicCongestionAlgorithm \<Rightarrow> QuicCongestionAlgorithm" where
  "newRenoStep (Sends p) s = congestionPacketSent p s"
| "newRenoStep (Updates acked lost t) s = onCongestionUpdate newRenoDecrease newRenoGrowth acked lost t s"
| "newRenoStep (EcnMark t) s = noteEcnCongestionEvent newRenoDecrease t s"
| "newRenoStep PersistentCongestion s = restartAfterPersistentCongestion newRenoReset s"
| "newRenoStep Resets s = resetToInitialState newRenoReset s"
| "newRenoStep (Discards ps) s = onPacketsDiscarded ps s"
| "newRenoStep (SmoothedRtt t) s = setSmoothedRoundTripTime t s"
| "newRenoStep (Resize d) s = setMaximumDatagramByteLength d s"

fun ackedBytes :: "congestion_event \<Rightarrow> nat" where
  "ackedBytes (Updates acked lost t) = packetBytes acked"
| "ackedBytes e = 0"

text \<open>The datagram sizes set lie between \<open>lo\<close> and \<open>hi\<close>; a size of 0 is ignored by the code.\<close>

fun sizedWithin :: "u64 \<Rightarrow> u64 \<Rightarrow> congestion_event \<Rightarrow> bool" where
  "sizedWithin lo hi (Resize d) \<longleftrightarrow> d = 0 \<or> lo \<le> d \<and> d \<le> hi"
| "sizedWithin lo hi e \<longleftrightarrow> True"

text \<open>What one acknowledged byte can add: more than a byte only when the datagrams have become more than
  twice as large since the window was last cut down.\<close>

definition growthFactor :: "u64 \<Rightarrow> u64 \<Rightarrow> nat" where
  "growthFactor lo hi = 1 + unat hi div (2 * unat lo)"

definition window_inv :: "u64 \<Rightarrow> u64 \<Rightarrow> nat \<Rightarrow> QuicCongestionAlgorithm \<Rightarrow> bool" where
  "window_inv lo hi sum_acked s \<longleftrightarrow> lo \<le> m_maximumDatagramByteLength s \<and> m_maximumDatagramByteLength s \<le> hi \<and>
     2 * unat lo \<le> unat (m_congestionWindowByteLength s) \<and>
     unat (m_congestionWindowByteLength s) \<le> unat (initialWindow hi) + growthFactor lo hi * sum_acked"

lemma packetBytes_filter: "packetBytes (filter P ps) \<le> packetBytes ps"
  by (induction ps) auto

lemma datagram_windows:
  assumes "1 \<le> d" "d \<le> 65535"
  shows "unat (minimumWindow d) = 2 * unat d" "minimumWindow d \<le> initialWindow d"
    "unat (initialWindow d) \<le> 655350"
    "unat (initialWindow d) = min (10 * unat d) (max (2 * unat d) 14720)"
proof -
  have d: "1 \<le> unat d" "unat d \<le> 65535" using assms by (simp_all add: word_le_nat_alt)
  then have m: "unat (2 * d) = 2 * unat d" "unat (10 * d) = 10 * unat d" by (simp_all add: unat_word_ariths)
  show "unat (minimumWindow d) = 2 * unat d" by (simp add: minimumWindow_def congestion_constants m)
  have "2 * d \<le> 10 * d" by (simp add: word_le_nat_alt m)
  then show "minimumWindow d \<le> initialWindow d"
    by (simp add: minimumWindow_def initialWindow_def congestion_constants)
  have "initialWindow d \<le> 10 * d" by (simp add: initialWindow_def congestion_constants)
  then show "unat (initialWindow d) \<le> 655350" using d by (simp add: word_le_nat_alt m)
  show "unat (initialWindow d) = min (10 * unat d) (max (2 * unat d) 14720)"
    by (simp add: initialWindow_def congestion_constants min_def max_def word_le_nat_alt m)
qed

text \<open>The windows of a size between \<open>lo\<close> and \<open>hi\<close>.\<close>

lemma windows_between:
  assumes "1 \<le> lo" "lo \<le> d" "d \<le> hi" "hi \<le> (65535 :: u64)"
  shows "2 * unat lo \<le> unat (minimumWindow d)" "unat (minimumWindow d) \<le> unat (initialWindow hi)"
    "2 * unat lo \<le> unat (initialWindow d)" "unat (initialWindow d) \<le> unat (initialWindow hi)"
proof -
  have u: "1 \<le> unat lo" "unat lo \<le> unat d" "unat d \<le> unat hi" "unat hi \<le> 65535"
    using assms by (simp_all add: word_le_nat_alt)
  have d: "1 \<le> d" "d \<le> 65535" "1 \<le> hi" "hi \<le> 65535" using u by (simp_all add: word_le_nat_alt)
  show "2 * unat lo \<le> unat (minimumWindow d)" "unat (minimumWindow d) \<le> unat (initialWindow hi)"
    "2 * unat lo \<le> unat (initialWindow d)" "unat (initialWindow d) \<le> unat (initialWindow hi)"
    using u unfolding datagram_windows(1,4) [OF d(1,2)] datagram_windows(4) [OF d(3,4)] by linarith+
qed

lemma newReno_decrease_bounds:
  assumes "1 \<le> lo" "lo \<le> m_maximumDatagramByteLength s" "m_maximumDatagramByteLength s \<le> hi" "hi \<le> 65535"
  shows "2 * unat lo \<le> unat (m_congestionWindowByteLength (newRenoDecrease s))"
    "unat (m_congestionWindowByteLength (newRenoDecrease s))
      \<le> max (unat (m_congestionWindowByteLength s)) (unat (initialWindow hi))"
proof -
  note w = windows_between [OF assms]
  have "m_congestionWindowByteLength (newRenoDecrease s)
      = max (m_congestionWindowByteLength s div 2) (minimumWindowByteLength s)"
    by (simp add: newRenoDecrease_def congestion_constants Let_def)
  moreover have "unat (m_congestionWindowByteLength s div 2) \<le> unat (m_congestionWindowByteLength s)"
    by (simp add: unat_div)
  ultimately show "2 * unat lo \<le> unat (m_congestionWindowByteLength (newRenoDecrease s))"
    "unat (m_congestionWindowByteLength (newRenoDecrease s))
      \<le> max (unat (m_congestionWindowByteLength s)) (unat (initialWindow hi))"
    using w(1,2) by (auto simp: max_def word_le_nat_alt)
qed

text \<open>What congestion avoidance adds for \<open>n\<close> bytes.\<close>

lemma avoidance_growth:
  assumes "1 \<le> lo" "lo \<le> d" "d \<le> hi" "hi \<le> (65535 :: u64)" "2 * unat lo \<le> unat w"
    "1 \<le> unat n" "unat n < 2 ^ 46"
  shows "unat (max 1 (d * n div w)) \<le> growthFactor lo hi * unat n"
proof -
  have u: "1 \<le> unat lo" "unat d \<le> unat hi" "unat hi \<le> 65535" using assms by (simp_all add: word_le_nat_alt)
  have "unat d * unat n \<le> 65535 * 2 ^ 46" using u assms(7) by (intro mult_le_mono) simp_all
  then have "unat (d * n) = unat d * unat n" by (simp add: unat_word_ariths)
  then have "unat (d * n div w) = unat d * unat n div unat w" by (simp add: unat_div)
  also have "\<dots> \<le> unat hi * unat n div (2 * unat lo)"
    using assms(5) u by (intro order.trans [OF div_le_mono2 div_le_mono]) simp_all
  also have "\<dots> \<le> growthFactor lo hi * unat n"
  proof -
    have "unat hi < growthFactor lo hi * (2 * unat lo)"
      using u(1) dividend_less_div_times [of "2 * unat lo" "unat hi"] by (simp add: growthFactor_def algebra_simps)
    then have "unat hi * unat n \<le> growthFactor lo hi * unat n * (2 * unat lo)"
      using mult_le_mono1 [of "unat hi" "growthFactor lo hi * (2 * unat lo)" "unat n"] by (simp add: algebra_simps)
    then have "unat hi * unat n div (2 * unat lo) \<le> growthFactor lo hi * unat n * (2 * unat lo) div (2 * unat lo)"
      by (rule div_le_mono)
    then show ?thesis using u(1) by simp
  qed
  finally have "unat (d * n div w) \<le> growthFactor lo hi * unat n" .
  moreover have "1 \<le> growthFactor lo hi * unat n" using assms(6) by (simp add: growthFactor_def)
  ultimately show ?thesis by (simp add: max_def)
qed

lemma newReno_update_window:
  assumes d: "1 \<le> lo" "hi \<le> 65535" and inv: "window_inv lo hi sum_acked s" and small: "sum_acked + packetBytes acked < 2 ^ 46"
  shows "window_inv lo hi (sum_acked + packetBytes acked) (onCongestionUpdate newRenoDecrease newRenoGrowth acked lost t s)"
proof -
  let ?grown = "growthBytes (m_recoveryStartTime s) acked" let ?f = "growthFactor lo hi"
  let ?n = "of_nat (packetBytes ?grown) :: u64" and ?w = "m_congestionWindowByteLength s"
    and ?d = "m_maximumDatagramByteLength s"
  have le: "packetBytes ?grown \<le> packetBytes acked" by (simp add: growthBytes_def packetBytes_filter)
  then have n: "unat ?n = packetBytes ?grown" using small by (simp add: unat_of_nat)
  have w: "2 * unat lo \<le> unat ?w" "unat ?w \<le> unat (initialWindow hi) + ?f * sum_acked" "lo \<le> ?d" "?d \<le> hi"
    using inv by (simp_all add: window_inv_def)
  have lohi: "1 \<le> hi" using d w(3,4) by simp
  have f: "1 \<le> ?f" "?f \<le> 2 ^ 15"
  proof -
    have "unat hi div (2 * unat lo) \<le> unat hi div 2" using d(1) by (intro div_le_mono2) (auto simp: word_le_nat_alt)
    then show "1 \<le> ?f" "?f \<le> 2 ^ 15" using d(2) by (simp_all add: growthFactor_def word_le_nat_alt)
  qed
  have room: "unat ?w + ?f * packetBytes acked < 2 ^ 64"
  proof -
    have "?f * (sum_acked + packetBytes acked) \<le> 2 ^ 15 * 2 ^ 46"
      using f(2) small by (intro mult_le_mono) simp_all
    then show ?thesis
      using w(2) datagram_windows(3) [OF lohi d(2)] by (simp add: distrib_left)
  qed
  define u where "u = fold settlePacket lost (fold settlePacket acked s)"
  define v where "v = (if ?grown \<noteq> [] then u\<lparr>m_recoveryStartTime := None\<rparr> else u)"
  have v: "m_congestionWindowByteLength v = ?w" "m_maximumDatagramByteLength v = ?d"
    by (simp_all add: v_def u_def)
  let ?s = "onCongestionUpdate newRenoDecrease newRenoGrowth acked lost t s"
  have eq: "?s = (if (\<exists>p \<in> set lost. \<not> isPathMtuProbe p) then startCongestionEvent newRenoDecrease t v
      else if isInRecovery v \<or> ?n = 0 then v
      else if ?w < m_slowStartThresholdByteLength v then v\<lparr>m_congestionWindowByteLength := ?w + ?n\<rparr>
      else newRenoGrowth ?n t v)"
    unfolding onCongestionUpdate_def Let_def growthLoop_eq settle_frame(4) prod.case
      u_def [symmetric] v_def [symmetric] v ..
  have same: "m_maximumDatagramByteLength ?s = ?d" by (simp add: newRenoAlgorithm.update_datagram)
  have "2 * unat lo \<le> unat (m_congestionWindowByteLength ?s) \<and>
      unat (m_congestionWindowByteLength ?s) \<le> max (unat ?w + ?f * packetBytes acked) (unat (initialWindow hi))"
  proof -
    have "m_congestionWindowByteLength ?s = ?w \<or>
        m_congestionWindowByteLength ?s = m_congestionWindowByteLength (newRenoDecrease v) \<or>
        m_congestionWindowByteLength ?s = ?w + ?n \<or>
        ?n \<noteq> 0 \<and> m_congestionWindowByteLength ?s = ?w + max 1 (?d * ?n div ?w)"
      unfolding eq startCongestionEvent_def newRenoGrowth_def by (simp add: v)
    then consider (keep) "m_congestionWindowByteLength ?s = ?w"
      | (lower) "m_congestionWindowByteLength ?s = m_congestionWindowByteLength (newRenoDecrease v)"
      | (slow) "m_congestionWindowByteLength ?s = ?w + ?n"
      | (avoid) "?n \<noteq> 0" "m_congestionWindowByteLength ?s = ?w + max 1 (?d * ?n div ?w)"
      by blast
    then show ?thesis
    proof cases
      case keep
      then show ?thesis using w(1) by simp
    next
      case lower
      have "lo \<le> m_maximumDatagramByteLength v" "m_maximumDatagramByteLength v \<le> hi" using w(3,4) v by simp_all
      from newReno_decrease_bounds [OF d(1) this d(2)] show ?thesis using lower v by auto
    next
      case slow
      have "packetBytes ?grown \<le> ?f * packetBytes acked"
        using le f(1) mult_le_mono [OF f(1) le] by simp
      then have "unat (?w + ?n) = unat ?w + packetBytes ?grown" "packetBytes ?grown \<le> ?f * packetBytes acked"
        using n room by (simp_all add: unat_word_ariths)
      then show ?thesis using slow w(1) by simp
    next
      case avoid
      have "1 \<le> unat ?n" using avoid(1) by (metis One_nat_def Suc_leI gr0I unat_eq_zero)
      moreover have "unat ?n < 2 ^ 46" unfolding n using le small by linarith
      ultimately have "unat (max 1 (?d * ?n div ?w)) \<le> ?f * packetBytes ?grown"
        using avoidance_growth [OF d(1) w(3,4) d(2) w(1), of ?n] unfolding n by blast
      also have "\<dots> \<le> ?f * packetBytes acked" using le by simp
      finally have q: "unat (max 1 (?d * ?n div ?w)) \<le> ?f * packetBytes acked" .
      then have "unat (?w + max 1 (?d * ?n div ?w)) = unat ?w + unat (max 1 (?d * ?n div ?w))"
        using room by (simp add: unat_word_ariths)
      then show ?thesis using avoid(2) q w(1) by simp
    qed
  qed
  then show ?thesis using w same by (auto simp: window_inv_def distrib_left max_def split: if_splits)
qed

lemma newRenoStep_window:
  assumes d: "1 \<le> lo" "hi \<le> 65535" and inv: "window_inv lo hi sum_acked s" and small: "sum_acked + ackedBytes e < 2 ^ 46"
    and sized: "sizedWithin lo hi e"
  shows "window_inv lo hi (sum_acked + ackedBytes e) (newRenoStep e s)"
proof -
  have w: "lo \<le> m_maximumDatagramByteLength s" "m_maximumDatagramByteLength s \<le> hi"
    using inv by (simp_all add: window_inv_def)
  note between = windows_between [OF d(1) w d(2)]
  show ?thesis
  proof (cases e)
    case (Updates acked lost t)
    then show ?thesis using newReno_update_window [OF d inv] small by simp
  next
    case (EcnMark t)
    then show ?thesis
      using inv newReno_decrease_bounds [OF d(1) w d(2)] newRenoAlgorithm.decrease_frame [of s]
      by (auto simp: noteEcnCongestionEvent_def startCongestionEvent_def window_inv_def)
  next
    case PersistentCongestion
    then show ?thesis
      using inv between by (simp add: restartAfterPersistentCongestion_def newRenoReset_def window_inv_def Let_def)
  next
    case Resets
    then show ?thesis
      using inv between by (simp add: resetToInitialState_def newRenoReset_def window_inv_def)
  next
    case (Resize n)
    then show ?thesis
      using inv sized by (auto simp: setMaximumDatagramByteLength_def window_inv_def)
  qed (use inv in \<open>simp_all add: congestionPacketSent_def onPacketsDiscarded_def setSmoothedRoundTripTime_def window_inv_def\<close>)
qed

lemma newRenoSteps_window:
  assumes d: "1 \<le> lo" "hi \<le> 65535"
  shows "window_inv lo hi sum_acked s \<Longrightarrow> sum_acked + sum_list (map ackedBytes events) < 2 ^ 46 \<Longrightarrow>
    list_all (sizedWithin lo hi) events \<Longrightarrow>
    window_inv lo hi (sum_acked + sum_list (map ackedBytes events)) (fold newRenoStep events s)"
proof (induction events arbitrary: sum_acked s)
  case (Cons e events)
  have "window_inv lo hi (sum_acked + ackedBytes e) (newRenoStep e s)"
    using newRenoStep_window [OF d Cons.prems(1), of e] Cons.prems(2,3) by simp
  then show ?case using Cons.IH [of "sum_acked + ackedBytes e" "newRenoStep e s"] Cons.prems(2,3) by (simp add: add.assoc)
qed simp

text \<open>C31: The NewReno window stays in its bounds while the datagram size changes under it, as the core does
  whenever a larger size has been proved or the path has changed. Whatever is sent, acknowledged, lost,
  marked, discarded or resized within \<open>lo\<close> and \<open>hi\<close>, the window is at least two datagrams of the smallest
  size, and at most the initial window of the largest size and what the acknowledged bytes may add: each
  of them one byte, unless the largest size is at least twice the smallest. No computation wraps below 64 TiB of
  acknowledged data. The resize itself does not touch the window, so after it the window may be less than
  two datagrams of the new size.\<close>

theorem newReno_window_bounds:
  assumes "1 \<le> lo" "hi \<le> 65535" "lo \<le> d" "d \<le> hi" "list_all (sizedWithin lo hi) events"
    "sum_list (map ackedBytes events) < 2 ^ 46"
  shows "let s = fold newRenoStep events (newReno d) in
    2 * unat lo \<le> unat (m_congestionWindowByteLength s) \<and>
    unat (m_congestionWindowByteLength s)
      \<le> unat (initialWindow hi) + (1 + unat hi div (2 * unat lo)) * sum_list (map ackedBytes events)"
proof -
  have "window_inv lo hi 0 (newReno d)"
    using windows_between [OF assms(1,3,4,2)] assms(3,4)
    by (simp add: window_inv_def newReno_def constructAlgorithm_def)
  then have "window_inv lo hi (sum_list (map ackedBytes events)) (fold newRenoStep events (newReno d))"
    using newRenoSteps_window [OF assms(1,2), of 0 "newReno d" events] assms(5,6) by simp
  then show ?thesis by (simp add: window_inv_def Let_def growthFactor_def)
qed

definition example_events :: "congestion_event list" where
  "example_events = [Sends (example_packet 1 0), Updates [example_packet 1 0] [] 50, EcnMark 60, Resize 8952]"

theorem newReno_window_bounds_witness:
  "let s = fold newRenoStep example_events (newReno 1200) in
    2400 \<le> unat (m_congestionWindowByteLength s) \<and> unat (m_congestionWindowByteLength s) \<le> 17904 + 4 * 1200"
proof -
  have "sum_list (map ackedBytes example_events) = 1200" "list_all (sizedWithin 1200 8952) example_events"
    by (simp_all add: example_events_def example_packet_def)
  moreover have "unat (initialWindow 8952) = 17904" by code_simp
  ultimately show ?thesis
    using newReno_window_bounds [of 1200 8952 1200 example_events] by (simp add: Let_def)
qed

text \<open>C33: One round of losses can shrink the window twice. When an acknowledgement names a packet sent
  after recovery began and declares lost a packet sent before it, recovery ends and starts again in the
  same step, with a second decrease, although the loss belongs to the round already answered; for both
  algorithms.\<close>

theorem old_loss_decreases_again:
  fixes n :: QuicCongestionAlgorithm and c :: "'d QuicCubicCongestion"
  assumes "m_recoveryStartTime n = Some start" "m_recoveryStartTime c = Some start"
    and "p \<in> set acked" "isAckEliciting p" "start < timeSent p"
    and "q \<in> set lost" "\<not> isPathMtuProbe q" "timeSent q < start"
  shows "let n' = onCongestionUpdate newRenoDecrease newRenoGrowth acked lost now n;
      c' = onCongestionUpdate cubicDecrease (cubicGrowth D) acked lost now c in
    m_congestionWindowByteLength n' = max (m_congestionWindowByteLength n div 2) (minimumWindowByteLength n) \<and>
    m_recoveryStartTime n' = Some now \<and>
    m_congestionWindowByteLength c' = max (m_congestionWindowByteLength c * 7 div 10) (minimumWindowByteLength c) \<and>
    m_recoveryStartTime c' = Some now"
proof -
  have "countsForGrowth (Some start) p" using assms(4,5) by (simp add: countsForGrowth_def)
  then have some: "growthBytes (Some start) acked \<noteq> []"
    using assms(3) by (auto simp: growthBytes_def filter_empty_conv)
  have loss: "\<exists>q \<in> set lost. \<not> isPathMtuProbe q" using assms(6,7) by blast
  show ?thesis
    unfolding Let_def using some loss assms(1,2)
    by (simp add: onCongestionUpdate_def Let_def growthLoop_eq startCongestionEvent_def isInRecovery_def
        newRenoDecrease_def cubicDecrease_def congestion_constants)
qed

theorem old_loss_decreases_again_witness:
  "m_congestionWindowByteLength (onCongestionUpdate newRenoDecrease newRenoGrowth
     [example_packet 8 12] [example_lost] 30 ((newReno 1200)\<lparr>m_recoveryStartTime := Some 10\<rparr>)) = 6000"
proof -
  have facts: "example_packet 8 12 \<in> set [example_packet 8 12]" "isAckEliciting (example_packet 8 12)"
    "10 < timeSent (example_packet 8 12)" "example_lost \<in> set [example_lost]" "\<not> isPathMtuProbe example_lost"
    "timeSent example_lost < 10"
    by (simp_all add: example_packet_def example_lost_def)
  have "m_recoveryStartTime ((newReno 1200)\<lparr>m_recoveryStartTime := Some 10\<rparr>) = Some 10"
    "m_recoveryStartTime ((cubic 1200 :: int QuicCubicCongestion)\<lparr>m_recoveryStartTime := Some 10\<rparr>) = Some 10"
    by simp_all
  note r = old_loss_decreases_again [OF this facts, of 30 integerArithmetic]
  have "max (m_congestionWindowByteLength ((newReno 1200)\<lparr>m_recoveryStartTime := Some 10\<rparr>) div 2)
      (minimumWindowByteLength ((newReno 1200)\<lparr>m_recoveryStartTime := Some 10\<rparr>)) = 6000"
    by code_simp
  then show ?thesis using r unfolding Let_def by metis
qed

end
