(* ===== verification/QuicLossControl.thy ===== *)
theory QuicLossControl
  imports QuicCongestion
begin

text \<open>
  How the connection core, \<open>src/Net/Quic/QuicConnectionCore.cpp\<close>, drives loss detection and
  congestion control together: sending a packet, an acknowledgement frame, the recovery timer,
  discarding a packet number space, a Retry and a validated path. The virtual functions of the
  congestion algorithm are arguments, so each operation works for both.
\<close>

section \<open>The core's calls\<close>

definition kQuicMaximumAcknowledgementDelayMicroseconds :: u64 where
  "kQuicMaximumAcknowledgementDelayMicroseconds = 60 * 1000 * 1000"

text \<open>The delay field of the frame, scaled by the peer's exponent and limited to a minute.\<close>

definition acknowledgementDelayOf :: "u64 \<Rightarrow> QuicAcknowledgementFrame \<Rightarrow> QuicTime" where
  "acknowledgementDelayOf peerExponent frame =
     (let shiftBitCount = unat (min peerExponent 20);
          unscaledLimit = drop_bit shiftBitCount kQuicMaximumAcknowledgementDelayMicroseconds
      in uint (push_bit shiftBitCount (min (acknowledgementDelay frame) unscaledLimit)))"

definition coreEmit ::
  "QuicRecoverySpace \<Rightarrow> QuicSentPacketInfo \<Rightarrow> QuicRecovery \<times> 'z QuicCongestionAlgorithm_scheme \<Rightarrow>
     QuicRecovery \<times> 'z QuicCongestionAlgorithm_scheme" where
  "coreEmit space record = (\<lambda>(recovery, congestion).
     let congestion = congestionPacketSent record congestion;
         recovery = recoveryPacketSent space record recovery
     in (recovery, congestion))"

definition coreAcknowledgement ::
  "('z QuicCongestionAlgorithm_scheme \<Rightarrow> 'z QuicCongestionAlgorithm_scheme) \<Rightarrow>
   (u64 \<Rightarrow> QuicTime \<Rightarrow> 'z QuicCongestionAlgorithm_scheme \<Rightarrow> 'z QuicCongestionAlgorithm_scheme) \<Rightarrow>
   ('z QuicCongestionAlgorithm_scheme \<Rightarrow> 'z QuicCongestionAlgorithm_scheme) \<Rightarrow>
   u64 \<Rightarrow> QuicAcknowledgementFrame \<Rightarrow> QuicRecoverySpace \<Rightarrow> QuicTime \<Rightarrow>
   QuicRecovery \<times> 'z QuicCongestionAlgorithm_scheme \<Rightarrow>
   QuicAcknowledgementUpdate \<times> QuicRecovery \<times> 'z QuicCongestionAlgorithm_scheme" where
  "coreAcknowledgement decrease growth reset peerExponent frame space arrivalTime = (\<lambda>(recovery, congestion).
     let (update, recovery) = onAcknowledgementReceived space frame arrivalTime (acknowledgementDelayOf peerExponent frame) recovery;
         congestion = setSmoothedRoundTripTime (rtt_smoothed (roundTripTimeEstimate recovery)) congestion;
         congestion = (case ecnCongestionEventTime update of
           None \<Rightarrow> congestion | Some t \<Rightarrow> noteEcnCongestionEvent decrease t congestion);
         congestion = onCongestionUpdate decrease growth (u_acknowledged update) (u_lost update) arrivalTime congestion;
         congestion = (if isPersistentCongestionDetected update
           then restartAfterPersistentCongestion reset congestion else congestion)
     in (update, recovery, congestion))"

definition coreTimeout ::
  "('z QuicCongestionAlgorithm_scheme \<Rightarrow> 'z QuicCongestionAlgorithm_scheme) \<Rightarrow>
   (u64 \<Rightarrow> QuicTime \<Rightarrow> 'z QuicCongestionAlgorithm_scheme \<Rightarrow> 'z QuicCongestionAlgorithm_scheme) \<Rightarrow>
   QuicTime \<Rightarrow> QuicRecovery \<times> 'z QuicCongestionAlgorithm_scheme \<Rightarrow>
   QuicRecoveryTimeoutAction \<times> QuicRecovery \<times> 'z QuicCongestionAlgorithm_scheme" where
  "coreTimeout decrease growth now = (\<lambda>(recovery, congestion).
     let (action, recovery) = recoveryDeadlineReached now recovery;
         congestion = (if action_lost action \<noteq> []
           then onCongestionUpdate decrease growth [] (action_lost action) now congestion else congestion)
     in (action, recovery, congestion))"

definition coreDiscardSpace ::
  "QuicRecoverySpace \<Rightarrow> QuicRecovery \<times> 'z QuicCongestionAlgorithm_scheme \<Rightarrow>
     QuicRecovery \<times> 'z QuicCongestionAlgorithm_scheme" where
  "coreDiscardSpace space = (\<lambda>(recovery, congestion).
     let retiredPackets = unacknowledgedPackets space recovery;
         recovery = recoveryDiscardSpace space recovery;
         congestion = onPacketsDiscarded retiredPackets congestion
     in (recovery, congestion))"

definition corePathValidated ::
  "('z QuicCongestionAlgorithm_scheme \<Rightarrow> 'z QuicCongestionAlgorithm_scheme) \<Rightarrow>
   QuicRecovery \<times> 'z QuicCongestionAlgorithm_scheme \<Rightarrow> QuicRecovery \<times> 'z QuicCongestionAlgorithm_scheme" where
  "corePathValidated reset = (\<lambda>(recovery, congestion).
     let congestion = resetToInitialState reset congestion;
         recovery = resetForPathChange recovery
     in (recovery, congestion))"

definition coreRetry ::
  "('z QuicCongestionAlgorithm_scheme \<Rightarrow> 'z QuicCongestionAlgorithm_scheme) \<Rightarrow>
   QuicRecovery \<times> 'z QuicCongestionAlgorithm_scheme \<Rightarrow> QuicRecovery \<times> 'z QuicCongestionAlgorithm_scheme" where
  "coreRetry reset = (\<lambda>(recovery, congestion).
     let discardedInitialPackets = unacknowledgedPackets Initial recovery;
         recovery = recoveryDiscardSpace Initial recovery;
         congestion = onPacketsDiscarded discardedInitialPackets congestion;
         recovery = resetForPathChange recovery;
         congestion = resetToInitialState reset congestion
     in (recovery, congestion))"

section \<open>Runs\<close>

text \<open>Each step is one of the calls above; the bytes outstanding fit their counter.\<close>

inductive core_step ::
  "('z QuicCongestionAlgorithm_scheme \<Rightarrow> 'z QuicCongestionAlgorithm_scheme) \<Rightarrow>
   (u64 \<Rightarrow> QuicTime \<Rightarrow> 'z QuicCongestionAlgorithm_scheme \<Rightarrow> 'z QuicCongestionAlgorithm_scheme) \<Rightarrow>
   ('z QuicCongestionAlgorithm_scheme \<Rightarrow> 'z QuicCongestionAlgorithm_scheme) \<Rightarrow>
   (QuicRecovery \<times> 'z QuicCongestionAlgorithm_scheme) \<times> recovery_history \<Rightarrow>
   (QuicRecovery \<times> 'z QuicCongestionAlgorithm_scheme) \<times> recovery_history \<Rightarrow> bool"
  for decrease growth reset where
  emitted: "\<forall>q. (space, q) \<in># h_sent h \<longrightarrow> packetNumber q \<noteq> packetNumber p \<Longrightarrow>
    totalBytes (outstanding (fst core)) + unat (byteCount p) < 2 ^ 64 \<Longrightarrow>
    core_step decrease growth reset (core, h) (coreEmit space p core, h\<lparr>h_sent := add_mset (space, p) (h_sent h)\<rparr>)"
| acked: "coreAcknowledgement decrease growth reset e f space t core = (u, core') \<Longrightarrow>
    core_step decrease growth reset (core, h) (core', h\<lparr>h_acknowledged := h_acknowledged h + booked space (u_acknowledged u),
      h_lost := h_lost h + booked space (u_lost u)\<rparr>)"
| timed_out: "coreTimeout decrease growth now core = (action, core') \<Longrightarrow>
    core_step decrease growth reset (core, h) (core', h\<lparr>h_lost := h_lost h + booked (lostSpace action) (action_lost action)\<rparr>)"
| space_discarded: "core_step decrease growth reset (core, h) (coreDiscardSpace space core,
    h\<lparr>h_discarded := h_discarded h + booked space (unacknowledgedPackets space (fst core))\<rparr>)"
| retried: "core_step decrease growth reset (core, h) (coreRetry reset core,
    h\<lparr>h_discarded := h_discarded h + booked Initial (unacknowledgedPackets Initial (fst core))\<rparr>)"
| path_validated: "core_step decrease growth reset (core, h) (corePathValidated reset core, h)"
| resized: "core_step decrease growth reset ((r, c), h) ((r, setMaximumDatagramByteLength d c), h)"
| handshake_confirmed: "core_step decrease growth reset ((r, c), h) ((recoveryHandshakeConfirmed delay r, c), h)"

definition elicitingTotal :: "booked multiset \<Rightarrow> nat" where
  "elicitingTotal M = (\<Sum>x \<in># M. if isAckEliciting (snd x) then unat (byteCount (snd x)) else 0)"

lemma elicitingTotal_simps [simp]:
  "elicitingTotal {#} = 0"
  "elicitingTotal (add_mset x M) = (if isAckEliciting (snd x) then unat (byteCount (snd x)) else 0) + elicitingTotal M"
  "elicitingTotal (M + N) = elicitingTotal M + elicitingTotal N"
  by (simp_all add: elicitingTotal_def)

lemma elicitingTotal_booked: "elicitingTotal (booked space ps) = elicitingBytes ps"
  by (induction ps) simp_all

lemma elicitingTotal_le: "elicitingTotal M \<le> totalBytes M"
  by (induction M) auto

definition core_inv :: "(QuicRecovery \<times> 'z QuicCongestionAlgorithm_scheme) \<times> recovery_history \<Rightarrow> bool" where
  "core_inv = (\<lambda>((r, c), h). accounted (r, h) \<and> unat (m_bytesInFlight c) = elicitingTotal (outstanding r))"

lemma core_invD:
  assumes "core_inv ((r, c), h)"
  shows "accounted (r, h)" "books r" "unat (m_bytesInFlight c) = elicitingTotal (outstanding r)"
proof -
  show a: "accounted (r, h)" and "unat (m_bytesInFlight c) = elicitingTotal (outstanding r)"
    using assms by (simp_all add: core_inv_def)
  show "books r" using a unfolding accounted_def prod.case by blast
qed

context congestion_algorithm
begin

lemma ecn_bytes:
  "m_bytesInFlight (case e of None \<Rightarrow> c | Some t \<Rightarrow> noteEcnCongestionEvent decrease t c) = m_bytesInFlight c"
  by (simp add: noteEcnCongestionEvent_def startCongestionEvent_frame split: option.split)

lemma ack_bytes:
  assumes "coreAcknowledgement decrease growth reset e f space t (r, c) = (u, r', c')"
  shows "onAcknowledgementReceived space f t (acknowledgementDelayOf e f) r = (u, r')"
    "unat (m_bytesInFlight c') = unat (m_bytesInFlight c) - elicitingBytes (u_acknowledged u) - elicitingBytes (u_lost u)"
proof -
  show a: "onAcknowledgementReceived space f t (acknowledgementDelayOf e f) r = (u, r')"
    using assms by (simp add: coreAcknowledgement_def Let_def split: prod.splits)
  show "unat (m_bytesInFlight c') = unat (m_bytesInFlight c) - elicitingBytes (u_acknowledged u) - elicitingBytes (u_lost u)"
    using assms by (auto simp: coreAcknowledgement_def Let_def a reset_bytes update_bytes ecn_bytes setSmoothedRoundTripTime_def)
qed

lemma timeout_bytes:
  assumes "coreTimeout decrease growth now (r, c) = (action, r', c')"
  shows "recoveryDeadlineReached now r = (action, r')"
    "unat (m_bytesInFlight c') = unat (m_bytesInFlight c) - elicitingBytes (action_lost action)"
proof -
  show a: "recoveryDeadlineReached now r = (action, r')"
    using assms by (simp add: coreTimeout_def Let_def split: prod.splits)
  show "unat (m_bytesInFlight c') = unat (m_bytesInFlight c) - elicitingBytes (action_lost action)"
    using assms by (auto simp: coreTimeout_def Let_def a update_bytes)
qed

lemma discard_inv:
  assumes "core_inv ((r, c), h)"
  shows "core_inv ((recoveryDiscardSpace space r, onPacketsDiscarded (unacknowledgedPackets space r) c),
    h\<lparr>h_discarded := h_discarded h + booked space (unacknowledgedPackets space r)\<rparr>)"
proof -
  have r: "accounted (r, h)" "books r" "unat (m_bytesInFlight c) = elicitingTotal (outstanding r)"
    by (rule core_invD [OF assms])+
  have "outstanding r = outstanding (recoveryDiscardSpace space r) + booked space (unacknowledgedPackets space r)"
    using recoveryDiscardSpace_books [OF r(2)] by blast
  then have "elicitingTotal (outstanding r) = elicitingTotal (outstanding (recoveryDiscardSpace space r)) +
      elicitingBytes (unacknowledgedPackets space r)"
    by (metis elicitingTotal_simps(3) elicitingTotal_booked)
  then have "unat (m_bytesInFlight (onPacketsDiscarded (unacknowledgedPackets space r) c)) =
      elicitingTotal (outstanding (recoveryDiscardSpace space r))"
    by (simp add: onPacketsDiscarded_def settle_bytes r(3))
  then show ?thesis
    using accounted_step [OF recovery_step.discarded r(1)] by (simp add: core_inv_def)
qed

lemma path_inv:
  assumes "core_inv ((r, c), h)"
  shows "core_inv ((resetForPathChange r, resetToInitialState reset c), h)"
proof -
  have "outstanding (resetForPathChange r) = outstanding r"
    by (simp add: outstanding_def unacknowledgedPackets_def resetForPathChange_def)
  then show ?thesis
    using assms accounted_step [OF recovery_step.path_changed, of r h] by (simp add: core_inv_def reset_bytes)
qed

lemma core_inv_step:
  assumes "core_step decrease growth reset x y" "core_inv x"
  shows "core_inv y"
  using assms
proof (induction rule: core_step.induct)
  case (emitted space h p core)
  obtain r c where core: "core = (r, c)" by force
  have "accounted (r, h)" and bytes: "unat (m_bytesInFlight c) = elicitingTotal (outstanding r)"
    using emitted.prems by (simp_all add: core_inv_def core)
  then have acc: "accounted (recoveryPacketSent space p r, h\<lparr>h_sent := add_mset (space, p) (h_sent h)\<rparr>)"
    using accounted_step [OF recovery_step.sent [OF emitted.hyps(1)]] by blast
  have "h_sent h = h_acknowledged h + h_lost h + h_discarded h + outstanding r"
    using \<open>accounted (r, h)\<close> unfolding accounted_def prod.case by blast
  moreover have "add_mset (space, p) (h_sent h) = h_acknowledged h + h_lost h + h_discarded h + outstanding (recoveryPacketSent space p r)"
    using acc unfolding accounted_def prod.case by simp
  ultimately have out: "outstanding (recoveryPacketSent space p r) = add_mset (space, p) (outstanding r)"
    by simp
  have "elicitingTotal (outstanding r) \<le> totalBytes (outstanding r)" by (rule elicitingTotal_le)
  then have "unat (m_bytesInFlight c) + unat (byteCount p) < 2 ^ 64"
    using emitted.hyps(2) bytes by (simp add: core)
  then show ?case
    using acc bytes by (simp add: core_inv_def core coreEmit_def Let_def congestionPacketSent_def out unat_word_ariths)
next
  case (acked e f space t core u core' h)
  obtain r c r' c' where core: "core = (r, c)" "core' = (r', c')" by force
  note b = ack_bytes [OF acked.hyps [unfolded core]]
  have r: "accounted (r, h)" "books r" "unat (m_bytesInFlight c) = elicitingTotal (outstanding r)"
    by (rule core_invD [OF acked.prems [unfolded core]])+
  have "outstanding r = outstanding r' + booked space (u_acknowledged u) + booked space (u_lost u)"
    using onAcknowledgementReceived_books [OF r(2) b(1)] by blast
  then have "unat (m_bytesInFlight c') = elicitingTotal (outstanding r')"
    unfolding b(2) r(3) by (simp add: elicitingTotal_booked)
  then show ?case
    using accounted_step [OF recovery_step.acknowledged [OF b(1)] r(1)] by (simp add: core_inv_def core)
next
  case (timed_out now core action core' h)
  obtain r c r' c' where core: "core = (r, c)" "core' = (r', c')" by force
  note b = timeout_bytes [OF timed_out.hyps [unfolded core]]
  have r: "accounted (r, h)" "books r" "unat (m_bytesInFlight c) = elicitingTotal (outstanding r)"
    by (rule core_invD [OF timed_out.prems [unfolded core]])+
  have "outstanding r = outstanding r' + booked (lostSpace action) (action_lost action)"
    using recoveryDeadlineReached_books [OF r(2) b(1)] by blast
  then have "unat (m_bytesInFlight c') = elicitingTotal (outstanding r')"
    unfolding b(2) r(3) by (simp add: elicitingTotal_booked)
  then show ?case
    using accounted_step [OF recovery_step.expired [OF b(1)] r(1)] by (simp add: core_inv_def core)
next
  case (space_discarded core h space)
  obtain r c where core: "core = (r, c)" by force
  then show ?case using space_discarded discard_inv by (simp add: coreDiscardSpace_def)
next
  case (retried core h)
  obtain r c where core: "core = (r, c)" by force
  have "core_inv ((recoveryDiscardSpace Initial r, onPacketsDiscarded (unacknowledgedPackets Initial r) c),
      h\<lparr>h_discarded := h_discarded h + booked Initial (unacknowledgedPackets Initial r)\<rparr>)"
    using retried discard_inv by (simp add: core)
  from path_inv [OF this] show ?case by (simp add: core coreRetry_def Let_def)
next
  case (path_validated core h)
  obtain r c where core: "core = (r, c)" by force
  then show ?case using path_validated path_inv by (simp add: corePathValidated_def)
next
  case (resized r c h d)
  then show ?case by (simp add: core_inv_def setMaximumDatagramByteLength_def)
next
  case (handshake_confirmed r c h delay)
  then have "accounted (recoveryHandshakeConfirmed delay r, h)" "outstanding (recoveryHandshakeConfirmed delay r) = outstanding r"
    using accounted_step [OF recovery_step.confirmed, of r h delay]
    by (simp_all add: core_inv_def) (simp add: outstanding_def unacknowledgedPackets_def recoveryHandshakeConfirmed_def)
  then show ?case using handshake_confirmed by (simp add: core_inv_def)
qed

lemma core_inv_start: "m_bytesInFlight c = 0 \<Longrightarrow> core_inv ((newRecovery, c), emptyHistory)"
proof -
  have "outstanding newRecovery = {#}"
    by (simp add: outstanding_def unacknowledgedPackets_def newRecovery_def)
  then show "m_bytesInFlight c = 0 \<Longrightarrow> core_inv ((newRecovery, c), emptyHistory)"
    using accounted_start by (simp add: core_inv_def)
qed

lemma core_inv_reaches:
  assumes "(core_step decrease growth reset)\<^sup>*\<^sup>* ((newRecovery, c0), emptyHistory) y" "m_bytesInFlight c0 = 0"
  shows "core_inv y"
  using assms(1)
proof (induction rule: rtranclp_induct)
  case base
  show ?case by (rule core_inv_start [OF assms(2)])
next
  case (step y z)
  show ?case by (rule core_inv_step [OF step.hyps(2) step.IH])
qed

end

text \<open>C7: Loss detection and congestion control agree. Driven together the way the core drives them,
  through sends, acknowledgements, timeouts, discarded spaces, Retry and path changes, the congestion
  controller's bytes in flight are exactly the bytes of the outstanding packets that elicit
  acknowledgement, and never more than what loss detection counts: no packet is settled twice and none
  is forgotten. This holds for NewReno and for CUBIC.\<close>

theorem bytes_in_flight_exact:
  fixes cubicState :: "'d QuicCubicCongestion"
  assumes "(core_step newRenoDecrease newRenoGrowth newRenoReset)\<^sup>*\<^sup>*
      ((newRecovery, newReno d), emptyHistory) ((r1, newRenoState), h1)"
    and "(core_step cubicDecrease (cubicGrowth D) cubicReset)\<^sup>*\<^sup>*
      ((newRecovery, cubic d), emptyHistory) ((r2, cubicState), h2)"
  shows "unat (m_bytesInFlight newRenoState) = elicitingTotal (outstanding r1) \<and>
    unat (m_bytesInFlight cubicState) = elicitingTotal (outstanding r2) \<and>
    elicitingTotal (outstanding r1) \<le> totalBytes (outstanding r1) \<and>
    m_inFlightByteCount r1 = of_nat (totalBytes (outstanding r1))"
proof -
  have "core_inv ((r1, newRenoState), h1)"
    by (rule newRenoAlgorithm.core_inv_reaches [OF assms(1)]) (simp add: newReno_def constructAlgorithm_def)
  moreover have "core_inv ((r2, cubicState), h2)"
    by (rule cubicAlgorithm.core_inv_reaches [OF assms(2)]) (simp add: cubic_def constructAlgorithm_def)
  ultimately show ?thesis
    using core_invD(2) [of r1 newRenoState h1] by (simp add: core_inv_def elicitingTotal_le books_def)
qed

text \<open>One packet is sent and the space is discarded.\<close>

lemma example_core_run:
  fixes c :: "'z QuicCongestionAlgorithm_scheme"
  shows "(core_step decrease growth reset)\<^sup>*\<^sup>* ((newRecovery, c), emptyHistory)
    (coreEmit Initial (example_packet 0 5) (newRecovery, c), emptyHistory\<lparr>h_sent := {#(Initial, example_packet 0 5)#}\<rparr>)"
proof -
  have "outstanding newRecovery = {#}"
    by (simp add: outstanding_def unacknowledgedPackets_def newRecovery_def)
  then have "core_step decrease growth reset ((newRecovery, c), emptyHistory)
    (coreEmit Initial (example_packet 0 5) (newRecovery, c), emptyHistory\<lparr>h_sent := add_mset (Initial, example_packet 0 5) (h_sent emptyHistory)\<rparr>)"
    by (intro core_step.emitted) (simp_all add: emptyHistory_def example_packet_def)
  then show ?thesis by (simp add: emptyHistory_def)
qed

theorem bytes_in_flight_exact_witness:
  "unat (m_bytesInFlight (snd (coreEmit Initial (example_packet 0 5) (newRecovery, newReno 1200)))) =
     elicitingTotal (outstanding (fst (coreEmit Initial (example_packet 0 5) (newRecovery, newReno 1200))))"
proof -
  obtain r1 n where e1: "coreEmit Initial (example_packet 0 5) (newRecovery, newReno 1200) = (r1, n)" by force
  obtain r2 c where e2: "coreEmit Initial (example_packet 0 5) (newRecovery, cubic 1200 :: int QuicCubicCongestion) = (r2, c)" by force
  show ?thesis
    unfolding e1 using bytes_in_flight_exact [OF example_core_run [of newRenoDecrease newRenoGrowth newRenoReset "newReno 1200", unfolded e1]
      example_core_run [of cubicDecrease "cubicGrowth integerArithmetic" cubicReset "cubic 1200", unfolded e2]] by simp
qed

end
