(* ===== verification/WordShift.thy ===== *)
theory WordShift
  imports Prelude
begin

text \<open>
  Shifting and masking read as arithmetic. \<open>(accumulator << k) | value\<close> appends \<open>k\<close> bits to a
  number and \<open>(accumulator >> k) & mask\<close> reads bits back; as long as nothing is shifted out
  at the top, these are multiplication, division and remainder by \<open>2^k\<close>.
\<close>

lemma push_or_eq_plus:
  fixes w v :: "'a :: len word"
  assumes "unat v < 2 ^ k"
  shows "push_bit k w OR v = push_bit k w + v"
proof -
  have "\<not> bit v i" if "k \<le> i" for i
  proof -
    have "unat v < 2 ^ i"
      using assms that by (meson less_le_trans one_le_numeral power_increasing)
    then have "\<not> bit (unat v) i"
      by (simp add: bit_iff_odd)
    then show ?thesis by (simp add: bit_unsigned_iff bit_imp_le_length)
  qed
  then show ?thesis
    by (intro disjunctive_add_eq_or [symmetric] bit_eqI) (auto simp: bit_simps)
qed

lemma unat_push_or:
  fixes w v :: "'a :: len word"
  assumes "unat v < 2 ^ k" "unat w * 2 ^ k + unat v < 2 ^ LENGTH('a)"
  shows "unat (push_bit k w OR v) = unat w * 2 ^ k + unat v"
proof -
  have "unat (push_bit k w) = unat w * 2 ^ k"
    using assms(2) by (subst unsigned_push_bit_eq) (simp add: push_bit_eq_mult take_bit_nat_eq_self)
  then show ?thesis
    unfolding push_or_eq_plus [OF assms(1)] using assms(2)
    by (simp add: unat_word_ariths)
qed

lemma unat_and_mask: "unat (w AND mask k) = unat w mod 2 ^ k"
  by (simp add: take_bit_eq_mask [symmetric] unsigned_take_bit_eq take_bit_eq_mod [where ?'a = nat])

lemma unat_drop: "unat (drop_bit k (w :: 'a :: len word)) = unat w div 2 ^ k"
  proof -
  have "take_bit LENGTH('a) (unat w) = unat w"
    using unsigned_less [of w, where 'a = nat] by (simp add: take_bit_nat_eq_self)
  then show ?thesis
    by (simp add: unsigned_drop_bit_eq drop_bit_eq_div [where ?'a = nat])
qed

text \<open>A number written in digits of a base, most significant digit first.\<close>

primrec digits_value :: "nat \<Rightarrow> nat list \<Rightarrow> nat" where
  "digits_value base [] = 0"
| "digits_value base (d # ds) = d * base ^ length ds + digits_value base ds"

lemma digits_value_append:
  "digits_value base (xs @ ys) = digits_value base xs * base ^ length ys + digits_value base ys"
  by (induction xs) (auto simp: power_add algebra_simps)

lemma digits_value_bound:
  assumes "\<forall>d \<in> set ds. d < base"
  shows "digits_value base ds < base ^ length ds"
  using assms
proof (induction ds)
  case (Cons d ds)
  have "d * base ^ length ds + digits_value base ds < Suc d * base ^ length ds"
    using Cons by simp
  also have "\<dots> \<le> base * base ^ length ds"
    using Cons.prems by (intro mult_right_mono) auto
  finally show ?case by simp
qed simp

lemma digits_value_inject:
  assumes "length ds = length es" "\<forall>d \<in> set ds. d < base" "\<forall>d \<in> set es. d < base"
    "digits_value base ds = digits_value base es"
  shows "ds = es"
  using assms
proof (induction ds es rule: list_induct2)
  case (Cons d ds e es)
  let ?P = "base ^ length ds"
  have low: "digits_value base ds < ?P" "digits_value base es < ?P"
    using Cons.prems Cons.hyps digits_value_bound [of ds base] digits_value_bound [of es base]
    by auto
  have eq: "d * ?P + digits_value base ds = e * ?P + digits_value base es"
    using Cons.prems Cons.hyps by simp
  have "0 < ?P"
    using low by (cases ?P) auto
  then have "d = (d * ?P + digits_value base ds) div ?P"
    using low(1) by (simp del: power_eq_0_iff zero_less_power)
  also have "\<dots> = e"
    unfolding eq using low(2) \<open>0 < ?P\<close> by (simp del: power_eq_0_iff zero_less_power)
  finally show ?case
    using Cons eq by simp
qed simp

lemma digits_value_bytes: "digits_value 256 (map unat bs) = be_value bs"
  by (induction bs) auto

end
