(* ===== verification/Base64.thy ===== *)
theory Base64
  imports WordShift
begin

text \<open>
  \<open>Base/Coding/Base64.cpp\<close>: the standard and the URL-safe alphabet of RFC 4648, the encoder
  that writes into a string allocated at its final length, and the strict decoder. A
  \<open>std::string_view\<close> is a list of bytes, the reverse table a function from bytes to signed
  integers (\<open>-1\<close> outside the alphabet), lengths and indices are natural numbers.
\<close>

section \<open>Alphabets and tables\<close>

definition characters :: "string \<Rightarrow> bytes" where
  "characters s = map of_char s"

definition kBase64Alphabet :: bytes where
  "kBase64Alphabet = characters ''ABCDEFGHIJKLMNOPQRSTUVWXYZabcdefghijklmnopqrstuvwxyz0123456789+/''"

definition kBase64UrlAlphabet :: bytes where
  "kBase64UrlAlphabet = characters ''ABCDEFGHIJKLMNOPQRSTUVWXYZabcdefghijklmnopqrstuvwxyz0123456789-_''"

type_synonym decode_table = "byte \<Rightarrow> int"

definition Base64DecodeTable :: "bytes \<Rightarrow> decode_table" where
  "Base64DecodeTable alphabet =
    fold (\<lambda>index values. values (alphabet ! index := int index)) [0..<length alphabet] (\<lambda>_. - 1)"

definition kStandardDecodeTable :: decode_table where
  "kStandardDecodeTable = Base64DecodeTable kBase64Alphabet"

definition kUrlDecodeTable :: decode_table where
  "kUrlDecodeTable = Base64DecodeTable kBase64UrlAlphabet"

definition kMaximumBase64PaddingLength :: nat where
  "kMaximumBase64PaddingLength = 2"

definition kNoPadding :: byte where
  "kNoPadding = 0"

definition kPaddingCharacter :: byte where
  "kPaddingCharacter = of_char CHR ''=''"

section \<open>Encoder\<close>

text \<open>The string being filled and the index of the next character.\<close>

type_synonym cursor = "bytes \<times> nat"

definition putCharacter :: "byte \<Rightarrow> cursor \<Rightarrow> cursor" where
  "putCharacter c out = ((fst out) [snd out := c], Suc (snd out))"

definition sextetCharacter :: "bytes \<Rightarrow> u32 \<Rightarrow> nat \<Rightarrow> byte" where
  "sextetCharacter alphabet groupValue shift = alphabet ! unat (drop_bit shift groupValue AND 0x3F)"

definition groupValueOf :: "byte \<Rightarrow> byte \<Rightarrow> byte \<Rightarrow> u32" where
  "groupValueOf a b c = push_bit 16 (ucast a) OR push_bit 8 (ucast b) OR ucast c"

function encodeFullGroups :: "bytes \<Rightarrow> bytes \<Rightarrow> nat \<Rightarrow> cursor \<Rightarrow> cursor" where
  "encodeFullGroups alphabet bytes index out = (
    if index + 2 < length bytes then
      let groupValue = groupValueOf (bytes ! index) (bytes ! (index + 1)) (bytes ! (index + 2));
          out = putCharacter (sextetCharacter alphabet groupValue 18) out;
          out = putCharacter (sextetCharacter alphabet groupValue 12) out;
          out = putCharacter (sextetCharacter alphabet groupValue 6) out;
          out = putCharacter (sextetCharacter alphabet groupValue 0) out
      in encodeFullGroups alphabet bytes (index + 3) out
    else out)"
  by pat_completeness auto
termination
  by (relation "measure (\<lambda>(alphabet, bytes, index, out). length bytes - index)") auto

definition encodedLengthOf :: "nat \<Rightarrow> byte \<Rightarrow> nat" where
  "encodedLengthOf byteCount paddingCharacter =
    (let remainder = byteCount mod 3 in
     byteCount div 3 * 4 +
     (if remainder = 0 then 0 else if paddingCharacter = kNoPadding then remainder + 1 else 4))"

definition encodeRemainder :: "bytes \<Rightarrow> bytes \<Rightarrow> byte \<Rightarrow> cursor \<Rightarrow> cursor" where
  "encodeRemainder alphabet bytes paddingCharacter out =
    (let fullGroupCount = length bytes div 3;
         remainder = length bytes mod 3 in
     if remainder = 0 then out
     else
       let firstByte = bytes ! (fullGroupCount * 3);
           secondByte = (if remainder > 1 then bytes ! (fullGroupCount * 3 + 1) else 0);
           groupValue = push_bit 16 (ucast firstByte) OR push_bit 8 (ucast secondByte);
           out = putCharacter (sextetCharacter alphabet groupValue 18) out;
           out = putCharacter (sextetCharacter alphabet groupValue 12) out;
           out = (if remainder > 1 then putCharacter (sextetCharacter alphabet groupValue 6) out
                  else if paddingCharacter \<noteq> kNoPadding then putCharacter paddingCharacter out
                  else out)
       in if paddingCharacter \<noteq> kNoPadding then putCharacter paddingCharacter out else out)"

definition encodeWithAlphabet :: "bytes \<Rightarrow> bytes \<Rightarrow> byte \<Rightarrow> bytes" where
  "encodeWithAlphabet bytes alphabet paddingCharacter =
    (let encoded = replicate (encodedLengthOf (length bytes) paddingCharacter) 0 in
     fst (encodeRemainder alphabet bytes paddingCharacter
       (encodeFullGroups alphabet bytes 0 (encoded, 0))))"

section \<open>Decoder\<close>

fun countPadding :: "bytes \<Rightarrow> nat \<Rightarrow> nat" where
  "countPadding reversedText 0 = 0"
| "countPadding [] (Suc maximum) = 0"
| "countPadding (c # reversedText) (Suc maximum) =
    (if c = kPaddingCharacter then Suc (countPadding reversedText maximum) else 0)"

fun decodeData :: "decode_table \<Rightarrow> bytes \<Rightarrow> u32 \<times> nat \<times> bytes \<Rightarrow> (u32 \<times> bytes) option" where
  "decodeData table [] (accumulator, accumulatorBitCount, decoded) = Some (accumulator, decoded)"
| "decodeData table (c # data) (accumulator, accumulatorBitCount, decoded) =
    (let encodedValue = table c in
     if encodedValue < 0 then None
     else
       let accumulator = push_bit 6 accumulator OR word_of_int encodedValue;
           accumulatorBitCount = accumulatorBitCount + 6
       in if accumulatorBitCount \<ge> 8 then
            let accumulatorBitCount = accumulatorBitCount - 8;
                decoded = decoded @ [ucast (drop_bit accumulatorBitCount accumulator AND 0xFF)];
                accumulator = accumulator AND (push_bit accumulatorBitCount 1 - 1)
            in decodeData table data (accumulator, accumulatorBitCount, decoded)
          else decodeData table data (accumulator, accumulatorBitCount, decoded))"

definition decodeWithAlphabet :: "bytes \<Rightarrow> decode_table \<Rightarrow> nat \<Rightarrow> bytes option" where
  "decodeWithAlphabet text table maximumPaddingLength =
    (if text = [] then None
     else if length text mod 4 = 1 \<or> maximumPaddingLength > 0 \<and> length text mod 4 \<noteq> 0 then None
     else
       let paddingLength = countPadding (rev text) maximumPaddingLength;
           dataLength = length text - paddingLength
       in case decodeData table (take dataLength text) (0, 0, []) of
            None \<Rightarrow> None
          | Some (accumulator, decoded) \<Rightarrow> if accumulator \<noteq> 0 then None else Some decoded)"

definition base64Encode :: "bytes \<Rightarrow> bytes" where
  "base64Encode bytes = encodeWithAlphabet bytes kBase64Alphabet kPaddingCharacter"

definition base64Decode :: "bytes \<Rightarrow> bytes option" where
  "base64Decode text = decodeWithAlphabet text kStandardDecodeTable kMaximumBase64PaddingLength"

definition base64UrlEncode :: "bytes \<Rightarrow> bytes" where
  "base64UrlEncode bytes = encodeWithAlphabet bytes kBase64UrlAlphabet kNoPadding"

definition base64UrlDecode :: "bytes \<Rightarrow> bytes option" where
  "base64UrlDecode text = decodeWithAlphabet text kUrlDecodeTable 0"


section \<open>The text as a numeral in base 64\<close>

text \<open>The reference of RFC 4648: three bytes are a 24-bit number, written as four digits of six
  bits; of a last group of one or two bytes, filled up with zeros, the digits that carry
  information.\<close>

definition groupDigits :: "nat \<Rightarrow> nat list" where
  "groupDigits g = [g div 2 ^ 18 mod 64, g div 2 ^ 12 mod 64, g div 2 ^ 6 mod 64, g mod 64]"

fun sextets :: "bytes \<Rightarrow> nat list" where
  "sextets [] = []"
| "sextets [a] = take 2 (groupDigits (be_value [a, 0, 0]))"
| "sextets [a, b] = take 3 (groupDigits (be_value [a, b, 0]))"
| "sextets (a # b # c # bytes) = groupDigits (be_value [a, b, c]) @ sextets bytes"

definition rfc4648Text :: "bytes \<Rightarrow> byte \<Rightarrow> bytes \<Rightarrow> bytes" where
  "rfc4648Text alphabet paddingCharacter bytes =
    map ((!) alphabet) (sextets bytes) @
    (if paddingCharacter = kNoPadding then []
     else replicate ((3 - length bytes mod 3) mod 3) paddingCharacter)"

lemma groupDigits_less: "\<forall>d \<in> set (groupDigits g). d < 64"
  by (simp add: groupDigits_def)

lemma length_groupDigits [simp]: "length (groupDigits g) = 4"
  by (simp add: groupDigits_def)

lemma base64_step: "(h :: nat) div 64 * 64 + h mod 64 = h"
  by simp

lemma groupDigits_value:
  assumes "g < 2 ^ 24"
  shows "digits_value 64 (take 2 (groupDigits g)) = g div 2 ^ 12"
    and "digits_value 64 (take 3 (groupDigits g)) = g div 2 ^ 6"
    and "digits_value 64 (groupDigits g) = g"
proof -
  have top: "g div 2 ^ 18 mod 64 = g div 2 ^ 6 div 64 div 64"
    using assms by (simp add: div_mult2_eq [symmetric])
  have down: "g div 2 ^ 12 = g div 2 ^ 6 div 64" "g div 2 ^ 6 = g div 64"
    by (simp_all add: div_mult2_eq [symmetric])
  show "digits_value 64 (take 2 (groupDigits g)) = g div 2 ^ 12"
    unfolding groupDigits_def top down(1)
    using base64_step [of "g div 2 ^ 6 div 64"] by simp
  show "digits_value 64 (take 3 (groupDigits g)) = g div 2 ^ 6"
    unfolding groupDigits_def top down(1)
    by simp (use base64_step [of "g div 64 div 64"] base64_step [of "g div 64"] in linarith)
  show "digits_value 64 (groupDigits g) = g"
    unfolding groupDigits_def top down
    by simp (use base64_step [of "g div 64 div 64"] base64_step [of "g div 64"] base64_step [of g]
        in linarith)
qed

lemma sextets_less: "\<forall>d \<in> set (sextets bytes). d < 64"
  by (induction bytes rule: sextets.induct) (auto simp: groupDigits_def)

lemma length_sextets:
  "length (sextets bytes) = (8 * length bytes + 5) div 6"
  by (induction bytes rule: sextets.induct) auto

lemma sextets_value:
  "digits_value 64 (sextets bytes) = be_value bytes * 2 ^ (6 * length (sextets bytes) - 8 * length bytes)"
proof (induction bytes rule: sextets.induct)
  case (2 a)
  have "be_value [a, 0, 0] = unat a * 16 * 2 ^ 12" by simp
  then show ?case
    using be_value_bound [of "[a, 0, 0]"] by (simp add: groupDigits_value del: be_value.simps) simp
next
  case (3 a b)
  have "be_value [a, b, 0] = (unat a * 1024 + unat b * 4) * 2 ^ 6" by simp
  then show ?case
    using be_value_bound [of "[a, b, 0]"] by (simp add: groupDigits_value del: be_value.simps) simp
next
  case (4 a b c bytes)
  have small: "be_value [a, b, c] < 2 ^ 24"
    using be_value_bound [of "[a, b, c]"] by simp
  have len: "8 * length bytes \<le> 6 * length (sextets bytes)"
    by (simp add: length_sextets)
  then have "(64 :: nat) ^ length (sextets bytes)
      = 256 ^ length bytes * 2 ^ (6 * length (sextets bytes) - 8 * length bytes)"
    by (simp add: power_mult [of "2::nat" 6, simplified, symmetric]
        power_mult [of "2::nat" 8, simplified, symmetric] flip: power_add)
  then show ?case
    using 4 groupDigits_value [OF small]
    by (simp add: digits_value_append be_value_append [of "[a, b, c]", simplified] algebra_simps)
qed simp


section \<open>The encoder writes the reference text\<close>

text \<open>The string of \<open>n\<close> characters of which the first ones have been written.\<close>

definition filled :: "nat \<Rightarrow> bytes \<Rightarrow> cursor" where
  "filled n cs = (cs @ replicate (n - length cs) 0, length cs)"

lemma putCharacter_filled:
  assumes "length cs < n"
  shows "putCharacter c (filled n cs) = filled n (cs @ [c])"
proof -
  have "replicate (n - length cs) (0 :: byte) = 0 # replicate (n - Suc (length cs)) 0"
    using assms by (metis Suc_diff_Suc replicate_Suc)
  then show ?thesis by (simp add: putCharacter_def filled_def list_update_append)
qed

lemma groupValue_value: "unat (groupValueOf a b c) = be_value [a, b, c]"
proof -
  have small: "unat (ucast x :: u32) = unat x" for x :: byte
    by (simp add: unsigned_ucast_eq) (use unat_byte_bound [of x] in \<open>simp add: take_bit_nat_eq_self\<close>)
  have split: "push_bit 16 (ucast a) OR push_bit 8 (ucast b) OR ucast c
      = push_bit 8 (push_bit 8 (ucast a) OR ucast b) OR (ucast c :: u32)"
    by (intro bit_eqI) (auto simp: bit_simps)
  have inner: "unat (push_bit 8 (ucast a) OR ucast b :: u32) = unat a * 2 ^ 8 + unat b"
    using unat_byte_bound [of a] unat_byte_bound [of b] by (subst unat_push_or) (auto simp: small)
  show ?thesis
    unfolding groupValueOf_def split
    using unat_byte_bound [of a] unat_byte_bound [of b] unat_byte_bound [of c]
    by (subst unat_push_or) (auto simp: inner small)
qed

lemma sextetCharacter_value:
  "sextetCharacter alphabet w shift = alphabet ! (unat w div 2 ^ shift mod 64)"
proof -
  have "(0x3F :: u32) = mask 6" by (simp add: mask_eq_exp_minus_1)
  then have "drop_bit shift w AND 0x3F = drop_bit shift w AND mask 6" by simp
  then show ?thesis
    unfolding sextetCharacter_def by (simp only: unat_and_mask unat_drop) simp
qed

fun fullSextets :: "bytes \<Rightarrow> nat list" where
  "fullSextets (a # b # c # bytes) = groupDigits (be_value [a, b, c]) @ fullSextets bytes"
| "fullSextets _ = []"

lemma div3_step: "(3 + n) div 3 = Suc (n div (3 :: nat))"
  by presburger

lemma div3_drop: "(3 + n) div 3 * 3 = Suc (Suc (Suc (n div 3 * 3)))"
  by presburger

lemma sextets_split:
  "sextets bytes = fullSextets bytes @ sextets (drop (length bytes div 3 * 3) bytes)"
  by (induction bytes rule: sextets.induct) (auto simp: div3_drop)

lemma length_fullSextets: "length (fullSextets bytes) = length bytes div 3 * 4"
  by (induction bytes rule: fullSextets.induct) (auto simp: div3_step)

lemma drop_three:
  "index + 2 < length xs \<Longrightarrow>
    drop index xs = xs ! index # xs ! (index + 1) # xs ! (index + 2) # drop (index + 3) xs"
  by (simp add: Cons_nth_drop_Suc eval_nat_numeral)

lemma fullSextets_short: "length bytes < 3 \<Longrightarrow> fullSextets bytes = []"
  by (cases bytes rule: fullSextets.cases) auto

lemma encodeFullGroups_filled:
  assumes "length cs + length (fullSextets (drop index bytes)) \<le> n"
  shows "encodeFullGroups alphabet bytes index (filled n cs)
    = filled n (cs @ map ((!) alphabet) (fullSextets (drop index bytes)))"
  using assms
proof (induction "length bytes - index" arbitrary: index cs rule: less_induct)
  case less
  show ?case
  proof (cases "index + 2 < length bytes")
    case True
    note expand = drop_three [OF True]
    let ?cs = "cs @ map ((!) alphabet)
      (groupDigits (be_value [bytes ! index, bytes ! (index + 1), bytes ! (index + 2)]))"
    have "encodeFullGroups alphabet bytes index (filled n cs)
        = encodeFullGroups alphabet bytes (index + 3) (filled n ?cs)"
      using less.prems True
      by (subst encodeFullGroups.simps)
        (simp add: expand Let_def putCharacter_filled sextetCharacter_value groupValue_value
          groupDigits_def del: be_value.simps encodeFullGroups.simps)
    also have "\<dots> = filled n (?cs @ map ((!) alphabet) (fullSextets (drop (index + 3) bytes)))"
      using less.prems True by (intro less.hyps) (auto simp: expand)
    finally show ?thesis by (simp add: expand del: be_value.simps)
  next
    case False
    then show ?thesis
      by (subst encodeFullGroups.simps) (simp add: fullSextets_short del: encodeFullGroups.simps)
  qed
qed


lemma tail_bytes:
  fixes bytes :: bytes
  defines "tail \<equiv> drop (length bytes div 3 * 3) bytes"
  obtains "length bytes mod 3 = 0" "tail = []"
  | "length bytes mod 3 = 1" "tail = [bytes ! (length bytes div 3 * 3)]"
  | "length bytes mod 3 = 2"
      "tail = [bytes ! (length bytes div 3 * 3), bytes ! (length bytes div 3 * 3 + 1)]"
proof -
  let ?k = "length bytes div 3 * 3"
  have len: "length tail = length bytes mod 3" "length bytes = ?k + length bytes mod 3"
    by (simp_all add: tail_def minus_div_mult_eq_mod)
  have "length bytes mod 3 < 3" by simp
  then consider "length bytes mod 3 = 0" | "length bytes mod 3 = 1" | "length bytes mod 3 = 2"
    by linarith
  then show thesis
  proof cases
    case 1
    then show thesis using len that(1) by simp
  next
    case 2
    then have "?k < length bytes" using len by linarith
    then have "tail = bytes ! ?k # drop (Suc ?k) bytes"
      unfolding tail_def by (simp add: Cons_nth_drop_Suc)
    then show thesis using 2 len that(2) by simp
  next
    case 3
    then have "?k < length bytes" "Suc ?k < length bytes" using len by linarith+
    then have "tail = bytes ! ?k # bytes ! Suc ?k # drop (Suc (Suc ?k)) bytes"
      unfolding tail_def by (metis Cons_nth_drop_Suc)
    moreover have "drop (Suc (Suc ?k)) bytes = []" using 3 len(2) by simp
    ultimately have "tail = [bytes ! ?k, bytes ! (?k + 1)]" by (simp only: Suc_eq_plus1)
    then show thesis using 3 that(3) by blast
  qed
qed

lemma length_rfc4648Text:
  "length (rfc4648Text alphabet paddingCharacter bytes) = encodedLengthOf (length bytes) paddingCharacter"
proof -
  define q r where "q = length bytes div 3" and "r = length bytes mod 3"
  then have len: "length bytes = 3 * q + r" and "r < 3" by simp_all
  then consider "r = 0" | "r = 1" | "r = 2" by linarith
  then show ?thesis
  proof cases
    case 1
    then have "length bytes = 3 * q" using len by simp
    then show ?thesis by (simp add: rfc4648Text_def encodedLengthOf_def length_sextets)
  next
    case 2
    then have eq: "length bytes = 3 * q + 1" using len by simp
    have "(3 * q + 1) mod 3 = 1" "(3 * q + 1) div 3 = q" "(8 * (3 * q + 1) + 5) div 6 = 4 * q + 2"
      by presburger+
    then show ?thesis by (simp add: rfc4648Text_def encodedLengthOf_def length_sextets eq)
  next
    case 3
    then have eq: "length bytes = 3 * q + 2" using len by simp
    have "(3 * q + 2) mod 3 = 2" "(3 * q + 2) div 3 = q" "(8 * (3 * q + 2) + 5) div 6 = 4 * q + 3"
      by presburger+
    then show ?thesis by (simp add: rfc4648Text_def encodedLengthOf_def length_sextets eq)
  qed
qed

theorem encodeWithAlphabet_is_rfc4648:
  "encodeWithAlphabet bytes alphabet paddingCharacter = rfc4648Text alphabet paddingCharacter bytes"
proof -
  let ?n = "encodedLengthOf (length bytes) paddingCharacter"
  let ?full = "map ((!) alphabet) (fullSextets bytes)"
  let ?text = "rfc4648Text alphabet paddingCharacter bytes"
  have len: "length ?full \<le> ?n"
    by (simp add: length_fullSextets encodedLengthOf_def Let_def)
  have full: "encodeFullGroups alphabet bytes 0 (filled ?n []) = filled ?n ?full"
    using encodeFullGroups_filled [of "[]" 0 bytes ?n alphabet] len by simp
  have "encodeRemainder alphabet bytes paddingCharacter (filled ?n ?full) = filled ?n ?text"
  proof (cases bytes rule: tail_bytes)
    case 1
    then show ?thesis
      by (simp add: encodeRemainder_def Let_def rfc4648Text_def sextets_split [of bytes])
  next
    case 2
    then show ?thesis
      using groupValue_value [of "bytes ! (length bytes div 3 * 3)" 0 0]
      by (auto simp add: encodeRemainder_def Let_def rfc4648Text_def sextets_split [of bytes] groupValueOf_def
         putCharacter_filled length_fullSextets encodedLengthOf_def sextetCharacter_value groupDigits_def numeral_2_eq_2)
  next
    case 3
    then show ?thesis
      using groupValue_value [of "bytes ! (length bytes div 3 * 3)" "bytes ! (length bytes div 3 * 3 + 1)" 0]
      by (auto simp add: encodeRemainder_def Let_def rfc4648Text_def sextets_split [of bytes] groupValueOf_def
         putCharacter_filled length_fullSextets encodedLengthOf_def sextetCharacter_value groupDigits_def numeral_2_eq_2)
  qed
  then have "encodeWithAlphabet bytes alphabet paddingCharacter = fst (filled ?n ?text)"
    using full by (simp add: encodeWithAlphabet_def filled_def)
  then show ?thesis
    by (simp add: filled_def length_rfc4648Text)
qed


section \<open>The decoder inverts it\<close>

text \<open>What the decoder relies on: 64 characters, each of which the reverse table finds again,
  and no other character is in the table, the padding character least of all.\<close>

lemma low_byte_value: "unat (ucast (drop_bit j (w :: u32) AND 0xFF) :: byte) = unat w div 2 ^ j mod 256"
proof -
  have "drop_bit j w AND 0xFF = drop_bit j w AND mask 8"
    by (simp add: mask_eq_exp_minus_1)
  then have "unat (drop_bit j w AND 0xFF) = unat w div 2 ^ j mod 256"
    by (simp only: unat_and_mask unat_drop) simp
  then show ?thesis
    by (simp add: unsigned_ucast_eq take_bit_nat_eq_self)
qed

locale base64_alphabet =
  fixes alphabet :: bytes and table :: decode_table
  assumes alphabet_length: "length alphabet = 64"
    and table_inverse: "i < 64 \<Longrightarrow> table (alphabet ! i) = int i"
    and table_hit: "0 \<le> table c \<Longrightarrow> \<exists>i < 64. c = alphabet ! i"
    and padding_outside: "table kPaddingCharacter < 0"
begin

lemma table_bound: "0 \<le> table c \<Longrightarrow> nat (table c) < 64 \<and> alphabet ! nat (table c) = c"
  using table_hit [of c] table_inverse by auto

lemma data_of_digits:
  assumes "\<forall>d \<in> set ds. d < 64"
  shows "map (nat \<circ> table) (map ((!) alphabet) ds) = ds"
    and "\<forall>c \<in> set (map ((!) alphabet) ds). 0 \<le> table c"
  using assms by (auto simp: table_inverse intro!: map_idI)

lemma digits_of_data:
  assumes "\<forall>c \<in> set data. 0 \<le> table c"
  shows "map ((!) alphabet) (map (nat \<circ> table) data) = data"
    and "\<forall>d \<in> set (map (nat \<circ> table) data). d < 64"
  using assms by (auto simp: table_bound intro!: map_idI)

text \<open>One character: the number read so far grows by one digit; a complete byte is split off.\<close>

definition decodes_to :: "bytes \<Rightarrow> u32 \<times> nat \<times> bytes \<Rightarrow> u32 \<times> bytes \<Rightarrow> bool" where
  "decodes_to data start stop = (case start of (acc, k, dec) \<Rightarrow> case stop of (acc', dec') \<Rightarrow>
    \<exists>k'. k' < 8 \<and> unat acc' < 2 ^ k' \<and> 8 * length dec + k + 6 * length data = 8 * length dec' + k' \<and>
      (be_value dec * 2 ^ k + unat acc) * 64 ^ length data + digits_value 64 (map (nat \<circ> table) data)
        = be_value dec' * 2 ^ k' + unat acc')"

lemma decodeData_succeeds:
  assumes "\<forall>c \<in> set data. 0 \<le> table c" "k < 8" "unat acc < 2 ^ k"
  shows "\<exists>stop. decodeData table data (acc, k, dec) = Some stop \<and> decodes_to data (acc, k, dec) stop"
  using assms
proof (induction data arbitrary: acc k dec)
  case Nil
  then show ?case by (auto simp: decodes_to_def)
next
  case (Cons c data)
  define v :: u32 where "v = word_of_int (table c)"
  have "nat (table c) < 64" "0 \<le> table c"
    using table_bound [of c] Cons.prems(1) by auto
  then have "v = of_nat (nat (table c))" by (simp add: v_def)
  then have v: "unat v = nat (table c)" "unat v < 64"
    using \<open>nat (table c) < 64\<close> by (simp_all add: unat_of_nat)
  have small: "unat acc * 2 ^ 6 + unat v < 2 ^ (k + 6)"
  proof -
    have "unat acc * 2 ^ 6 + unat v < Suc (unat acc) * 2 ^ 6" using v by simp
    also have "\<dots> \<le> 2 ^ k * 2 ^ 6" using Cons.prems(3) by (intro mult_right_mono) auto
    finally show ?thesis by (simp add: power_add)
  qed
  have "(2 :: nat) ^ (k + 6) \<le> 2 ^ 13" using Cons.prems(2) by (intro power_increasing) auto
  then have acc: "unat (push_bit 6 acc OR v) = unat acc * 64 + unat v" (is "unat ?acc = _")
    using v small by (subst unat_push_or) (auto simp del: power_increasing_iff)
  show ?case
  proof (cases "8 \<le> k + 6")
    case False
    have "\<exists>stop. decodeData table data (?acc, k + 6, dec) = Some stop \<and> decodes_to data (?acc, k + 6, dec) stop"
      using False Cons.prems small by (intro Cons.IH) (auto simp: acc)
    then show ?thesis
      using False Cons.prems(1)
      by (auto simp: decodes_to_def v_def [symmetric] acc v power_add algebra_simps)
  next
    case True
    let ?k = "k + 6 - 8"
    define b :: byte where "b = ucast (drop_bit ?k ?acc AND 0xFF)"
    define low where "low = ?acc AND (push_bit ?k 1 - 1)"
    have "low = ?acc AND mask ?k"
      by (simp add: low_def mask_eq_exp_minus_1 push_bit_eq_mult)
    then have low: "unat low = (unat acc * 64 + unat v) mod 2 ^ ?k"
      by (simp add: unat_and_mask acc)
    have "(unat acc * 64 + unat v) div 2 ^ ?k < 256"
    proof -
      have "(2 :: nat) ^ (k + 6) = 256 * 2 ^ ?k"
        using True power_add [of "2 :: nat" 8 ?k] by (simp add: add.commute)
      then show ?thesis using small by (simp add: div_less_iff_less_mult)
    qed
    then have b: "unat b = (unat acc * 64 + unat v) div 2 ^ ?k"
      unfolding b_def low_byte_value acc by simp
    have split: "unat b * 2 ^ ?k + unat low = unat acc * 64 + unat v"
      unfolding b low by (rule div_mult_mod_eq)
    have "\<exists>stop. decodeData table data (low, ?k, dec @ [b]) = Some stop \<and> decodes_to data (low, ?k, dec @ [b]) stop"
      using Cons.prems by (intro Cons.IH) (auto simp: low)
    moreover have "decodeData table (c # data) (acc, k, dec) = decodeData table data (low, ?k, dec @ [b])"
      using True Cons.prems(1) by (simp add: v_def [symmetric] b_def low_def Let_def)
    moreover have "decodes_to (c # data) (acc, k, dec) stop"
      if "decodes_to data (low, ?k, dec @ [b]) stop" for stop
    proof -
      have "be_value (dec @ [b]) * 2 ^ ?k + unat low = (be_value dec * 2 ^ k + unat acc) * 64 + unat v"
      proof -
        have "be_value (dec @ [b]) * 2 ^ ?k + unat low
            = be_value dec * (2 ^ 8 * 2 ^ ?k) + (unat b * 2 ^ ?k + unat low)"
          by (simp add: be_value_append algebra_simps)
        also have "(2 :: nat) ^ 8 * 2 ^ ?k = 2 ^ k * 2 ^ 6"
          unfolding power_add [symmetric] using True by simp
        finally show ?thesis unfolding split by (simp add: algebra_simps)
      qed
      then have "(be_value dec * 2 ^ k + unat acc) * 64 ^ length (c # data) +
          digits_value 64 (map (nat \<circ> table) (c # data)) =
          (be_value (dec @ [b]) * 2 ^ ?k + unat low) * 64 ^ length data +
          digits_value 64 (map (nat \<circ> table) data)"
        by (simp add: v algebra_simps)
      then show ?thesis
        using that True unfolding decodes_to_def by auto
    qed
    ultimately show ?thesis by auto
  qed
qed

lemma decodeData_Some:
  "decodeData table data start = Some stop \<Longrightarrow> \<forall>c \<in> set data. 0 \<le> table c"
proof (induction data arbitrary: start)
  case (Cons c data)
  then show ?case
    by (cases start) (auto simp: Let_def split: if_splits)
qed simp

lemma whole_bytes:
  assumes "6 * n = 8 * m + k" "k < 8" "n mod 4 \<noteq> (1 :: nat)"
  shows "k < 6"
proof (rule ccontr)
  assume "\<not> k < 6"
  then have "k = 6 \<or> k = 7" using assms(2) by linarith
  define q r where "q = n div 4" and "r = n mod 4"
  then have n: "n = 4 * q + r" and "r < 4" "r \<noteq> 1" using assms(3) by auto
  then have "r = 0 \<or> r = 2 \<or> r = 3" by linarith
  with \<open>k = 6 \<or> k = 7\<close> assms(1) n show False by (elim disjE; presburger)
qed

lemma byte_split_unique:
  assumes "8 * m + k = 8 * m' + (k' :: nat)" "k < 8" "k' < 8"
  shows "k = k' \<and> m = m'"
  using assms by presburger

lemma data_is_sextets:
  assumes "decodes_to data (0, 0, []) (0, bytes)" "\<forall>c \<in> set data. 0 \<le> table c" "length data mod 4 \<noteq> 1"
  shows "data = map ((!) alphabet) (sextets bytes)"
proof -
  obtain k where k: "k < 8" "6 * length data = 8 * length bytes + k"
      "digits_value 64 (map (nat \<circ> table) data) = be_value bytes * 2 ^ k"
    using assms(1) by (auto simp: decodes_to_def)
  have "k < 6"
    by (rule whole_bytes [OF k(2,1) assms(3)])
  then have len: "length data = length (sextets bytes)"
    using k(2) unfolding length_sextets by linarith
  moreover from this have "6 * length (sextets bytes) - 8 * length bytes = k" using k(2) by simp
  ultimately have "map (nat \<circ> table) data = sextets bytes"
    using k(3) digits_of_data(2) [OF assms(2)] sextets_less [of bytes]
    by (intro digits_value_inject [where base = 64]) (auto simp: sextets_value)
  then show ?thesis
    using digits_of_data(1) [OF assms(2)] by simp
qed

lemma sextets_decode:
  "decodeData table (map ((!) alphabet) (sextets bytes)) (0, 0, []) = Some (0, bytes)"
proof -
  let ?data = "map ((!) alphabet) (sextets bytes)"
  let ?k = "6 * length (sextets bytes) - 8 * length bytes"
  obtain acc dec where run: "decodeData table ?data (0, 0, []) = Some (acc, dec)"
      and spec: "decodes_to ?data (0, 0, []) (acc, dec)"
    using decodeData_succeeds [of ?data 0 0 "[]"] data_of_digits(2) [OF sextets_less [of bytes]]
    by auto
  obtain k where k: "k < 8" "unat acc < 2 ^ k" "6 * length (sextets bytes) = 8 * length dec + k"
      "be_value bytes * 2 ^ ?k = be_value dec * 2 ^ k + unat acc"
    using spec unfolding decodes_to_def
    by (auto simp: data_of_digits(1) [OF sextets_less] sextets_value simp del: map_map)
  have "6 * length (sextets bytes) = 8 * length bytes + ?k" "?k < 8"
    by (simp_all add: length_sextets)
  then have eq: "?k = k" "length dec = length bytes"
    using byte_split_unique [of "length bytes" ?k "length dec" k] k(1,3) by linarith+
  have same: "be_value dec = be_value bytes \<and> unat acc = 0"
  proof -
    have eqn: "be_value bytes * 2 ^ k = be_value dec * 2 ^ k + unat acc" using k(4) eq(1) by simp
    have "be_value bytes = (be_value dec * 2 ^ k + unat acc) div 2 ^ k"
      unfolding eqn [symmetric] by simp
    then show ?thesis using k(2) eqn by simp
  qed
  then have "dec = bytes"
    by (metis be_bytes_be_value eq(2))
  moreover have "acc = 0" using same by (simp add: unat_eq_0)
  ultimately show ?thesis using run by simp
qed

lemma table_not_padding: "0 \<le> table c \<Longrightarrow> c \<noteq> kPaddingCharacter"
  using padding_outside by auto

text \<open>With \<open>n\<close> bytes there are \<open>(8 n + 5) div 6\<close> characters and this much padding.\<close>

lemma length_mod: "(8 * m + 5) div 6 mod 4 \<noteq> Suc 0"
proof -
  define q r where "q = m div 3" and "r = m mod 3"
  then have m: "m = 3 * q + r" and r: "r < 3" by simp_all
  have "(8 * m + 5) div 6 = (8 * r + 5) div 6 + 4 * q" unfolding m by simp
  then have "(8 * m + 5) div 6 mod 4 = (8 * r + 5) div 6 mod 4" by (metis mod_mult_self2)
  moreover have "r = 0 \<or> r = 1 \<or> r = 2" using r by linarith
  ultimately show ?thesis by (elim disjE) simp_all
qed

lemma decode_unpadded:
  "decodeWithAlphabet text table 0 = Some bytes \<longleftrightarrow>
    bytes \<noteq> [] \<and> text = rfc4648Text alphabet kNoPadding bytes"
proof
  assume "decodeWithAlphabet text table 0 = Some bytes"
  then have shape: "text \<noteq> []" "length text mod 4 \<noteq> 1"
      and run: "decodeData table text (0, 0, []) = Some (0, bytes)"
    by (auto simp: decodeWithAlphabet_def Let_def split: if_splits option.splits)
  have hits: "\<forall>c \<in> set text. 0 \<le> table c"
    by (rule decodeData_Some [OF run])
  then have "decodes_to text (0, 0, []) (0, bytes)"
    using decodeData_succeeds [of "text" 0 0 "[]"] run by auto
  then have eq: "text = map ((!) alphabet) (sextets bytes)"
    using hits shape(2) by (rule data_is_sextets)
  then show "bytes \<noteq> [] \<and> text = rfc4648Text alphabet kNoPadding bytes"
    using shape(1) by (auto simp: rfc4648Text_def)
next
  assume asm: "bytes \<noteq> [] \<and> text = rfc4648Text alphabet kNoPadding bytes"
  then have eq: "text = map ((!) alphabet) (sextets bytes)" by (simp add: rfc4648Text_def)
  have "0 < length bytes" using asm by simp
  then have "0 < (8 * length bytes + 5) div 6"
    unfolding div_greater_zero_iff by linarith
  then have "length text \<noteq> 0" "length text mod 4 \<noteq> 1"
    unfolding eq length_map length_sextets using length_mod [of "length bytes"] by simp_all
  then show "decodeWithAlphabet text table 0 = Some bytes"
    using sextets_decode [of bytes] unfolding decodeWithAlphabet_def eq by auto
qed

lemma padding_fits:
  assumes "n = (8 * m + 5) div 6" "p \<le> 2" "(n + p) mod 4 = (0 :: nat)"
  shows "p = (3 - m mod 3) mod 3"
proof -
  define q r where "q = m div 3" and "r = m mod 3"
  then have m: "m = 3 * q + r" and r: "r < 3" by simp_all
  have "n = 4 * q + (8 * r + 5) div 6" unfolding assms(1) m by simp
  then have "((8 * r + 5) div 6 + p) mod 4 = 0" using assms(3) by (simp add: add.assoc)
  moreover have "r = 0 \<or> r = 1 \<or> r = 2" "p = 0 \<or> p = 1 \<or> p = 2" using r assms(2) by linarith+
  ultimately show ?thesis
    unfolding r_def [symmetric] by (elim disjE) simp_all
qed

lemma countPadding_replicate:
  assumes "p \<le> maximum" "p = maximum \<or> xs = [] \<or> hd xs \<noteq> kPaddingCharacter"
  shows "countPadding (replicate p kPaddingCharacter @ xs) maximum = p"
  using assms
proof (induction p arbitrary: maximum)
  case 0
  then show ?case by (cases "(xs, maximum)" rule: countPadding.cases) auto
next
  case (Suc p)
  then show ?case by (cases maximum) auto
qed

lemma countPadding_prefix:
  "\<exists>rest. xs = replicate (countPadding xs maximum) kPaddingCharacter @ rest \<and> countPadding xs maximum \<le> maximum"
  by (induction xs maximum rule: countPadding.induct) auto

lemma decode_padded:
  "decodeWithAlphabet text table 2 = Some bytes \<longleftrightarrow>
    bytes \<noteq> [] \<and> text = rfc4648Text alphabet kPaddingCharacter bytes"
proof
  let ?p = "countPadding (rev text) 2"
  define data where "data = take (length text - ?p) text"
  assume "decodeWithAlphabet text table 2 = Some bytes"
  then have shape: "text \<noteq> []" "length text mod 4 = 0"
      and run: "decodeData table data (0, 0, []) = Some (0, bytes)"
    by (auto simp: decodeWithAlphabet_def Let_def data_def split: if_splits option.splits)
  obtain rest where rest: "rev text = replicate ?p kPaddingCharacter @ rest" and le: "?p \<le> 2"
    using countPadding_prefix by blast
  have whole: "text = data @ replicate ?p kPaddingCharacter"
  proof -
    have "text = rev rest @ replicate ?p kPaddingCharacter"
      using rest by (metis rev_append rev_replicate rev_rev_ident)
    moreover from this have "data = rev rest"
      unfolding data_def by (metis add_diff_cancel_right' append_eq_conv_conj length_append length_replicate)
    ultimately show ?thesis by simp
  qed
  then have len: "(length data + ?p) mod 4 = 0"
    using shape(2) by (metis length_append length_replicate)
  have hits: "\<forall>c \<in> set data. 0 \<le> table c"
    by (rule decodeData_Some [OF run])
  then have "decodes_to data (0, 0, []) (0, bytes)"
    using decodeData_succeeds [of data 0 0 "[]"] run by auto
  moreover have "length data mod 4 \<noteq> 1" using len le by presburger
  ultimately have eq: "data = map ((!) alphabet) (sextets bytes)"
    using hits data_is_sextets by blast
  then have p: "?p = (3 - length bytes mod 3) mod 3"
    using padding_fits [of "length data" "length bytes" ?p] le len by (simp add: length_sextets)
  have "bytes \<noteq> []"
  proof
    assume "bytes = []"
    then have "text = []" using whole p eq by simp
    then show False using shape(1) by simp
  qed
  moreover have "kPaddingCharacter \<noteq> kNoPadding" by (simp add: kPaddingCharacter_def kNoPadding_def)
  ultimately show "bytes \<noteq> [] \<and> text = rfc4648Text alphabet kPaddingCharacter bytes"
    using whole eq p by (simp add: rfc4648Text_def)
next
  assume asm: "bytes \<noteq> [] \<and> text = rfc4648Text alphabet kPaddingCharacter bytes"
  let ?data = "map ((!) alphabet) (sextets bytes)"
  let ?p = "(3 - length bytes mod 3) mod 3"
  have "kPaddingCharacter \<noteq> kNoPadding" by (simp add: kPaddingCharacter_def kNoPadding_def)
  then have shape: "text = ?data @ replicate ?p kPaddingCharacter"
    using asm by (simp add: rfc4648Text_def)
  have "rev ?data = [] \<or> hd (rev ?data) \<noteq> kPaddingCharacter"
  proof (cases "rev ?data")
    case (Cons c cs)
    then have "c \<in> set ?data" by (metis list.set_intros(1) set_rev)
    then show ?thesis using Cons data_of_digits(2) [OF sextets_less] table_not_padding by auto
  qed simp
  then have p: "countPadding (rev text) 2 = ?p"
    unfolding shape rev_append rev_replicate by (intro countPadding_replicate) auto
  have "length text \<noteq> 0" "length text mod 4 = 0"
  proof -
    have "0 < length bytes" using asm by simp
    then have "0 < (8 * length bytes + 5) div 6"
      unfolding div_greater_zero_iff by linarith
    then show "length text \<noteq> 0" unfolding shape length_append length_map length_sextets by linarith
    define q r where "q = length bytes div 3" and "r = length bytes mod 3"
    then have m: "length bytes = 3 * q + r" and r: "r < 3" by simp_all
    have "length text = (8 * (3 * q + r) + 5) div 6 + (3 - r) mod 3"
      unfolding shape by (simp add: length_sextets m r)
    also have "(8 * (3 * q + r) + 5) div 6 = 4 * q + (8 * r + 5) div 6" by simp
    finally have n: "length text = 4 * q + ((8 * r + 5) div 6 + (3 - r) mod 3)" by simp
    consider "r = 0" | "r = 1" | "r = 2" using r by linarith
    then show "length text mod 4 = 0" unfolding n by cases simp_all
  qed
  moreover have "take (length text - ?p) text = ?data" unfolding shape by simp
  ultimately show "decodeWithAlphabet text table 2 = Some bytes"
    using sextets_decode [of bytes] unfolding decodeWithAlphabet_def p by (auto simp: Let_def)
qed

end

lemmas alphabet_defs = kBase64Alphabet_def kBase64UrlAlphabet_def kStandardDecodeTable_def kUrlDecodeTable_def
  Base64DecodeTable_def characters_def

lemma alphabet_length:
  "length kBase64Alphabet = 64" "length kBase64UrlAlphabet = 64"
  by (simp_all add: alphabet_defs)

lemma table_find:
  assumes "distinct alphabet" "n \<le> length alphabet"
  shows "i < n \<Longrightarrow> fold (\<lambda>index values. values (alphabet ! index := int index)) [0..<n] (\<lambda>_. - 1) (alphabet ! i) = int i"
    and "c \<notin> (!) alphabet ` {..<n} \<Longrightarrow> fold (\<lambda>index values. values (alphabet ! index := int index)) [0..<n] (\<lambda>_. - 1) c = - 1"
  using assms(2)
  by (induction n) (auto simp: nth_eq_iff_index_eq [OF assms(1)] less_Suc_eq image_iff)

lemma table_laws:
  assumes "distinct alphabet" "length alphabet = 64" "kPaddingCharacter \<notin> set alphabet"
  shows "base64_alphabet alphabet (Base64DecodeTable alphabet)"
proof
  show "length alphabet = 64" by fact
  show "Base64DecodeTable alphabet (alphabet ! i) = int i" if "i < 64" for i
    using table_find(1) [OF assms(1), of 64 i] assms(2) that by (simp add: Base64DecodeTable_def)
  have miss: "Base64DecodeTable alphabet c = - 1" if "c \<notin> set alphabet" for c
    using table_find(2) [OF assms(1), of 64 c] assms(2) that
    by (auto simp: Base64DecodeTable_def set_conv_nth)
  show "\<exists>i<64. c = alphabet ! i" if "0 \<le> Base64DecodeTable alphabet c" for c
    using miss [of c] that assms(2) by (fastforce simp: in_set_conv_nth)
  show "Base64DecodeTable alphabet kPaddingCharacter < 0"
    using miss [OF assms(3)] by simp
qed

interpretation standard: base64_alphabet kBase64Alphabet kStandardDecodeTable
  unfolding kStandardDecodeTable_def
  by (rule table_laws) (simp_all add: alphabet_length, (code_simp)+)

interpretation url: base64_alphabet kBase64UrlAlphabet kUrlDecodeTable
  unfolding kUrlDecodeTable_def
  by (rule table_laws) (simp_all add: alphabet_length, (code_simp)+)

text \<open>C38: The strict decoders accept exactly the canonical texts.\<close>

theorem base64_decode_iff:
  "(base64Decode text = Some bytes \<longleftrightarrow> bytes \<noteq> [] \<and> text = base64Encode bytes) \<and>
   (base64UrlDecode text = Some bytes \<longleftrightarrow> bytes \<noteq> [] \<and> text = base64UrlEncode bytes)"
  unfolding base64Decode_def base64Encode_def base64UrlDecode_def base64UrlEncode_def
    kMaximumBase64PaddingLength_def encodeWithAlphabet_is_rfc4648
  using standard.decode_padded [of "text" bytes] url.decode_unpadded [of "text" bytes] by simp

end
