(* ===== verification/WebSocketUtf8.thy ===== *)
theory WebSocketUtf8
  imports WordShift
begin

text \<open>
  \<open>Net/WebSocket/WebSocketUtf8.cpp\<close>: the check of text messages and close reasons. The
  specification is the encoder of RFC 3629 for Unicode scalar values; the code's position of
  the first invalid sequence is \<open>Some offset\<close>, \<open>npos\<close> is \<open>None\<close>.
\<close>

section \<open>The program\<close>

definition kContinuationByteMask :: byte where
  "kContinuationByteMask = 0xC0"

definition kContinuationByteValue :: byte where
  "kContinuationByteValue = 0x80"

definition kSurrogateMinimumCodePoint :: u32 where
  "kSurrogateMinimumCodePoint = 0xD800"

definition kSurrogateMaximumCodePoint :: u32 where
  "kSurrogateMaximumCodePoint = 0xDFFF"

definition kMaximumUnicodeCodePoint :: u32 where
  "kMaximumUnicodeCodePoint = 0x10FFFF"

definition utf8SequenceLength :: "byte \<Rightarrow> nat" where
  "utf8SequenceLength leadingByte =
    (if leadingByte < 0x80 then 1
     else if leadingByte AND 0xE0 = 0xC0 then 2
     else if leadingByte AND 0xF0 = 0xE0 then 3
     else if leadingByte AND 0xF8 = 0xF0 then 4
     else 0)"

primrec continuationLoop :: "bytes \<Rightarrow> u32 \<Rightarrow> u32 option" where
  "continuationLoop [] codePoint = Some codePoint"
| "continuationLoop (continuationByte # rest) codePoint =
    (if continuationByte AND kContinuationByteMask \<noteq> kContinuationByteValue then None
     else continuationLoop rest (push_bit 6 codePoint OR ucast (continuationByte AND 0x3F)))"

text \<open>One round of the loop over the bytes from \<open>offset\<close> on: the bytes to advance by, or
  \<open>None\<close> where the code returns \<open>offset\<close>.\<close>

definition sequenceAt :: "bytes \<Rightarrow> nat \<Rightarrow> nat option" where
  "sequenceAt content offset =
    (let leadingByte = content ! offset;
         sequenceLength = utf8SequenceLength leadingByte in
     if sequenceLength = 0 \<or> sequenceLength > length content - offset then None
     else if sequenceLength = 1 then Some 1
     else
       let codePoint = ucast (leadingByte AND drop_bit (sequenceLength + 1) 0xFF) in
       case continuationLoop (take (sequenceLength - 1) (drop (offset + 1) content)) codePoint of
         None \<Rightarrow> None
       | Some codePoint \<Rightarrow>
           let minimumCodePoint =
             (if sequenceLength = 2 then 0x80 else if sequenceLength = 3 then 0x800 else 0x10000) in
           if codePoint < minimumCodePoint then None
           else if codePoint \<ge> kSurrogateMinimumCodePoint \<and> codePoint \<le> kSurrogateMaximumCodePoint then None
           else if codePoint > kMaximumUnicodeCodePoint then None
           else Some sequenceLength)"

lemma sequenceAt_positive: "sequenceAt content offset = Some n \<Longrightarrow> 0 < n"
  by (auto simp: sequenceAt_def Let_def split: if_splits option.splits)

function validateFrom :: "bytes \<Rightarrow> nat \<Rightarrow> nat option" where
  "validateFrom content offset =
    (if offset < length content then
       (case sequenceAt content offset of
          None \<Rightarrow> Some offset
        | Some sequenceLength \<Rightarrow> validateFrom content (offset + sequenceLength))
     else None)"
  by pat_completeness auto
termination
  by (relation "measure (\<lambda>(content, offset). length content - offset)") (auto dest: sequenceAt_positive)

definition findInvalidWebSocketUtf8ByteOffset :: "bytes \<Rightarrow> nat option" where
  "findInvalidWebSocketUtf8ByteOffset content = validateFrom content 0"

definition isValidWebSocketUtf8 :: "bytes \<Rightarrow> bool" where
  "isValidWebSocketUtf8 content \<longleftrightarrow> findInvalidWebSocketUtf8ByteOffset content = None"

section \<open>RFC 3629\<close>

definition is_scalar :: "nat \<Rightarrow> bool" where
  "is_scalar c \<longleftrightarrow> c \<le> 0x10FFFF \<and> \<not> (0xD800 \<le> c \<and> c \<le> 0xDFFF)"

definition utf8_units :: "nat \<Rightarrow> nat list" where
  "utf8_units c =
    (if c < 0x80 then [c]
     else if c < 0x800 then [192 + c div 64, 128 + c mod 64]
     else if c < 0x10000 then [224 + c div 4096, 128 + c div 64 mod 64, 128 + c mod 64]
     else [240 + c div 262144, 128 + c div 4096 mod 64, 128 + c div 64 mod 64, 128 + c mod 64])"

definition utf8_encode :: "nat \<Rightarrow> bytes" where
  "utf8_encode c = map of_nat (utf8_units c)"

definition is_utf8 :: "bytes \<Rightarrow> bool" where
  "is_utf8 content \<longleftrightarrow> (\<exists>cs. (\<forall>c \<in> set cs. is_scalar c) \<and> content = concat (map utf8_encode cs))"

section \<open>Bytes as numbers\<close>

lemma unat_high: "unat (x AND NOT (mask k)) = unat (x :: 'a :: len word) div 2 ^ k * 2 ^ k"
proof -
  have "x AND NOT (mask k) = push_bit k (drop_bit k x)"
    by (intro bit_eqI) (auto simp: bit_simps)
  then have "unat (x AND NOT (mask k)) = take_bit LENGTH('a) (push_bit k (unat x div 2 ^ k))"
    by (simp only: unsigned_push_bit_eq unat_drop)
  moreover have "unat x div 2 ^ k * 2 ^ k < 2 ^ LENGTH('a)"
    using div_times_less_eq_dividend [of "unat x" "2 ^ k"] unsigned_less [of x, where 'a = nat]
    by (rule le_less_trans)
  ultimately show ?thesis
    by (simp add: push_bit_eq_mult take_bit_nat_eq_self)
qed

lemma masked_iff:
  assumes "m = NOT (mask k)" "unat v = n * 2 ^ k"
  shows "(x :: byte) AND m = v \<longleftrightarrow> unat x div 2 ^ k = n"
  unfolding assms(1) word_unat_eq_iff unat_high assms(2) by simp

lemma utf8SequenceLength_value:
  "utf8SequenceLength b =
    (if unat b < 128 then 1 else if unat b div 32 = 6 then 2
     else if unat b div 16 = 14 then 3 else if unat b div 8 = 30 then 4 else 0)"
proof -
  have "b AND 0xE0 = 0xC0 \<longleftrightarrow> unat b div 2 ^ 5 = 6" "b AND 0xF0 = 0xE0 \<longleftrightarrow> unat b div 2 ^ 4 = 14"
      "b AND 0xF8 = 0xF0 \<longleftrightarrow> unat b div 2 ^ 3 = 30"
    by (rule masked_iff; simp add: mask_eq_exp_minus_1)+
  then show ?thesis by (simp add: utf8SequenceLength_def word_less_nat_alt)
qed

lemma continuation_value:
  "b AND kContinuationByteMask = kContinuationByteValue \<longleftrightarrow> unat b div 64 = 2"
  unfolding kContinuationByteMask_def kContinuationByteValue_def
  by (subst masked_iff [where k = 6 and n = 2]) (simp_all add: mask_eq_exp_minus_1)

lemma low_bits_value:
  "unat (ucast (b AND 0x3F) :: u32) = unat (b :: byte) mod 64"
proof -
  have "(0x3F :: byte) = mask 6" by (simp add: mask_eq_exp_minus_1)
  then have "unat (b AND 0x3F) = unat b mod 2 ^ 6" by (simp only: unat_and_mask)
  then show ?thesis by (simp add: unsigned_ucast_eq take_bit_nat_eq_self)
qed

lemma continuationLoop_Cons:
  assumes "unat w < 2 ^ 20"
  shows "continuationLoop (b # rest) w = (if unat b div 64 = 2
    then continuationLoop rest (of_nat (unat w * 64 + unat b mod 64)) else None)"
proof -
  have "push_bit 6 w OR ucast (b AND 0x3F) = of_nat (unat w * 64 + unat b mod 64)"
  proof -
    have "unat (push_bit 6 w OR ucast (b AND 0x3F)) = unat w * 64 + unat b mod 64" (is "_ = ?n")
      using assms by (subst unat_push_or) (auto simp: low_bits_value)
    moreover have "?n < 2 ^ 32" using assms by simp
    then have "unat (of_nat ?n :: u32) = ?n" by (simp only: unat_of_nat) simp
    ultimately show ?thesis by (simp only: word_unat_eq_iff)
  qed
  then show ?thesis
    unfolding continuationLoop.simps continuation_value by (simp del: of_nat_add of_nat_mult of_nat_diff)
qed


lemma leading_value:
  assumes "n \<le> 4"
  shows "ucast ((b :: byte) AND drop_bit (n + 1) 0xFF) = (of_nat (unat b mod 2 ^ (7 - n)) :: u32)"
proof -
  have "drop_bit (n + 1) (0xFF :: byte) = mask (7 - n)"
  proof -
    have "(0xFF :: byte) = mask 8" by (simp add: mask_eq_exp_minus_1)
    moreover have "drop_bit (n + 1) (mask 8 :: byte) = mask (7 - n)"
      by (intro bit_eqI) (auto simp: bit_simps simp del: mask_numeral)
    ultimately show ?thesis by (simp only:)
  qed
  then have "unat (b AND drop_bit (n + 1) 0xFF) = unat b mod 2 ^ (7 - n)"
    by (simp only: unat_and_mask)
  moreover have "unat b mod 2 ^ (7 - n) < 256" using unat_byte_bound [of b] by (rule le_less_trans [OF mod_less_eq_dividend])
  ultimately show ?thesis
    by (simp add: word_unat_eq_iff unsigned_ucast_eq unat_of_nat take_bit_nat_eq_self)
qed

text \<open>A sequence read as numbers: what the code accepts at the head of \<open>bs\<close>.\<close>

definition sequence_value :: "nat list \<Rightarrow> nat \<Rightarrow> nat \<Rightarrow> bool" where
  "sequence_value us n v \<longleftrightarrow>
    (case us of
       [a] \<Rightarrow> n = 1 \<and> a < 128 \<and> v = a
     | [a, b] \<Rightarrow> n = 2 \<and> a div 32 = 6 \<and> b div 64 = 2 \<and> v = a mod 32 * 64 + b mod 64 \<and> 128 \<le> v
     | [a, b, c] \<Rightarrow> n = 3 \<and> a div 16 = 14 \<and> b div 64 = 2 \<and> c div 64 = 2 \<and>
         v = (a mod 16 * 64 + b mod 64) * 64 + c mod 64 \<and> 2048 \<le> v
     | [a, b, c, d] \<Rightarrow> n = 4 \<and> a div 8 = 30 \<and> b div 64 = 2 \<and> c div 64 = 2 \<and> d div 64 = 2 \<and>
         v = ((a mod 8 * 64 + b mod 64) * 64 + c mod 64) * 64 + d mod 64 \<and> 65536 \<le> v
     | _ \<Rightarrow> False)"

lemma digit_of: "x div k = q \<Longrightarrow> x = q * k + x mod (k :: nat)"
  by auto

lemma digits_below:
  "(q :: nat) < n \<Longrightarrow> q * 64 + r mod 64 < n * 64"
  using mod_less_divisor [of 64 r] by linarith

lemma digits_apart [simp]:
  "((q :: nat) * 64 + r mod 64) div 64 = q" "((q :: nat) * 64 + r mod 64) mod 64 = r mod 64"
  by simp_all

lemma tagged_digits:
  "x < 32 \<Longrightarrow> (192 + x) div 32 = 6 \<and> (192 + x) mod 32 = x"
  "x < 16 \<Longrightarrow> (224 + x) div 16 = 14 \<and> (224 + x) mod 16 = x"
  "x < 8 \<Longrightarrow> (240 + x) div 8 = 30 \<and> (240 + x) mod 8 = (x :: nat)"
  "(128 + y mod 64) div 64 = 2" "(128 + y mod 64) mod 64 = y mod (64 :: nat)"
  by (simp_all add: div_add1_eq mod_add_left_eq [symmetric])

lemma sequence_value_units:
  assumes "is_scalar v"
  shows "sequence_value us n v \<longleftrightarrow> us = utf8_units v \<and> n = length us"
proof
  assume seq: "sequence_value us n v"
  have parts: "x div 4096 = x div 64 div 64" "x div 262144 = x div 64 div 64 div 64" for x :: nat
    by (simp_all add: div_mult2_eq [symmetric])
  consider a where "us = [a]" | a b where "us = [a, b]" | a b c where "us = [a, b, c]"
    | a b c d where "us = [a, b, c, d]"
    using seq by (auto simp: sequence_value_def split: list.splits)
  then show "us = utf8_units v \<and> n = length us"
  proof cases
    case 1
    then show ?thesis using seq by (simp add: sequence_value_def utf8_units_def)
  next
    case (2 a b)
    have "v < 32 * 64" and seq2: "n = 2" "a div 32 = 6" "b div 64 = 2" "128 \<le> v" "v = a mod 32 * 64 + b mod 64"
      using seq digits_below [of "a mod 32" 32 b] unfolding 2 sequence_value_def by simp_all
    then have "utf8_units v = [192 + a mod 32, 128 + b mod 64]"
      unfolding utf8_units_def by simp
    then show ?thesis
      using 2 seq2(1) digit_of [OF seq2(2)] digit_of [OF seq2(3)] by simp
  next
    case (3 a b c)
    define q where "q = a mod 16 * 64 + b mod 64"
    have "q < 1024" using digits_below [of "a mod 16" 16 b] by (simp add: q_def)
    moreover have seq3: "n = 3" "a div 16 = 14" "b div 64 = 2" "c div 64 = 2" "2048 \<le> v" "v = q * 64 + c mod 64"
      using seq unfolding 3 sequence_value_def q_def by simp_all
    ultimately have "utf8_units v = [224 + q div 64, 128 + q mod 64, 128 + c mod 64]"
      unfolding utf8_units_def parts using digits_below [of q 1024 c] by simp
    then show ?thesis
      using 3 seq3(1) digit_of [OF seq3(2)] digit_of [OF seq3(3)] digit_of [OF seq3(4)] by (simp add: q_def)
  next
    case (4 a b c d)
    define p where "p = a mod 8 * 64 + b mod 64"
    define q where "q = p * 64 + c mod 64"
    have seq4: "n = 4" "a div 8 = 30" "b div 64 = 2" "c div 64 = 2" "d div 64 = 2" "65536 \<le> v" "v = q * 64 + d mod 64"
      using seq unfolding 4 sequence_value_def p_def q_def by simp_all
    then have "utf8_units v = [240 + q div 64 div 64, 128 + q div 64 mod 64, 128 + q mod 64, 128 + d mod 64]"
      unfolding utf8_units_def parts by simp
    then have "utf8_units v = [240 + p div 64, 128 + p mod 64, 128 + c mod 64, 128 + d mod 64]"
      by (simp only: q_def digits_apart)
    then show ?thesis
      using 4 seq4(1) digit_of [OF seq4(2)] digit_of [OF seq4(3)] digit_of [OF seq4(4)] digit_of [OF seq4(5)]
      by (simp add: p_def)
  qed
next
  assume us: "us = utf8_units v \<and> n = length us"
  have whole: "(x :: nat) div 64 * 64 + x mod 64 = x" for x
    by simp
  have parts: "x div 4096 = x div 64 div 64" "x div 262144 = x div 64 div 64 div 64" for x :: nat
    by (simp_all add: div_mult2_eq [symmetric])
  have small: "v < 1114112" using assms by (simp add: is_scalar_def)
  consider "v < 0x80" | "0x80 \<le> v" "v < 0x800" | "0x800 \<le> v" "v < 0x10000" | "0x10000 \<le> v"
    by linarith
  then show "sequence_value us n v"
  proof cases
    case 1
    then show ?thesis using us by (simp add: sequence_value_def utf8_units_def)
  next
    case 2
    then have "v div 64 < 32" by simp
    then show ?thesis using us 2 by (simp add: sequence_value_def utf8_units_def tagged_digits)
  next
    case 3
    then have "v div 64 div 64 < 16" by (simp add: div_mult2_eq [symmetric])
    then show ?thesis
      using us 3 by (simp add: sequence_value_def utf8_units_def parts tagged_digits)
        (use div_mult_mod_eq [of v 64] div_mult_mod_eq [of "v div 64" 64]
           div_mult_mod_eq [of "v div 64 div 64" 64] in linarith)
  next
    case 4
    then have "v div 64 div 64 div 64 < 8" using small by (simp add: div_mult2_eq [symmetric])
    then show ?thesis
      using us 4 by (simp add: sequence_value_def utf8_units_def parts tagged_digits)
        (use div_mult_mod_eq [of v 64] div_mult_mod_eq [of "v div 64" 64]
           div_mult_mod_eq [of "v div 64 div 64" 64] in linarith)
  qed
qed


text \<open>The code's test on the bytes that start at an offset.\<close>

definition accepts :: "bytes \<Rightarrow> nat \<Rightarrow> nat \<Rightarrow> bool" where
  "accepts bs n v \<longleftrightarrow> n \<le> length bs \<and> sequence_value (map unat (take n bs)) n v \<and> is_scalar v"

lemma in_block: "x div k = q \<Longrightarrow> 0 < k \<Longrightarrow> q * k \<le> x \<and> x < q * k + (k :: nat)"
  using digit_of [of x k q] mod_less_divisor [of k x] by linarith

lemma lead_ranges:
  "(x :: nat) div 32 = 6 \<Longrightarrow> 192 \<le> x \<and> x < 224" "(x :: nat) div 16 = 14 \<Longrightarrow> 224 \<le> x \<and> x < 240"
  "(x :: nat) div 8 = 30 \<Longrightarrow> 240 \<le> x \<and> x < 248"
  using in_block [of x 32 6] in_block [of x 16 14] in_block [of x 8 30] by simp_all

lemma accepts_length:
  assumes "accepts (b # rest) n v"
  shows "n = utf8SequenceLength b \<and> 0 < n"
proof -
  have seq: "sequence_value (map unat (take n (b # rest))) n v" and "n \<le> length (b # rest)"
    using assms by (simp_all add: accepts_def)
  then have "0 < n" by (auto simp: sequence_value_def split: list.splits)
  then obtain m where m: "n = Suc m" by (cases n) auto
  then have seq: "sequence_value (unat b # map unat (take m rest)) n v" using seq by simp
  have "n = 1 \<and> unat b < 128 \<or> n = 2 \<and> unat b div 32 = 6 \<or> n = 3 \<and> unat b div 16 = 14 \<or>
      n = 4 \<and> unat b div 8 = 30"
    using seq unfolding sequence_value_def by (simp split: list.splits)
  moreover note lead_ranges [of "unat b"]
  moreover have "\<not> unat b div 32 = 6" if "224 \<le> unat b" using lead_ranges(1) [of "unat b"] that by linarith
  moreover have "\<not> unat b div 16 = 14" if "240 \<le> unat b" using lead_ranges(2) [of "unat b"] that by linarith
  ultimately show ?thesis
    unfolding utf8SequenceLength_value by (elim disjE conjE) simp_all
qed

definition final_checks :: "nat \<Rightarrow> u32 \<Rightarrow> nat option" where
  "final_checks sequenceLength codePoint =
     (let minimumCodePoint =
        (if sequenceLength = 2 then 0x80 else if sequenceLength = 3 then 0x800 else 0x10000) in
      if codePoint < minimumCodePoint then None
      else if codePoint \<ge> kSurrogateMinimumCodePoint \<and> codePoint \<le> kSurrogateMaximumCodePoint then None
      else if codePoint > kMaximumUnicodeCodePoint then None
      else Some sequenceLength)"

lemma final_checks_value:
  assumes "v < 2 ^ 32"
  shows "final_checks n (of_nat v) = Some m \<longleftrightarrow>
    m = n \<and> (if n = 2 then 0x80 else if n = 3 then 0x800 else 0x10000) \<le> v \<and> is_scalar v"
proof -
  have "unat (of_nat v :: u32) = v" using assms by (simp only: unat_of_nat) simp
  then show ?thesis
    by (auto simp: final_checks_def Let_def is_scalar_def word_less_nat_alt word_le_nat_alt kSurrogateMinimumCodePoint_def
        kSurrogateMaximumCodePoint_def kMaximumUnicodeCodePoint_def)
qed

lemma sequenceAt_unfold:
  assumes "drop offset content = b # rest" "offset < length content"
  shows "sequenceAt content offset =
    (let n = utf8SequenceLength b in
     if n = 0 \<or> n > Suc (length rest) then None
     else if n = 1 then Some 1
     else case continuationLoop (take (n - 1) rest) (of_nat (unat b mod 2 ^ (7 - n))) of
       None \<Rightarrow> None | Some codePoint \<Rightarrow> final_checks n codePoint)"
proof -
  have "content ! offset = b"
    using assms by (metis hd_drop_conv_nth list.sel(1))
  moreover have "drop (offset + 1) content = rest"
    using assms by (metis Suc_eq_plus1 drop_Suc list.sel(3) tl_drop)
  moreover have "length content - offset = Suc (length rest)"
    using assms by (metis length_Cons length_drop)
  moreover have "ucast (b AND drop_bit (utf8SequenceLength b + 1) 0xFF)
      = (of_nat (unat b mod 2 ^ (7 - utf8SequenceLength b)) :: u32)"
    by (rule leading_value) (simp add: utf8SequenceLength_def)
  ultimately show ?thesis
    unfolding sequenceAt_def final_checks_def by (simp only: Let_def)
qed

lemma unat_small: "v < 2 ^ 32 \<Longrightarrow> unat (of_nat v :: u32) = v"
  by (simp only: unat_of_nat) simp

lemma continuationLoop_nat:
  assumes "w < 2 ^ 20"
  shows "continuationLoop (b # rest) (of_nat w) = (if unat b div 64 = 2
    then continuationLoop rest (of_nat (w * 64 + unat b mod 64)) else None)"
proof -
  have "unat (of_nat w :: u32) = w" using assms by (intro unat_small) simp
  then show ?thesis using continuationLoop_Cons [of "of_nat w" b rest] assms by (simp only: if_True)
qed

lemma shifted_below: "w < n \<Longrightarrow> w * 64 + unat (b :: byte) mod 64 < n * 64"
  using mod_less_divisor [of 64 "unat b"] by linarith

lemma utf8SequenceLength_cases:
  obtains "utf8SequenceLength b = 0"
  | "utf8SequenceLength b = 1" "unat b < 128"
  | "utf8SequenceLength b = 2" "unat b div 32 = 6"
  | "utf8SequenceLength b = 3" "unat b div 16 = 14"
  | "utf8SequenceLength b = 4" "unat b div 8 = 30"
  unfolding utf8SequenceLength_value
  by (cases "unat b < 128"; cases "unat b div 32 = 6"; cases "unat b div 16 = 14"; cases "unat b div 8 = 30"; simp)

lemma sequenceAt_accepts:
  assumes "drop offset content = b # rest" "offset < length content"
  shows "sequenceAt content offset = Some n \<longleftrightarrow> (\<exists>v. accepts (b # rest) n v)"
proof -
  let ?n = "utf8SequenceLength b"
  note unfolds = sequenceAt_unfold [OF assms] Let_def
  have "sequenceAt content offset = Some n \<Longrightarrow> n = ?n"
    by (auto simp: unfolds final_checks_def split: if_splits option.splits)
  moreover have "accepts (b # rest) n v \<Longrightarrow> n = ?n" for v
    using accepts_length by blast
  moreover have "sequenceAt content offset = Some ?n \<longleftrightarrow> (\<exists>v. accepts (b # rest) ?n v)"
  proof (cases b rule: utf8SequenceLength_cases)
    case 1
    then show ?thesis using accepts_length [of b rest 0] by (auto simp: unfolds)
  next
    case 2
    then show ?thesis by (auto simp: unfolds accepts_def sequence_value_def is_scalar_def)
  next
    case 3
    show ?thesis
    proof (cases rest)
      case Nil
      then show ?thesis using 3 by (simp add: unfolds accepts_def)
    next
      case (Cons c r)
      have "unat b mod 32 < 2 ^ 20" by (rule less_trans [of _ 32]) simp_all
      moreover have "unat b mod 32 * 64 + unat c mod 64 < 2 ^ 32"
        by (rule less_trans [OF shifted_below [of _ 32]]) simp_all
      ultimately show ?thesis
        using 3 Cons by (auto simp: unfolds continuationLoop_nat final_checks_value accepts_def
            sequence_value_def simp del: of_nat_add of_nat_mult continuationLoop.simps(2))
    qed
  next
    case 4
    show ?thesis
    proof (cases "length rest < 2")
      case True
      then show ?thesis using 4 by (simp add: unfolds accepts_def)
    next
      case False
      then obtain c d r where rest: "rest = c # d # r"
        by (cases rest; cases "tl rest") auto
      have "unat b mod 16 < 16" by simp
      then have w1: "unat b mod 16 * 64 + unat c mod 64 < 16 * 64" by (rule shifted_below)
      then have "(unat b mod 16 * 64 + unat c mod 64) * 64 + unat d mod 64 < 16 * 64 * 64" by (rule shifted_below)
      then show ?thesis
        using 4 rest w1 by (auto simp: unfolds continuationLoop_nat final_checks_value accepts_def
            sequence_value_def simp del: of_nat_add of_nat_mult continuationLoop.simps(2))
    qed
  next
    case 5
    show ?thesis
    proof (cases "length rest < 3")
      case True
      then show ?thesis using 5 by (simp add: unfolds accepts_def)
    next
      case False
      then obtain c d e r where rest: "rest = c # d # e # r"
        by (cases rest; cases "tl rest"; cases "tl (tl rest)") auto
      have "unat b mod 8 < 8" by simp
      then have w1: "unat b mod 8 * 64 + unat c mod 64 < 8 * 64" by (rule shifted_below)
      then have w2: "(unat b mod 8 * 64 + unat c mod 64) * 64 + unat d mod 64 < 8 * 64 * 64" by (rule shifted_below)
      then have "((unat b mod 8 * 64 + unat c mod 64) * 64 + unat d mod 64) * 64 + unat e mod 64 < 8 * 64 * 64 * 64"
        by (rule shifted_below)
      then show ?thesis
        using 5 rest w1 w2 by (auto simp: unfolds continuationLoop_nat final_checks_value accepts_def
            sequence_value_def simp del: of_nat_add of_nat_mult continuationLoop.simps(2))
    qed
  qed
  ultimately show ?thesis by blast
qed


lemma length_utf8_encode: "0 < length (utf8_encode c)"
  by (simp add: utf8_encode_def utf8_units_def)

lemma units_below: "is_scalar c \<Longrightarrow> \<forall>u \<in> set (utf8_units c). u < 256"
proof -
  assume "is_scalar c"
  then have "c < 1114112" by (simp add: is_scalar_def)
  then have "c div 262144 < 8" by simp
  moreover have "c < 65536 \<Longrightarrow> c div 4096 < 16" "c < 2048 \<Longrightarrow> c div 64 < 32"
    by simp_all
  moreover have "x mod 64 < 64" for x :: nat by simp
  ultimately show ?thesis
    unfolding utf8_units_def by auto
qed

lemma unat_utf8_encode: "is_scalar c \<Longrightarrow> map unat (utf8_encode c) = utf8_units c"
  using units_below [of c] by (auto simp: utf8_encode_def unat_of_nat intro!: map_idI)

lemma accepts_encode:
  "accepts bs n v \<longleftrightarrow> is_scalar v \<and> n = length (utf8_encode v) \<and> (\<exists>r. bs = utf8_encode v @ r)"
proof
  assume "accepts bs n v"
  then have n: "n \<le> length bs" "is_scalar v" and "map unat (take n bs) = utf8_units v \<and> n = length (map unat (take n bs))"
    using sequence_value_units by (auto simp: accepts_def)
  then have "map unat (take n bs) = map unat (utf8_encode v)" by (simp add: unat_utf8_encode)
  then have "take n bs = utf8_encode v"
    by (rule map_injective) (auto intro: injI)
  then show "is_scalar v \<and> n = length (utf8_encode v) \<and> (\<exists>r. bs = utf8_encode v @ r)"
    using n by (metis append_take_drop_id length_take min.absorb2)
next
  assume asm: "is_scalar v \<and> n = length (utf8_encode v) \<and> (\<exists>r. bs = utf8_encode v @ r)"
  then have "take n bs = utf8_encode v" "n \<le> length bs" by auto
  moreover have "length (utf8_units v) = n" using asm by (simp add: utf8_encode_def)
  ultimately show "accepts bs n v"
    using asm by (simp add: accepts_def unat_utf8_encode sequence_value_units)
qed

corollary sequenceAt_encode:
  assumes "offset < length content"
  shows "sequenceAt content offset = Some n \<longleftrightarrow>
    (\<exists>v r. is_scalar v \<and> drop offset content = utf8_encode v @ r \<and> n = length (utf8_encode v))"
proof -
  obtain b rest where "drop offset content = b # rest"
    using assms by (metis Cons_nth_drop_Suc)
  then show ?thesis
    using sequenceAt_accepts [of offset content b rest n] assms by (auto simp: accepts_encode)
qed

section \<open>The check decides RFC 3629\<close>

text \<open>The bytes from \<open>offset\<close> to \<open>stop\<close> are well formed and no scalar value starts at \<open>stop\<close>.\<close>

definition first_violation :: "bytes \<Rightarrow> nat \<Rightarrow> bool" where
  "first_violation content stop \<longleftrightarrow> stop < length content \<and> is_utf8 (take stop content) \<and>
    (\<forall>v. is_scalar v \<longrightarrow> \<not> (\<exists>r. drop stop content = utf8_encode v @ r))"

lemma is_utf8_Nil [simp]: "is_utf8 []"
  unfolding is_utf8_def by (rule exI [of _ "[]"]) simp

lemma is_utf8_snoc:
  assumes "is_utf8 content" "is_scalar v"
  shows "is_utf8 (content @ utf8_encode v)"
proof -
  obtain cs where "\<forall>c \<in> set cs. is_scalar c" "content = concat (map utf8_encode cs)"
    using assms(1) by (auto simp: is_utf8_def)
  then show ?thesis
    unfolding is_utf8_def using assms(2) by (intro exI [of _ "cs @ [v]"]) auto
qed

lemma validateFrom_spec:
  assumes "is_utf8 (take offset content)" "offset \<le> length content"
  shows "case validateFrom content offset of None \<Rightarrow> is_utf8 content | Some stop \<Rightarrow> first_violation content stop"
  using assms
proof (induction content offset rule: validateFrom.induct)
  case (1 content offset)
  show ?case
  proof (cases "offset < length content")
    case False
    then show ?thesis using "1.prems" by (simp add: validateFrom.simps [of content offset])
  next
    case True
    show ?thesis
    proof (cases "sequenceAt content offset")
      case None
      then have "first_violation content offset"
        using True "1.prems" sequenceAt_encode [OF True] by (fastforce simp: first_violation_def)
      then show ?thesis using True None by (simp add: validateFrom.simps [of content offset])
    next
      case (Some n)
      then obtain v r where v: "is_scalar v" "drop offset content = utf8_encode v @ r" "n = length (utf8_encode v)"
        using sequenceAt_encode [OF True] by blast
      have "take (offset + n) content = take offset content @ utf8_encode v"
        using v by (simp add: take_add)
      moreover have "offset + n \<le> length content"
        using v(2,3) True by (metis add.commute le_diff_conv2 length_append length_drop le_add1 less_imp_le)
      ultimately show ?thesis
        using "1.IH" [OF True Some] Some True is_utf8_snoc [OF "1.prems"(1) v(1)]
        by (simp add: validateFrom.simps [of content offset])
    qed
  qed
qed

lemma utf8_prefix_free:
  assumes "is_scalar v" "is_scalar w" "utf8_encode v @ r = utf8_encode w @ r'"
  shows "v = w"
proof -
  let ?bs = "utf8_encode v @ r"
  have acc: "accepts ?bs (length (utf8_encode v)) v" "accepts ?bs (length (utf8_encode w)) w"
    using assms unfolding accepts_encode by blast+
  obtain b rest where bs: "?bs = b # rest"
    using length_utf8_encode [of v] by (cases "utf8_encode v") auto
  then have "length (utf8_encode v) = length (utf8_encode w)"
    using acc accepts_length by metis
  then have "utf8_encode v = utf8_encode w" using assms(3) by simp
  then have "utf8_units v = utf8_units w"
    using assms(1,2) by (metis unat_utf8_encode)
  then have "sequence_value (utf8_units v) (length (utf8_units v)) v"
      "sequence_value (utf8_units v) (length (utf8_units v)) w"
    using sequence_value_units assms(1,2) by simp_all
  then show ?thesis
    by (auto simp: sequence_value_def split: list.splits)
qed

lemma encodings_prefix:
  assumes "concat (map utf8_encode ds) @ rest = concat (map utf8_encode cs)"
    "\<forall>d \<in> set ds. is_scalar d" "\<forall>c \<in> set cs. is_scalar c"
  shows "\<exists>es. (\<forall>c \<in> set es. is_scalar c) \<and> rest = concat (map utf8_encode es)"
  using assms
proof (induction ds arbitrary: cs)
  case Nil
  then show ?case by auto
next
  case (Cons d ds)
  show ?case
  proof (cases cs)
    case Nil
    then show ?thesis using Cons.prems(1) length_utf8_encode [of d] by simp
  next
    case (Cons c cs')
    then have "d = c"
      using Cons.prems utf8_prefix_free [of d c] by auto
    then show ?thesis
      using Cons.prems Cons by (intro Cons.IH [of cs']) auto
  qed
qed

lemma scalar_follows:
  assumes "is_utf8 (take start content)" "is_utf8 (take stop content)" "start < stop" "stop \<le> length content"
  shows "\<exists>v r. is_scalar v \<and> drop start content = utf8_encode v @ r"
proof -
  obtain ds where ds: "\<forall>d \<in> set ds. is_scalar d" "take start content = concat (map utf8_encode ds)"
    using assms(1) by (auto simp: is_utf8_def)
  obtain cs where cs: "\<forall>c \<in> set cs. is_scalar c" "take stop content = concat (map utf8_encode cs)"
    using assms(2) by (auto simp: is_utf8_def)
  let ?middle = "drop start (take stop content)"
  have "take start content @ ?middle = take stop content"
    using assms(3) by (metis append_take_drop_id less_imp_le min.absorb1 take_take)
  then have "concat (map utf8_encode ds) @ ?middle = concat (map utf8_encode cs)"
    using ds(2) cs(2) by simp
  then obtain es where es: "\<forall>c \<in> set es. is_scalar c" "?middle = concat (map utf8_encode es)"
    using encodings_prefix ds(1) cs(1) by blast
  moreover have "?middle \<noteq> []" using assms(3,4) by simp
  ultimately obtain e es' where e: "es = e # es'" by (cases es) auto
  have "drop start content = ?middle @ drop stop content"
    using assms(3) by (metis append_take_drop_id drop_append drop_take le_add_diff_inverse less_imp_le drop_drop add.commute take_drop)
  then show ?thesis using es e by auto
qed

lemma first_violation_unique:
  assumes "first_violation content a" "first_violation content b"
  shows "a = b"
proof -
  have False if "first_violation content x" "first_violation content y" "x < y" for x y
    using scalar_follows [of x content y] that by (auto simp: first_violation_def)
  then show ?thesis using assms by (meson linorder_neqE_nat)
qed

lemma no_violation_if_utf8:
  assumes "is_utf8 content"
  shows "\<not> first_violation content stop"
  using scalar_follows [of stop content "length content"] assms by (auto simp: first_violation_def)

lemma utf8_outcome:
  "case findInvalidWebSocketUtf8ByteOffset content of
     None \<Rightarrow> is_utf8 content
   | Some stop \<Rightarrow> first_violation content stop"
  using validateFrom_spec [of 0 content]
  by (simp add: findInvalidWebSocketUtf8ByteOffset_def)

text \<open>C39: A text is accepted exactly if it is the UTF-8 encoding of some Unicode scalar values
  (RFC 3629: no overlong form, no surrogate, nothing above U+10FFFF, nothing truncated).\<close>

theorem utf8_valid_iff:
  "isValidWebSocketUtf8 content \<longleftrightarrow> is_utf8 content"
proof (cases "findInvalidWebSocketUtf8ByteOffset content")
  case None
  then show ?thesis using utf8_outcome [of content] by (simp add: isValidWebSocketUtf8_def)
next
  case (Some stop)
  then have "first_violation content stop" using utf8_outcome [of content] by simp
  then show ?thesis using Some no_violation_if_utf8 by (auto simp: isValidWebSocketUtf8_def)
qed

text \<open>C40: The reported offset is the only place where everything before is well formed and no
  scalar value starts; no offset is reported exactly if there is no such place.\<close>

theorem utf8_offset_is_first_violation:
  "findInvalidWebSocketUtf8ByteOffset content = Some stop \<longleftrightarrow> first_violation content stop"
proof (cases "findInvalidWebSocketUtf8ByteOffset content")
  case None
  then show ?thesis using utf8_outcome [of content] no_violation_if_utf8 [of content] by auto
next
  case (Some other)
  then show ?thesis using utf8_outcome [of content] first_violation_unique [of content] by auto
qed

end
