(* ===== verification/QuicStreams.thy ===== *)
theory QuicStreams
  imports QuicParameters QuicReassembly QuicFrame QuicRecovery
begin

text \<open>
  The stream layer of a connection, \<open>src/Net/Quic/Streams/QuicStreamLayer.{h,cpp}\<close>: stream
  identifiers and limits, flow control of both directions, reassembly of what arrives,
  the queues of what is sent, lost and acknowledged, aborts, and the retirement of settled
  streams. A frame handler returns the violation (its error code, the text is left out)
  and the layer; the layer is kept on a violation too, as the object is. Byte budgets and the
  sizes of containers are natural numbers, offsets and limits 64-bit words.
\<close>

section \<open>Data\<close>

record QuicStreamDelivery =
  delivery_streamId :: u64
  delivery_bytes :: bytes
  delivery_isFinal :: bool

record QuicAbortedStream =
  aborted_streamId :: u64
  aborted_applicationErrorCode :: u64
  aborted_isResetByPeer :: bool

record QuicStreamChunk =
  chunk_beginOffset :: u64
  chunk_bytes :: bytes
  chunk_isFinal :: bool

record AbortAnnouncement =
  abort_applicationErrorCode :: u64
  abort_finalSize :: u64
  abort_isInFlight :: bool
  abort_isAcknowledged :: bool

record OutgoingStream =
  out_pendingQueue :: "QuicStreamChunk list"
  out_inFlight :: "(u64, QuicStreamChunk) std_map"
  out_nextWriteOffset :: u64
  out_sentHighWater :: u64
  out_streamLimit :: u64
  out_finalOffset :: "u64 option"
  out_sendAbort :: "AbortAnnouncement option"
  out_isFinalSentToPeer :: bool
  out_isAborted :: bool

record IncomingStream =
  in_reassembly :: QuicReassemblyBuffer
  in_consumedByteCount :: u64
  in_discardedByteCount :: u64
  in_receivedHighWaterOffset :: u64
  in_streamLimit :: u64
  in_finalOffset :: "u64 option"
  in_receiveStop :: "AbortAnnouncement option"
  in_isFinished :: bool
  in_isFinalDelivered :: bool
  in_isReset :: bool
  in_windowUpdatePending :: bool

definition freshOutgoing :: OutgoingStream where
  "freshOutgoing = \<lparr>out_pendingQueue = [], out_inFlight = [], out_nextWriteOffset = 0,
     out_sentHighWater = 0, out_streamLimit = 0, out_finalOffset = None, out_sendAbort = None,
     out_isFinalSentToPeer = False, out_isAborted = False\<rparr>"

definition freshIncoming :: IncomingStream where
  "freshIncoming = \<lparr>in_reassembly = emptyReassemblyBuffer, in_consumedByteCount = 0,
     in_discardedByteCount = 0, in_receivedHighWaterOffset = 0, in_streamLimit = 0,
     in_finalOffset = None, in_receiveStop = None, in_isFinished = False,
     in_isFinalDelivered = False, in_isReset = False, in_windowUpdatePending = False\<rparr>"

section \<open>The queue of events for the application\<close>

text \<open>\<open>PendingQueue\<close>: a vector and the position of the next item to hand out; the consumed
  front is erased when it is half of the vector.\<close>

record 'a PendingQueue =
  m_items :: "'a list"
  m_readPosition :: nat

definition emptyQueue :: "'a PendingQueue" where
  "emptyQueue = \<lparr>m_items = [], m_readPosition = 0\<rparr>"

definition queuePushBack :: "'a \<Rightarrow> 'a PendingQueue \<Rightarrow> 'a PendingQueue" where
  "queuePushBack item q = q\<lparr>m_items := m_items q @ [item]\<rparr>"

definition queueEmpty :: "'a PendingQueue \<Rightarrow> bool" where
  "queueEmpty q \<longleftrightarrow> m_readPosition q = length (m_items q)"

definition queueTakeFront :: "'a PendingQueue \<Rightarrow> 'a option \<times> 'a PendingQueue" where
  "queueTakeFront q =
    (if queueEmpty q then (None, q)
     else
       let taken = m_items q ! m_readPosition q;
           position = Suc (m_readPosition q)
       in (Some taken,
           if position * 2 \<ge> length (m_items q)
           then q\<lparr>m_items := drop position (m_items q), m_readPosition := 0\<rparr>
           else q\<lparr>m_readPosition := position\<rparr>))"

text \<open>What the layer relies on: first in, first out.\<close>

locale fifo =
  fixes valid :: "'q \<Rightarrow> bool"
    and items :: "'q \<Rightarrow> 'a list"
    and push :: "'a \<Rightarrow> 'q \<Rightarrow> 'q"
    and take_front :: "'q \<Rightarrow> 'a option \<times> 'q"
  assumes valid_push: "valid q \<Longrightarrow> valid (push a q)"
    and items_push: "valid q \<Longrightarrow> items (push a q) = items q @ [a]"
    and take_empty: "valid q \<Longrightarrow> items q = [] \<Longrightarrow> take_front q = (None, q)"
    and take_first: "valid q \<Longrightarrow> items q = a # as \<Longrightarrow>
      \<exists>q'. take_front q = (Some a, q') \<and> items q' = as \<and> valid q'"
begin

fun take_all :: "nat \<Rightarrow> 'q \<Rightarrow> 'a list" where
  "take_all 0 q = []"
| "take_all (Suc n) q = (case take_front q of (None, q') \<Rightarrow> [] | (Some a, q') \<Rightarrow> a # take_all n q')"

lemma take_all_items: "valid q \<Longrightarrow> take_all (length (items q)) q = items q"
proof (induction "items q" arbitrary: q)
  case Nil
  then show ?case by simp
next
  case (Cons a as)
  obtain q' where q': "take_front q = (Some a, q')" "items q' = as" "valid q'"
    using take_first [OF Cons.prems Cons.hyps(2) [symmetric]] by blast
  have "take_all (length (items q)) q = take_all (Suc (length (items q'))) q"
    using Cons.hyps(2) q'(2) by (metis length_Cons)
  also have "\<dots> = a # items q'"
    using q' Cons.hyps(1) [of q'] by simp
  finally show ?case using q' Cons.hyps(2) by simp
qed

lemma valid_take: "valid q \<Longrightarrow> valid (snd (take_front q))"
  by (cases "items q") (use take_empty take_first in fastforce)+

end

definition queued :: "'a PendingQueue \<Rightarrow> 'a list" where
  "queued q = drop (m_readPosition q) (m_items q)"

definition queueValid :: "'a PendingQueue \<Rightarrow> bool" where
  "queueValid q \<longleftrightarrow> m_readPosition q \<le> length (m_items q)"

interpretation pending: fifo queueValid queued queuePushBack queueTakeFront
proof
  fix q :: "'a PendingQueue" and a as
  assume valid: "queueValid q"
  show "queueValid (queuePushBack a q)" "queued (queuePushBack a q) = queued q @ [a]"
    using valid by (simp_all add: queueValid_def queuePushBack_def queued_def)
  show "queueTakeFront q = (None, q)" if "queued q = []"
    using valid that by (simp add: queueTakeFront_def queueEmpty_def queueValid_def queued_def)
  assume queue: "queued q = a # as"
  then have less: "m_readPosition q < length (m_items q)"
    unfolding queued_def by (metis drop_eq_Nil list.distinct(1) not_le)
  then have "m_items q ! m_readPosition q = a" "drop (Suc (m_readPosition q)) (m_items q) = as"
    using queue by (simp_all add: queued_def Cons_nth_drop_Suc [symmetric])
  then show "\<exists>q'. queueTakeFront q = (Some a, q') \<and> queued q' = as \<and> queueValid q'"
    using less by (auto simp: queueTakeFront_def queueEmpty_def Let_def queued_def queueValid_def)
qed

section \<open>The layer\<close>

record QuicStreamLayer =
  m_localParameters :: QuicTransportParameters
  m_peerParameters :: QuicTransportParameters
  m_hasPeerParameters :: bool
  m_incoming :: "(u64, IncomingStream) std_map"
  m_outgoing :: "(u64, OutgoingStream) std_map"
  m_nextSendStreamId :: u64
  m_retiredPeerStreamBoundaries :: "nat \<Rightarrow> nat \<Rightarrow> u64"
  m_retiredLocalBidiBoundaries :: "nat \<Rightarrow> u64"
  m_retiredLocalBidiGaps :: "nat \<Rightarrow> u64 list"
  m_deliveries :: "QuicStreamDelivery PendingQueue"
  m_abortedStreams :: "QuicAbortedStream PendingQueue"
  m_drainedSendByteCount :: nat
  m_connectionReceivedBytes :: u64
  m_connectionConsumedBytes :: u64
  m_connectionAdvertisedLimit :: u64
  m_connectionWindowUpdatePending :: bool
  m_connectionSentHighWater :: u64
  m_connectionSendLimit :: u64
  m_incomingBidirectionalCount :: u64
  m_incomingUnidirectionalCount :: u64
  m_advertisedBidirectionalStreams :: u64
  m_advertisedUnidirectionalStreams :: u64
  m_streamsBidirectionalUpdatePending :: bool
  m_streamsUnidirectionalUpdatePending :: bool
  m_isLocalServer :: bool
  m_nextBidirectionalStreamId :: u64
  m_nextUnidirectionalStreamId :: u64
  m_outgoingBidirectionalLimit :: u64
  m_outgoingUnidirectionalLimit :: u64

definition kMaximumPendingSendByteCount :: nat where
  "kMaximumPendingSendByteCount = 1024 * 1024"

definition kMaximumConnectionPendingSendByteCount :: nat where
  "kMaximumConnectionPendingSendByteCount = 8 * 1024 * 1024"

definition kFlowControlError :: u64 where "kFlowControlError = 0x03"
definition kStreamLimitError :: u64 where "kStreamLimitError = 0x04"
definition kStreamStateError :: u64 where "kStreamStateError = 0x05"
definition kFinalSizeError :: u64 where "kFinalSizeError = 0x06"
definition kFrameEncodingError :: u64 where "kFrameEncodingError = 0x07"
definition kProtocolViolation :: u64 where "kProtocolViolation = 0x0a"

definition kStreamInitiatorBitMask :: u64 where "kStreamInitiatorBitMask = 0x01"
definition kStreamUnidirectionalBitMask :: u64 where "kStreamUnidirectionalBitMask = 0x02"
definition kStreamIdStride :: u64 where "kStreamIdStride = 4"
definition kQuicStreamFrameTypeByteLength :: nat where "kQuicStreamFrameTypeByteLength = 1"

definition saturatingRoomOf :: "nat \<Rightarrow> nat \<Rightarrow> nat" where
  "saturatingRoomOf limitByteCount usedByteCount =
    (if usedByteCount < limitByteCount then limitByteCount - usedByteCount else 0)"

definition sendableByteCountOf :: "u64 \<Rightarrow> nat \<Rightarrow> u64 \<Rightarrow> u64 \<Rightarrow> nat" where
  "sendableByteCountOf chunkBeginOffset chunkByteCount sentHighWater newCreditByteCount =
    (let chunkEndOffset = chunkBeginOffset + of_nat chunkByteCount;
         resendableEnd = min chunkEndOffset sentHighWater;
         resendable = (if resendableEnd > chunkBeginOffset then resendableEnd - chunkBeginOffset else 0)
     in unat (min (of_nat chunkByteCount) (resendable + newCreditByteCount)))"

definition isUnidirectional :: "u64 \<Rightarrow> bool" where
  "isUnidirectional streamId \<longleftrightarrow> streamId AND kStreamUnidirectionalBitMask \<noteq> 0"

definition streamIndexOfType :: "u64 \<Rightarrow> u64" where
  "streamIndexOfType streamId = streamId div kStreamIdStride"

definition retiredBoundarySlotOf :: "u64 \<Rightarrow> nat" where
  "retiredBoundarySlotOf streamId = (if isUnidirectional streamId then 1 else 0)"

definition tryAppendFrame :: "bytes \<Rightarrow> nat \<Rightarrow> nat \<Rightarrow> QuicFrame \<Rightarrow> thrown + bool \<times> bytes \<times> nat" where
  "tryAppendFrame frames byteBudget usedByteCount frame =
    bindR (appendQuicFrame frames frame) (\<lambda>appended.
      let added = length appended - length frames in
      if added > saturatingRoomOf byteBudget usedByteCount then Inr (False, frames, usedByteCount)
      else Inr (True, appended, usedByteCount + added))"

definition streamFrameHeaderByteLength :: "u64 \<Rightarrow> u64 \<Rightarrow> nat" where
  "streamFrameHeaderByteLength streamId offset =
    (let offsetByteLength = (if offset = 0 then 0 else quicVariableLengthIntegerByteCount offset) in
     kQuicStreamFrameTypeByteLength + quicVariableLengthIntegerByteCount streamId + offsetByteLength)"

text \<open>The window after consumption: the limit and whether an update is owed.\<close>

definition raiseWindowAfterConsumption :: "u64 \<Rightarrow> u64 \<Rightarrow> u64 \<times> bool \<Rightarrow> u64 \<times> bool" where
  "raiseWindowAfterConsumption consumedBytes initialWindowBytes window =
    (case window of (limit, isUpdatePending) \<Rightarrow>
      let remaining = (if limit > consumedBytes then limit - consumedBytes else 0);
          refreshed = consumedBytes + initialWindowBytes in
      if remaining > initialWindowBytes div 2 then window
      else if refreshed \<le> limit then window
      else (refreshed, True))"

definition newStreamLayer :: "QuicTransportParameters \<Rightarrow> bool \<Rightarrow> QuicStreamLayer" where
  "newStreamLayer localParameters isServer =
    \<lparr>m_localParameters = localParameters, m_peerParameters = defaultTransportParameters,
     m_hasPeerParameters = False, m_incoming = [], m_outgoing = [], m_nextSendStreamId = 0,
     m_retiredPeerStreamBoundaries = (\<lambda>_ _. 0), m_retiredLocalBidiBoundaries = (\<lambda>_. 0),
     m_retiredLocalBidiGaps = (\<lambda>_. []), m_deliveries = emptyQueue, m_abortedStreams = emptyQueue,
     m_drainedSendByteCount = 0, m_connectionReceivedBytes = 0, m_connectionConsumedBytes = 0,
     m_connectionAdvertisedLimit = initialMaximumData localParameters,
     m_connectionWindowUpdatePending = False, m_connectionSentHighWater = 0, m_connectionSendLimit = 0,
     m_incomingBidirectionalCount = 0, m_incomingUnidirectionalCount = 0,
     m_advertisedBidirectionalStreams = initialMaximumBidirectionalStreams localParameters,
     m_advertisedUnidirectionalStreams = initialMaximumUnidirectionalStreams localParameters,
     m_streamsBidirectionalUpdatePending = False, m_streamsUnidirectionalUpdatePending = False,
     m_isLocalServer = isServer,
     m_nextBidirectionalStreamId = (if isServer then 0x01 else 0x00),
     m_nextUnidirectionalStreamId = (if isServer then 0x03 else 0x02),
     m_outgoingBidirectionalLimit = 0, m_outgoingUnidirectionalLimit = 0\<rparr>"

definition isLocallyInitiated :: "QuicStreamLayer \<Rightarrow> u64 \<Rightarrow> bool" where
  "isLocallyInitiated s streamId \<longleftrightarrow>
    (streamId AND kStreamInitiatorBitMask) = (if m_isLocalServer s then 1 else 0)"

definition initialSendWindowFor :: "QuicStreamLayer \<Rightarrow> u64 \<Rightarrow> u64 option" where
  "initialSendWindowFor s streamId =
    (if \<not> m_hasPeerParameters s then None
     else if isUnidirectional streamId
       then Some (if isLocallyInitiated s streamId
         then initialMaximumStreamDataUnidirectional (m_peerParameters s) else 0)
     else Some (if isLocallyInitiated s streamId
       then initialMaximumStreamDataBidirectionalRemote (m_peerParameters s)
       else initialMaximumStreamDataBidirectionalLocal (m_peerParameters s)))"

definition incomingInitialWindowOf :: "QuicStreamLayer \<Rightarrow> u64 \<Rightarrow> u64" where
  "incomingInitialWindowOf s streamId =
    (if isUnidirectional streamId
     then (if isLocallyInitiated s streamId then 0
           else initialMaximumStreamDataUnidirectional (m_localParameters s))
     else if isLocallyInitiated s streamId then initialMaximumStreamDataBidirectionalLocal (m_localParameters s)
     else initialMaximumStreamDataBidirectionalRemote (m_localParameters s))"

definition sendCreditOf :: "QuicStreamLayer \<Rightarrow> OutgoingStream \<Rightarrow> u64" where
  "sendCreditOf s stream =
    (let streamRemaining = (if out_streamLimit stream > out_sentHighWater stream
           then out_streamLimit stream - out_sentHighWater stream else 0);
         connectionRemaining = (if m_connectionSendLimit s > m_connectionSentHighWater s
           then m_connectionSendLimit s - m_connectionSentHighWater s else 0)
     in min streamRemaining connectionRemaining)"

definition pendingQueueByteCount :: "OutgoingStream \<Rightarrow> nat" where
  "pendingQueueByteCount stream = sum_list (map (length \<circ> chunk_bytes) (out_pendingQueue stream))"

definition totalPendingSendByteCount :: "QuicStreamLayer \<Rightarrow> nat" where
  "totalPendingSendByteCount s = sum_list (map (pendingQueueByteCount \<circ> snd) (m_outgoing s))"

definition pendingSendByteCount :: "QuicStreamLayer \<Rightarrow> u64 \<Rightarrow> nat" where
  "pendingSendByteCount s streamId =
    (case map_find streamId (m_outgoing s) of None \<Rightarrow> 0 | Some stream \<Rightarrow> pendingQueueByteCount stream)"

definition adoptPeerParameters :: "QuicTransportParameters \<Rightarrow> QuicStreamLayer \<Rightarrow> QuicStreamLayer" where
  "adoptPeerParameters peerParameters s =
    (let s = s\<lparr>m_peerParameters := peerParameters, m_hasPeerParameters := True,
           m_connectionSendLimit := initialMaximumData peerParameters,
           m_outgoingBidirectionalLimit := initialMaximumBidirectionalStreams peerParameters,
           m_outgoingUnidirectionalLimit := initialMaximumUnidirectionalStreams peerParameters\<rparr>
     in s\<lparr>m_outgoing := map (\<lambda>(streamId, stream). (streamId,
            case initialSendWindowFor s streamId of
              Some window \<Rightarrow> stream\<lparr>out_streamLimit := window\<rparr> | None \<Rightarrow> stream)) (m_outgoing s)\<rparr>)"

text \<open>\<open>m_incoming[streamId]\<close> and \<open>m_outgoing[streamId]\<close> insert a default when absent.\<close>

definition outgoingStream :: "u64 \<Rightarrow> QuicStreamLayer \<Rightarrow> OutgoingStream \<times> QuicStreamLayer" where
  "outgoingStream streamId s =
    (case map_find streamId (m_outgoing s) of
       Some stream \<Rightarrow> (stream, s)
     | None \<Rightarrow>
         let fresh = freshOutgoing\<lparr>out_streamLimit :=
               (case initialSendWindowFor s streamId of Some window \<Rightarrow> window | None \<Rightarrow> 0)\<rparr>
         in (fresh, s\<lparr>m_outgoing := map_put streamId fresh (m_outgoing s)\<rparr>))"

definition raiseLimit :: "u64 \<Rightarrow> u64 \<Rightarrow> u64 \<times> bool \<Rightarrow> u64 \<times> bool" where
  "raiseLimit usedCount initialStreams pair =
    (case pair of (limit, isUpdatePending) \<Rightarrow>
      if limit > usedCount \<and> limit - usedCount > initialStreams div 2 then pair
      else
        let refreshed = usedCount + initialStreams in
        if refreshed \<le> limit then pair else (refreshed, True))"

definition raiseAdvertisedStreamLimits :: "QuicStreamLayer \<Rightarrow> QuicStreamLayer" where
  "raiseAdvertisedStreamLimits s =
    (case raiseLimit (m_incomingBidirectionalCount s)
            (initialMaximumBidirectionalStreams (m_localParameters s))
            (m_advertisedBidirectionalStreams s, m_streamsBidirectionalUpdatePending s) of
       (bidirectional, bidirectionalPending) \<Rightarrow>
     (case raiseLimit (m_incomingUnidirectionalCount s)
             (initialMaximumUnidirectionalStreams (m_localParameters s))
             (m_advertisedUnidirectionalStreams s, m_streamsUnidirectionalUpdatePending s) of
       (unidirectional, unidirectionalPending) \<Rightarrow>
       s\<lparr>m_advertisedBidirectionalStreams := bidirectional,
         m_streamsBidirectionalUpdatePending := bidirectionalPending,
         m_advertisedUnidirectionalStreams := unidirectional,
         m_streamsUnidirectionalUpdatePending := unidirectionalPending\<rparr>))"

definition createIncomingStream :: "u64 \<Rightarrow> QuicStreamLayer \<Rightarrow> QuicStreamLayer" where
  "createIncomingStream streamId s =
    (let entry = (case map_find streamId (m_incoming s) of Some stream \<Rightarrow> stream | None \<Rightarrow> freshIncoming);
         entry = entry\<lparr>in_streamLimit := incomingInitialWindowOf s streamId\<rparr>;
         s = s\<lparr>m_incoming := map_put streamId entry (m_incoming s)\<rparr>
     in if isLocallyInitiated s streamId then s
        else if isUnidirectional streamId
          then raiseAdvertisedStreamLimits (s\<lparr>m_incomingUnidirectionalCount :=
                 max (m_incomingUnidirectionalCount s) (streamIndexOfType streamId + 1)\<rparr>)
        else raiseAdvertisedStreamLimits (s\<lparr>m_incomingBidirectionalCount :=
               max (m_incomingBidirectionalCount s) (streamIndexOfType streamId + 1)\<rparr>))"

section \<open>Retirement\<close>

definition noteStreamRetired :: "u64 \<Rightarrow> bool \<Rightarrow> QuicStreamLayer \<Rightarrow> QuicStreamLayer" where
  "noteStreamRetired streamId isReceiveSide s =
    (let directionSlot = retiredBoundarySlotOf streamId;
         side = (if isReceiveSide then 0 else 1);
         boundaries = m_retiredPeerStreamBoundaries s;
         boundary = max (boundaries side directionSlot) (streamIndexOfType streamId + 1)
     in s\<lparr>m_retiredPeerStreamBoundaries :=
          boundaries(side := (boundaries side)(directionSlot := boundary))\<rparr>)"

text \<open>\<open>while (gaps.erase(boundary) != 0) ++boundary\<close>; a \<open>std::set\<close> is a list without duplicates.\<close>

function absorbGaps :: "u64 list \<Rightarrow> u64 \<Rightarrow> u64 list \<times> u64" where
  "absorbGaps gaps boundary =
    (if boundary \<in> set gaps then absorbGaps (removeAll boundary gaps) (boundary + 1) else (gaps, boundary))"
  by pat_completeness auto
termination
  by (relation "measure (\<lambda>(gaps, boundary). length gaps)") (auto simp: length_removeAll_less)

declare absorbGaps.simps [simp del]

definition noteLocalBidiStreamRetired :: "u64 \<Rightarrow> bool \<Rightarrow> QuicStreamLayer \<Rightarrow> QuicStreamLayer" where
  "noteLocalBidiStreamRetired streamId isReceiveSide s =
    (let side = (if isReceiveSide then 0 else 1);
         index = streamIndexOfType streamId;
         (gaps, boundary) = absorbGaps (List.insert index (m_retiredLocalBidiGaps s side))
            (m_retiredLocalBidiBoundaries s side)
     in s\<lparr>m_retiredLocalBidiGaps := (m_retiredLocalBidiGaps s)(side := gaps),
          m_retiredLocalBidiBoundaries := (m_retiredLocalBidiBoundaries s)(side := boundary)\<rparr>)"

definition isPeerStreamSideRetired :: "QuicStreamLayer \<Rightarrow> u64 \<Rightarrow> bool \<Rightarrow> bool" where
  "isPeerStreamSideRetired s streamId isReceiveSide \<longleftrightarrow>
    \<not> isLocallyInitiated s streamId \<and>
    streamIndexOfType streamId <
      m_retiredPeerStreamBoundaries s (if isReceiveSide then 0 else 1) (retiredBoundarySlotOf streamId)"

definition isLocalBidiStreamSideRetired :: "QuicStreamLayer \<Rightarrow> u64 \<Rightarrow> bool \<Rightarrow> bool" where
  "isLocalBidiStreamSideRetired s streamId isReceiveSide \<longleftrightarrow>
    isLocallyInitiated s streamId \<and> \<not> isUnidirectional streamId \<and>
    (let side = (if isReceiveSide then 0 else 1); index = streamIndexOfType streamId in
     index < m_retiredLocalBidiBoundaries s side \<or> index \<in> set (m_retiredLocalBidiGaps s side))"

definition isIncomingSettled :: "IncomingStream \<Rightarrow> bool" where
  "isIncomingSettled stream \<longleftrightarrow>
    \<not> (in_isFinished stream \<and> \<not> in_isFinalDelivered stream) \<and>
    (in_isFinished stream \<or> in_isReset stream) \<and>
    in_consumedByteCount stream + in_discardedByteCount stream = in_receivedHighWaterOffset stream \<and>
    \<not> in_windowUpdatePending stream \<and>
    (case in_receiveStop stream of None \<Rightarrow> True | Some announcement \<Rightarrow> abort_isAcknowledged announcement)"

definition isOutgoingSettled :: "OutgoingStream \<Rightarrow> bool" where
  "isOutgoingSettled stream \<longleftrightarrow>
    out_pendingQueue stream = [] \<and> out_inFlight stream = [] \<and>
    (case out_sendAbort stream of None \<Rightarrow> True | Some announcement \<Rightarrow> abort_isAcknowledged announcement) \<and>
    (out_isFinalSentToPeer stream \<or> out_sendAbort stream \<noteq> None)"

fun retireIncoming :: "(u64, IncomingStream) std_map \<Rightarrow> QuicStreamLayer \<Rightarrow>
    (u64, IncomingStream) std_map \<times> QuicStreamLayer" where
  "retireIncoming [] s = ([], s)"
| "retireIncoming ((streamId, stream) # entries) s =
    (if isLocallyInitiated s streamId then
       if isUnidirectional streamId \<or> \<not> isIncomingSettled stream
       then (case retireIncoming entries s of (kept, s) \<Rightarrow> ((streamId, stream) # kept, s))
       else retireIncoming entries (noteLocalBidiStreamRetired streamId True s)
     else if \<not> isIncomingSettled stream
       then (case retireIncoming entries s of (kept, s) \<Rightarrow> ((streamId, stream) # kept, s))
     else retireIncoming entries (noteStreamRetired streamId True s))"

fun retireOutgoing :: "(u64, OutgoingStream) std_map \<Rightarrow> QuicStreamLayer \<Rightarrow>
    (u64, OutgoingStream) std_map \<times> QuicStreamLayer" where
  "retireOutgoing [] s = ([], s)"
| "retireOutgoing ((streamId, stream) # entries) s =
    (if isLocallyInitiated s streamId then
       if isUnidirectional streamId \<or> \<not> isOutgoingSettled stream
       then (case retireOutgoing entries s of (kept, s) \<Rightarrow> ((streamId, stream) # kept, s))
       else retireOutgoing entries (noteLocalBidiStreamRetired streamId False s)
     else if \<not> isOutgoingSettled stream
       then (case retireOutgoing entries s of (kept, s) \<Rightarrow> ((streamId, stream) # kept, s))
     else retireOutgoing entries (noteStreamRetired streamId False s))"

definition retireSettledStreams :: "QuicStreamLayer \<Rightarrow> QuicStreamLayer" where
  "retireSettledStreams s =
    (case retireIncoming (m_incoming s) s of (incoming, s) \<Rightarrow>
     (case retireOutgoing (m_outgoing s) (s\<lparr>m_incoming := incoming\<rparr>) of (outgoing, s) \<Rightarrow>
      s\<lparr>m_outgoing := outgoing\<rparr>))"

section \<open>Frames from the peer\<close>

definition drainContiguousBytes :: "u64 \<Rightarrow> IncomingStream \<Rightarrow> QuicStreamLayer \<Rightarrow> IncomingStream \<times> QuicStreamLayer" where
  "drainContiguousBytes streamId stream s =
    (case reassemblyDrain [] (in_reassembly stream) of (drained, payload, reassembly) \<Rightarrow>
      let stream = stream\<lparr>in_reassembly := reassembly\<rparr>;
          isFinal = (in_finalOffset stream = Some (m_deliveredOffset reassembly)) in
      if payload = [] \<and> \<not> (isFinal \<and> \<not> in_isFinalDelivered stream) then (stream, s)
      else
        (if isFinal then stream\<lparr>in_isFinalDelivered := True\<rparr> else stream,
         s\<lparr>m_deliveries := queuePushBack \<lparr>delivery_streamId = streamId, delivery_bytes = payload,
             delivery_isFinal = isFinal\<rparr> (m_deliveries s)\<rparr>))"

text \<open>The part of \<open>onStreamFrame\<close> after the record of the stream has been found or made: the
  checks, then the bytes. The record is stored back under its identifier.\<close>

definition storeIncoming :: "u64 \<Rightarrow> IncomingStream \<Rightarrow> QuicStreamLayer \<Rightarrow> QuicStreamLayer" where
  "storeIncoming streamId stream s = s\<lparr>m_incoming := map_put streamId stream (m_incoming s)\<rparr>"

definition acceptStreamBytes :: "u64 \<Rightarrow> u64 \<Rightarrow> bytes \<Rightarrow> IncomingStream \<Rightarrow> QuicStreamLayer \<Rightarrow> QuicStreamLayer" where
  "acceptStreamBytes streamId offset data stream s =
    (let endOffset = offset + of_nat (length data);
         s = (if endOffset > in_receivedHighWaterOffset stream
              then s\<lparr>m_connectionReceivedBytes :=
                     m_connectionReceivedBytes s + (endOffset - in_receivedHighWaterOffset stream)\<rparr> else s);
         stream = (if endOffset > in_receivedHighWaterOffset stream
                   then stream\<lparr>in_receivedHighWaterOffset := endOffset\<rparr> else stream);
         stream = stream\<lparr>in_reassembly := reassemblyInsert offset data (in_reassembly stream)\<rparr>;
         (stream, s) = drainContiguousBytes streamId stream s;
         stream = (if in_finalOffset stream = Some (m_deliveredOffset (in_reassembly stream))
                   then stream\<lparr>in_isFinished := True, in_receiveStop := None\<rparr> else stream)
     in storeIncoming streamId stream s)"

definition checkStreamFrame ::
  "u64 \<Rightarrow> u64 \<Rightarrow> bytes \<Rightarrow> bool \<Rightarrow> IncomingStream \<Rightarrow> QuicStreamLayer \<Rightarrow> u64 option \<times> QuicStreamLayer" where
  "checkStreamFrame streamId offset data isFinal stream s =
    (let endOffset = offset + of_nat (length data) in
     if in_isReset stream then (None, s)
     else if endOffset > in_streamLimit stream then (Some kFlowControlError, s)
     else if endOffset > in_receivedHighWaterOffset stream \<and>
       m_connectionReceivedBytes s + (endOffset - in_receivedHighWaterOffset stream) > m_connectionAdvertisedLimit s
       then (Some kFlowControlError, s)
     else if (case in_finalOffset stream of None \<Rightarrow> False | Some finalOffset \<Rightarrow> endOffset > finalOffset)
       then (Some kFinalSizeError, s)
     else if isFinal \<and> (case in_finalOffset stream of None \<Rightarrow> False | Some finalOffset \<Rightarrow> finalOffset \<noteq> endOffset)
       then (Some kFinalSizeError, s)
     else
       let stream = (if isFinal then stream\<lparr>in_finalOffset := Some endOffset\<rparr> else stream);
           s = storeIncoming streamId stream s in
       if in_isFinished stream then (None, s)
       else (None, acceptStreamBytes streamId offset data stream s))"

definition advertisedStreamsFor :: "QuicStreamLayer \<Rightarrow> u64 \<Rightarrow> u64" where
  "advertisedStreamsFor s streamId =
    (if isUnidirectional streamId then m_advertisedUnidirectionalStreams s else m_advertisedBidirectionalStreams s)"

definition onStreamFrame :: "u64 \<Rightarrow> u64 \<Rightarrow> bytes \<Rightarrow> bool \<Rightarrow> QuicStreamLayer \<Rightarrow> u64 option \<times> QuicStreamLayer" where
  "onStreamFrame streamId offset data isFinal s =
    (case map_find streamId (m_incoming s) of
       Some stream \<Rightarrow> checkStreamFrame streamId offset data isFinal stream s
     | None \<Rightarrow>
         if isPeerStreamSideRetired s streamId True then (None, s)
         else if isLocalBidiStreamSideRetired s streamId True then (None, s)
         else if isLocallyInitiated s streamId \<and> isUnidirectional streamId then (Some kProtocolViolation, s)
         else if isLocallyInitiated s streamId \<and> map_find streamId (m_outgoing s) = None \<and>
           \<not> isLocalBidiStreamSideRetired s streamId False then (Some kProtocolViolation, s)
         else if \<not> isLocallyInitiated s streamId \<and> streamIndexOfType streamId \<ge> advertisedStreamsFor s streamId
           then (Some kStreamLimitError, s)
         else
           let s = createIncomingStream streamId s in
           (case map_find streamId (m_incoming s) of
              None \<Rightarrow> (None, s)
            | Some stream \<Rightarrow> checkStreamFrame streamId offset data isFinal stream s))"

definition onMaxDataFrame :: "u64 \<Rightarrow> QuicStreamLayer \<Rightarrow> u64 option \<times> QuicStreamLayer" where
  "onMaxDataFrame maximumData s =
    (None, s\<lparr>m_connectionSendLimit := max (m_connectionSendLimit s) maximumData\<rparr>)"

definition onMaxStreamDataFrame :: "u64 \<Rightarrow> u64 \<Rightarrow> QuicStreamLayer \<Rightarrow> u64 option \<times> QuicStreamLayer" where
  "onMaxStreamDataFrame streamId maximumStreamData s =
    (if isUnidirectional streamId \<and> \<not> isLocallyInitiated s streamId then (Some kStreamStateError, s)
     else
       let raise = (\<lambda>stream s. s\<lparr>m_outgoing := map_put streamId
             (stream\<lparr>out_streamLimit := max (out_streamLimit stream) maximumStreamData\<rparr>) (m_outgoing s)\<rparr>) in
       case map_find streamId (m_outgoing s) of
         Some stream \<Rightarrow> (None, raise stream s)
       | None \<Rightarrow>
           if isPeerStreamSideRetired s streamId False \<or> isLocalBidiStreamSideRetired s streamId False then (None, s)
           else if isLocallyInitiated s streamId then (Some kStreamStateError, s)
           else if streamIndexOfType streamId \<ge> m_advertisedBidirectionalStreams s then (Some kStreamLimitError, s)
           else
             let stream = freshOutgoing\<lparr>out_streamLimit :=
                   (case initialSendWindowFor s streamId of Some window \<Rightarrow> window | None \<Rightarrow> 0)\<rparr>
             in (None, raise stream s))"

definition onMaxStreamsFrame :: "u64 \<Rightarrow> bool \<Rightarrow> QuicStreamLayer \<Rightarrow> u64 option \<times> QuicStreamLayer" where
  "onMaxStreamsFrame maximumStreams frameIsUnidirectional s =
    (if maximumStreams > kQuicMaximumStreamLimitValue then (Some kFrameEncodingError, s)
     else if frameIsUnidirectional
       then (None, s\<lparr>m_outgoingUnidirectionalLimit := max (m_outgoingUnidirectionalLimit s) maximumStreams\<rparr>)
     else (None, s\<lparr>m_outgoingBidirectionalLimit := max (m_outgoingBidirectionalLimit s) maximumStreams\<rparr>))"

definition pushAborted :: "u64 \<Rightarrow> u64 \<Rightarrow> bool \<Rightarrow> QuicStreamLayer \<Rightarrow> QuicStreamLayer" where
  "pushAborted streamId applicationErrorCode isResetByPeer s =
    s\<lparr>m_abortedStreams := queuePushBack \<lparr>aborted_streamId = streamId,
        aborted_applicationErrorCode = applicationErrorCode, aborted_isResetByPeer = isResetByPeer\<rparr>
      (m_abortedStreams s)\<rparr>"

definition onResetStreamFrame :: "u64 \<Rightarrow> u64 \<Rightarrow> u64 \<Rightarrow> QuicStreamLayer \<Rightarrow> u64 option \<times> QuicStreamLayer" where
  "onResetStreamFrame streamId applicationErrorCode finalSize s =
    (if isUnidirectional streamId \<and> isLocallyInitiated s streamId then (Some kStreamStateError, s)
     else case map_find streamId (m_incoming s) of
       None \<Rightarrow>
         if \<not> isLocallyInitiated s streamId \<and> streamIndexOfType streamId \<ge> advertisedStreamsFor s streamId
         then (Some kStreamLimitError, s) else (None, s)
     | Some stream \<Rightarrow>
         if (case in_finalOffset stream of None \<Rightarrow> False | Some finalOffset \<Rightarrow> finalOffset \<noteq> finalSize)
         then (Some kFinalSizeError, s)
         else
           let deliveredOffset = m_deliveredOffset (in_reassembly stream) in
           if finalSize < deliveredOffset then (Some kFinalSizeError, s)
           else
             let stream = stream\<lparr>in_finalOffset := Some finalSize\<rparr>;
                 stream = (if \<not> in_isReset stream
                   then stream\<lparr>in_discardedByteCount := in_receivedHighWaterOffset stream - deliveredOffset,
                          in_reassembly := emptyReassemblyBuffer\<rparr> else stream);
                 stream = stream\<lparr>in_isReset := True, in_receiveStop := None\<rparr>
             in (None, pushAborted streamId applicationErrorCode True (storeIncoming streamId stream s)))"

definition onStopSendingFrame :: "u64 \<Rightarrow> u64 \<Rightarrow> QuicStreamLayer \<Rightarrow> u64 option \<times> QuicStreamLayer" where
  "onStopSendingFrame streamId applicationErrorCode s =
    (if isUnidirectional streamId \<and> \<not> isLocallyInitiated s streamId then (Some kStreamStateError, s)
     else if isPeerStreamSideRetired s streamId False \<or> isLocalBidiStreamSideRetired s streamId False then (None, s)
     else if isLocallyInitiated s streamId \<and> map_find streamId (m_outgoing s) = None then (Some kStreamStateError, s)
     else if \<not> isLocallyInitiated s streamId \<and> streamIndexOfType streamId \<ge> m_advertisedBidirectionalStreams s
       then (Some kStreamLimitError, s)
     else
       case outgoingStream streamId s of (stream, s) \<Rightarrow>
         if out_isAborted stream then (None, s)
         else
           let stream = stream\<lparr>out_pendingQueue := [], out_isAborted := True\<rparr>;
               stream = (if \<not> out_isFinalSentToPeer stream \<and> out_sendAbort stream = None
                 then stream\<lparr>out_sendAbort := Some \<lparr>abort_applicationErrorCode = applicationErrorCode,
                          abort_finalSize = out_sentHighWater stream, abort_isInFlight = False,
                          abort_isAcknowledged = False\<rparr>,
                        out_finalOffset := Some (out_sentHighWater stream), out_inFlight := []\<rparr>
                 else stream)
           in (None, pushAborted streamId applicationErrorCode False
                (s\<lparr>m_outgoing := map_put streamId stream (m_outgoing s)\<rparr>)))"

section \<open>The application\<close>

definition writeStreamData :: "u64 \<Rightarrow> bytes \<Rightarrow> bool \<Rightarrow> QuicStreamLayer \<Rightarrow> nat \<times> QuicStreamLayer" where
  "writeStreamData streamId data isFinal s =
    (if isLocallyInitiated s streamId \<and> streamIndexOfType streamId \<ge>
        (if isUnidirectional streamId then m_outgoingUnidirectionalLimit s else m_outgoingBidirectionalLimit s)
     then (0, s)
     else if isPeerStreamSideRetired s streamId False \<or> isLocalBidiStreamSideRetired s streamId False then (0, s)
     else
       case outgoingStream streamId s of (stream, s) \<Rightarrow>
         if out_isAborted stream \<or> out_finalOffset stream \<noteq> None then (0, s)
         else if data = [] \<and> \<not> isFinal then (0, s)
         else
           let streamRoomByteCount = saturatingRoomOf kMaximumPendingSendByteCount (pendingQueueByteCount stream);
               connectionRoomByteCount =
                 saturatingRoomOf kMaximumConnectionPendingSendByteCount (totalPendingSendByteCount s);
               roomByteCount = min streamRoomByteCount connectionRoomByteCount;
               acceptedByteCount = min (length data) roomByteCount
           in if acceptedByteCount = 0 \<and> data \<noteq> [] then (0, s)
              else
                let isWholeSegmentAccepted = (acceptedByteCount = length data);
                    chunk = \<lparr>chunk_beginOffset = out_nextWriteOffset stream,
                      chunk_bytes = take acceptedByteCount data,
                      chunk_isFinal = isWholeSegmentAccepted \<and> isFinal\<rparr>;
                    stream = stream\<lparr>out_nextWriteOffset := out_nextWriteOffset stream + of_nat acceptedByteCount\<rparr>;
                    stream = (if chunk_isFinal chunk
                      then stream\<lparr>out_finalOffset := Some (out_nextWriteOffset stream)\<rparr> else stream);
                    stream = stream\<lparr>out_pendingQueue := out_pendingQueue stream @ [chunk]\<rparr>
                in (acceptedByteCount, s\<lparr>m_outgoing := map_put streamId stream (m_outgoing s)\<rparr>))"

definition takeDrainedSendByteCount :: "QuicStreamLayer \<Rightarrow> nat \<times> QuicStreamLayer" where
  "takeDrainedSendByteCount s = (m_drainedSendByteCount s, s\<lparr>m_drainedSendByteCount := 0\<rparr>)"

definition resetStreamSending :: "u64 \<Rightarrow> u64 \<Rightarrow> QuicStreamLayer \<Rightarrow> QuicStreamLayer" where
  "resetStreamSending streamId applicationErrorCode s =
    (if isPeerStreamSideRetired s streamId False \<or> isLocalBidiStreamSideRetired s streamId False then s
     else
       case outgoingStream streamId s of (stream, s) \<Rightarrow>
         if out_sendAbort stream \<noteq> None \<or> out_isFinalSentToPeer stream \<or> out_finalOffset stream \<noteq> None then s
         else
           let finalSize = out_sentHighWater stream;
               stream = stream\<lparr>out_sendAbort := Some \<lparr>abort_applicationErrorCode = applicationErrorCode,
                   abort_finalSize = finalSize, abort_isInFlight = False, abort_isAcknowledged = False\<rparr>,
                 out_finalOffset := Some finalSize, out_pendingQueue := [], out_inFlight := []\<rparr>
           in s\<lparr>m_outgoing := map_put streamId stream (m_outgoing s)\<rparr>)"

definition stopStreamReceiving :: "u64 \<Rightarrow> u64 \<Rightarrow> QuicStreamLayer \<Rightarrow> QuicStreamLayer" where
  "stopStreamReceiving streamId applicationErrorCode s =
    (case map_find streamId (m_incoming s) of
       None \<Rightarrow> s
     | Some stream \<Rightarrow>
         if in_isReset stream \<or> in_receiveStop stream \<noteq> None then s
         else storeIncoming streamId (stream\<lparr>in_receiveStop := Some \<lparr>
                abort_applicationErrorCode = applicationErrorCode, abort_finalSize = 0,
                abort_isInFlight = False, abort_isAcknowledged = False\<rparr>\<rparr>) s)"

definition openUnidirectionalStream :: "QuicStreamLayer \<Rightarrow> u64 option \<times> QuicStreamLayer" where
  "openUnidirectionalStream s =
    (let streamId = m_nextUnidirectionalStreamId s in
     if streamIndexOfType streamId \<ge> m_outgoingUnidirectionalLimit s then (None, s)
     else (Some streamId, snd (outgoingStream streamId
            (s\<lparr>m_nextUnidirectionalStreamId := m_nextUnidirectionalStreamId s + kStreamIdStride\<rparr>))))"

definition openBidirectionalStream :: "QuicStreamLayer \<Rightarrow> u64 option \<times> QuicStreamLayer" where
  "openBidirectionalStream s =
    (let streamId = m_nextBidirectionalStreamId s in
     if streamIndexOfType streamId \<ge> m_outgoingBidirectionalLimit s then (None, s)
     else (Some streamId, snd (outgoingStream streamId
            (s\<lparr>m_nextBidirectionalStreamId := m_nextBidirectionalStreamId s + kStreamIdStride\<rparr>))))"

definition releaseReceiveWindow :: "u64 \<Rightarrow> nat \<Rightarrow> QuicStreamLayer \<Rightarrow> QuicStreamLayer" where
  "releaseReceiveWindow streamId consumedByteCount s =
    (if consumedByteCount = 0 then s
     else case map_find streamId (m_incoming s) of
       None \<Rightarrow> s
     | Some stream \<Rightarrow>
         let stream = stream\<lparr>in_consumedByteCount := in_consumedByteCount stream + of_nat consumedByteCount\<rparr>;
             s = s\<lparr>m_connectionConsumedBytes := m_connectionConsumedBytes s + of_nat consumedByteCount\<rparr>
         in (case raiseWindowAfterConsumption (in_consumedByteCount stream) (incomingInitialWindowOf s streamId)
                   (in_streamLimit stream, in_windowUpdatePending stream) of
               (limit, isPending) \<Rightarrow>
             (case raiseWindowAfterConsumption (m_connectionConsumedBytes s)
                     (initialMaximumData (m_localParameters s))
                     (m_connectionAdvertisedLimit s, m_connectionWindowUpdatePending s) of
                (connectionLimit, connectionPending) \<Rightarrow>
                raiseAdvertisedStreamLimits
                  ((storeIncoming streamId
                     (stream\<lparr>in_streamLimit := limit, in_windowUpdatePending := isPending\<rparr>) s)
                   \<lparr>m_connectionAdvertisedLimit := connectionLimit,
                    m_connectionWindowUpdatePending := connectionPending\<rparr>))))"

definition hasDeliveries :: "QuicStreamLayer \<Rightarrow> bool" where
  "hasDeliveries s \<longleftrightarrow> \<not> queueEmpty (m_deliveries s)"

definition takeDelivery :: "QuicStreamLayer \<Rightarrow> QuicStreamDelivery option \<times> QuicStreamLayer" where
  "takeDelivery s = (case queueTakeFront (m_deliveries s) of (taken, q) \<Rightarrow> (taken, s\<lparr>m_deliveries := q\<rparr>))"

definition hasAbortedStreams :: "QuicStreamLayer \<Rightarrow> bool" where
  "hasAbortedStreams s \<longleftrightarrow> \<not> queueEmpty (m_abortedStreams s)"

definition takeAbortedStream :: "QuicStreamLayer \<Rightarrow> QuicAbortedStream option \<times> QuicStreamLayer" where
  "takeAbortedStream s =
    (case queueTakeFront (m_abortedStreams s) of (taken, q) \<Rightarrow> (taken, s\<lparr>m_abortedStreams := q\<rparr>))"

definition trackedStreamCount :: "QuicStreamLayer \<Rightarrow> nat" where
  "trackedStreamCount s = length (m_incoming s) + length (m_outgoing s)"

definition owesAnnouncement :: "AbortAnnouncement option \<Rightarrow> bool" where
  "owesAnnouncement announcement =
    (case announcement of None \<Rightarrow> False | Some a \<Rightarrow> \<not> abort_isInFlight a \<and> \<not> abort_isAcknowledged a)"

definition hasOutgoingFrames :: "QuicStreamLayer \<Rightarrow> bool" where
  "hasOutgoingFrames s \<longleftrightarrow>
    m_connectionWindowUpdatePending s \<or> m_streamsBidirectionalUpdatePending s \<or>
    m_streamsUnidirectionalUpdatePending s \<or>
    list_ex (\<lambda>entry. in_windowUpdatePending (snd entry)) (m_incoming s) \<or>
    list_ex (\<lambda>entry. owesAnnouncement (in_receiveStop (snd entry))) (m_incoming s) \<or>
    list_ex (\<lambda>entry. owesAnnouncement (out_sendAbort (snd entry))) (m_outgoing s) \<or>
    list_ex (\<lambda>entry. \<not> out_isAborted (snd entry) \<and> out_pendingQueue (snd entry) \<noteq> []) (m_outgoing s)"

section \<open>Frames to the peer\<close>

text \<open>The bytes written so far, how many of the budget they use, and the ranges they carry.\<close>

type_synonym announcements = "QuicStreamAnnouncement list"

fun resetLoop :: "nat \<Rightarrow> (u64, OutgoingStream) std_map \<Rightarrow> bytes \<times> nat \<times> announcements \<Rightarrow>
    thrown + (u64, OutgoingStream) std_map \<times> bytes \<times> nat \<times> announcements" where
  "resetLoop byteBudget [] acc = Inr ([], acc)"
| "resetLoop byteBudget ((streamId, stream) # entries) (frames, used, announced) =
    (case out_sendAbort stream of
       Some announcement \<Rightarrow>
         if \<not> owesAnnouncement (Some announcement)
         then bindR (resetLoop byteBudget entries (frames, used, announced))
                (\<lambda>(entries, acc). Inr ((streamId, stream) # entries, acc))
         else bindR (tryAppendFrame frames byteBudget used
                (QuicResetStreamFrame streamId (abort_applicationErrorCode announcement) (abort_finalSize announcement)))
              (\<lambda>(appended, frames, used).
                let announced = (if appended
                      then announced @ [\<lparr>announcement_streamId = streamId, isResetStream = True\<rparr>] else announced);
                    stream = (if appended
                      then stream\<lparr>out_sendAbort := Some (announcement\<lparr>abort_isInFlight := True\<rparr>)\<rparr> else stream)
                in bindR (resetLoop byteBudget entries (frames, used, announced))
                     (\<lambda>(entries, acc). Inr ((streamId, stream) # entries, acc)))
     | None \<Rightarrow> bindR (resetLoop byteBudget entries (frames, used, announced))
                (\<lambda>(entries, acc). Inr ((streamId, stream) # entries, acc)))"

fun stopLoop :: "nat \<Rightarrow> (u64, IncomingStream) std_map \<Rightarrow> bytes \<times> nat \<times> announcements \<Rightarrow>
    thrown + (u64, IncomingStream) std_map \<times> bytes \<times> nat \<times> announcements" where
  "stopLoop byteBudget [] acc = Inr ([], acc)"
| "stopLoop byteBudget ((streamId, stream) # entries) (frames, used, announced) =
    (case in_receiveStop stream of
       Some announcement \<Rightarrow>
         if \<not> owesAnnouncement (Some announcement)
         then bindR (stopLoop byteBudget entries (frames, used, announced))
                (\<lambda>(entries, acc). Inr ((streamId, stream) # entries, acc))
         else bindR (tryAppendFrame frames byteBudget used
                (QuicStopSendingFrame streamId (abort_applicationErrorCode announcement)))
              (\<lambda>(appended, frames, used).
                let announced = (if appended
                      then announced @ [\<lparr>announcement_streamId = streamId, isResetStream = False\<rparr>] else announced);
                    stream = (if appended
                      then stream\<lparr>in_receiveStop := Some (announcement\<lparr>abort_isInFlight := True\<rparr>)\<rparr> else stream)
                in bindR (stopLoop byteBudget entries (frames, used, announced))
                     (\<lambda>(entries, acc). Inr ((streamId, stream) # entries, acc)))
     | None \<Rightarrow> bindR (stopLoop byteBudget entries (frames, used, announced))
                (\<lambda>(entries, acc). Inr ((streamId, stream) # entries, acc)))"

definition collectAbortAnnouncements :: "bytes \<Rightarrow> nat \<Rightarrow> announcements \<Rightarrow> QuicStreamLayer \<Rightarrow>
    thrown + bytes \<times> nat \<times> announcements \<times> QuicStreamLayer" where
  "collectAbortAnnouncements frames byteBudget announced s =
    bindR (resetLoop byteBudget (m_outgoing s) (frames, 0, announced)) (\<lambda>(outgoing, frames, used, announced).
    bindR (stopLoop byteBudget (m_incoming s) (frames, used, announced)) (\<lambda>(incoming, frames, used, announced).
      Inr (frames, used, announced, s\<lparr>m_outgoing := outgoing, m_incoming := incoming\<rparr>)))"

text \<open>\<open>tryAppend\<close> of \<open>collectWindowUpdates\<close>, guarded by the pending flag, which it clears.\<close>

definition tryAppendIfPending :: "nat \<Rightarrow> QuicFrame \<Rightarrow> bool \<Rightarrow> bytes \<times> nat \<Rightarrow> thrown + bool \<times> bytes \<times> nat" where
  "tryAppendIfPending byteBudget frame isPending acc =
    (case acc of (frames, used) \<Rightarrow>
      if \<not> isPending then Inr (False, frames, used)
      else bindR (tryAppendFrame frames byteBudget used frame)
        (\<lambda>(appended, frames, used). Inr (\<not> appended, frames, used)))"

fun streamWindowLoop :: "nat \<Rightarrow> (u64, IncomingStream) std_map \<Rightarrow> bytes \<times> nat \<Rightarrow>
    thrown + (u64, IncomingStream) std_map \<times> bytes \<times> nat" where
  "streamWindowLoop byteBudget [] acc = Inr ([], acc)"
| "streamWindowLoop byteBudget ((streamId, stream) # entries) (frames, used) =
    (if \<not> in_windowUpdatePending stream
     then bindR (streamWindowLoop byteBudget entries (frames, used))
            (\<lambda>(entries, acc). Inr ((streamId, stream) # entries, acc))
     else bindR (tryAppendIfPending byteBudget (QuicMaxStreamDataFrame streamId (in_streamLimit stream)) True (frames, used))
       (\<lambda>(isPending, frames, used).
         let stream = stream\<lparr>in_windowUpdatePending := isPending\<rparr> in
         if used = byteBudget then Inr ((streamId, stream) # entries, frames, used)
         else bindR (streamWindowLoop byteBudget entries (frames, used))
           (\<lambda>(entries, acc). Inr ((streamId, stream) # entries, acc))))"

text \<open>The connection's own updates, then those of the streams while the budget is not used up.\<close>

definition collectConnectionUpdates :: "bytes \<Rightarrow> nat \<Rightarrow> QuicStreamLayer \<Rightarrow> thrown + bytes \<times> nat \<times> QuicStreamLayer" where
  "collectConnectionUpdates frames byteBudget s =
    bindR (tryAppendIfPending byteBudget (QuicMaxDataFrame (m_connectionAdvertisedLimit s))
        (m_connectionWindowUpdatePending s) (frames, 0)) (\<lambda>(connectionPending, acc).
    bindR (tryAppendIfPending byteBudget (QuicMaxStreamsFrame (m_advertisedBidirectionalStreams s) False)
        (m_streamsBidirectionalUpdatePending s) acc) (\<lambda>(bidirectionalPending, acc).
    bindR (tryAppendIfPending byteBudget (QuicMaxStreamsFrame (m_advertisedUnidirectionalStreams s) True)
        (m_streamsUnidirectionalUpdatePending s) acc) (\<lambda>(unidirectionalPending, frames, used).
      Inr (frames, used, s\<lparr>m_connectionWindowUpdatePending := connectionPending,
             m_streamsBidirectionalUpdatePending := bidirectionalPending,
             m_streamsUnidirectionalUpdatePending := unidirectionalPending\<rparr>))))"

definition collectWindowUpdates :: "bytes \<Rightarrow> nat \<Rightarrow> QuicStreamLayer \<Rightarrow> thrown + bytes \<times> nat \<times> QuicStreamLayer" where
  "collectWindowUpdates frames byteBudget s =
    bindR (collectConnectionUpdates frames byteBudget s) (\<lambda>(frames, used, s).
      if used = byteBudget then Inr (frames, used, s)
      else bindR (streamWindowLoop byteBudget (m_incoming s) (frames, used))
        (\<lambda>(incoming, frames, used). Inr (frames, used, s\<lparr>m_incoming := incoming\<rparr>)))"

text \<open>How many bytes of the front chunk the next frame carries; \<open>None\<close> where the code returns.\<close>

definition streamPayloadLength :: "QuicStreamChunk \<Rightarrow> nat \<Rightarrow> nat \<Rightarrow> nat \<Rightarrow> nat option" where
  "streamPayloadLength front sendableByteCount remainingBudget headerByteLength =
    (let fitting = min (length (chunk_bytes front)) sendableByteCount;
         payloadByteLength = min fitting (remainingBudget - headerByteLength - 1);
         widenedByteCount = quicVariableLengthIntegerByteCount (of_nat payloadByteLength);
         finish = (\<lambda>n. if n = 0 \<and> \<not> chunk_isFinal front then None else Some n)
     in if widenedByteCount > 1 then
          (if remainingBudget \<le> headerByteLength + widenedByteCount then None
           else finish (min fitting (remainingBudget - headerByteLength - widenedByteCount)))
        else finish payloadByteLength)"

type_synonym sending = "bytes \<times> nat \<times> QuicStreamRange list"

text \<open>The books after a frame with \<open>n\<close> bytes of the front chunk: the high-water marks, the copy in
  flight, the rest of the chunk.\<close>

definition noteChunkSent :: "u64 \<Rightarrow> nat \<Rightarrow> QuicStreamChunk \<Rightarrow> QuicStreamChunk list \<Rightarrow>
    OutgoingStream \<Rightarrow> QuicStreamLayer \<Rightarrow> OutgoingStream \<times> QuicStreamLayer" where
  "noteChunkSent streamId n front later stream s =
    (let carriesFinal = (chunk_isFinal front \<and> n = length (chunk_bytes front));
         endOffset = chunk_beginOffset front + of_nat n;
         s = s\<lparr>m_nextSendStreamId := streamId + 1\<rparr>;
         s = (if endOffset > out_sentHighWater stream
              then s\<lparr>m_connectionSentHighWater :=
                     m_connectionSentHighWater s + (endOffset - out_sentHighWater stream)\<rparr> else s);
         stream = (if endOffset > out_sentHighWater stream
                   then stream\<lparr>out_sentHighWater := endOffset\<rparr> else stream);
         stream = (if carriesFinal then stream\<lparr>out_isFinalSentToPeer := True\<rparr> else stream);
         stream = stream\<lparr>out_inFlight := map_put (chunk_beginOffset front)
           \<lparr>chunk_beginOffset = chunk_beginOffset front, chunk_bytes = take n (chunk_bytes front),
            chunk_isFinal = carriesFinal\<rparr> (out_inFlight stream)\<rparr>;
         stream = stream\<lparr>out_pendingQueue :=
           (if n = length (chunk_bytes front) then later
            else front\<lparr>chunk_bytes := drop n (chunk_bytes front),
                       chunk_beginOffset := chunk_beginOffset front + of_nat n\<rparr> # later)\<rparr>
     in (stream, s\<lparr>m_drainedSendByteCount := m_drainedSendByteCount s + n\<rparr>))"

lemma noteChunkSent_queue:
  "out_pendingQueue (fst (noteChunkSent streamId n front later stream s)) =
    (if n = length (chunk_bytes front) then later
     else front\<lparr>chunk_bytes := drop n (chunk_bytes front),
                chunk_beginOffset := chunk_beginOffset front + of_nat n\<rparr> # later)"
  by (simp add: noteChunkSent_def Let_def)

lemma streamPayloadLength_fits:
  assumes "streamPayloadLength front sendable room header = Some n"
  obtains x w where "n = min (min (length (chunk_bytes front)) sendable) x" "room > header + 1 \<Longrightarrow> 0 < x"
    "x = room - header - w" "n = 0 \<Longrightarrow> chunk_isFinal front"
proof -
  let ?fitting = "min (length (chunk_bytes front)) sendable"
  define p where "p = min ?fitting (room - header - 1)"
  define w where "w = quicVariableLengthIntegerByteCount (of_nat p)"
  have result: "(if 1 < w then if room \<le> header + w then None
        else if min ?fitting (room - header - w) = 0 \<and> \<not> chunk_isFinal front then None
          else Some (min ?fitting (room - header - w))
      else if p = 0 \<and> \<not> chunk_isFinal front then None else Some p) = Some n"
    using assms by (simp only: streamPayloadLength_def Let_def p_def w_def)
  show thesis
  proof (cases "1 < w")
    case True
    then have wide: "\<not> room \<le> header + w" "\<not> (min ?fitting (room - header - w) = 0 \<and> \<not> chunk_isFinal front)"
      using result by (auto split: if_splits)
    then have "n = min ?fitting (room - header - w)"
      using result True by (simp only: if_True if_False option.inject)
    then show thesis using wide by (intro that [of "room - header - w" w]) auto
  next
    case False
    then have "\<not> (p = 0 \<and> \<not> chunk_isFinal front)" "n = p"
      using result by (auto split: if_splits)
    then have final: "n = 0 \<Longrightarrow> chunk_isFinal front" by blast
    have "n = min ?fitting (room - header - 1)" using \<open>n = p\<close> by (simp only: p_def)
    then show thesis by (rule that [of "room - header - 1" 1]) (auto intro: final)
  qed
qed

lemma streamPayloadLength_bounds:
  assumes "streamPayloadLength front sendable room header = Some n"
  shows "n \<le> length (chunk_bytes front)" "n \<le> sendable"
    "room > header + 1 \<Longrightarrow> sendable = 0 \<longrightarrow> chunk_isFinal front \<and> chunk_bytes front = [] \<Longrightarrow>
      n \<noteq> length (chunk_bytes front) \<Longrightarrow> 0 < n"
  by (rule streamPayloadLength_fits [OF assms]; auto simp: min_def split: if_splits)+

text \<open>One round of the loop over the queue: \<open>Inl stop\<close> where it ends, by \<open>break\<close> (\<open>False\<close>) or by
  the return of the enclosing lambda (\<open>True\<close>).\<close>

definition sendStep :: "nat \<Rightarrow> u64 \<Rightarrow> OutgoingStream \<Rightarrow> QuicStreamLayer \<Rightarrow> sending \<Rightarrow>
    thrown + (bool + OutgoingStream \<times> QuicStreamLayer \<times> sending)" where
  "sendStep byteBudget streamId stream s acc =
    (case acc of (frames, used, sentRanges) \<Rightarrow>
     case out_pendingQueue stream of
       [] \<Rightarrow> Inr (Inl False)
     | front # later \<Rightarrow>
         let remainingBudget = saturatingRoomOf byteBudget used;
             headerByteLength = streamFrameHeaderByteLength streamId (chunk_beginOffset front);
             sendableByteCount = sendableByteCountOf (chunk_beginOffset front)
               (length (chunk_bytes front)) (out_sentHighWater stream) (sendCreditOf s stream)
         in if sendableByteCount = 0 \<and> \<not> (chunk_isFinal front \<and> chunk_bytes front = [])
            then Inr (Inl False)
            else if remainingBudget \<le> headerByteLength + 1 then Inr (Inl True)
            else (case streamPayloadLength front sendableByteCount remainingBudget headerByteLength of
              None \<Rightarrow> Inr (Inl True)
            | Some n \<Rightarrow>
                let carriesFinal = (chunk_isFinal front \<and> n = length (chunk_bytes front)) in
                bindR (appendQuicFrame frames (QuicStreamFrame streamId (chunk_beginOffset front)
                    (take n (chunk_bytes front)) carriesFinal))
                  (\<lambda>appended.
                    case noteChunkSent streamId n front later stream s of (stream, s) \<Rightarrow>
                      Inr (Inr (stream, s, appended, used + (length appended - length frames),
                         sentRanges @ [\<lparr>range_streamId = streamId, range_beginOffset = chunk_beginOffset front,
                           range_endOffset = chunk_beginOffset front + of_nat n, range_isFinal = carriesFinal\<rparr>])))))"

lemma sendStep_next:
  assumes "sendStep byteBudget streamId stream s (frames, used, sentRanges) = Inr (Inr (stream', s', acc'))"
  obtains front later n appended where
    "out_pendingQueue stream = front # later"
    "\<not> (sendableByteCountOf (chunk_beginOffset front) (length (chunk_bytes front)) (out_sentHighWater stream)
         (sendCreditOf s stream) = 0 \<and> \<not> (chunk_isFinal front \<and> chunk_bytes front = []))"
    "saturatingRoomOf byteBudget used > streamFrameHeaderByteLength streamId (chunk_beginOffset front) + 1"
    "streamPayloadLength front (sendableByteCountOf (chunk_beginOffset front) (length (chunk_bytes front))
         (out_sentHighWater stream) (sendCreditOf s stream)) (saturatingRoomOf byteBudget used)
         (streamFrameHeaderByteLength streamId (chunk_beginOffset front)) = Some n"
    "appendQuicFrame frames (QuicStreamFrame streamId (chunk_beginOffset front) (take n (chunk_bytes front))
         (chunk_isFinal front \<and> n = length (chunk_bytes front))) = Inr appended"
    "noteChunkSent streamId n front later stream s = (stream', s')"
    "acc' = (appended, used + (length appended - length frames), sentRanges @
       [\<lparr>range_streamId = streamId, range_beginOffset = chunk_beginOffset front,
         range_endOffset = chunk_beginOffset front + of_nat n,
         range_isFinal = (chunk_isFinal front \<and> n = length (chunk_bytes front))\<rparr>])"
proof -
  obtain front later where queue: "out_pendingQueue stream = front # later"
    using assms by (cases "out_pendingQueue stream") (simp_all add: sendStep_def)
  let ?sendable = "sendableByteCountOf (chunk_beginOffset front) (length (chunk_bytes front))
    (out_sentHighWater stream) (sendCreditOf s stream)"
  let ?room = "saturatingRoomOf byteBudget used"
  let ?header = "streamFrameHeaderByteLength streamId (chunk_beginOffset front)"
  define A where "A \<longleftrightarrow> ?sendable = 0 \<and> \<not> (chunk_isFinal front \<and> chunk_bytes front = [])"
  define B where "B \<longleftrightarrow> ?room \<le> ?header + 1"
  define K where "K = (\<lambda>n. bindR (appendQuicFrame frames (QuicStreamFrame streamId (chunk_beginOffset front)
        (take n (chunk_bytes front)) (chunk_isFinal front \<and> n = length (chunk_bytes front))))
      (\<lambda>appended. case noteChunkSent streamId n front later stream s of (stream, s) \<Rightarrow>
        Inr (Inr (stream, s, appended, used + (length appended - length frames),
          sentRanges @ [\<lparr>range_streamId = streamId, range_beginOffset = chunk_beginOffset front,
            range_endOffset = chunk_beginOffset front + of_nat n,
            range_isFinal = (chunk_isFinal front \<and> n = length (chunk_bytes front))\<rparr>])
          :: bool + OutgoingStream \<times> QuicStreamLayer \<times> sending)))"
  have step: "(if A then Inr (Inl False) else if B then Inr (Inl True)
      else case streamPayloadLength front ?sendable ?room ?header of
        None \<Rightarrow> Inr (Inl True) | Some n \<Rightarrow> K n) = Inr (Inr (stream', s', acc'))"
    using assms unfolding sendStep_def A_def B_def K_def by (simp only: queue prod.case list.case Let_def)
  then have "\<not> A" "\<not> B" by (auto split: if_splits)
  with step obtain n where n: "streamPayloadLength front ?sendable ?room ?header = Some n"
      and "K n = Inr (Inr (stream', s', acc'))"
    by (auto split: option.splits)
  then obtain appended where "appendQuicFrame frames (QuicStreamFrame streamId (chunk_beginOffset front)
        (take n (chunk_bytes front)) (chunk_isFinal front \<and> n = length (chunk_bytes front))) = Inr appended"
    "noteChunkSent streamId n front later stream s = (stream', s')"
    "acc' = (appended, used + (length appended - length frames), sentRanges @
       [\<lparr>range_streamId = streamId, range_beginOffset = chunk_beginOffset front,
         range_endOffset = chunk_beginOffset front + of_nat n,
         range_isFinal = (chunk_isFinal front \<and> n = length (chunk_bytes front))\<rparr>])"
    unfolding K_def by (auto elim!: bindR_InrE split: prod.splits)
  then show thesis
    using queue \<open>\<not> A\<close> \<open>\<not> B\<close> n that unfolding A_def B_def not_le by blast
qed

lemma sendStep_decreases:
  assumes "sendStep byteBudget streamId stream s acc = Inr (Inr (stream', s', acc'))"
  shows "pendingQueueByteCount stream' + length (out_pendingQueue stream')
    < pendingQueueByteCount stream + length (out_pendingQueue stream)"
proof -
  obtain frames used sentRanges where acc: "acc = (frames, used, sentRanges)" by (cases acc)
  show ?thesis
    using assms unfolding acc
  proof (cases rule: sendStep_next)
    case (1 front later n appended)
    have n: "n \<le> length (chunk_bytes front)" "n \<noteq> length (chunk_bytes front) \<Longrightarrow> 0 < n"
      using streamPayloadLength_bounds [OF 1(4)] 1(2,3) by auto
    have "out_pendingQueue stream' = (if n = length (chunk_bytes front) then later
       else front\<lparr>chunk_bytes := drop n (chunk_bytes front),
                  chunk_beginOffset := chunk_beginOffset front + of_nat n\<rparr> # later)"
      using noteChunkSent_queue [of streamId n front later stream s] 1(6) by simp
    then show ?thesis
      using n 1(1) by (auto simp: pendingQueueByteCount_def)
  qed
qed

function sendLoop :: "nat \<Rightarrow> u64 \<Rightarrow> OutgoingStream \<Rightarrow> QuicStreamLayer \<Rightarrow> sending \<Rightarrow>
    thrown + bool \<times> OutgoingStream \<times> QuicStreamLayer \<times> sending" where
  "sendLoop byteBudget streamId stream s acc =
    bindR (sendStep byteBudget streamId stream s acc) (\<lambda>outcome.
      case outcome of
        Inl halted \<Rightarrow> Inr (halted, stream, s, acc)
      | Inr (stream', s', acc') \<Rightarrow> sendLoop byteBudget streamId stream' s' acc')"
  by pat_completeness auto
termination
  by (relation "measure (\<lambda>(budget, streamId, stream, s, acc).
        pendingQueueByteCount stream + length (out_pendingQueue stream))")
    (auto dest: sendStep_decreases)

declare sendLoop.simps [simp del]

fun collectRange :: "nat \<Rightarrow> (u64, OutgoingStream) std_map \<Rightarrow> QuicStreamLayer \<Rightarrow> sending \<Rightarrow>
    thrown + (u64, OutgoingStream) std_map \<times> QuicStreamLayer \<times> sending" where
  "collectRange byteBudget [] s acc = Inr ([], s, acc)"
| "collectRange byteBudget ((streamId, stream) # entries) s acc =
    (if out_isAborted stream
     then bindR (collectRange byteBudget entries s acc)
       (\<lambda>(entries, s, acc). Inr ((streamId, stream) # entries, s, acc))
     else bindR (sendLoop byteBudget streamId stream s acc) (\<lambda>(halted, stream, s, acc).
       if halted then Inr ((streamId, stream) # entries, s, acc)
       else bindR (collectRange byteBudget entries s acc)
         (\<lambda>(entries, s, acc). Inr ((streamId, stream) # entries, s, acc))))"

definition collectStreamData :: "bytes \<Rightarrow> nat \<Rightarrow> QuicStreamRange list \<Rightarrow> QuicStreamLayer \<Rightarrow>
    thrown + sending \<times> QuicStreamLayer" where
  "collectStreamData frames byteBudget sentRanges s =
    (if \<not> m_hasPeerParameters s then Inr ((frames, 0, sentRanges), s)
     else
       let before = takeWhile (\<lambda>entry. fst entry < m_nextSendStreamId s) (m_outgoing s);
           fromRotation = dropWhile (\<lambda>entry. fst entry < m_nextSendStreamId s) (m_outgoing s)
       in bindR (collectRange byteBudget fromRotation s (frames, 0, sentRanges)) (\<lambda>(fromRotation, s, acc).
            if fst (snd acc) < byteBudget
            then bindR (collectRange byteBudget before s acc) (\<lambda>(before, s, acc).
                   Inr (acc, s\<lparr>m_outgoing := before @ fromRotation\<rparr>))
            else Inr (acc, s\<lparr>m_outgoing := before @ fromRotation\<rparr>)))"

definition collectFrames :: "bytes \<Rightarrow> nat \<Rightarrow> QuicStreamRange list \<Rightarrow> announcements \<Rightarrow> QuicStreamLayer \<Rightarrow>
    thrown + bool \<times> bytes \<times> QuicStreamRange list \<times> announcements \<times> QuicStreamLayer" where
  "collectFrames frames byteBudget sentRanges announced s =
    (let s = retireSettledStreams s in
     bindR (collectAbortAnnouncements frames byteBudget announced s)
       (\<lambda>(frames, announcementByteCount, announced, s).
        let remainingAfterAnnouncements = byteBudget - announcementByteCount in
        bindR (collectWindowUpdates frames remainingAfterAnnouncements s)
          (\<lambda>(frames, windowUpdateByteCount, s).
           let remainingBudget = remainingAfterAnnouncements - windowUpdateByteCount in
           bindR (collectStreamData frames remainingBudget sentRanges s)
             (\<lambda>((frames, streamByteCount, sentRanges), s).
              Inr (announcementByteCount + windowUpdateByteCount + streamByteCount > 0,
                   frames, sentRanges, announced, s)))))"

section \<open>What became of the frames\<close>

definition acknowledgeSendRange :: "QuicStreamRange \<Rightarrow> QuicStreamLayer \<Rightarrow> QuicStreamLayer" where
  "acknowledgeSendRange r s =
    (case map_find (range_streamId r) (m_outgoing s) of
       None \<Rightarrow> s
     | Some stream \<Rightarrow> s\<lparr>m_outgoing := map_put (range_streamId r)
         (stream\<lparr>out_inFlight := map_erase (range_beginOffset r) (out_inFlight stream)\<rparr>) (m_outgoing s)\<rparr>)"

definition onSendRangesAcknowledged :: "QuicStreamRange list \<Rightarrow> QuicStreamLayer \<Rightarrow> QuicStreamLayer" where
  "onSendRangesAcknowledged acknowledgedRanges s = fold acknowledgeSendRange acknowledgedRanges s"

definition loseSendRange :: "QuicStreamRange \<Rightarrow> QuicStreamLayer \<Rightarrow> QuicStreamLayer" where
  "loseSendRange r s =
    (case map_find (range_streamId r) (m_outgoing s) of
       None \<Rightarrow> s
     | Some stream \<Rightarrow>
         (case map_find (range_beginOffset r) (out_inFlight stream) of
            None \<Rightarrow> s
          | Some lost \<Rightarrow>
              let stream = stream\<lparr>out_inFlight := map_erase (range_beginOffset r) (out_inFlight stream)\<rparr>;
                  stream = (if range_isFinal r then stream\<lparr>out_isFinalSentToPeer := False\<rparr> else stream);
                  stream = (if out_isAborted stream then stream
                    else stream\<lparr>out_pendingQueue :=
                           lost\<lparr>chunk_isFinal := range_isFinal r\<rparr> # out_pendingQueue stream\<rparr>)
              in s\<lparr>m_outgoing := map_put (range_streamId r) stream (m_outgoing s)\<rparr>))"

definition onSendRangesLost :: "QuicStreamRange list \<Rightarrow> QuicStreamLayer \<Rightarrow> QuicStreamLayer" where
  "onSendRangesLost lostRanges s =
    (let s = fold loseSendRange lostRanges s in
     s\<lparr>m_outgoing := map (\<lambda>(streamId, stream). (streamId,
         stream\<lparr>out_pendingQueue := sort_key chunk_beginOffset (out_pendingQueue stream)\<rparr>)) (m_outgoing s)\<rparr>)"

text \<open>\<open>abortAnnouncementOf\<close> returns a pointer into a stream; the model applies the update there.\<close>

definition updateAbortAnnouncement :: "(AbortAnnouncement \<Rightarrow> AbortAnnouncement) \<Rightarrow> QuicStreamAnnouncement \<Rightarrow>
    QuicStreamLayer \<Rightarrow> QuicStreamLayer" where
  "updateAbortAnnouncement f announcement s =
    (if isResetStream announcement then
       (case map_find (announcement_streamId announcement) (m_outgoing s) of
          None \<Rightarrow> s
        | Some stream \<Rightarrow>
            (case out_sendAbort stream of
               None \<Rightarrow> s
             | Some target \<Rightarrow> s\<lparr>m_outgoing := map_put (announcement_streamId announcement)
                 (stream\<lparr>out_sendAbort := Some (f target)\<rparr>) (m_outgoing s)\<rparr>))
     else
       (case map_find (announcement_streamId announcement) (m_incoming s) of
          None \<Rightarrow> s
        | Some stream \<Rightarrow>
            (case in_receiveStop stream of
               None \<Rightarrow> s
             | Some target \<Rightarrow> storeIncoming (announcement_streamId announcement)
                 (stream\<lparr>in_receiveStop := Some (f target)\<rparr>) s)))"

definition onStreamAnnouncementsAcknowledged :: "announcements \<Rightarrow> QuicStreamLayer \<Rightarrow> QuicStreamLayer" where
  "onStreamAnnouncementsAcknowledged acknowledgedAnnouncements s =
    fold (updateAbortAnnouncement (\<lambda>target. target\<lparr>abort_isAcknowledged := True, abort_isInFlight := False\<rparr>))
      acknowledgedAnnouncements s"

definition onStreamAnnouncementsLost :: "announcements \<Rightarrow> QuicStreamLayer \<Rightarrow> QuicStreamLayer" where
  "onStreamAnnouncementsLost lostAnnouncements s =
    fold (updateAbortAnnouncement (\<lambda>target. if abort_isAcknowledged target then target
            else target\<lparr>abort_isInFlight := False\<rparr>)) lostAnnouncements s"

end
