(* ===== verification/QuicStreamEvents.thy ===== *)
theory QuicStreamEvents
  imports QuicStreams "HOL-Library.Sublist"
begin

text \<open>
  The stream layer driven by any sequence of calls: the public operations as events, one step
  per call. On top of it, which calls leave the incoming streams and the connection's receive
  credit alone, and which streams the retirement of a settled stream closes.
\<close>

section \<open>Events\<close>

datatype stream_event =
    AdoptParameters QuicTransportParameters
  | StreamArrives u64 u64 bytes bool
  | MaxDataArrives u64
  | MaxStreamDataArrives u64 u64
  | MaxStreamsArrives u64 bool
  | ResetArrives u64 u64 u64
  | StopArrives u64 u64
  | WriteData u64 bytes bool
  | ResetSending u64 u64
  | StopReceiving u64 u64
  | OpenUnidirectional
  | OpenBidirectional
  | ReleaseWindow u64 nat
  | TakeDelivery
  | TakeAborted
  | TakeDrained
  | CollectFrames nat
  | RangesAcknowledged "QuicStreamRange list"
  | RangesLost "QuicStreamRange list"
  | AnnouncementsAcknowledged announcements
  | AnnouncementsLost announcements

text \<open>The layer after a call and the ranges it sent; \<open>CollectFrames\<close> can throw.\<close>

fun layerStep :: "stream_event \<Rightarrow> QuicStreamLayer \<Rightarrow> thrown + QuicStreamLayer \<times> QuicStreamRange list" where
  "layerStep (AdoptParameters p) s = Inr (adoptPeerParameters p s, [])"
| "layerStep (StreamArrives i offset data final) s = Inr (snd (onStreamFrame i offset data final s), [])"
| "layerStep (MaxDataArrives m) s = Inr (snd (onMaxDataFrame m s), [])"
| "layerStep (MaxStreamDataArrives i m) s = Inr (snd (onMaxStreamDataFrame i m s), [])"
| "layerStep (MaxStreamsArrives m uni) s = Inr (snd (onMaxStreamsFrame m uni s), [])"
| "layerStep (ResetArrives i e finalSize) s = Inr (snd (onResetStreamFrame i e finalSize s), [])"
| "layerStep (StopArrives i e) s = Inr (snd (onStopSendingFrame i e s), [])"
| "layerStep (WriteData i data final) s = Inr (snd (writeStreamData i data final s), [])"
| "layerStep (ResetSending i e) s = Inr (resetStreamSending i e s, [])"
| "layerStep (StopReceiving i e) s = Inr (stopStreamReceiving i e s, [])"
| "layerStep OpenUnidirectional s = Inr (snd (openUnidirectionalStream s), [])"
| "layerStep OpenBidirectional s = Inr (snd (openBidirectionalStream s), [])"
| "layerStep (ReleaseWindow i n) s = Inr (releaseReceiveWindow i n s, [])"
| "layerStep TakeDelivery s = Inr (snd (takeDelivery s), [])"
| "layerStep TakeAborted s = Inr (snd (takeAbortedStream s), [])"
| "layerStep TakeDrained s = Inr (snd (takeDrainedSendByteCount s), [])"
| "layerStep (CollectFrames budget) s =
     bindR (collectFrames [] budget [] [] s) (\<lambda>(anything, frames, ranges, announced, s). Inr (s, ranges))"
| "layerStep (RangesAcknowledged rs) s = Inr (onSendRangesAcknowledged rs s, [])"
| "layerStep (RangesLost rs) s = Inr (onSendRangesLost rs s, [])"
| "layerStep (AnnouncementsAcknowledged rs) s = Inr (onStreamAnnouncementsAcknowledged rs s, [])"
| "layerStep (AnnouncementsLost rs) s = Inr (onStreamAnnouncementsLost rs s, [])"

fun layerRun :: "stream_event list \<Rightarrow> QuicStreamLayer \<Rightarrow> thrown + QuicStreamLayer" where
  "layerRun [] s = Inr s"
| "layerRun (e # es) s = bindR (layerStep e s) (\<lambda>(s, ranges). layerRun es s)"

lemma layerRun_induct [case_names run start step]:
  assumes "layerRun es s = Inr s'" "P s"
    and "\<And>e s s' ranges. layerStep e s = Inr (s', ranges) \<Longrightarrow> P s \<Longrightarrow> P s'"
  shows "P s'"
  using assms(1,2)
proof (induction es arbitrary: s)
  case (Cons e es)
  from Cons.prems(1) obtain m ranges where "layerStep e s = Inr (m, ranges)" "layerRun es m = Inr s'"
    by (auto elim!: bindR_InrE)
  then show ?case using Cons.IH assms(3) Cons.prems(2) by blast
qed simp

section \<open>Examples\<close>

definition exampleParameters :: QuicTransportParameters where
  "exampleParameters = defaultTransportParameters\<lparr>initialMaximumData := 10,
     initialMaximumStreamDataBidirectionalLocal := 8, initialMaximumStreamDataBidirectionalRemote := 8,
     initialMaximumStreamDataUnidirectional := 8, initialMaximumBidirectionalStreams := 10,
     initialMaximumUnidirectionalStreams := 10\<rparr>"

definition exampleLayer :: QuicStreamLayer where
  "exampleLayer = newStreamLayer exampleParameters True"

text \<open>A request of two bytes on the second stream of the client, read by the application.\<close>

definition exampleRead :: QuicStreamLayer where
  "exampleRead = releaseReceiveWindow 4 2 (snd (onStreamFrame 4 0 [1, 2] True exampleLayer))"

definition exampleReadStream :: IncomingStream where
  "exampleReadStream = the (map_find 4 (m_incoming exampleRead))"

text \<open>The response to it has been sent and acknowledged.\<close>

definition exampleResponse :: OutgoingStream where
  "exampleResponse = freshOutgoing\<lparr>out_nextWriteOffset := 1, out_sentHighWater := 1, out_streamLimit := 8,
     out_finalOffset := Some 1, out_isFinalSentToPeer := True\<rparr>"

section \<open>The receiving side\<close>

text \<open>The incoming streams, and the bytes and the credit of the connection.\<close>

definition receive_side :: "QuicStreamLayer \<Rightarrow> (u64, IncomingStream) std_map \<times> u64 \<times> u64" where
  "receive_side s = (m_incoming s, m_connectionReceivedBytes s, m_connectionAdvertisedLimit s)"

named_theorems receive_side_simps \<open>operations that leave the receive side alone\<close>

lemma raiseAdvertised_receive [receive_side_simps]:
  "receive_side (raiseAdvertisedStreamLimits s) = receive_side s"
  by (simp add: receive_side_def raiseAdvertisedStreamLimits_def split: prod.splits)

lemma noteRetired_receive [receive_side_simps]:
  "receive_side (noteStreamRetired i b s) = receive_side s"
  "receive_side (noteLocalBidiStreamRetired i b s) = receive_side s"
  by (simp_all add: receive_side_def noteStreamRetired_def noteLocalBidiStreamRetired_def Let_def split: prod.splits)

lemma outgoingStream_receive [receive_side_simps]:
  "receive_side (snd (outgoingStream i s)) = receive_side s"
  by (simp add: receive_side_def outgoingStream_def Let_def split: option.splits)

lemma sending_receive [receive_side_simps]:
  "receive_side (adoptPeerParameters p s) = receive_side s"
  "receive_side (snd (onMaxDataFrame m s)) = receive_side s"
  "receive_side (snd (onMaxStreamDataFrame i m s)) = receive_side s"
  "receive_side (snd (onMaxStreamsFrame m uni s)) = receive_side s"
  "receive_side (snd (takeDelivery s)) = receive_side s"
  "receive_side (snd (takeAbortedStream s)) = receive_side s"
  "receive_side (snd (takeDrainedSendByteCount s)) = receive_side s"
  "receive_side (pushAborted i e b s) = receive_side s"
  by (simp_all add: receive_side_def adoptPeerParameters_def onMaxDataFrame_def onMaxStreamDataFrame_def
      onMaxStreamsFrame_def takeDelivery_def takeAbortedStream_def takeDrainedSendByteCount_def
      pushAborted_def Let_def split: option.splits prod.splits)

lemma put_outgoing_receive [receive_side_simps]:
  "receive_side (s\<lparr>m_outgoing := streams\<rparr>) = receive_side s"
  by (simp add: receive_side_def)

lemma creating_receive [receive_side_simps]:
  "receive_side (snd (onStopSendingFrame i e s)) = receive_side s"
  "receive_side (snd (writeStreamData i data final s)) = receive_side s"
  "receive_side (resetStreamSending i e s) = receive_side s"
proof -
  obtain stream t where out: "outgoingStream i s = (stream, t)" by (cases "outgoingStream i s")
  then have t: "receive_side t = receive_side s" using outgoingStream_receive [of i s] by simp
  show "receive_side (snd (onStopSendingFrame i e s)) = receive_side s"
    by (simp add: onStopSendingFrame_def out t Let_def receive_side_simps)
  show "receive_side (snd (writeStreamData i data final s)) = receive_side s"
    by (simp add: writeStreamData_def out t Let_def receive_side_simps)
  show "receive_side (resetStreamSending i e s) = receive_side s"
    by (simp add: resetStreamSending_def out t Let_def receive_side_simps)
qed

lemma open_receive [receive_side_simps]:
  "receive_side (snd (openUnidirectionalStream s)) = receive_side s"
  "receive_side (snd (openBidirectionalStream s)) = receive_side s"
  using outgoingStream_receive [of "m_nextUnidirectionalStreamId s"
      "s\<lparr>m_nextUnidirectionalStreamId := m_nextUnidirectionalStreamId s + kStreamIdStride\<rparr>"]
    outgoingStream_receive [of "m_nextBidirectionalStreamId s"
      "s\<lparr>m_nextBidirectionalStreamId := m_nextBidirectionalStreamId s + kStreamIdStride\<rparr>"]
  by (auto simp: receive_side_def openUnidirectionalStream_def openBidirectionalStream_def Let_def)

lemma fold_receive:
  "(\<And>x s. receive_side (f x s) = receive_side s) \<Longrightarrow> receive_side (fold f xs s) = receive_side s"
  by (induction xs arbitrary: s) simp_all

lemma ranges_receive [receive_side_simps]:
  "receive_side (onSendRangesAcknowledged rs s) = receive_side s"
  "receive_side (onSendRangesLost rs s) = receive_side s"
proof -
  have "receive_side (acknowledgeSendRange r s) = receive_side s" for r s
    by (simp add: receive_side_def acknowledgeSendRange_def split: option.splits)
  then show "receive_side (onSendRangesAcknowledged rs s) = receive_side s"
    unfolding onSendRangesAcknowledged_def by (rule fold_receive)
  have "receive_side (loseSendRange r s) = receive_side s" for r s
    by (simp add: receive_side_def loseSendRange_def Let_def split: option.splits)
  then have "receive_side (fold loseSendRange rs s) = receive_side s" by (rule fold_receive)
  then show "receive_side (onSendRangesLost rs s) = receive_side s"
    by (simp add: receive_side_def onSendRangesLost_def Let_def)
qed

lemma reset_keeps_window:
  "drainContiguousBytes i stream s = (stream', s') \<Longrightarrow>
    in_receivedHighWaterOffset stream' = in_receivedHighWaterOffset stream \<and>
    in_streamLimit stream' = in_streamLimit stream \<and> receive_side s' = receive_side s"
  by (auto simp: drainContiguousBytes_def receive_side_def Let_def split: prod.splits if_splits)

lemma storeIncoming_receive:
  "receive_side (storeIncoming i stream s) =
    (map_put i stream (m_incoming s), m_connectionReceivedBytes s, m_connectionAdvertisedLimit s)"
  by (simp add: receive_side_def storeIncoming_def)

lemma create_receive:
  "receive_side (createIncomingStream i s) =
    (map_put i ((case map_find i (m_incoming s) of Some stream \<Rightarrow> stream | None \<Rightarrow> freshIncoming)
       \<lparr>in_streamLimit := incomingInitialWindowOf s i\<rparr>) (m_incoming s),
     m_connectionReceivedBytes s, m_connectionAdvertisedLimit s)"
  by (auto simp: createIncomingStream_def Let_def receive_side_simps) (simp_all add: receive_side_def)

lemma raiseWindow_raises:
  "raiseWindowAfterConsumption consumed initial (limit, pending) = (limit', pending') \<Longrightarrow> limit \<le> limit'"
  by (auto simp: raiseWindowAfterConsumption_def Let_def split: if_splits)

lemma retireIncoming_keeps:
  "retireIncoming entries s = (kept, s') \<Longrightarrow> receive_side s' = receive_side s \<and> subseq kept entries"
  by (induction entries s arbitrary: kept s' rule: retireIncoming.induct)
    (auto simp: receive_side_simps split: if_splits prod.splits)

lemma retireOutgoing_keeps:
  "retireOutgoing entries s = (kept, s') \<Longrightarrow> receive_side s' = receive_side s \<and> subseq kept entries"
  by (induction entries s arbitrary: kept s' rule: retireOutgoing.induct)
    (auto simp: receive_side_simps split: if_splits prod.splits)

lemma subseq_set: "subseq m n \<Longrightarrow> set m \<subseteq> set n"
  by (induction rule: list_emb.induct) auto

lemma subseq_map_inv: "subseq m n \<Longrightarrow> map_inv n \<Longrightarrow> map_inv m"
  by (induction rule: list_emb.induct) (auto dest: subseq_set)

lemma sendLoop_invariant [case_names run start step]:
  assumes run: "sendLoop budget i stream s acc = Inr (halted, stream', s', acc')"
    and start: "I stream s acc"
    and step: "\<And>stream s frames used ranges stream' s' acc'.
      sendStep budget i stream s (frames, used, ranges) = Inr (Inr (stream', s', acc')) \<Longrightarrow>
      I stream s (frames, used, ranges) \<Longrightarrow> I stream' s' acc'"
  shows "I stream' s' acc'"
  using run start
proof (induction "pendingQueueByteCount stream + length (out_pendingQueue stream)"
    arbitrary: stream s acc rule: less_induct)
  case less
  obtain outcome where first: "sendStep budget i stream s acc = Inr outcome"
      and rest: "(case outcome of Inl halted \<Rightarrow> Inr (halted, stream, s, acc)
        | Inr (stream', s', acc') \<Rightarrow> sendLoop budget i stream' s' acc') = Inr (halted, stream', s', acc')"
    using less.prems(1) by (subst (asm) sendLoop.simps) (auto elim!: bindR_InrE)
  show ?case
  proof (cases outcome)
    case (Inl halt)
    then show ?thesis using rest less.prems(2) by simp
  next
    case (Inr r)
    then obtain st t acc2 where r: "outcome = Inr (st, t, acc2)" by (cases r) auto
    obtain frames used ranges where acc: "acc = (frames, used, ranges)" by (cases acc)
    have "I st t acc2" using step first less.prems(2) unfolding r acc by blast
    moreover have "sendLoop budget i st t acc2 = Inr (halted, stream', s', acc')" using rest r by simp
    ultimately show ?thesis
      using less.hyps [of st t acc2] sendStep_decreases first r by blast
  qed
qed

lemma sendStep_receive:
  "sendStep budget i stream s (frames, used, ranges) = Inr (Inr (stream', s', acc')) \<Longrightarrow>
    receive_side s' = receive_side s"
  by (erule sendStep_next) (auto simp: noteChunkSent_def Let_def receive_side_def)

lemma sendLoop_receive:
  "sendLoop budget i stream s acc = Inr (halted, stream', s', acc') \<Longrightarrow> receive_side s' = receive_side s"
  by (erule sendLoop_invariant [where I = "\<lambda>stream t acc. receive_side t = receive_side s"])
    (auto dest: sendStep_receive)

lemma collectRange_cases:
  assumes "collectRange budget ((i, stream) # entries) s acc = Inr (entries', s', acc')"
  obtains (aborted) rest where "out_isAborted stream" "entries' = (i, stream) # rest"
      "collectRange budget entries s acc = Inr (rest, s', acc')"
  | (halted) stream' where "\<not> out_isAborted stream" "entries' = (i, stream') # entries"
      "sendLoop budget i stream s acc = Inr (True, stream', s', acc')"
  | (continued) stream' t acc2 rest where "\<not> out_isAborted stream" "entries' = (i, stream') # rest"
      "sendLoop budget i stream s acc = Inr (False, stream', t, acc2)"
      "collectRange budget entries t acc2 = Inr (rest, s', acc')"
proof (cases "out_isAborted stream")
  case True
  then show thesis using assms aborted by (auto elim!: bindR_InrE)
next
  case False
  then obtain h stream' t acc2 where run: "sendLoop budget i stream s acc = Inr (h, stream', t, acc2)"
      and rest: "(if h then Inr ((i, stream') # entries, t, acc2)
        else bindR (collectRange budget entries t acc2)
          (\<lambda>(entries, s, acc). Inr ((i, stream') # entries, s, acc))) = Inr (entries', s', acc')"
    using assms by (auto elim!: bindR_InrE)
  show thesis
    using run rest False halted continued by (cases h) (auto elim!: bindR_InrE)
qed

lemma collectRange_receive:
  "collectRange budget entries s acc = Inr (entries', s', acc') \<Longrightarrow> receive_side s' = receive_side s"
proof (induction entries arbitrary: s acc entries')
  case (Cons entry entries)
  obtain i stream where "entry = (i, stream)" by (cases entry)
  from Cons.prems [unfolded this] show ?case
    by (cases rule: collectRange_cases) (use Cons.IH sendLoop_receive in metis)+
qed simp

lemma collectStreamData_receive:
  "collectStreamData frames budget ranges s = Inr (acc', s') \<Longrightarrow> receive_side s' = receive_side s"
  by (auto simp: collectStreamData_def Let_def put_outgoing_receive split: if_splits elim!: bindR_InrE)
    (metis collectRange_receive)+

lemma tryAppendIfPending_flag: "tryAppendIfPending budget frame pending acc = Inr (pending', acc') \<Longrightarrow> pending' \<longrightarrow> pending"
  by (auto simp: tryAppendIfPending_def split: prod.splits if_splits elim!: bindR_InrE)

lemmas unfold_binds = Let_def bindR_Inr_iff split_paired_Ex prod.case sum.inject prod.inject

section \<open>What retirement closes\<close>

lemma index_grows: "streamIndexOfType i < streamIndexOfType i + 1"
proof -
  have "unat (streamIndexOfType i) < 2 ^ 62"
    using unat_u64_bound [of i] by (simp add: streamIndexOfType_def kStreamIdStride_def unat_div)
  then have "unat (streamIndexOfType i + 1) = unat (streamIndexOfType i) + 1"
    by (subst unat_plus_simple [THEN iffD1]) (auto simp: word_le_nat_alt unat_word_ariths)
  then show ?thesis by (simp add: word_less_nat_alt)
qed

definition boundary_of :: "QuicStreamLayer \<Rightarrow> bool \<Rightarrow> u64 \<Rightarrow> u64" where
  "boundary_of s isReceiveSide i =
    m_retiredPeerStreamBoundaries s (if isReceiveSide then 0 else 1) (retiredBoundarySlotOf i)"

lemma isPeerStreamSideRetired_boundary:
  "isPeerStreamSideRetired s i side \<longleftrightarrow> \<not> isLocallyInitiated s i \<and> streamIndexOfType i < boundary_of s side i"
  by (simp add: isPeerStreamSideRetired_def boundary_of_def)

lemma noteStreamRetired_boundary:
  "boundary_of s side j \<le> boundary_of (noteStreamRetired i b s) side j"
  "streamIndexOfType i < boundary_of (noteStreamRetired i b s) b i"
  "isLocallyInitiated (noteStreamRetired i b s) = isLocallyInitiated s"
  using index_grows [of i]
  by (auto simp: boundary_of_def noteStreamRetired_def Let_def isLocallyInitiated_def fun_eq_iff less_max_iff_disj)

lemma noteLocalBidiStreamRetired_boundary:
  "boundary_of (noteLocalBidiStreamRetired i b s) = boundary_of s"
  "isLocallyInitiated (noteLocalBidiStreamRetired i b s) = isLocallyInitiated s"
  by (auto simp: boundary_of_def noteLocalBidiStreamRetired_def Let_def isLocallyInitiated_def fun_eq_iff
      split: prod.splits)

text \<open>One round of the two loops: the entry stays, or goes and its side is noted as retired.\<close>

lemma retireIncoming_step:
  assumes "retireIncoming ((k, st) # entries) s = (kept, s')"
  obtains (stays) rest where "kept = (k, st) # rest" "retireIncoming entries s = (rest, s')"
      "\<not> isIncomingSettled st \<or> isLocallyInitiated s k \<and> isUnidirectional k"
  | (goes) "isIncomingSettled st"
      "retireIncoming entries (if isLocallyInitiated s k then noteLocalBidiStreamRetired k True s
         else noteStreamRetired k True s) = (kept, s')" "\<not> (isLocallyInitiated s k \<and> isUnidirectional k)"
  using assms by (auto split: if_splits prod.splits)

lemma retireOutgoing_step:
  assumes "retireOutgoing ((k, st) # entries) s = (kept, s')"
  obtains (stays) rest where "kept = (k, st) # rest" "retireOutgoing entries s = (rest, s')"
      "\<not> isOutgoingSettled st \<or> isLocallyInitiated s k \<and> isUnidirectional k"
  | (goes) "isOutgoingSettled st"
      "retireOutgoing entries (if isLocallyInitiated s k then noteLocalBidiStreamRetired k False s
         else noteStreamRetired k False s) = (kept, s')" "\<not> (isLocallyInitiated s k \<and> isUnidirectional k)"
  using assms by (auto split: if_splits prod.splits)

definition noted :: "u64 \<Rightarrow> bool \<Rightarrow> QuicStreamLayer \<Rightarrow> QuicStreamLayer" where
  "noted k side s = (if isLocallyInitiated s k then noteLocalBidiStreamRetired k side s
     else noteStreamRetired k side s)"

lemma noted_boundary:
  "isLocallyInitiated (noted k b s) = isLocallyInitiated s"
  "boundary_of s side j \<le> boundary_of (noted k b s) side j"
  "\<not> isLocallyInitiated s k \<Longrightarrow> streamIndexOfType k < boundary_of (noted k b s) b k"
  using noteStreamRetired_boundary by (auto simp: noted_def noteLocalBidiStreamRetired_boundary)

lemma retireIncoming_boundary:
  assumes "retireIncoming entries s = (kept, s')"
  shows "isLocallyInitiated s' = isLocallyInitiated s \<and> boundary_of s side j \<le> boundary_of s' side j \<and>
    ((i, stream) \<in> set entries \<longrightarrow> \<not> isLocallyInitiated s i \<longrightarrow> isIncomingSettled stream \<longrightarrow>
      streamIndexOfType i < boundary_of s' True i)"
  using assms
proof (induction entries arbitrary: s kept side j i stream)
  case (Cons entry entries)
  obtain k st where entry: "entry = (k, st)" by (cases entry)
  from Cons.prems [unfolded entry] show ?case
  proof (cases rule: retireIncoming_step)
    case (stays rest)
    then show ?thesis using Cons.IH [OF stays(2)] by (auto simp: entry)
  next
    case goes
    let ?t = "noted k True s"
    have IH: "isLocallyInitiated s' = isLocallyInitiated ?t" "boundary_of ?t side j \<le> boundary_of s' side j"
        "(i, stream) \<in> set entries \<Longrightarrow> \<not> isLocallyInitiated ?t i \<Longrightarrow> isIncomingSettled stream \<Longrightarrow>
          streamIndexOfType i < boundary_of s' True i" for side j
      using Cons.IH [OF goes(2) [folded noted_def]] by simp_all
    have "streamIndexOfType k < boundary_of s' True k" if "\<not> isLocallyInitiated s k"
      using noted_boundary(3) [of s k True] that IH(2) [of True k] by simp
    then show ?thesis
      using IH(1,3) order_trans [OF noted_boundary(2) IH(2) [of side j]] noted_boundary(1)
      by (auto simp: entry)
  qed
qed simp


lemma retireOutgoing_boundary:
  assumes "retireOutgoing entries s = (kept, s')"
  shows "isLocallyInitiated s' = isLocallyInitiated s \<and> boundary_of s side j \<le> boundary_of s' side j \<and>
    ((i, stream) \<in> set entries \<longrightarrow> \<not> isLocallyInitiated s i \<longrightarrow> isOutgoingSettled stream \<longrightarrow>
      streamIndexOfType i < boundary_of s' False i)"
  using assms
proof (induction entries arbitrary: s kept side j i stream)
  case (Cons entry entries)
  obtain k st where entry: "entry = (k, st)" by (cases entry)
  from Cons.prems [unfolded entry] show ?case
  proof (cases rule: retireOutgoing_step)
    case (stays rest)
    then show ?thesis using Cons.IH [OF stays(2)] by (auto simp: entry)
  next
    case goes
    let ?t = "noted k False s"
    have IH: "isLocallyInitiated s' = isLocallyInitiated ?t" "boundary_of ?t side j \<le> boundary_of s' side j"
        "(i, stream) \<in> set entries \<Longrightarrow> \<not> isLocallyInitiated ?t i \<Longrightarrow> isOutgoingSettled stream \<Longrightarrow>
          streamIndexOfType i < boundary_of s' False i" for side j
      using Cons.IH [OF goes(2) [folded noted_def]] by simp_all
    have "streamIndexOfType k < boundary_of s' False k" if "\<not> isLocallyInitiated s k"
      using noted_boundary(3) [of s k False] that IH(2) [of False k] by simp
    then show ?thesis
      using IH(1,3) order_trans [OF noted_boundary(2) IH(2) [of side j]] noted_boundary(1)
      by (auto simp: entry)
  qed
qed simp

lemma retire_split:
  obtains incoming t outgoing u where
    "retireIncoming (m_incoming s) s = (incoming, t)"
    "retireOutgoing (m_outgoing t) (t\<lparr>m_incoming := incoming\<rparr>) = (outgoing, u)"
    "retireSettledStreams s = u\<lparr>m_outgoing := outgoing\<rparr>"
proof -
  obtain incoming t where first: "retireIncoming (m_incoming s) s = (incoming, t)"
    by (cases "retireIncoming (m_incoming s) s")
  obtain outgoing u where second: "retireOutgoing (m_outgoing t) (t\<lparr>m_incoming := incoming\<rparr>) = (outgoing, u)"
    by (cases "retireOutgoing (m_outgoing t) (t\<lparr>m_incoming := incoming\<rparr>)")
  show thesis
    using first second by (rule that) (simp add: retireSettledStreams_def first second)
qed

lemma same_slot: "isUnidirectional i = isUnidirectional j \<Longrightarrow> boundary_of s side i = boundary_of s side j"
  by (simp add: boundary_of_def retiredBoundarySlotOf_def)

lemma boundary_of_update [simp]:
  "boundary_of (s\<lparr>m_outgoing := x\<rparr>) = boundary_of s" "boundary_of (s\<lparr>m_incoming := y\<rparr>) = boundary_of s"
  "isLocallyInitiated (s\<lparr>m_outgoing := x\<rparr>) = isLocallyInitiated s"
  "isLocallyInitiated (s\<lparr>m_incoming := y\<rparr>) = isLocallyInitiated s"
  by (auto simp: boundary_of_def isLocallyInitiated_def fun_eq_iff)

lemma noted_maps [simp]:
  "m_incoming (noted k side s) = m_incoming s" "m_outgoing (noted k side s) = m_outgoing s"
  by (simp_all add: noted_def noteStreamRetired_def noteLocalBidiStreamRetired_def Let_def split: prod.splits)

lemma retireIncoming_maps:
  "retireIncoming entries s = (kept, s') \<Longrightarrow> m_outgoing s' = m_outgoing s \<and> m_incoming s' = m_incoming s"
proof (induction entries arbitrary: s kept)
  case (Cons entry entries)
  obtain k st where entry: "entry = (k, st)" by (cases entry)
  from Cons.prems [unfolded entry] show ?case
    by (cases rule: retireIncoming_step) (auto dest: Cons.IH simp flip: noted_def)
qed simp

lemma retireOutgoing_maps:
  "retireOutgoing entries s = (kept, s') \<Longrightarrow> m_outgoing s' = m_outgoing s \<and> m_incoming s' = m_incoming s"
proof (induction entries arbitrary: s kept)
  case (Cons entry entries)
  obtain k st where entry: "entry = (k, st)" by (cases entry)
  from Cons.prems [unfolded entry] show ?case
    by (cases rule: retireOutgoing_step) (auto dest: Cons.IH simp flip: noted_def)
qed simp

lemma retired_sides:
  assumes "\<not> isLocallyInitiated s i"
  shows "(i, stream) \<in> set (m_incoming s) \<Longrightarrow> isIncomingSettled stream \<Longrightarrow>
      streamIndexOfType i < boundary_of (retireSettledStreams s) True i"
    and "(i, out) \<in> set (m_outgoing s) \<Longrightarrow> isOutgoingSettled out \<Longrightarrow>
      streamIndexOfType i < boundary_of (retireSettledStreams s) False i"
    and "isLocallyInitiated (retireSettledStreams s) = isLocallyInitiated s"
    and "subseq (m_incoming (retireSettledStreams s)) (m_incoming s)"
    and "subseq (m_outgoing (retireSettledStreams s)) (m_outgoing s)"
proof -
  obtain incoming t outgoing u where steps: "retireIncoming (m_incoming s) s = (incoming, t)"
    "retireOutgoing (m_outgoing t) (t\<lparr>m_incoming := incoming\<rparr>) = (outgoing, u)"
    "retireSettledStreams s = u\<lparr>m_outgoing := outgoing\<rparr>"
    by (rule retire_split)
  note in_facts = retireIncoming_boundary [OF steps(1)] retireIncoming_maps [OF steps(1)] retireIncoming_keeps [OF steps(1)]
  note out_facts = retireOutgoing_boundary [OF steps(2)] retireOutgoing_maps [OF steps(2)] retireOutgoing_keeps [OF steps(2)]
  show "streamIndexOfType i < boundary_of (retireSettledStreams s) True i"
    if "(i, stream) \<in> set (m_incoming s)" "isIncomingSettled stream"
  proof -
    have "streamIndexOfType i < boundary_of t True i" using in_facts assms that by blast
    also have "\<dots> \<le> boundary_of u True i" using out_facts by simp
    finally show ?thesis by (simp add: steps(3))
  qed
  show "streamIndexOfType i < boundary_of (retireSettledStreams s) False i"
    if "(i, out) \<in> set (m_outgoing s)" "isOutgoingSettled out"
    using out_facts in_facts assms that by (simp add: steps(3))
  show "isLocallyInitiated (retireSettledStreams s) = isLocallyInitiated s"
    using in_facts out_facts by (simp add: steps(3))
  show "subseq (m_incoming (retireSettledStreams s)) (m_incoming s)"
    using in_facts out_facts by (simp add: steps(3))
  show "subseq (m_outgoing (retireSettledStreams s)) (m_outgoing s)"
    using in_facts out_facts by (simp add: steps(3))
qed

lemma absent_stays_absent:
  assumes "subseq m n" "map_find i n = None"
  shows "map_find i m = None"
  using subseq_set [OF assms(1)] assms(2) by (auto simp: map_find_def map_of_eq_None_iff)

text \<open>C35: Retiring the settled receiving side of a peer's stream closes every lower stream of its
  type that has not been heard of yet: its frames, when they arrive late, are dropped without
  an error, and the bytes never reach the application.\<close>

theorem retirement_drops_lower_streams:
  assumes "\<not> isLocallyInitiated s high" "\<not> isLocallyInitiated s low"
    and "isUnidirectional low = isUnidirectional high" "streamIndexOfType low < streamIndexOfType high"
    and "(high, stream) \<in> set (m_incoming s)" "isIncomingSettled stream"
    and "map_find low (m_incoming s) = None"
  shows "onStreamFrame low offset data final (retireSettledStreams s) = (None, retireSettledStreams s)"
proof -
  let ?t = "retireSettledStreams s"
  have "streamIndexOfType low < boundary_of ?t True low"
    using retired_sides(1) [OF assms(1,5,6)] same_slot [OF assms(3)] assms(4) by simp
  then have "isPeerStreamSideRetired ?t low True"
    using assms(2) retired_sides(3) [OF assms(1)] by (simp add: isPeerStreamSideRetired_boundary)
  moreover have "map_find low (m_incoming ?t) = None"
    by (rule absent_stays_absent [OF retired_sides(4) [OF assms(1)] assms(7)])
  ultimately show ?thesis by (simp add: onStreamFrame_def)
qed

theorem retirement_drops_lower_streams_witness:
  "onStreamFrame 0 0 [7] True (retireSettledStreams exampleRead) = (None, retireSettledStreams exampleRead)"
proof -
  have found: "map_find 4 (m_incoming exampleRead) = Some exampleReadStream \<and> isIncomingSettled exampleReadStream
      \<and> map_find 0 (m_incoming exampleRead) = None \<and> \<not> isLocallyInitiated exampleRead 4 \<and>
      \<not> isLocallyInitiated exampleRead 0"
    by code_simp
  then have "(4, exampleReadStream) \<in> set (m_incoming exampleRead)"
    by (auto simp: map_find_def dest: map_of_SomeD)
  moreover have "isUnidirectional 0 = isUnidirectional 4" "streamIndexOfType 0 < streamIndexOfType 4"
    by code_simp+
  ultimately show ?thesis
    using found by (intro retirement_drops_lower_streams [of exampleRead 4 0 exampleReadStream]) auto
qed

text \<open>C36: Retiring the settled sending side of a peer's stream closes the sending side of every
  lower stream of its type, whether or not its response has been started: whatever is
  written to it afterwards is refused.\<close>

theorem retirement_refuses_lower_responses:
  assumes "\<not> isLocallyInitiated s high" "\<not> isLocallyInitiated s low"
    and "isUnidirectional low = isUnidirectional high" "streamIndexOfType low < streamIndexOfType high"
    and "(high, stream) \<in> set (m_outgoing s)" "isOutgoingSettled stream"
  shows "writeStreamData low data final (retireSettledStreams s) = (0, retireSettledStreams s)"
proof -
  let ?t = "retireSettledStreams s"
  have "streamIndexOfType low < boundary_of ?t False low"
    using retired_sides(2) [OF assms(1,5,6)] same_slot [OF assms(3)] assms(4) by simp
  then have "isPeerStreamSideRetired ?t low False"
    using assms(2) retired_sides(3) [OF assms(1)] by (simp add: isPeerStreamSideRetired_boundary)
  then show ?thesis by (simp add: writeStreamData_def)
qed


theorem retirement_refuses_lower_responses_witness:
  "writeStreamData 0 [7] True (retireSettledStreams (exampleLayer\<lparr>m_outgoing := [(4, exampleResponse)]\<rparr>))
   = (0, retireSettledStreams (exampleLayer\<lparr>m_outgoing := [(4, exampleResponse)]\<rparr>))"
proof (rule retirement_refuses_lower_responses [of _ 4 0 exampleResponse])
  let ?s = "exampleLayer\<lparr>m_outgoing := [(4, exampleResponse)]\<rparr>"
  show "\<not> isLocallyInitiated ?s 4" "\<not> isLocallyInitiated ?s 0" "isUnidirectional 0 = isUnidirectional 4"
    "streamIndexOfType 0 < streamIndexOfType 4" "isOutgoingSettled exampleResponse"
    by code_simp+
qed simp

end
