(* ===== verification/QuicStreamStuck.thy ===== *)
theory QuicStreamStuck
  imports QuicStreamEvents
begin

text \<open>
  What \<open>onStreamFrame\<close> does with a final size below the bytes it has already delivered: it
  accepts it, and from then on the stream can neither finish nor be reset nor be retired,
  whatever calls follow.
\<close>

definition stuck_stream :: "u64 \<Rightarrow> QuicReassemblyBuffer \<Rightarrow> IncomingStream \<Rightarrow> bool" where
  "stuck_stream f r st \<longleftrightarrow> in_finalOffset st = Some f \<and> in_reassembly st = r \<and> \<not> in_isFinished st \<and>
     \<not> in_isReset st \<and> \<not> in_isFinalDelivered st \<and> f \<le> in_receivedHighWaterOffset st"

definition drained_past :: "u64 \<Rightarrow> QuicReassemblyBuffer \<Rightarrow> bool" where
  "drained_past f r \<longleftrightarrow> f < m_deliveredOffset r \<and> map_find (m_deliveredOffset r) (m_fragments r) = None"

definition stuck :: "u64 \<Rightarrow> u64 \<Rightarrow> QuicReassemblyBuffer \<Rightarrow> (u64, IncomingStream) std_map \<Rightarrow> bool" where
  "stuck i f r incoming \<longleftrightarrow> map_inv incoming \<and>
     (\<exists>st. map_find i incoming = Some st \<and> stuck_stream f r st)"

lemma stuck_put:
  "stuck i f r incoming \<Longrightarrow> j = i \<longrightarrow> stuck_stream f r st \<Longrightarrow> stuck i f r (map_put j st incoming)"
  by (auto simp: stuck_def std.lookup_put)

lemma stuck_store:
  "stuck i f r (m_incoming s) \<Longrightarrow> j = i \<longrightarrow> stuck_stream f r st \<Longrightarrow> stuck i f r (m_incoming (storeIncoming j st s))"
  by (simp add: storeIncoming_def stuck_put)

lemma stuck_found: "stuck i f r incoming \<Longrightarrow> map_find j incoming = Some st \<Longrightarrow> j = i \<longrightarrow> stuck_stream f r st"
  by (auto simp: stuck_def)

lemma drain_nothing:
  assumes "map_find (m_deliveredOffset r) (m_fragments r) = None"
  shows "reassemblyDrain [] r = (0, [], r)"
  using assms by (cases "length (m_fragments r)") (simp_all add: reassemblyDrain_def)

text \<open>A late frame is below the delivered offset and changes nothing.\<close>

lemma late_frame_ignored:
  assumes "drained_past f r" "offset + of_nat (length data) \<le> f" "stuck_stream f r st"
  shows "m_incoming (acceptStreamBytes i offset data st s) = map_put i st (m_incoming s)"
proof -
  have below: "offset + of_nat (length data) \<le> m_deliveredOffset r" and past: "f \<noteq> m_deliveredOffset r"
    and none: "map_find (m_deliveredOffset r) (m_fragments r) = None"
    using assms(1,2) by (auto simp: drained_past_def)
  have not_high: "\<not> in_receivedHighWaterOffset st < offset + of_nat (length data)"
    using assms(2,3) by (auto simp: stuck_stream_def not_less intro: order_trans)
  have st: "in_reassembly st = r" "in_finalOffset st = Some f"
    using assms(3) by (simp_all add: stuck_stream_def)
  have same: "st\<lparr>in_reassembly := r\<rparr> = st" using st by (metis IncomingStream.surjective IncomingStream.update_convs(1))
  have "drainContiguousBytes i st s = (st, s)"
    using past by (simp add: drainContiguousBytes_def st drain_nothing [OF none] same)
  then show ?thesis
    using past below not_high
    by (simp add: acceptStreamBytes_def Let_def reassemblyInsert_def st same storeIncoming_def)
qed


lemma accept_incoming:
  obtains st' where "m_incoming (acceptStreamBytes j offset data st s) = map_put j st' (m_incoming s)"
proof -
  let ?finish = "offset + of_nat (length data)"
  define s1 where "s1 = (if ?finish > in_receivedHighWaterOffset st
    then s\<lparr>m_connectionReceivedBytes :=
      m_connectionReceivedBytes s + (?finish - in_receivedHighWaterOffset st)\<rparr> else s)"
  define st2 where "st2 = (if ?finish > in_receivedHighWaterOffset st
    then st\<lparr>in_receivedHighWaterOffset := ?finish\<rparr> else st)"
  define st3 where "st3 = st2\<lparr>in_reassembly := reassemblyInsert offset data (in_reassembly st2)\<rparr>"
  obtain st4 s4 where drained: "drainContiguousBytes j st3 s1 = (st4, s4)"
    by (cases "drainContiguousBytes j st3 s1")
  have "m_incoming s4 = m_incoming s"
    using reset_keeps_window [OF drained] by (simp add: receive_side_def s1_def split: if_splits)
  moreover have "\<exists>st'. acceptStreamBytes j offset data st s = storeIncoming j st' s4"
    unfolding acceptStreamBytes_def Let_def by (simp add: drained flip: s1_def st2_def st3_def) blast
  ultimately show thesis using that by (auto simp: storeIncoming_def)
qed

lemma stuck_check:
  assumes "stuck i f r (m_incoming s)" "drained_past f r" "map_find j (m_incoming s) = Some st"
  shows "stuck i f r (m_incoming (snd (checkStreamFrame j offset data final st s)))"
proof -
  let ?finish = "offset + of_nat (length data)"
  have mine: "j = i \<longrightarrow> stuck_stream f r st" by (rule stuck_found [OF assms(1,3)])
  define st1 where "st1 = (if final then st\<lparr>in_finalOffset := Some ?finish\<rparr> else st)"
  let ?t = "storeIncoming j st1 s"
  have accepted: "stuck i f r (m_incoming ?t) \<and> stuck i f r (m_incoming (acceptStreamBytes j offset data st1 ?t))"
    if "\<not> (case in_finalOffset st of None \<Rightarrow> False | Some finalOffset \<Rightarrow> ?finish > finalOffset)"
      "\<not> (final \<and> (case in_finalOffset st of None \<Rightarrow> False | Some finalOffset \<Rightarrow> finalOffset \<noteq> ?finish))"
  proof (cases "j = i")
    case True
    then have final: "in_finalOffset st = Some f" using mine by (simp add: stuck_stream_def)
    then have "?finish \<le> f" "final \<Longrightarrow> ?finish = f" using that by auto
    then have st1: "stuck_stream f r st1" using mine True by (simp add: st1_def stuck_stream_def)
    then have "stuck i f r (m_incoming ?t)" using stuck_store [OF assms(1)] by simp
    then show ?thesis
      using late_frame_ignored [OF assms(2) \<open>?finish \<le> f\<close> st1] stuck_put st1 by simp
  next
    case False
    then have "stuck i f r (m_incoming ?t)" using stuck_store [OF assms(1)] by simp
    moreover obtain st' where "m_incoming (acceptStreamBytes j offset data st1 ?t) = map_put j st' (m_incoming ?t)"
      by (rule accept_incoming)
    ultimately show ?thesis using stuck_put False by metis
  qed
  then show ?thesis
    using assms(1) by (simp add: checkStreamFrame_def Let_def st1_def [symmetric])
qed

lemma raiseAdvertised_incoming [simp]: "m_incoming (raiseAdvertisedStreamLimits s) = m_incoming s"
  using raiseAdvertised_receive [of s] by (simp add: receive_side_def)

lemma stuck_frame:
  assumes "stuck i f r (m_incoming s)" "drained_past f r"
  shows "stuck i f r (m_incoming (snd (onStreamFrame j offset data final s)))"
proof (cases "map_find j (m_incoming s)")
  case (Some st)
  then show ?thesis using stuck_check [OF assms Some] by (simp add: onStreamFrame_def)
next
  case None
  have "j \<noteq> i" using assms(1) None by (auto simp: stuck_def)
  then have "stuck i f r (m_incoming (createIncomingStream j s))"
    using assms(1) None by (simp add: createIncomingStream_def Let_def stuck_put)
  then show ?thesis
    using None assms(1) stuck_check [OF _ assms(2)]
    by (auto simp: onStreamFrame_def Let_def split: option.splits)
qed

lemma stuck_reset:
  assumes "stuck i f r (m_incoming s)" "drained_past f r"
  shows "stuck i f r (m_incoming (snd (onResetStreamFrame j e finalSize s)))"
proof (cases "j = i")
  case True
  obtain st where st: "map_find i (m_incoming s) = Some st" "stuck_stream f r st"
    using assms(1) by (auto simp: stuck_def)
  then have "in_finalOffset st = Some f" "in_reassembly st = r" by (simp_all add: stuck_stream_def)
  then show ?thesis
    using assms True st(1) by (auto simp: onResetStreamFrame_def Let_def drained_past_def)
next
  case False
  then show ?thesis
    using assms(1) by (auto simp: onResetStreamFrame_def Let_def pushAborted_def storeIncoming_def stuck_put split: option.splits)
qed

lemma stuck_release:
  assumes "stuck i f r (m_incoming s)"
  shows "stuck i f r (m_incoming (releaseReceiveWindow j n s))"
  using assms stuck_found [OF assms, of j]
  by (auto simp: releaseReceiveWindow_def Let_def storeIncoming_def stuck_stream_def intro!: stuck_put
      split: option.splits prod.splits)

lemma stuck_not_settled: "stuck_stream f r st \<Longrightarrow> \<not> isIncomingSettled st"
  by (simp add: stuck_stream_def isIncomingSettled_def)

lemma retireIncoming_keeps_unsettled:
  assumes "retireIncoming entries s = (kept, s')" "(i, st) \<in> set entries" "\<not> isIncomingSettled st"
  shows "(i, st) \<in> set kept"
  using assms(1,2)
proof (induction entries arbitrary: s kept)
  case (Cons entry entries)
  obtain k stk where entry: "entry = (k, stk)" by (cases entry)
  from Cons.prems(1) [unfolded entry] show ?case
  proof (cases rule: retireIncoming_step)
    case (stays rest)
    then show ?thesis using Cons by (auto simp: entry)
  next
    case goes
    then show ?thesis using Cons assms(3) by (auto simp: entry)
  qed
qed simp

lemma stuck_retire:
  assumes "stuck i f r (m_incoming s)"
  shows "stuck i f r (m_incoming (retireSettledStreams s))"
proof -
  obtain incoming t outgoing u where steps: "retireIncoming (m_incoming s) s = (incoming, t)"
    "retireOutgoing (m_outgoing t) (t\<lparr>m_incoming := incoming\<rparr>) = (outgoing, u)"
    "retireSettledStreams s = u\<lparr>m_outgoing := outgoing\<rparr>"
    by (rule retire_split)
  obtain st where st: "(i, st) \<in> set (m_incoming s)" "stuck_stream f r st" and inv: "map_inv (m_incoming s)"
    using assms by (auto simp: stuck_def std.lookup_entry)
  have "(i, st) \<in> set incoming"
    using retireIncoming_keeps_unsettled [OF steps(1) st(1)] stuck_not_settled [OF st(2)] by blast
  moreover have "map_inv incoming"
    using retireIncoming_keeps [OF steps(1)] subseq_map_inv inv by blast
  ultimately have "stuck i f r incoming" using st(2) by (auto simp: stuck_def std.lookup_entry)
  then show ?thesis using retireOutgoing_maps [OF steps(2)] by (simp add: steps(3))
qed


text \<open>Writing frames out changes two fields of an incoming stream; the rest is its core.\<close>

definition incoming_core :: "IncomingStream \<Rightarrow> IncomingStream" where
  "incoming_core st = st\<lparr>in_receiveStop := None, in_windowUpdatePending := False\<rparr>"

lemma stuck_core: "stuck_stream f r (incoming_core st) = stuck_stream f r st"
  by (simp add: incoming_core_def stuck_stream_def)

lemma stopLoop_core:
  "stopLoop budget entries acc = Inr (entries', acc') \<Longrightarrow>
    map (map_prod id incoming_core) entries' = map (map_prod id incoming_core) entries"
  by (induction budget entries acc arbitrary: entries' acc' rule: stopLoop.induct)
    (auto elim!: bindR_InrE split: option.splits if_splits prod.splits simp: Let_def incoming_core_def)

lemma streamWindowLoop_core:
  "streamWindowLoop budget entries acc = Inr (entries', acc') \<Longrightarrow>
    map (map_prod id incoming_core) entries' = map (map_prod id incoming_core) entries"
  by (induction budget entries acc arbitrary: entries' acc' rule: streamWindowLoop.induct)
    (auto elim!: bindR_InrE split: option.splits if_splits prod.splits simp: Let_def incoming_core_def)

lemma stuck_same_core:
  assumes "map (map_prod id incoming_core) entries' = map (map_prod id incoming_core) entries"
    "stuck i f r entries"
  shows "stuck i f r entries'"
proof -
  have "map fst (map (map_prod id incoming_core) entries') = map fst (map (map_prod id incoming_core) entries)"
    using assms(1) by (rule arg_cong)
  then have keys: "map fst entries' = map fst entries" by simp
  then have inv: "map_inv entries'" using assms(2) by (simp add: stuck_def map_inv_def)
  obtain st where st: "(i, st) \<in> set entries" "stuck_stream f r st"
    using assms(2) by (auto simp: stuck_def std.lookup_entry)
  have "(i, incoming_core st) \<in> set (map (map_prod id incoming_core) entries)"
    using st(1) by (force simp: image_iff)
  then obtain st' where "(i, st') \<in> set entries'" "incoming_core st' = incoming_core st"
    unfolding assms(1) [symmetric] by auto
  then show ?thesis
    using inv st(2) stuck_core by (auto simp: stuck_def std.lookup_entry) (metis)
qed

lemma stuck_collect:
  assumes "collectFrames frames budget ranges announced s = Inr (anything, frames', ranges', announced', s')"
    "stuck i f r (m_incoming s)"
  shows "stuck i f r (m_incoming s')"
proof -
  obtain f1 n1 a1 s1 f2 n2 s2 acc where steps:
    "collectAbortAnnouncements frames budget announced (retireSettledStreams s) = Inr (f1, n1, a1, s1)"
    "collectWindowUpdates f1 (budget - n1) s1 = Inr (f2, n2, s2)"
    "collectStreamData f2 (budget - n1 - n2) ranges s2 = Inr (acc, s')"
    using assms(1) unfolding collectFrames_def unfold_binds by blast
  have "stuck i f r (m_incoming (retireSettledStreams s))" by (rule stuck_retire [OF assms(2)])
  then have "stuck i f r (m_incoming s1)"
    using steps(1) stuck_same_core [OF stopLoop_core]
    by (auto simp: collectAbortAnnouncements_def elim!: bindR_InrE)
  moreover obtain g1 u1 t where first: "collectConnectionUpdates f1 (budget - n1) s1 = Inr (g1, u1, t)"
      and rest: "(if u1 = budget - n1 then Inr (g1, u1, t)
        else bindR (streamWindowLoop (budget - n1) (m_incoming t) (g1, u1))
          (\<lambda>(incoming, frames, used). Inr (frames, used, t\<lparr>m_incoming := incoming\<rparr>))) = Inr (f2, n2, s2)"
    using steps(2) unfolding collectWindowUpdates_def unfold_binds by blast
  moreover have "m_incoming t = m_incoming s1"
    using first unfolding collectConnectionUpdates_def unfold_binds by auto
  ultimately have "stuck i f r (m_incoming s2)"
    using stuck_same_core [OF streamWindowLoop_core] by (auto split: if_splits elim!: bindR_InrE)
  then show ?thesis using collectStreamData_receive [OF steps(3)] by (simp add: receive_side_def)
qed

lemma stuck_announcements:
  assumes "stuck i f r (m_incoming s)"
  shows "stuck i f r (m_incoming (fold (updateAbortAnnouncement g) rs s))"
  using assms
proof (induction rs arbitrary: s)
  case (Cons a rs)
  have "stuck i f r (m_incoming (updateAbortAnnouncement g a s))"
    using Cons.prems stuck_found [OF Cons.prems]
    by (auto simp: updateAbortAnnouncement_def stuck_stream_def intro!: stuck_store split: option.splits)
  then show ?case using Cons.IH by simp
qed simp

lemma same_incoming: "receive_side t = receive_side s \<Longrightarrow> m_incoming t = m_incoming s"
  by (simp add: receive_side_def)

lemma stuck_step:
  assumes "layerStep e s = Inr (s', ranges)" "stuck i f r (m_incoming s)" "drained_past f r"
  shows "stuck i f r (m_incoming s')"
proof (cases "receive_side s' = receive_side s")
  case True
  then show ?thesis using assms(2) same_incoming [OF True] by simp
next
  case False
  have stop: "stuck i f r (m_incoming (stopStreamReceiving j c s))" for j c
    using assms(2) stuck_found [OF assms(2), of j]
    by (auto simp: stopStreamReceiving_def stuck_stream_def intro!: stuck_store split: option.splits)
  from False assms show ?thesis
    by (cases e) (auto simp: receive_side_simps stuck_frame stuck_reset stuck_release stop
        onStreamAnnouncementsAcknowledged_def onStreamAnnouncementsLost_def stuck_announcements
        elim!: bindR_InrE dest: stuck_collect)
qed

text \<open>C37: A FIN whose final size is below the bytes already delivered is accepted without an error,
  and whatever happens afterwards the stream is never finished, never reset and never
  forgotten.\<close>

theorem low_final_size_sticks:
  assumes "map_inv (m_incoming s)" "map_find i (m_incoming s) = Some stream"
    and "\<not> in_isReset stream" "\<not> in_isFinished stream" "\<not> in_isFinalDelivered stream"
    and "in_finalOffset stream = None"
    and "m_deliveredOffset (in_reassembly stream) \<le> in_receivedHighWaterOffset stream"
    and "in_receivedHighWaterOffset stream \<le> in_streamLimit stream"
    and "map_find (m_deliveredOffset (in_reassembly stream)) (m_fragments (in_reassembly stream)) = None"
    and "offset + of_nat (length data) < m_deliveredOffset (in_reassembly stream)"
    and "layerRun es (snd (onStreamFrame i offset data True s)) = Inr s'"
  shows "fst (onStreamFrame i offset data True s) = None \<and>
    (\<exists>stream'. map_find i (m_incoming s') = Some stream' \<and> \<not> in_isFinished stream' \<and> \<not> in_isReset stream' \<and>
      in_finalOffset stream' = Some (offset + of_nat (length data)))"
proof -
  let ?finish = "offset + of_nat (length data)" and ?r = "in_reassembly stream"
  let ?st = "stream\<lparr>in_finalOffset := Some ?finish\<rparr>"
  have past: "drained_past ?finish ?r" using assms(9,10) by (simp add: drained_past_def)
  have below: "?finish \<le> in_receivedHighWaterOffset stream" "?finish \<le> in_streamLimit stream"
    using assms(7,8,10) by (auto intro: order_trans less_imp_le)
  have st: "stuck_stream ?finish ?r ?st"
    using assms(3-5) below by (simp add: stuck_stream_def)
  have check: "checkStreamFrame i offset data True stream s =
      (None, acceptStreamBytes i offset data ?st (storeIncoming i ?st s))"
    using below assms(3,4,6) by (simp add: checkStreamFrame_def Let_def leD)
  have "stuck i ?finish ?r (m_incoming (storeIncoming i ?st s))"
    using assms(1) st by (simp add: stuck_def storeIncoming_def std.lookup_put)
  then have "stuck i ?finish ?r (m_incoming (acceptStreamBytes i offset data ?st (storeIncoming i ?st s)))"
    using late_frame_ignored [OF past _ st] stuck_put st by simp
  then have "stuck i ?finish ?r (m_incoming (snd (onStreamFrame i offset data True s)))"
    using assms(2) check by (simp add: onStreamFrame_def)
  with assms(11) have "stuck i ?finish ?r (m_incoming s')"
    by (rule layerRun_induct) (rule stuck_step [OF _ _ past])
  then show ?thesis
    using assms(2) check by (auto simp: onStreamFrame_def stuck_def stuck_stream_def)
qed


text \<open>Three bytes are delivered, then a FIN says the stream has one byte.\<close>

definition exampleDelivered :: QuicStreamLayer where
  "exampleDelivered = snd (onStreamFrame 0 0 [1, 2, 3] False exampleLayer)"

definition exampleDeliveredStream :: IncomingStream where
  "exampleDeliveredStream = the (map_find 0 (m_incoming exampleDelivered))"

theorem low_final_size_sticks_witness:
  "fst (onStreamFrame 0 1 [] True exampleDelivered) = None \<and>
   (\<exists>stream'. map_find 0 (m_incoming (snd (onStreamFrame 0 3 [] True
      (snd (onStreamFrame 0 1 [] True exampleDelivered))))) = Some stream' \<and>
      \<not> in_isFinished stream' \<and> \<not> in_isReset stream' \<and> in_finalOffset stream' = Some 1)"
proof -
  have conditions: "map_find 0 (m_incoming exampleDelivered) = Some exampleDeliveredStream \<and>
      map fst (m_incoming exampleDelivered) = [0] \<and>
      \<not> in_isReset exampleDeliveredStream \<and> \<not> in_isFinished exampleDeliveredStream \<and>
      \<not> in_isFinalDelivered exampleDeliveredStream \<and> in_finalOffset exampleDeliveredStream = None \<and>
      m_deliveredOffset (in_reassembly exampleDeliveredStream) = 3 \<and>
      in_receivedHighWaterOffset exampleDeliveredStream = 3 \<and> in_streamLimit exampleDeliveredStream = 8 \<and>
      m_fragments (in_reassembly exampleDeliveredStream) = []"
    by code_simp
  have run: "layerRun [StreamArrives 0 3 [] True] (snd (onStreamFrame 0 1 [] True exampleDelivered))
      = Inr (snd (onStreamFrame 0 3 [] True (snd (onStreamFrame 0 1 [] True exampleDelivered))))"
    by simp
  have "map_inv (m_incoming exampleDelivered)" using conditions by (simp add: map_inv_def)
  then show ?thesis
    using conditions low_final_size_sticks [OF _ _ _ _ _ _ _ _ _ _ run, where stream = exampleDeliveredStream]
    by (simp add: map_find_def)
qed

end
