(* ===== verification/QuicStreamSender.thy ===== *)
theory QuicStreamSender
  imports QuicStreamEvents
begin

text \<open>
  The sending side of the stream layer as a small abstract machine: the streams with their
  queues, the connection's total and limit, and the identifiers that are closed. Its steps are
  what can happen to a sender, each with the label an observer sees. Every call of the layer is
  a run of this machine (\<open>layer_refines_sender\<close>), so what holds for its steps holds for
  the layer.
\<close>

section \<open>The machine\<close>

record send_side =
  side_streams :: "(u64, OutgoingStream) std_map"
  side_sent :: u64
  side_limit :: u64
  side_ready :: bool
  side_retired :: "u64 \<Rightarrow> bool"
  side_gaps :: "u64 set"
  side_server :: bool
  side_window :: "u64 \<Rightarrow> u64"

definition sendRetired :: "QuicStreamLayer \<Rightarrow> u64 \<Rightarrow> bool" where
  "sendRetired s k \<longleftrightarrow> isPeerStreamSideRetired s k False \<or> isLocalBidiStreamSideRetired s k False"

text \<open>The credit a new stream starts with: nothing before the parameters of the peer are known.\<close>

definition startWindow :: "QuicStreamLayer \<Rightarrow> u64 \<Rightarrow> u64" where
  "startWindow s k = (case initialSendWindowFor s k of Some window \<Rightarrow> window | None \<Rightarrow> 0)"

text \<open>The credit the parameters of the peer give a stream (RFC 9000, section 18.2).\<close>

definition peerWindow :: "bool \<Rightarrow> QuicTransportParameters \<Rightarrow> u64 \<Rightarrow> u64" where
  "peerWindow server p k =
    (let isLocal = ((k AND kStreamInitiatorBitMask) = (if server then 1 else 0)) in
     if isUnidirectional k then (if isLocal then initialMaximumStreamDataUnidirectional p else 0)
     else if isLocal then initialMaximumStreamDataBidirectionalRemote p
     else initialMaximumStreamDataBidirectionalLocal p)"

definition send_side :: "QuicStreamLayer \<Rightarrow> send_side" where
  "send_side s = \<lparr>side_streams = m_outgoing s, side_sent = m_connectionSentHighWater s,
     side_limit = m_connectionSendLimit s, side_ready = m_hasPeerParameters s, side_retired = sendRetired s,
     side_gaps = set (m_retiredLocalBidiGaps s 1), side_server = m_isLocalServer s, side_window = startWindow s\<rparr>"

datatype send_label =
    Adopted "u64 \<Rightarrow> u64" u64
  | Granted u64
  | Raised u64 u64
  | Opened u64
  | Wrote u64 bytes bool
  | Sent QuicStreamRange
  | Acked "QuicStreamRange list"
  | Lost "QuicStreamRange list"
  | Ended u64

text \<open>What becomes of one stream.\<close>

definition withChunk :: "bytes \<Rightarrow> bool \<Rightarrow> OutgoingStream \<Rightarrow> OutgoingStream" where
  "withChunk data final st = st\<lparr>
     out_nextWriteOffset := out_nextWriteOffset st + of_nat (length data),
     out_finalOffset := (if final then Some (out_nextWriteOffset st + of_nat (length data)) else out_finalOffset st),
     out_pendingQueue := out_pendingQueue st @
       [\<lparr>chunk_beginOffset = out_nextWriteOffset st, chunk_bytes = data, chunk_isFinal = final\<rparr>]\<rparr>"

definition cut_front :: "nat \<Rightarrow> QuicStreamChunk \<Rightarrow> QuicStreamChunk" where
  "cut_front n c = \<lparr>chunk_beginOffset = chunk_beginOffset c, chunk_bytes = take n (chunk_bytes c),
     chunk_isFinal = (chunk_isFinal c \<and> n = length (chunk_bytes c))\<rparr>"

definition cut_rest :: "nat \<Rightarrow> QuicStreamChunk \<Rightarrow> QuicStreamChunk" where
  "cut_rest n c = c\<lparr>chunk_bytes := drop n (chunk_bytes c), chunk_beginOffset := chunk_beginOffset c + of_nat n\<rparr>"

definition withSent :: "nat \<Rightarrow> QuicStreamChunk \<Rightarrow> QuicStreamChunk list \<Rightarrow> OutgoingStream \<Rightarrow> OutgoingStream" where
  "withSent n front later st = st\<lparr>
     out_sentHighWater := max (out_sentHighWater st) (chunk_beginOffset front + of_nat n),
     out_isFinalSentToPeer := out_isFinalSentToPeer st \<or> chunk_isFinal (cut_front n front),
     out_inFlight := map_put (chunk_beginOffset front) (cut_front n front) (out_inFlight st),
     out_pendingQueue := (if n = length (chunk_bytes front) then later else cut_rest n front # later)\<rparr>"

definition sentRange :: "u64 \<Rightarrow> nat \<Rightarrow> QuicStreamChunk \<Rightarrow> QuicStreamRange" where
  "sentRange k n front = \<lparr>range_streamId = k, range_beginOffset = chunk_beginOffset front,
     range_endOffset = chunk_beginOffset front + of_nat n, range_isFinal = chunk_isFinal (cut_front n front)\<rparr>"

definition creditOf :: "u64 \<Rightarrow> u64 \<Rightarrow> OutgoingStream \<Rightarrow> u64" where
  "creditOf limit sent st =
    (let streamRemaining = (if out_streamLimit st > out_sentHighWater st
           then out_streamLimit st - out_sentHighWater st else 0);
         connectionRemaining = (if limit > sent then limit - sent else 0)
     in min streamRemaining connectionRemaining)"

definition ackRange :: "u64 \<Rightarrow> QuicStreamRange \<Rightarrow> OutgoingStream \<Rightarrow> OutgoingStream" where
  "ackRange k r st = (if range_streamId r = k
     then st\<lparr>out_inFlight := map_erase (range_beginOffset r) (out_inFlight st)\<rparr> else st)"

definition loseRange :: "u64 \<Rightarrow> QuicStreamRange \<Rightarrow> OutgoingStream \<Rightarrow> OutgoingStream" where
  "loseRange k r st =
    (case map_find (range_beginOffset r) (out_inFlight st) of
       None \<Rightarrow> st
     | Some lost \<Rightarrow>
         if range_streamId r \<noteq> k then st
         else st\<lparr>out_inFlight := map_erase (range_beginOffset r) (out_inFlight st),
           out_isFinalSentToPeer := (out_isFinalSentToPeer st \<and> \<not> range_isFinal r),
           out_pendingQueue := (if out_isAborted st then out_pendingQueue st
             else lost\<lparr>chunk_isFinal := range_isFinal r\<rparr> # out_pendingQueue st)\<rparr>)"

definition resorted :: "OutgoingStream \<Rightarrow> OutgoingStream" where
  "resorted st = st\<lparr>out_pendingQueue := sort_key chunk_beginOffset (out_pendingQueue st)\<rparr>"

definition each :: "(u64 \<Rightarrow> OutgoingStream \<Rightarrow> OutgoingStream) \<Rightarrow> (u64, OutgoingStream) std_map \<Rightarrow>
    (u64, OutgoingStream) std_map" where
  "each f m = map (\<lambda>(k, st). (k, f k st)) m"

text \<open>An end of sending: the peer asked for it, or the application gave up. The data is dropped;
  after a FIN has been sent what is in flight stays.\<close>

definition ended :: "OutgoingStream \<Rightarrow> OutgoingStream \<Rightarrow> bool" where
  "ended st st' \<longleftrightarrow> out_pendingQueue st' = [] \<and> out_nextWriteOffset st' = out_nextWriteOffset st \<and>
     out_sentHighWater st' = out_sentHighWater st \<and> out_streamLimit st' = out_streamLimit st \<and>
     (out_isAborted st' \<or> out_finalOffset st' \<noteq> None) \<and> (out_isAborted st \<longrightarrow> out_isAborted st') \<and>
     (out_inFlight st' = [] \<or> out_inFlight st' = out_inFlight st \<and> out_isAborted st')"

inductive sender_step :: "send_label list \<Rightarrow> send_side \<Rightarrow> send_side \<Rightarrow> bool" where
  adopts: "sender_step [Adopted window limit] x (x\<lparr>
      side_streams := each (\<lambda>k st. st\<lparr>out_streamLimit := window k\<rparr>) (side_streams x),
      side_limit := limit, side_ready := True, side_window := window\<rparr>)"
| grants: "sender_step [Granted limit] x (x\<lparr>side_limit := max (side_limit x) limit\<rparr>)"
| creates: "map_find k (side_streams x) = None \<Longrightarrow> \<not> side_retired x k \<Longrightarrow>
    sender_step [] x (x\<lparr>side_streams :=
      map_put k (freshOutgoing\<lparr>out_streamLimit := side_window x k\<rparr>) (side_streams x)\<rparr>)"
| opens: "map_find k (side_streams x) = None \<Longrightarrow>
    sender_step [Opened k] x (x\<lparr>side_streams :=
      map_put k (freshOutgoing\<lparr>out_streamLimit := side_window x k\<rparr>) (side_streams x)\<rparr>)"
| reopens: "map_find k (side_streams x) = Some st \<Longrightarrow> sender_step [Opened k] x x"
| raises: "map_find k (side_streams x) = Some st \<Longrightarrow>
    sender_step [Raised k limit] x (x\<lparr>side_streams :=
      map_put k (st\<lparr>out_streamLimit := max (out_streamLimit st) limit\<rparr>) (side_streams x)\<rparr>)"
| announces: "map_find k (side_streams x) = Some st \<Longrightarrow> out_sendAbort st \<noteq> None \<Longrightarrow>
    sender_step [] x (x\<lparr>side_streams := map_put k (st\<lparr>out_sendAbort := Some a\<rparr>) (side_streams x)\<rparr>)"
| ends: "map_find k (side_streams x) = Some st \<Longrightarrow> ended st st' \<Longrightarrow>
    sender_step [Ended k] x (x\<lparr>side_streams := map_put k st' (side_streams x)\<rparr>)"
| writes: "map_find k (side_streams x) = Some st \<Longrightarrow> \<not> out_isAborted st \<Longrightarrow> out_finalOffset st = None \<Longrightarrow>
    (data = [] \<Longrightarrow> final) \<Longrightarrow>
    sender_step [Wrote k data final] x (x\<lparr>side_streams := map_put k (withChunk data final st) (side_streams x)\<rparr>)"
| sends: "side_ready x \<Longrightarrow> map_find k (side_streams x) = Some st \<Longrightarrow> \<not> out_isAborted st \<Longrightarrow>
    out_pendingQueue st = front # later \<Longrightarrow> n \<le> length (chunk_bytes front) \<Longrightarrow>
    (n \<noteq> length (chunk_bytes front) \<Longrightarrow> 0 < n) \<Longrightarrow>
    n \<le> sendableByteCountOf (chunk_beginOffset front) (length (chunk_bytes front)) (out_sentHighWater st)
      (creditOf (side_limit x) (side_sent x) st) \<Longrightarrow>
    endOffset = chunk_beginOffset front + of_nat n \<Longrightarrow>
    sender_step [Sent (sentRange k n front)] x
      (x\<lparr>side_streams := map_put k (withSent n front later st) (side_streams x),
         side_sent := (if endOffset > out_sentHighWater st
           then side_sent x + (endOffset - out_sentHighWater st) else side_sent x)\<rparr>)"
| acks: "sender_step [Acked rs] x (x\<lparr>side_streams := each (\<lambda>k. fold (ackRange k) rs) (side_streams x)\<rparr>)"
| loses: "sender_step [Lost rs] x (x\<lparr>side_streams := each (\<lambda>k st. resorted (fold (loseRange k) rs st)) (side_streams x)\<rparr>)"
| retires: "map_find k (side_streams x) = Some st \<Longrightarrow> isOutgoingSettled st \<Longrightarrow>
    (\<And>j. side_retired x j \<Longrightarrow> retired j) \<Longrightarrow> retired k \<Longrightarrow> gaps \<subseteq> insert (streamIndexOfType k) (side_gaps x) \<Longrightarrow>
    sender_step [] x (x\<lparr>side_streams := map_erase k (side_streams x), side_retired := retired, side_gaps := gaps\<rparr>)"

inductive sender_run :: "send_label list \<Rightarrow> send_side \<Rightarrow> send_side \<Rightarrow> bool" where
  idle: "sender_run [] x x"
| more: "sender_step l x y \<Longrightarrow> sender_run ls y z \<Longrightarrow> sender_run (l @ ls) x z"

lemma run_one: "sender_step l x y \<Longrightarrow> sender_run l x y"
  using more [OF _ idle] by simp

lemma run_trans: "sender_run ls x y \<Longrightarrow> sender_run ks y z \<Longrightarrow> sender_run (ls @ ks) x z"
  by (induction rule: sender_run.induct) (auto intro: more)

lemma run_silent: "sender_run [] x y \<Longrightarrow> sender_run ls y z \<Longrightarrow> sender_run ls x z"
  using run_trans [of "[]"] by simp

lemma run_then_silent: "sender_run ls x y \<Longrightarrow> sender_run [] y z \<Longrightarrow> sender_run ls x z"
  using run_trans [of ls x y "[]"] by simp

lemma each_keys [simp]: "map fst (each f m) = map fst m"
  by (simp add: each_def comp_def case_prod_beta)

lemma each_find [simp]: "map_find k (each f m) = map_option (f k) (map_find k m)"
  by (induction m) (auto simp: each_def map_find_def)

lemma each_inv [simp]: "map_inv (each f m) = map_inv m"
  by (simp add: map_inv_def)

lemma step_map_inv: "sender_step l x y \<Longrightarrow> map_inv (side_streams x) \<Longrightarrow> map_inv (side_streams y)"
  by (induction rule: sender_step.induct) auto

lemma run_map_inv: "sender_run l x y \<Longrightarrow> map_inv (side_streams x) \<Longrightarrow> map_inv (side_streams y)"
  by (induction rule: sender_run.induct) (auto dest: step_map_inv)

text \<open>Induction over a run for a property of the machine.\<close>

lemma sender_run_invariant [case_names run start step]:
  assumes "sender_run ls x y" "P x"
    and "\<And>l x y. sender_step l x y \<Longrightarrow> set l \<subseteq> set ls \<Longrightarrow> P x \<Longrightarrow> P y"
  shows "P y"
  using assms
proof (induction rule: sender_run.induct)
  case (more l x y ls z)
  have "P y" using more.prems(2) [OF more.hyps(1)] more.prems(1) by simp
  then show ?case using more.IH more.prems(2) by (metis Un_upper2 order_trans set_append)
qed simp

section \<open>The calls that leave the sending side alone\<close>

named_theorems send_side_simps \<open>operations that leave the sending side alone\<close>

lemma send_side_eqI:
  "m_outgoing t = m_outgoing s \<Longrightarrow> m_connectionSentHighWater t = m_connectionSentHighWater s \<Longrightarrow>
   m_connectionSendLimit t = m_connectionSendLimit s \<Longrightarrow> m_hasPeerParameters t = m_hasPeerParameters s \<Longrightarrow>
   sendRetired t = sendRetired s \<Longrightarrow> m_retiredLocalBidiGaps t (Suc 0) = m_retiredLocalBidiGaps s (Suc 0) \<Longrightarrow>
   m_isLocalServer t = m_isLocalServer s \<Longrightarrow> m_peerParameters t = m_peerParameters s \<Longrightarrow>
   send_side t = send_side s"
  by (auto simp: send_side_def startWindow_def initialSendWindowFor_def isLocallyInitiated_def fun_eq_iff)

lemma sendRetired_eqI:
  "m_isLocalServer t = m_isLocalServer s \<Longrightarrow>
   m_retiredPeerStreamBoundaries t (Suc 0) = m_retiredPeerStreamBoundaries s (Suc 0) \<Longrightarrow>
   m_retiredLocalBidiBoundaries t (Suc 0) = m_retiredLocalBidiBoundaries s (Suc 0) \<Longrightarrow>
   m_retiredLocalBidiGaps t (Suc 0) = m_retiredLocalBidiGaps s (Suc 0) \<Longrightarrow> sendRetired t = sendRetired s"
  by (auto simp: sendRetired_def isPeerStreamSideRetired_def isLocalBidiStreamSideRetired_def
      isLocallyInitiated_def fun_eq_iff Let_def)

lemma storeIncoming_send [send_side_simps]: "send_side (storeIncoming i st s) = send_side s"
  by (auto simp: storeIncoming_def intro!: send_side_eqI sendRetired_eqI)

lemma raiseAdvertised_send [send_side_simps]: "send_side (raiseAdvertisedStreamLimits s) = send_side s"
  by (auto simp: raiseAdvertisedStreamLimits_def split: prod.splits intro!: send_side_eqI sendRetired_eqI)

lemma fields_send [send_side_simps]:
  "send_side (s\<lparr>m_incoming := a\<rparr>) = send_side s"
  "send_side (s\<lparr>m_deliveries := b\<rparr>) = send_side s"
  "send_side (s\<lparr>m_abortedStreams := c\<rparr>) = send_side s"
  "send_side (s\<lparr>m_drainedSendByteCount := d\<rparr>) = send_side s"
  "send_side (s\<lparr>m_connectionReceivedBytes := e\<rparr>) = send_side s"
  "send_side (s\<lparr>m_connectionConsumedBytes := e\<rparr>) = send_side s"
  "send_side (s\<lparr>m_connectionAdvertisedLimit := e\<rparr>) = send_side s"
  "send_side (s\<lparr>m_connectionWindowUpdatePending := f\<rparr>) = send_side s"
  "send_side (s\<lparr>m_streamsBidirectionalUpdatePending := f\<rparr>) = send_side s"
  "send_side (s\<lparr>m_streamsUnidirectionalUpdatePending := f\<rparr>) = send_side s"
  "send_side (s\<lparr>m_incomingUnidirectionalCount := e\<rparr>) = send_side s"
  "send_side (s\<lparr>m_incomingBidirectionalCount := e\<rparr>) = send_side s"
  "send_side (s\<lparr>m_outgoingUnidirectionalLimit := e\<rparr>) = send_side s"
  "send_side (s\<lparr>m_outgoingBidirectionalLimit := e\<rparr>) = send_side s"
  "send_side (s\<lparr>m_nextBidirectionalStreamId := e\<rparr>) = send_side s"
  "send_side (s\<lparr>m_nextUnidirectionalStreamId := e\<rparr>) = send_side s"
  "send_side (s\<lparr>m_nextSendStreamId := e\<rparr>) = send_side s"
  by (intro send_side_eqI sendRetired_eqI; simp)+

lemma pushAborted_send [send_side_simps]: "send_side (pushAborted i e b s) = send_side s"
  by (simp add: pushAborted_def send_side_simps)

lemma createIncoming_send [send_side_simps]: "send_side (createIncomingStream i s) = send_side s"
  by (simp add: createIncomingStream_def Let_def send_side_simps)

lemma drain_send: "drainContiguousBytes i st s = (st', s') \<Longrightarrow> send_side s' = send_side s"
  by (auto simp: drainContiguousBytes_def Let_def send_side_simps split: prod.splits if_splits)

lemma accept_send [send_side_simps]: "send_side (acceptStreamBytes i offset data st s) = send_side s"
  by (auto simp: acceptStreamBytes_def Let_def send_side_simps split: prod.splits dest!: drain_send)

lemma check_send [send_side_simps]: "send_side (snd (checkStreamFrame i offset data final st s)) = send_side s"
  by (simp add: checkStreamFrame_def Let_def send_side_simps split: option.splits)

lemma stream_frame_send [send_side_simps]: "send_side (snd (onStreamFrame i offset data final s)) = send_side s"
  by (simp add: onStreamFrame_def Let_def send_side_simps split: option.splits)

lemma receiving_send [send_side_simps]:
  "send_side (snd (onMaxStreamsFrame m uni s)) = send_side s"
  "send_side (snd (onResetStreamFrame i e n s)) = send_side s"
  "send_side (stopStreamReceiving i e s) = send_side s"
  "send_side (snd (takeDelivery s)) = send_side s"
  "send_side (snd (takeAbortedStream s)) = send_side s"
  "send_side (snd (takeDrainedSendByteCount s)) = send_side s"
  by (simp_all add: onMaxStreamsFrame_def onResetStreamFrame_def stopStreamReceiving_def takeDelivery_def
      takeAbortedStream_def takeDrainedSendByteCount_def Let_def send_side_simps split: option.splits prod.splits)

lemma release_send [send_side_simps]: "send_side (releaseReceiveWindow i n s) = send_side s"
  by (simp add: releaseReceiveWindow_def Let_def send_side_simps split: option.splits prod.splits)

section \<open>The calls that change it\<close>

lemma put_send: "send_side (s\<lparr>m_outgoing := m\<rparr>) = (send_side s)\<lparr>side_streams := m\<rparr>"
proof -
  have "sendRetired (s\<lparr>m_outgoing := m\<rparr>) = sendRetired s" by (rule sendRetired_eqI) simp_all
  moreover have "startWindow (s\<lparr>m_outgoing := m\<rparr>) = startWindow s"
    by (simp add: startWindow_def initialSendWindowFor_def isLocallyInitiated_def fun_eq_iff)
  ultimately show ?thesis by (simp add: send_side_def)
qed

lemma side_streams_send [simp]: "side_streams (send_side s) = m_outgoing s"
  by (simp add: send_side_def)

lemma side_fields_send [simp]:
  "side_retired (send_side s) = sendRetired s" "side_limit (send_side s) = m_connectionSendLimit s"
  "side_sent (send_side s) = m_connectionSentHighWater s" "side_ready (send_side s) = m_hasPeerParameters s"
  "side_server (send_side s) = m_isLocalServer s" "side_window (send_side s) = startWindow s"
  by (simp_all add: send_side_def)

lemma outgoingStream_run:
  assumes "outgoingStream i s = (st, t)" "\<not> sendRetired s i" "map_inv (m_outgoing s)"
  shows "sender_run [] (send_side s) (send_side t)" "map_find i (m_outgoing t) = Some st"
proof -
  show "sender_run [] (send_side s) (send_side t)"
    using assms creates [of i "send_side s"]
    by (auto simp: outgoingStream_def Let_def put_send startWindow_def split: option.splits intro!: idle run_one)
  show "map_find i (m_outgoing t) = Some st"
    using assms by (auto simp: outgoingStream_def Let_def std.lookup_put split: option.splits)
qed

lemma outgoingStream_open:
  assumes "outgoingStream i s = (st, t)" "map_inv (m_outgoing s)"
  shows "sender_run [Opened i] (send_side s) (send_side t)"
  using assms opens [of i "send_side s"]
  by (auto simp: outgoingStream_def Let_def put_send startWindow_def split: option.splits intro!: run_one reopens)

lemma open_run:
  assumes "map_inv (m_outgoing s)"
  shows "sender_run (case fst (openUnidirectionalStream s) of None \<Rightarrow> [] | Some k \<Rightarrow> [Opened k])
      (send_side s) (send_side (snd (openUnidirectionalStream s)))"
    and "sender_run (case fst (openBidirectionalStream s) of None \<Rightarrow> [] | Some k \<Rightarrow> [Opened k])
      (send_side s) (send_side (snd (openBidirectionalStream s)))"
proof -
  let ?t = "s\<lparr>m_nextUnidirectionalStreamId := m_nextUnidirectionalStreamId s + kStreamIdStride\<rparr>"
  obtain st u where "outgoingStream (m_nextUnidirectionalStreamId s) ?t = (st, u)" by (cases "outgoingStream (m_nextUnidirectionalStreamId s) ?t")
  then show "sender_run (case fst (openUnidirectionalStream s) of None \<Rightarrow> [] | Some k \<Rightarrow> [Opened k])
      (send_side s) (send_side (snd (openUnidirectionalStream s)))"
    using outgoingStream_open [of "m_nextUnidirectionalStreamId s" ?t st u] assms
    by (simp add: openUnidirectionalStream_def Let_def send_side_simps idle)
next
  let ?t = "s\<lparr>m_nextBidirectionalStreamId := m_nextBidirectionalStreamId s + kStreamIdStride\<rparr>"
  obtain st u where "outgoingStream (m_nextBidirectionalStreamId s) ?t = (st, u)" by (cases "outgoingStream (m_nextBidirectionalStreamId s) ?t")
  then show "sender_run (case fst (openBidirectionalStream s) of None \<Rightarrow> [] | Some k \<Rightarrow> [Opened k])
      (send_side s) (send_side (snd (openBidirectionalStream s)))"
    using outgoingStream_open [of "m_nextBidirectionalStreamId s" ?t st u] assms
    by (simp add: openBidirectionalStream_def Let_def send_side_simps idle)
qed

lemma adopt_run:
  "sender_run [Adopted (peerWindow (m_isLocalServer s) p) (initialMaximumData p)] (send_side s)
    (send_side (adoptPeerParameters p s))"
proof -
  define t where "t = s\<lparr>m_peerParameters := p, m_hasPeerParameters := True,
    m_connectionSendLimit := initialMaximumData p,
    m_outgoingBidirectionalLimit := initialMaximumBidirectionalStreams p,
    m_outgoingUnidirectionalLimit := initialMaximumUnidirectionalStreams p\<rparr>"
  let ?w = "peerWindow (m_isLocalServer s) p"
  have window: "initialSendWindowFor t k = Some (?w k)" for k
    by (simp add: initialSendWindowFor_def t_def peerWindow_def isLocallyInitiated_def Let_def)
  have "adoptPeerParameters p s = t\<lparr>m_outgoing := each (\<lambda>k st. st\<lparr>out_streamLimit := ?w k\<rparr>) (m_outgoing s)\<rparr>"
  proof -
    have "m_outgoing t = m_outgoing s" by (simp add: t_def)
    moreover have "adoptPeerParameters p s = t\<lparr>m_outgoing := map (\<lambda>(k, st). (k,
        case initialSendWindowFor t k of Some window \<Rightarrow> st\<lparr>out_streamLimit := window\<rparr> | None \<Rightarrow> st)) (m_outgoing t)\<rparr>"
      unfolding adoptPeerParameters_def Let_def t_def by simp
    ultimately show ?thesis by (simp add: window each_def)
  qed
  moreover have "send_side (t\<lparr>m_outgoing := m\<rparr>) = (send_side s)\<lparr>side_streams := m,
      side_limit := initialMaximumData p, side_ready := True, side_window := ?w\<rparr>" for m
  proof -
    have "sendRetired t = sendRetired s" by (rule sendRetired_eqI) (simp_all add: t_def)
    moreover have "startWindow t = ?w" by (simp add: startWindow_def window fun_eq_iff)
    ultimately show ?thesis by (simp add: put_send) (simp add: send_side_def t_def)
  qed
  ultimately show ?thesis using run_one [OF adopts [where x = "send_side s" and window = ?w]] by simp
qed

lemma grant_run: "sender_run [Granted m] (send_side s) (send_side (snd (onMaxDataFrame m s)))"
proof -
  let ?t = "s\<lparr>m_connectionSendLimit := max (m_connectionSendLimit s) m\<rparr>"
  have "sendRetired ?t = sendRetired s" by (rule sendRetired_eqI) simp_all
  moreover have "startWindow ?t = startWindow s"
    by (simp add: startWindow_def initialSendWindowFor_def isLocallyInitiated_def fun_eq_iff)
  ultimately have "send_side ?t = (send_side s)\<lparr>side_limit := max (m_connectionSendLimit s) m\<rparr>"
    by (simp add: send_side_def)
  then show ?thesis using run_one [OF grants [of m "send_side s"]] by (simp add: onMaxDataFrame_def)
qed

lemma map_put_put [simp]: "map_put k v (map_put k w m) = map_put k v m"
  by (induction k w m rule: map_put.induct) auto

lemma raise_run:
  assumes "map_inv (m_outgoing s)"
  shows "\<exists>ls. sender_run ls (send_side s) (send_side (snd (onMaxStreamDataFrame i m s))) \<and> ls \<in> {[], [Raised i m]}"
proof (cases "map_find i (m_outgoing s)")
  case (Some st)
  then have "sender_run [Raised i m] (send_side s) ((send_side s)\<lparr>side_streams :=
      map_put i (st\<lparr>out_streamLimit := max (out_streamLimit st) m\<rparr>) (m_outgoing s)\<rparr>)"
    using run_one [OF raises [of i "send_side s" st m]] by simp
  then show ?thesis
    using Some idle [of "send_side s"] by (auto simp: onMaxStreamDataFrame_def Let_def put_send)
next
  case None
  let ?fresh = "freshOutgoing\<lparr>out_streamLimit := startWindow s i\<rparr>"
  have "sender_run [Raised i m] (send_side s) ((send_side s)\<lparr>side_streams :=
      map_put i (?fresh\<lparr>out_streamLimit := max (out_streamLimit ?fresh) m\<rparr>) (m_outgoing s)\<rparr>)"
    if "\<not> sendRetired s i"
  proof -
    let ?x = "(send_side s)\<lparr>side_streams := map_put i ?fresh (m_outgoing s)\<rparr>"
    have "sender_run [] (send_side s) ?x"
      using run_one [OF creates [of i "send_side s"]] None that by simp
    moreover have "map_find i (side_streams ?x) = Some ?fresh" using assms by (simp add: std.lookup_put)
    ultimately show ?thesis using run_silent [OF _ run_one [OF raises [of i ?x ?fresh m]]] by simp
  qed
  then show ?thesis
    using None idle [of "send_side s"]
    by (auto simp: onMaxStreamDataFrame_def Let_def put_send sendRetired_def startWindow_def)
qed

lemma end_run:
  assumes "outgoingStream i s = (st, t)" "\<not> sendRetired s i" "map_inv (m_outgoing s)" "ended st st'"
  shows "sender_run [Ended i] (send_side s) (send_side (t\<lparr>m_outgoing := map_put i st' (m_outgoing t)\<rparr>))"
proof -
  note made = outgoingStream_run [OF assms(1-3)]
  show ?thesis
    using run_silent [OF made(1) run_one [OF ends [of i "send_side t" st st']]] made(2) assms(4)
    by (simp add: put_send)
qed

lemma stop_run:
  assumes "map_inv (m_outgoing s)"
  shows "\<exists>ls. sender_run ls (send_side s) (send_side (snd (onStopSendingFrame i e s))) \<and> set ls \<subseteq> {Ended i}"
proof -
  obtain st t where out: "outgoingStream i s = (st, t)" by (cases "outgoingStream i s")
  define s' where "s' = snd (onStopSendingFrame i e s)"
  consider (same) "send_side s' = send_side s"
    | (quiet) "\<not> sendRetired s i" "send_side s' = send_side t"
    | (ends) st' where "\<not> sendRetired s i" "ended st st'"
        "send_side s' = send_side (t\<lparr>m_outgoing := map_put i st' (m_outgoing t)\<rparr>)"
  proof (cases "sendRetired s i")
    case True
    then have "send_side s' = send_side s"
      by (auto simp: s'_def onStopSendingFrame_def sendRetired_def)
    then show thesis by (rule same)
  next
    case False
    show thesis
    proof (cases "out_isAborted st \<or> snd (onStopSendingFrame i e s) = s")
      case True
      then have "send_side s' = send_side s \<or> send_side s' = send_side t"
        by (auto simp: s'_def onStopSendingFrame_def out)
      then show thesis using same quiet False by blast
    next
      case live: False
      define st1 where "st1 = st\<lparr>out_pendingQueue := [], out_isAborted := True\<rparr>"
      define st2 where "st2 = (if \<not> out_isFinalSentToPeer st1 \<and> out_sendAbort st1 = None
        then st1\<lparr>out_sendAbort := Some \<lparr>abort_applicationErrorCode = e, abort_finalSize = out_sentHighWater st1,
            abort_isInFlight = False, abort_isAcknowledged = False\<rparr>,
          out_finalOffset := Some (out_sentHighWater st1), out_inFlight := []\<rparr> else st1)"
      have "s' = pushAborted i e False (t\<lparr>m_outgoing := map_put i st2 (m_outgoing t)\<rparr>)"
        using live unfolding s'_def onStopSendingFrame_def out Let_def prod.case st1_def [symmetric] st2_def [symmetric]
        by (auto split: if_splits)
      moreover have "ended st st2" by (auto simp: ended_def st2_def st1_def)
      ultimately show thesis using ends [of st2] False by (simp add: send_side_simps)
    qed
  qed
  then show ?thesis
  proof cases
    case same
    then show ?thesis using idle by (metis empty_subsetI s'_def set_empty)
  next
    case quiet
    then have "sender_run [] (send_side s) (send_side s')" using outgoingStream_run(1) [OF out] assms by simp
    then show ?thesis unfolding s'_def by (metis empty_subsetI set_empty)
  next
    case ends
    then have "sender_run [Ended i] (send_side s) (send_side s')" using end_run [OF out] assms by simp
    then show ?thesis unfolding s'_def by (intro exI [of _ "[Ended i]"]) simp
  qed
qed


lemma reset_run:
  assumes "map_inv (m_outgoing s)"
  shows "\<exists>ls. sender_run ls (send_side s) (send_side (resetStreamSending i e s)) \<and> set ls \<subseteq> {Ended i}"
proof -
  obtain st t where out: "outgoingStream i s = (st, t)" by (cases "outgoingStream i s")
  define st2 where "st2 = st\<lparr>out_sendAbort := Some \<lparr>abort_applicationErrorCode = e,
      abort_finalSize = out_sentHighWater st, abort_isInFlight = False, abort_isAcknowledged = False\<rparr>,
    out_finalOffset := Some (out_sentHighWater st), out_pendingQueue := [], out_inFlight := []\<rparr>"
  have "ended st st2" by (simp add: ended_def st2_def)
  have "resetStreamSending i e s = s \<or> \<not> sendRetired s i \<and>
    (resetStreamSending i e s = t \<or> resetStreamSending i e s = t\<lparr>m_outgoing := map_put i st2 (m_outgoing t)\<rparr>)"
    unfolding resetStreamSending_def out sendRetired_def st2_def Let_def prod.case by simp
  then consider "resetStreamSending i e s = s"
    | "\<not> sendRetired s i" "resetStreamSending i e s = t"
    | "\<not> sendRetired s i" "resetStreamSending i e s = t\<lparr>m_outgoing := map_put i st2 (m_outgoing t)\<rparr>"
    by blast
  then show ?thesis
  proof cases
    case 1
    then show ?thesis using idle by (metis empty_subsetI set_empty)
  next
    case 2
    then show ?thesis using outgoingStream_run(1) [OF out 2(1) assms] by (metis empty_subsetI set_empty)
  next
    case 3
    then show ?thesis using end_run [OF out 3(1) assms \<open>ended st st2\<close>] by (intro exI [of _ "[Ended i]"]) simp
  qed
qed

lemma write_run:
  assumes "map_inv (m_outgoing s)"
  shows "\<exists>ls. sender_run ls (send_side s) (send_side (snd (writeStreamData i data final s))) \<and>
    (ls = [] \<and> fst (writeStreamData i data final s) = 0 \<or>
     (\<exists>fin. ls = [Wrote i (take (fst (writeStreamData i data final s)) data) fin]))"
proof -
  obtain st t where out: "outgoingStream i s = (st, t)" by (cases "outgoingStream i s")
  define n where "n = min (length data) (min (saturatingRoomOf kMaximumPendingSendByteCount (pendingQueueByteCount st))
    (saturatingRoomOf kMaximumConnectionPendingSendByteCount (totalPendingSendByteCount t)))"
  define fin where "fin \<longleftrightarrow> n = length data \<and> final"
  have n: "n \<le> length data" by (simp add: n_def)
  have chunked: "(let chunk = \<lparr>chunk_beginOffset = out_nextWriteOffset st, chunk_bytes = take n data, chunk_isFinal = fin\<rparr>;
       stream = st\<lparr>out_nextWriteOffset := out_nextWriteOffset st + of_nat n\<rparr>;
       stream = (if chunk_isFinal chunk then stream\<lparr>out_finalOffset := Some (out_nextWriteOffset stream)\<rparr> else stream)
     in stream\<lparr>out_pendingQueue := out_pendingQueue stream @ [chunk]\<rparr>) = withChunk (take n data) fin st"
    using n by (simp add: withChunk_def Let_def)
  have "writeStreamData i data final s = (0, s) \<or> \<not> sendRetired s i \<and>
    (writeStreamData i data final s = (0, t) \<or>
     \<not> out_isAborted st \<and> out_finalOffset st = None \<and> (take n data = [] \<longrightarrow> fin) \<and>
     writeStreamData i data final s = (n, t\<lparr>m_outgoing := map_put i (withChunk (take n data) fin st) (m_outgoing t)\<rparr>))"
    unfolding writeStreamData_def out prod.case sendRetired_def chunked [symmetric] Let_def
      n_def [symmetric] fin_def [symmetric] using n by (auto simp: fin_def)
  then consider "writeStreamData i data final s = (0, s)"
    | "\<not> sendRetired s i" "writeStreamData i data final s = (0, t)"
    | "\<not> sendRetired s i" "\<not> out_isAborted st" "out_finalOffset st = None" "take n data = [] \<longrightarrow> fin"
      "writeStreamData i data final s = (n, t\<lparr>m_outgoing := map_put i (withChunk (take n data) fin st) (m_outgoing t)\<rparr>)"
    by (elim disjE conjE) metis+
  then show ?thesis
  proof cases
    case 1
    then show ?thesis using idle by (intro exI [of _ "[]"]) simp
  next
    case 2
    then show ?thesis using outgoingStream_run(1) [OF out 2(1) assms] by (intro exI [of _ "[]"]) simp
  next
    case 3
    note made = outgoingStream_run [OF out 3(1) assms]
    have "sender_run [Wrote i (take n data) fin] (send_side s)
        (send_side (t\<lparr>m_outgoing := map_put i (withChunk (take n data) fin st) (m_outgoing t)\<rparr>))"
      using run_silent [OF made(1) run_one [OF writes [of i "send_side t" st "take n data" fin]]] made(2) 3(2-4)
      by (simp add: put_send)
    then show ?thesis using 3(5) by (intro exI [of _ "[Wrote i (take n data) fin]"]) auto
  qed
qed

lemma each_put: "map_inv m \<Longrightarrow> map_find k m = Some st \<Longrightarrow>
    map_put k (f st) m = each (\<lambda>j. if j = k then f else id) m"
proof (induction k "f st" m rule: map_put.induct)
  case (2 k a b m)
  have same: "each (\<lambda>j. if j = k then f else id) m = m" if "k \<notin> fst ` set m"
    using that by (induction m) (auto simp: each_def)
  show ?case
  proof (cases "k = a")
    case True
    then have "k \<notin> fst ` set m" using 2 by auto
    then show ?thesis using True 2(3) same by (simp add: each_def map_find_def)
  next
    case False
    then have "map_find k m = Some st" using 2(3) by (simp add: map_find_def)
    then have "a < k" using 2(2) by (auto simp: map_find_def dest!: map_of_SomeD)
    then show ?thesis using 2 False \<open>map_find k m = Some st\<close> by (auto simp: each_def)
  qed
qed (simp add: map_find_def)

lemma each_absent: "map_find k m = None \<Longrightarrow> (\<And>j st. j \<noteq> k \<Longrightarrow> f j st = st) \<Longrightarrow> each f m = m"
  by (induction m) (auto simp: each_def map_find_def split: if_splits)

lemma each_each: "each f (each g m) = each (\<lambda>k st. f k (g k st)) m"
  by (induction m) (auto simp: each_def)

lemma each_same: "(\<And>k st. f k st = st) \<Longrightarrow> each f m = m"
  by (induction m) (auto simp: each_def)

lemma acknowledge_each:
  assumes "map_inv (m_outgoing s)"
  shows "acknowledgeSendRange r s = s\<lparr>m_outgoing := each (\<lambda>k. ackRange k r) (m_outgoing s)\<rparr>"
proof (cases "map_find (range_streamId r) (m_outgoing s)")
  case None
  then have "each (\<lambda>k. ackRange k r) (m_outgoing s) = m_outgoing s"
    by (rule each_absent) (simp add: ackRange_def)
  then show ?thesis using None by (simp add: acknowledgeSendRange_def)
next
  case (Some st)
  have "(\<lambda>j. if j = range_streamId r then \<lambda>st. st\<lparr>out_inFlight := map_erase (range_beginOffset r) (out_inFlight st)\<rparr>
      else id) = (\<lambda>k. ackRange k r)"
    by (auto simp: ackRange_def fun_eq_iff)
  then show ?thesis using Some each_put [OF assms Some, of "\<lambda>st. st\<lparr>out_inFlight := map_erase (range_beginOffset r) (out_inFlight st)\<rparr>"]
    by (simp add: acknowledgeSendRange_def)
qed

lemma lose_each:
  assumes "map_inv (m_outgoing s)"
  shows "loseSendRange r s = s\<lparr>m_outgoing := each (\<lambda>k. loseRange k r) (m_outgoing s)\<rparr>"
proof (cases "map_find (range_streamId r) (m_outgoing s)")
  case None
  then have "each (\<lambda>k. loseRange k r) (m_outgoing s) = m_outgoing s"
    by (rule each_absent) (auto simp: loseRange_def split: option.splits)
  then show ?thesis using None by (simp add: loseSendRange_def)
next
  case (Some st)
  have "(\<lambda>j. if j = range_streamId r then loseRange (range_streamId r) r else id) = (\<lambda>k. loseRange k r)"
    by (auto simp: loseRange_def fun_eq_iff split: option.splits)
  then have put: "map_put (range_streamId r) (loseRange (range_streamId r) r st) (m_outgoing s)
      = each (\<lambda>k. loseRange k r) (m_outgoing s)"
    using each_put [OF assms Some, of "loseRange (range_streamId r) r"] by simp
  show ?thesis
  proof (cases "map_find (range_beginOffset r) (out_inFlight st)")
    case none: None
    then have "loseRange (range_streamId r) r st = st" by (simp add: loseRange_def)
    moreover have "map_put (range_streamId r) st (m_outgoing s) = m_outgoing s"
      using each_put [OF assms Some, of id] each_same [of "\<lambda>j. if j = range_streamId r then id else id"] by simp
    ultimately show ?thesis using put none Some by (simp add: loseSendRange_def)
  next
    case lost: (Some c)
    have "loseSendRange r s = s\<lparr>m_outgoing := map_put (range_streamId r) (loseRange (range_streamId r) r st) (m_outgoing s)\<rparr>"
      using Some lost by (simp add: loseSendRange_def loseRange_def Let_def)
    then show ?thesis using put by simp
  qed
qed

lemma fold_each:
  assumes "\<And>r s. map_inv (m_outgoing s) \<Longrightarrow> op r s = s\<lparr>m_outgoing := each (\<lambda>k. f k r) (m_outgoing s)\<rparr>"
    and "map_inv (m_outgoing s)"
  shows "fold op rs s = s\<lparr>m_outgoing := each (\<lambda>k. fold (f k) rs) (m_outgoing s)\<rparr>"
  using assms(2)
proof (induction rs arbitrary: s)
  case Nil
  then show ?case by (simp add: each_same)
next
  case (Cons r rs)
  then show ?case using assms(1) [OF Cons.prems] by (simp add: each_each)
qed

lemma acked_run:
  assumes "map_inv (m_outgoing s)"
  shows "sender_run [Acked rs] (send_side s) (send_side (onSendRangesAcknowledged rs s))"
  using fold_each [of acknowledgeSendRange "\<lambda>k. ackRange k", OF acknowledge_each assms, of rs]
    run_one [OF acks [of rs "send_side s"]]
  by (simp add: onSendRangesAcknowledged_def put_send)

lemma lost_run:
  assumes "map_inv (m_outgoing s)"
  shows "sender_run [Lost rs] (send_side s) (send_side (onSendRangesLost rs s))"
proof -
  have "fold loseSendRange rs s = s\<lparr>m_outgoing := each (\<lambda>k. fold (loseRange k) rs) (m_outgoing s)\<rparr>"
    using fold_each [of loseSendRange "\<lambda>k. loseRange k", OF lose_each assms] .
  then have "onSendRangesLost rs s = s\<lparr>m_outgoing := each (\<lambda>k st. resorted (fold (loseRange k) rs st)) (m_outgoing s)\<rparr>"
    using each_each [of "\<lambda>k. resorted" "\<lambda>k. fold (loseRange k) rs" "m_outgoing s"]
    by (simp add: onSendRangesLost_def Let_def each_def resorted_def)
  then show ?thesis using run_one [OF loses [of rs "send_side s"]] by (simp add: put_send)
qed


lemma announcement_run:
  assumes "map_inv (m_outgoing s)"
  shows "sender_run [] (send_side s) (send_side (updateAbortAnnouncement f a s))"
proof -
  let ?k = "announcement_streamId a"
  have "sender_run [] (send_side s) ((send_side s)\<lparr>side_streams :=
      map_put ?k (st\<lparr>out_sendAbort := Some (f target)\<rparr>) (m_outgoing s)\<rparr>)"
    if "map_find ?k (m_outgoing s) = Some st" "out_sendAbort st = Some target" for st target
    using run_one [OF announces [of ?k "send_side s" st "f target"]] that by simp
  then show ?thesis
    by (auto simp: updateAbortAnnouncement_def put_send send_side_simps idle split: option.splits)
qed

lemma announcements_run:
  assumes "map_inv (m_outgoing s)"
  shows "sender_run [] (send_side s) (send_side (fold (updateAbortAnnouncement f) as s))"
  using assms
proof (induction "as" arbitrary: s)
  case (Cons a "as")
  have first: "sender_run [] (send_side s) (send_side (updateAbortAnnouncement f a s))"
    by (rule announcement_run [OF Cons.prems])
  then have "map_inv (m_outgoing (updateAbortAnnouncement f a s))"
    using run_map_inv Cons.prems by fastforce
  then show ?case using run_silent [OF first Cons.IH] by simp
qed (simp add: idle)

section \<open>Retirement\<close>

lemma absorbGaps_exact:
  assumes "absorbGaps gaps boundary = (gaps', boundary')" "\<And>g. g \<in> set gaps \<Longrightarrow> g < 2 ^ 62"
  shows "set gaps' \<subseteq> set gaps" "x < boundary' \<or> x \<in> set gaps' \<longleftrightarrow> x < boundary \<or> x \<in> set gaps"
proof -
  have "set gaps' \<subseteq> set gaps \<and> (x < boundary' \<or> x \<in> set gaps' \<longleftrightarrow> x < boundary \<or> x \<in> set gaps)"
    using assms
  proof (induction gaps boundary arbitrary: gaps' boundary' rule: absorbGaps.induct)
    case (1 gaps boundary)
    show ?case
    proof (cases "boundary \<in> set gaps")
      case False
      then show ?thesis using 1(2) by (simp add: absorbGaps.simps [of gaps boundary])
    next
      case True
      then have run: "absorbGaps (removeAll boundary gaps) (boundary + 1) = (gaps', boundary')"
        using 1(2) by (simp add: absorbGaps.simps [of gaps boundary])
      have IH: "set gaps' \<subseteq> set (removeAll boundary gaps) \<and>
          (x < boundary' \<or> x \<in> set gaps' \<longleftrightarrow> x < boundary + 1 \<or> x \<in> set (removeAll boundary gaps))"
        by (rule 1(1) [OF True run]) (use 1(3) in auto)
      have "boundary < 2 ^ 62" using 1(3) True by blast
      then have "unat boundary < 2 ^ 62" by (simp add: word_less_nat_alt)
      then have "unat (boundary + 1) = unat boundary + 1" by (simp add: unat_word_ariths)
      then have "x < boundary + 1 \<longleftrightarrow> x < boundary \<or> x = boundary"
        by (auto simp: word_less_nat_alt less_Suc_eq word_unat_eq_iff)
      then show ?thesis using IH True by auto
    qed
  qed
  then show "set gaps' \<subseteq> set gaps" "x < boundary' \<or> x \<in> set gaps' \<longleftrightarrow> x < boundary \<or> x \<in> set gaps"
    by blast+
qed

lemma index_small: "streamIndexOfType k < 2 ^ 62"
  using unat_u64_bound [of k]
  by (simp add: streamIndexOfType_def kStreamIdStride_def unat_div word_less_nat_alt)

definition gaps_small :: "send_side \<Rightarrow> bool" where
  "gaps_small x \<longleftrightarrow> (\<forall>g \<in> side_gaps x. g < 2 ^ 62)"

lemma step_gaps_small: "sender_step l x y \<Longrightarrow> gaps_small x \<Longrightarrow> gaps_small y"
  by (induction rule: sender_step.induct) (use index_small in \<open>auto simp: gaps_small_def dest!: subsetD\<close>)

lemma run_gaps_small: "sender_run l x y \<Longrightarrow> gaps_small x \<Longrightarrow> gaps_small y"
  by (induction rule: sender_run.induct) (auto dest: step_gaps_small)

text \<open>Both sides of a stream retire the same way; \<open>b\<close> is the receiving side.\<close>

definition sideRetired :: "QuicStreamLayer \<Rightarrow> bool \<Rightarrow> u64 \<Rightarrow> bool" where
  "sideRetired s b k \<longleftrightarrow> isPeerStreamSideRetired s k b \<or> isLocalBidiStreamSideRetired s k b"

definition sideSlot :: "bool \<Rightarrow> nat" where
  "sideSlot b = (if b then 0 else 1)"

lemma note_peer_retired:
  assumes "\<not> isLocallyInitiated s k"
  shows "sideRetired s b j \<Longrightarrow> sideRetired (noteStreamRetired k b s) b j"
    and "sideRetired (noteStreamRetired k b s) b k"
  using assms index_grows [of k]
  by (auto simp: sideRetired_def isPeerStreamSideRetired_def isLocalBidiStreamSideRetired_def
      isLocallyInitiated_def noteStreamRetired_def Let_def less_max_iff_disj)

lemma note_local_retired:
  assumes "isLocallyInitiated s k" "\<not> isUnidirectional k" "\<And>g. g \<in> set (m_retiredLocalBidiGaps s (sideSlot b)) \<Longrightarrow> g < 2 ^ 62"
  shows "sideRetired s b j \<Longrightarrow> sideRetired (noteLocalBidiStreamRetired k b s) b j"
    and "sideRetired (noteLocalBidiStreamRetired k b s) b k"
    and "set (m_retiredLocalBidiGaps (noteLocalBidiStreamRetired k b s) (sideSlot b))
      \<subseteq> insert (streamIndexOfType k) (set (m_retiredLocalBidiGaps s (sideSlot b)))"
proof -
  let ?i = "sideSlot b"
  obtain gaps boundary where absorbed: "absorbGaps (List.insert (streamIndexOfType k) (m_retiredLocalBidiGaps s ?i))
      (m_retiredLocalBidiBoundaries s ?i) = (gaps, boundary)"
    by (cases "absorbGaps (List.insert (streamIndexOfType k) (m_retiredLocalBidiGaps s ?i))
      (m_retiredLocalBidiBoundaries s ?i)")
  have noted: "noteLocalBidiStreamRetired k b s =
      s\<lparr>m_retiredLocalBidiGaps := (m_retiredLocalBidiGaps s)(?i := gaps),
        m_retiredLocalBidiBoundaries := (m_retiredLocalBidiBoundaries s)(?i := boundary)\<rparr>"
    using absorbed by (simp add: noteLocalBidiStreamRetired_def Let_def sideSlot_def)
  have "\<And>g. g \<in> set (List.insert (streamIndexOfType k) (m_retiredLocalBidiGaps s ?i)) \<Longrightarrow> g < 2 ^ 62"
    using assms(3) index_small by auto
  note exact = absorbGaps_exact [OF absorbed this]
  have local: "isLocallyInitiated (noteLocalBidiStreamRetired k b s) = isLocallyInitiated s"
    by (simp add: noteLocalBidiStreamRetired_boundary)
  have bidi: "isLocalBidiStreamSideRetired (noteLocalBidiStreamRetired k b s) i b \<longleftrightarrow>
      isLocallyInitiated s i \<and> \<not> isUnidirectional i \<and> (streamIndexOfType i < m_retiredLocalBidiBoundaries s ?i \<or>
      streamIndexOfType i \<in> set (List.insert (streamIndexOfType k) (m_retiredLocalBidiGaps s ?i)))" for i
    using exact(2) [of "streamIndexOfType i"]
    by (simp add: isLocalBidiStreamSideRetired_def local Let_def flip: sideSlot_def) (simp add: noted)
  have peer: "isPeerStreamSideRetired (noteLocalBidiStreamRetired k b s) i b = isPeerStreamSideRetired s i b" for i
    by (simp add: isPeerStreamSideRetired_boundary noteLocalBidiStreamRetired_boundary local)
  show "sideRetired s b j \<Longrightarrow> sideRetired (noteLocalBidiStreamRetired k b s) b j"
    unfolding sideRetired_def bidi peer by (auto simp: isLocalBidiStreamSideRetired_def Let_def simp flip: sideSlot_def)
  show "sideRetired (noteLocalBidiStreamRetired k b s) b k"
    unfolding sideRetired_def bidi using assms(1,2) by simp
  show "set (m_retiredLocalBidiGaps (noteLocalBidiStreamRetired k b s) ?i)
      \<subseteq> insert (streamIndexOfType k) (set (m_retiredLocalBidiGaps s ?i))"
    using exact(1) by (auto simp: noted)
qed

lemma noted_side_retired:
  assumes "\<And>g. g \<in> set (m_retiredLocalBidiGaps s (sideSlot b)) \<Longrightarrow> g < 2 ^ 62"
    "\<not> (isLocallyInitiated s k \<and> isUnidirectional k)"
  shows "sideRetired s b j \<Longrightarrow> sideRetired (noted k b s) b j" "sideRetired (noted k b s) b k"
    "set (m_retiredLocalBidiGaps (noted k b s) (sideSlot b))
      \<subseteq> insert (streamIndexOfType k) (set (m_retiredLocalBidiGaps s (sideSlot b)))"
  using assms note_peer_retired [of s k b] note_local_retired [of s k b]
  by (auto simp: noted_def) (auto simp: noteStreamRetired_def Let_def)

lemma find_middle: "map_inv (done @ (k, v) # rest) \<Longrightarrow> map_find k (done @ (k, v) # rest) = Some v"
  by (subst std.lookup_entry) auto

lemma put_middle: "map_inv (done @ (k, v) # rest) \<Longrightarrow> map_put k w (done @ (k, v) # rest) = done @ (k, w) # rest"
  by (induction "done") (auto split: prod.splits)

lemma erase_middle: "map_inv (done @ (k, v) # rest) \<Longrightarrow> map_erase k (done @ (k, v) # rest) = done @ rest"
  by (induction "done") (auto simp: map_erase_def filter_id_conv)

lemma noted_send:
  "m_outgoing (noted k side s) = m_outgoing s" "m_connectionSentHighWater (noted k side s) = m_connectionSentHighWater s"
  "m_connectionSendLimit (noted k side s) = m_connectionSendLimit s"
  "m_hasPeerParameters (noted k side s) = m_hasPeerParameters s" "m_isLocalServer (noted k side s) = m_isLocalServer s"
  "startWindow (noted k side s) = startWindow s"
  by (simp_all add: startWindow_def initialSendWindowFor_def isLocallyInitiated_def fun_eq_iff noted_def noteStreamRetired_def noteLocalBidiStreamRetired_def Let_def split: prod.splits)

lemma noted_retired:
  assumes "gaps_small (send_side s)" "\<not> (isLocallyInitiated s k \<and> isUnidirectional k)"
  shows "sendRetired s j \<Longrightarrow> sendRetired (noted k False s) j" "sendRetired (noted k False s) k"
    "set (m_retiredLocalBidiGaps (noted k False s) 1) \<subseteq> insert (streamIndexOfType k) (set (m_retiredLocalBidiGaps s 1))"
  using noted_side_retired [of s False k] assms
  by (simp_all add: gaps_small_def send_side_def sideSlot_def sideRetired_def sendRetired_def)

lemma retireOutgoing_run:
  assumes "retireOutgoing entries s = (kept, s')" "map_inv (done @ entries)" "gaps_small (send_side s)"
  shows "sender_run [] ((send_side s)\<lparr>side_streams := done @ entries\<rparr>) ((send_side s')\<lparr>side_streams := done @ kept\<rparr>)"
  using assms
proof (induction entries arbitrary: s kept "done")
  case Nil
  then show ?case by (simp add: idle)
next
  case (Cons entry entries)
  obtain k st where entry: "entry = (k, st)" by (cases entry)
  have inv: "map_inv (done @ (k, st) # entries)" using Cons.prems(2) by (simp add: entry)
  from Cons.prems(1) [unfolded entry] show ?case
  proof (cases rule: retireOutgoing_step)
    case (stays rest)
    then show ?thesis using Cons.IH [OF stays(2), of "done @ [(k, st)]"] Cons.prems by (simp add: entry)
  next
    case goes
    let ?t = "noted k False s"
    have next_step: "retireOutgoing entries ?t = (kept, s')" using goes(2) by (simp add: noted_def)
    note facts = noted_retired [OF Cons.prems(3) goes(3)]
    have step: "sender_step [] ((send_side s)\<lparr>side_streams := done @ (k, st) # entries\<rparr>)
        (((send_side s)\<lparr>side_streams := done @ (k, st) # entries\<rparr>)\<lparr>side_streams := map_erase k (done @ (k, st) # entries),
          side_retired := sendRetired ?t, side_gaps := set (m_retiredLocalBidiGaps ?t 1)\<rparr>)"
      using retires [of k "(send_side s)\<lparr>side_streams := done @ (k, st) # entries\<rparr>" st "sendRetired ?t"]
        find_middle [OF inv] goes(1) facts by (simp add: send_side_def)
    have same: "((send_side s)\<lparr>side_streams := done @ (k, st) # entries\<rparr>)\<lparr>side_streams := map_erase k (done @ (k, st) # entries),
          side_retired := sendRetired ?t, side_gaps := set (m_retiredLocalBidiGaps ?t 1)\<rparr>
        = (send_side ?t)\<lparr>side_streams := done @ entries\<rparr>"
      by (simp add: erase_middle [OF inv] send_side_def noted_send)
    have "gaps_small (send_side ?t)"
      using step_gaps_small [OF step] Cons.prems(3) unfolding same by (simp add: gaps_small_def)
    then show ?thesis
      using more [OF step [unfolded same] Cons.IH [OF next_step]] inv by (simp add: entry)
  qed
qed

lemma retireIncoming_send: "retireIncoming entries s = (kept, s') \<Longrightarrow> send_side s' = send_side s"
proof (induction entries arbitrary: s kept)
  case (Cons entry entries)
  have "send_side (noteStreamRetired k True s) = send_side s" "send_side (noteLocalBidiStreamRetired k True s) = send_side s" for k
    by (auto simp: noteStreamRetired_def noteLocalBidiStreamRetired_def Let_def split: prod.splits
        intro!: send_side_eqI sendRetired_eqI)
  moreover obtain k st where entry: "entry = (k, st)" by (cases entry)
  note same = calculation
  from Cons.prems [unfolded entry] show ?case
    by (cases rule: retireIncoming_step) (use Cons.IH same in \<open>auto split: if_splits\<close>)
qed simp

lemma retire_run:
  assumes "map_inv (m_outgoing s)" "gaps_small (send_side s)"
  shows "sender_run [] (send_side s) (send_side (retireSettledStreams s))"
proof -
  obtain incoming t outgoing u where steps: "retireIncoming (m_incoming s) s = (incoming, t)"
    "retireOutgoing (m_outgoing t) (t\<lparr>m_incoming := incoming\<rparr>) = (outgoing, u)"
    "retireSettledStreams s = u\<lparr>m_outgoing := outgoing\<rparr>"
    by (rule retire_split)
  have t: "send_side (t\<lparr>m_incoming := incoming\<rparr>) = send_side s"
    using retireIncoming_send [OF steps(1)] by (simp add: send_side_simps)
  have "m_outgoing t = m_outgoing s" using retireIncoming_maps [OF steps(1)] by simp
  then show ?thesis
    using retireOutgoing_run [OF steps(2), of "[]"] assms t by (simp add: steps(3) put_send)
      (simp add: send_side_def)
qed


section \<open>Collecting frames\<close>

lemma sendCreditOf_credit: "sendCreditOf s st = creditOf (m_connectionSendLimit s) (m_connectionSentHighWater s) st"
  by (simp add: sendCreditOf_def creditOf_def)

lemma noteChunkSent_stream:
  "fst (noteChunkSent k n front later st s) = withSent n front later st"
  by (auto simp: noteChunkSent_def Let_def withSent_def cut_front_def cut_rest_def max_def not_less)

lemma noteChunkSent_side:
  "send_side (snd (noteChunkSent k n front later st s)) = (send_side s)\<lparr>side_sent :=
     (if chunk_beginOffset front + of_nat n > out_sentHighWater st
      then m_connectionSentHighWater s + (chunk_beginOffset front + of_nat n - out_sentHighWater st)
      else m_connectionSentHighWater s)\<rparr>"
proof -
  have "sendRetired (snd (noteChunkSent k n front later st s)) = sendRetired s"
    by (rule sendRetired_eqI) (simp_all add: noteChunkSent_def Let_def)
  moreover have "startWindow (snd (noteChunkSent k n front later st s)) = startWindow s"
    by (simp add: startWindow_def initialSendWindowFor_def isLocallyInitiated_def fun_eq_iff noteChunkSent_def Let_def)
  ultimately show ?thesis by (simp add: send_side_def) (simp add: noteChunkSent_def Let_def)
qed

definition sideAt :: "QuicStreamLayer \<Rightarrow> (u64, OutgoingStream) std_map \<Rightarrow> send_side" where
  "sideAt s m = (send_side s)\<lparr>side_streams := m\<rparr>"

lemma sendStep_run:
  assumes step: "sendStep budget k st s (frames, used, ranges) = Inr (Inr (st', s', acc'))"
    and inv: "map_inv (done @ (k, st) # rest)" and ready: "m_hasPeerParameters s" and live: "\<not> out_isAborted st"
  shows "\<exists>r. snd (snd acc') = ranges @ [r] \<and> sender_run [Sent r] (sideAt s (done @ (k, st) # rest)) (sideAt s' (done @ (k, st') # rest)) \<and>
    m_hasPeerParameters s' \<and> \<not> out_isAborted st'"
  using step
proof (cases rule: sendStep_next)
  case (1 front later n appended)
  have n: "n \<le> length (chunk_bytes front)" "n \<le> sendableByteCountOf (chunk_beginOffset front) (length (chunk_bytes front))
      (out_sentHighWater st) (sendCreditOf s st)" "n \<noteq> length (chunk_bytes front) \<Longrightarrow> 0 < n"
    using streamPayloadLength_bounds [OF 1(4)] 1(2,3) by auto
  have stream: "st' = withSent n front later st"
    using noteChunkSent_stream [of k n front later st s] 1(6) by simp
  let ?x = "sideAt s (done @ (k, st) # rest)" and ?finish = "chunk_beginOffset front + of_nat n"
  have side: "send_side s' = (send_side s)\<lparr>side_sent := (if ?finish > out_sentHighWater st
      then side_sent ?x + (?finish - out_sentHighWater st) else side_sent ?x)\<rparr>"
    using noteChunkSent_side [of k n front later st s] unfolding 1(6) snd_conv by (simp add: sideAt_def)
  have "sideAt s' (done @ (k, st') # rest) = ?x\<lparr>side_streams := map_put k (withSent n front later st) (side_streams ?x),
      side_sent := (if ?finish > out_sentHighWater st then side_sent ?x + (?finish - out_sentHighWater st) else side_sent ?x)\<rparr>"
    unfolding sideAt_def side by (rule send_side.equality) (simp_all add: put_middle [OF inv] stream)
  moreover have "sender_step [Sent (sentRange k n front)] ?x
      (?x\<lparr>side_streams := map_put k (withSent n front later st) (side_streams ?x),
      side_sent := (if ?finish > out_sentHighWater st then side_sent ?x + (?finish - out_sentHighWater st) else side_sent ?x)\<rparr>)"
    by (rule sends [of ?x k st front later n ?finish])
      (use find_middle [OF inv] n ready live 1(1) in \<open>simp_all add: sideAt_def sendCreditOf_credit\<close>)
  ultimately have "sender_step [Sent (sentRange k n front)] ?x (sideAt s' (done @ (k, st') # rest))" by simp
  moreover have "snd (snd acc') = ranges @ [sentRange k n front]"
    using 1(7) by (simp add: sentRange_def cut_front_def)
  moreover have "m_hasPeerParameters s'"
    using ready arg_cong [OF side, of side_ready] by simp
  moreover have "\<not> out_isAborted st'" using live by (simp add: stream withSent_def)
  ultimately show ?thesis by (intro exI [of _ "sentRange k n front"]) (simp add: run_one)
qed

lemma sendLoop_run:
  assumes run: "sendLoop budget k st s acc = Inr (halted, st', s', acc')"
    and inv: "map_inv (done @ (k, st) # rest)" and ready: "m_hasPeerParameters s" and live: "\<not> out_isAborted st"
  shows "\<exists>rs. snd (snd acc') = snd (snd acc) @ rs \<and>
    sender_run (map Sent rs) (sideAt s (done @ (k, st) # rest)) (sideAt s' (done @ (k, st') # rest)) \<and> m_hasPeerParameters s'"
proof -
  let ?I = "\<lambda>st1 s1 acc1. (\<exists>rs. snd (snd acc1) = snd (snd acc) @ rs \<and>
    sender_run (map Sent rs) (sideAt s (done @ (k, st) # rest)) (sideAt s1 (done @ (k, st1) # rest))) \<and>
    m_hasPeerParameters s1 \<and> \<not> out_isAborted st1"
  from run have "?I st' s' acc'"
  proof (rule sendLoop_invariant)
    show "?I st s acc" using ready live idle by (auto intro!: exI [of _ "[]"])
  next
    fix st1 s1 frames used ranges st2 s2 acc2
    assume step: "sendStep budget k st1 s1 (frames, used, ranges) = Inr (Inr (st2, s2, acc2))"
      and I: "?I st1 s1 (frames, used, ranges)"
    then obtain rs where rs: "ranges = snd (snd acc) @ rs"
        "sender_run (map Sent rs) (sideAt s (done @ (k, st) # rest)) (sideAt s1 (done @ (k, st1) # rest))"
      by auto
    have "map_inv (done @ (k, st1) # rest)" using inv by simp
    from sendStep_run [OF step this] I obtain r where "snd (snd acc2) = ranges @ [r]"
        "sender_run [Sent r] (sideAt s1 (done @ (k, st1) # rest)) (sideAt s2 (done @ (k, st2) # rest))"
        "m_hasPeerParameters s2" "\<not> out_isAborted st2"
      by blast
    then show "?I st2 s2 acc2" using rs run_trans [OF rs(2)] by (auto intro!: exI [of _ "rs @ [r]"])
  qed
  then show ?thesis by blast
qed

lemma collectRange_run:
  assumes "collectRange budget entries s acc = Inr (entries', s', acc')"
    "map_inv (done @ entries @ after)" "m_hasPeerParameters s"
  shows "\<exists>rs. snd (snd acc') = snd (snd acc) @ rs \<and>
    sender_run (map Sent rs) (sideAt s (done @ entries @ after)) (sideAt s' (done @ entries' @ after)) \<and> m_hasPeerParameters s'"
  using assms
proof (induction entries arbitrary: s acc entries' "done")
  case Nil
  then show ?case by (intro exI [of _ "[]"]) (simp add: idle)
next
  case (Cons entry entries)
  obtain k st where entry: "entry = (k, st)" by (cases entry)
  have inv: "map_inv (done @ (k, st) # entries @ after)" using Cons.prems(2) by (simp add: entry)
  from Cons.prems(1) [unfolded entry] show ?case
  proof (cases rule: collectRange_cases)
    case (aborted rest)
    then show ?thesis using Cons.IH [OF aborted(3), of "done @ [(k, st)]"] Cons.prems by (simp add: entry)
  next
    case (halted st1)
    then show ?thesis using sendLoop_run [OF halted(3) inv Cons.prems(3) halted(1)] by (simp add: entry)
  next
    case (continued st1 t acc2 rest)
    obtain rs where rs: "snd (snd acc2) = snd (snd acc) @ rs"
        "sender_run (map Sent rs) (sideAt s (done @ (k, st) # entries @ after)) (sideAt t (done @ (k, st1) # entries @ after))"
        "m_hasPeerParameters t"
      using sendLoop_run [OF continued(3) inv Cons.prems(3) continued(1)] by blast
    have "map_inv ((done @ [(k, st1)]) @ entries @ after)" using inv by simp
    from Cons.IH [OF continued(4) this rs(3)] obtain rs2 where rs2: "snd (snd acc') = snd (snd acc2) @ rs2"
        "sender_run (map Sent rs2) (sideAt t (done @ (k, st1) # entries @ after)) (sideAt s' (done @ (k, st1) # rest @ after))"
        "m_hasPeerParameters s'"
      by auto
    show ?thesis
      using run_trans [OF rs(2) rs2(2)] rs(1) rs2(1,3)
      by (intro exI [of _ "rs @ rs2"]) (simp add: entry continued(2))
  qed
qed

lemma stream_data_run:
  assumes "collectStreamData frames budget ranges s = Inr ((frames', used, ranges'), s')" "map_inv (m_outgoing s)"
  shows "\<exists>rs. ranges' = ranges @ rs \<and> sender_run (map Sent rs) (send_side s) (send_side s')"
proof (cases "m_hasPeerParameters s")
  case False
  then show ?thesis using assms(1) idle by (auto simp: collectStreamData_def)
next
  case True
  define before where "before = takeWhile (\<lambda>entry. fst entry < m_nextSendStreamId s) (m_outgoing s)"
  define later where "later = dropWhile (\<lambda>entry. fst entry < m_nextSendStreamId s) (m_outgoing s)"
  have split: "m_outgoing s = before @ later" by (simp add: before_def later_def)
  obtain later' t f1 u1 r1 where first: "collectRange budget later s (frames, 0, ranges) = Inr (later', t, f1, u1, r1)"
    and rest: "(if u1 < budget then bindR (collectRange budget before t (f1, u1, r1))
          (\<lambda>(before, s, acc). Inr (acc, s\<lparr>m_outgoing := before @ later'\<rparr>))
        else Inr ((f1, u1, r1), t\<lparr>m_outgoing := before @ later'\<rparr>)) = Inr ((frames', used, ranges'), s')"
    using assms(1) True unfolding collectStreamData_def before_def [symmetric] later_def [symmetric]
    by (auto simp: Let_def elim!: bindR_InrE)
  have start: "sideAt s (before @ later) = send_side s" by (simp add: sideAt_def split [symmetric] send_side_def)
  obtain rs where rs: "r1 = ranges @ rs" "m_hasPeerParameters t"
      "sender_run (map Sent rs) (send_side s) (sideAt t (before @ later'))"
    using collectRange_run [OF first, of before "[]"] assms(2) True by (auto simp: split start)
  have end_side: "send_side (u\<lparr>m_outgoing := m\<rparr>) = sideAt u m" for u m by (simp add: put_send sideAt_def)
  show ?thesis
  proof (cases "u1 < budget")
    case False
    then show ?thesis using rest rs by (auto simp: end_side)
  next
    case again: True
    then obtain before' u where second: "collectRange budget before t (f1, u1, r1) = Inr (before', u, frames', used, ranges')"
        and s': "s' = u\<lparr>m_outgoing := before' @ later'\<rparr>"
      using rest by (auto elim!: bindR_InrE)
    have "map_inv (before @ later')"
      using run_map_inv [OF rs(3)] assms(2) by (simp add: sideAt_def)
    then obtain rs2 where "ranges' = r1 @ rs2"
        "sender_run (map Sent rs2) (sideAt t (before @ later')) (sideAt u (before' @ later'))"
      using collectRange_run [OF second, of "[]" later'] rs(2) by auto
    then show ?thesis using run_trans [OF rs(3)] rs(1) by (auto simp: s' end_side intro!: exI [of _ "rs @ rs2"])
  qed
qed


lemma resetLoop_run:
  assumes "resetLoop budget entries acc = Inr (entries', acc')" "map_inv (done @ entries)"
  shows "sender_run [] (sideAt s (done @ entries)) (sideAt s (done @ entries'))"
  using assms
proof (induction budget entries acc arbitrary: entries' acc' "done" rule: resetLoop.induct)
  case (1 budget acc)
  then show ?case by (simp add: idle)
next
  case (2 budget k st entries frames used announced)
  have inv: "map_inv (done @ (k, st) # entries)" using 2(5) .
  have kept: "sender_run [] (sideAt s (done @ (k, st1) # entries)) (sideAt s (done @ (k, st1) # rest))"
    if "\<And>d. map_inv (d @ entries) \<Longrightarrow> sender_run [] (sideAt s (d @ entries)) (sideAt s (d @ rest))" for rest st1
    using that [of "done @ [(k, st1)]"] inv by simp
  show ?case
  proof (cases "out_sendAbort st")
    case None
    then obtain rest where "entries' = (k, st) # rest" "resetLoop budget entries (frames, used, announced) = Inr (rest, acc')"
      using 2(4) by (auto elim!: bindR_InrE)
    then show ?thesis using kept 2(1) [OF None] by blast
  next
    case (Some a)
    show ?thesis
    proof (cases "owesAnnouncement (Some a)")
      case False
      then obtain rest where "entries' = (k, st) # rest" "resetLoop budget entries (frames, used, announced) = Inr (rest, acc')"
        using 2(4) Some by (auto elim!: bindR_InrE)
      then show ?thesis using kept 2(2) [OF Some] False by blast
    next
      case True
      obtain appended f1 u1 where tried: "tryAppendFrame frames budget used
          (QuicResetStreamFrame k (abort_applicationErrorCode a) (abort_finalSize a)) = Inr (appended, f1, u1)"
        and rest: "bindR (resetLoop budget entries (f1, u1, if appended
              then announced @ [\<lparr>announcement_streamId = k, isResetStream = True\<rparr>] else announced))
            (\<lambda>(entries, acc). Inr ((k, if appended then st\<lparr>out_sendAbort := Some (a\<lparr>abort_isInFlight := True\<rparr>)\<rparr> else st) # entries, acc))
          = Inr (entries', acc')"
        using 2(4) Some True by (auto simp: Let_def elim!: bindR_InrE)
      define st1 where "st1 = (if appended then st\<lparr>out_sendAbort := Some (a\<lparr>abort_isInFlight := True\<rparr>)\<rparr> else st)"
      obtain rest' where rest': "entries' = (k, st1) # rest'" and loop: "resetLoop budget entries (f1, u1, if appended
              then announced @ [\<lparr>announcement_streamId = k, isResetStream = True\<rparr>] else announced) = Inr (rest', acc')"
        using rest by (auto simp: st1_def elim!: bindR_InrE)
      have "sender_run [] (sideAt s (done @ (k, st) # entries)) (sideAt s (done @ (k, st1) # entries))"
      proof (cases appended)
        case True
        then show ?thesis
          using run_one [OF announces [of k "sideAt s (done @ (k, st) # entries)" st "a\<lparr>abort_isInFlight := True\<rparr>"]]
            find_middle [OF inv] Some by (simp add: sideAt_def put_middle [OF inv] st1_def)
      qed (simp add: st1_def idle)
      moreover have "sender_run [] (sideAt s (done @ (k, st1) # entries)) (sideAt s (done @ (k, st1) # rest'))"
        by (rule kept) (use 2(3) [OF Some _ tried refl refl _ _ loop] True in auto)
      ultimately show ?thesis using run_silent unfolding rest' by blast
    qed
  qed
qed

lemma abort_announcements_run:
  assumes "collectAbortAnnouncements frames budget announced s = Inr (frames', used, announced', s')" "map_inv (m_outgoing s)"
  shows "sender_run [] (send_side s) (send_side s')"
proof -
  obtain outgoing acc incoming where loop: "resetLoop budget (m_outgoing s) (frames, 0, announced) = Inr (outgoing, acc)"
      and s': "s' = s\<lparr>m_outgoing := outgoing, m_incoming := incoming\<rparr>"
    using assms(1) by (auto simp: collectAbortAnnouncements_def elim!: bindR_InrE)
  have "sideAt s (m_outgoing s) = send_side s" by (simp add: sideAt_def send_side_def)
  moreover have "send_side s' = sideAt s outgoing" by (simp add: s' send_side_simps put_send sideAt_def)
  ultimately show ?thesis using resetLoop_run [OF loop, of "[]" s] assms(2) by simp
qed

lemma window_updates_send:
  assumes "collectWindowUpdates frames budget s = Inr (frames', used, s')"
  shows "send_side s' = send_side s"
proof -
  obtain f1 u1 t where first: "collectConnectionUpdates frames budget s = Inr (f1, u1, t)"
      and rest: "(if u1 = budget then Inr (f1, u1, t) else bindR (streamWindowLoop budget (m_incoming t) (f1, u1))
        (\<lambda>(incoming, frames, used). Inr (frames, used, t\<lparr>m_incoming := incoming\<rparr>))) = Inr (frames', used, s')"
    using assms(1) unfolding collectWindowUpdates_def unfold_binds by blast
  have "send_side t = send_side s"
    using first unfolding collectConnectionUpdates_def unfold_binds by (auto simp: send_side_simps)
  then show ?thesis using rest by (auto simp: send_side_simps split: if_splits elim!: bindR_InrE)
qed

lemma collect_run:
  assumes "collectFrames frames budget ranges announced s = Inr (anything, frames', ranges', announced', s')"
    "map_inv (m_outgoing s)" "gaps_small (send_side s)"
  shows "\<exists>rs. ranges' = ranges @ rs \<and> sender_run (map Sent rs) (send_side s) (send_side s')"
proof -
  obtain f1 n1 a1 s1 f2 n2 s2 u3 where steps:
    "collectAbortAnnouncements frames budget announced (retireSettledStreams s) = Inr (f1, n1, a1, s1)"
    "collectWindowUpdates f1 (budget - n1) s1 = Inr (f2, n2, s2)"
    "collectStreamData f2 (budget - n1 - n2) ranges s2 = Inr ((frames', u3, ranges'), s')"
    using assms(1) unfolding collectFrames_def unfold_binds by blast
  have first: "sender_run [] (send_side s) (send_side (retireSettledStreams s))" by (rule retire_run [OF assms(2,3)])
  then have "map_inv (m_outgoing (retireSettledStreams s))" using run_map_inv assms(2) by fastforce
  then have second: "sender_run [] (send_side s) (send_side s2)"
    using run_silent [OF first abort_announcements_run [OF steps(1)]] window_updates_send [OF steps(2)] by simp
  then have "map_inv (m_outgoing s2)" using run_map_inv assms(2) by fastforce
  from stream_data_run [OF steps(3) this] show ?thesis using run_silent [OF second] by blast
qed

section \<open>Every call is a run\<close>

text \<open>The labels a call shows, given the layer before it and the ranges it sent.\<close>

fun shows_labels :: "stream_event \<Rightarrow> QuicStreamLayer \<Rightarrow> QuicStreamRange list \<Rightarrow> send_label list \<Rightarrow> bool" where
  "shows_labels (AdoptParameters p) s rs ls \<longleftrightarrow> ls = [Adopted (peerWindow (m_isLocalServer s) p) (initialMaximumData p)]"
| "shows_labels (MaxDataArrives m) s rs ls \<longleftrightarrow> ls = [Granted m]"
| "shows_labels (MaxStreamDataArrives i m) s rs ls \<longleftrightarrow> ls \<in> {[], [Raised i m]}"
| "shows_labels (StopArrives i e) s rs ls \<longleftrightarrow> set ls \<subseteq> {Ended i}"
| "shows_labels (ResetSending i e) s rs ls \<longleftrightarrow> set ls \<subseteq> {Ended i}"
| "shows_labels (WriteData i data final) s rs ls \<longleftrightarrow>
     ls = [] \<and> fst (writeStreamData i data final s) = 0 \<or>
     (\<exists>fin. ls = [Wrote i (take (fst (writeStreamData i data final s)) data) fin])"
| "shows_labels OpenUnidirectional s rs ls \<longleftrightarrow>
     ls = (case fst (openUnidirectionalStream s) of None \<Rightarrow> [] | Some k \<Rightarrow> [Opened k])"
| "shows_labels OpenBidirectional s rs ls \<longleftrightarrow>
     ls = (case fst (openBidirectionalStream s) of None \<Rightarrow> [] | Some k \<Rightarrow> [Opened k])"
| "shows_labels (CollectFrames budget) s rs ls \<longleftrightarrow> ls = map Sent rs"
| "shows_labels (RangesAcknowledged as) s rs ls \<longleftrightarrow> ls = [Acked as]"
| "shows_labels (RangesLost as) s rs ls \<longleftrightarrow> ls = [Lost as]"
| "shows_labels _ s rs ls \<longleftrightarrow> ls = []"

definition sender_ok :: "QuicStreamLayer \<Rightarrow> bool" where
  "sender_ok s \<longleftrightarrow> map_inv (m_outgoing s) \<and> gaps_small (send_side s)"

lemma layer_refines_sender:
  assumes "layerStep e s = Inr (s', rs)" "sender_ok s"
  shows "\<exists>ls. sender_run ls (send_side s) (send_side s') \<and> shows_labels e s rs ls"
proof -
  have inv: "map_inv (m_outgoing s)" and gaps: "gaps_small (send_side s)" using assms(2) by (simp_all add: sender_ok_def)
  show ?thesis
  proof (cases e)
    case (CollectFrames budget)
    then obtain a f c where "collectFrames [] budget [] [] s = Inr (a, f, rs, c, s')"
      using assms(1) by (auto elim!: bindR_InrE)
    from collect_run [OF this inv gaps] show ?thesis using CollectFrames by simp
  next
    case (AdoptParameters p)
    then show ?thesis using assms(1) adopt_run [of s p] by auto
  next
    case (StopArrives i c)
    then show ?thesis using assms(1) stop_run [OF inv, of i c] by auto
  next
    case (ResetSending i c)
    then show ?thesis using assms(1) reset_run [OF inv, of i c] by auto
  next
    case (WriteData i data final)
    then show ?thesis using assms(1) write_run [OF inv, of i data final] by auto
  next
    case OpenUnidirectional
    then show ?thesis using assms(1) open_run(1) [OF inv] by auto
  next
    case OpenBidirectional
    then show ?thesis using assms(1) open_run(2) [OF inv] by auto
  next
    case (RangesAcknowledged as)
    then show ?thesis using assms(1) acked_run [OF inv, of "as"] by auto
  next
    case (RangesLost as)
    then show ?thesis using assms(1) lost_run [OF inv, of "as"] by auto
  next
    case (MaxDataArrives m)
    then show ?thesis using assms(1) grant_run [of m s] by auto
  next
    case (MaxStreamDataArrives i m)
    then show ?thesis using assms(1) raise_run [OF inv, of i m] by auto
  next
    case (AnnouncementsAcknowledged as)
    then show ?thesis using assms(1) announcements_run [OF inv, of _ "as"] by (auto simp: onStreamAnnouncementsAcknowledged_def)
  next
    case (AnnouncementsLost as)
    then show ?thesis using assms(1) announcements_run [OF inv, of _ "as"] by (auto simp: onStreamAnnouncementsLost_def)
  qed (use assms(1) idle in \<open>auto simp: send_side_simps\<close>)
qed

lemma step_server: "sender_step l x y \<Longrightarrow> side_server y = side_server x"
  by (induction rule: sender_step.induct) simp_all

lemma run_server: "sender_run l x y \<Longrightarrow> side_server y = side_server x"
  by (induction rule: sender_run.induct) (auto dest: step_server)

lemma layer_keeps_ok:
  assumes "layerStep e s = Inr (s', rs)" "sender_ok s"
  shows "sender_ok s'" "m_isLocalServer s' = m_isLocalServer s"
proof -
  obtain ls where "sender_run ls (send_side s) (send_side s')" using layer_refines_sender [OF assms] by blast
  then show "sender_ok s'" "m_isLocalServer s' = m_isLocalServer s"
    using run_map_inv run_gaps_small run_server assms(2) by (fastforce simp: sender_ok_def)+
qed

lemma new_sender_ok: "sender_ok (newStreamLayer p server)"
  by (simp add: sender_ok_def newStreamLayer_def gaps_small_def send_side_def)

end
