(* ===== verification/QuicStreamReceiving.thy ===== *)
theory QuicStreamReceiving
  imports QuicStreamSender
begin

text \<open>
  The credit the layer grants the peer: for every sequence of calls, the bytes of the frames the
  layer took are counted exactly, stay within the credit of their stream and, all streams
  together, within the credit of the connection, and no credit is taken back. The part of the
  layer this is about is a small view; most calls leave it alone, and the invariant is stated
  on it.
\<close>

section \<open>What the peer has sent\<close>

text \<open>A frame the layer answers with no error and still ignores: its stream has been reset, has
  had all its bytes already, or has been retired.\<close>

definition ignoresFrame :: "u64 \<Rightarrow> QuicStreamLayer \<Rightarrow> bool" where
  "ignoresFrame k s = (case map_find k (m_incoming s) of
     Some stream \<Rightarrow> in_isReset stream \<or> in_isFinished stream
   | None \<Rightarrow> sideRetired s True k)"

text \<open>The stream and the end of the bytes a call hands to the layer, when it takes them.\<close>

fun takenBytes :: "stream_event \<Rightarrow> QuicStreamLayer \<Rightarrow> (u64 \<times> nat) list" where
  "takenBytes (StreamArrives k offset data final) s =
     (if fst (onStreamFrame k offset data final s) = None \<and> \<not> ignoresFrame k s
      then [(k, unat offset + length data)] else [])"
| "takenBytes _ s = []"

fun receiveTrace :: "stream_event list \<Rightarrow> QuicStreamLayer \<Rightarrow> thrown + QuicStreamLayer \<times> (u64 \<times> nat) list" where
  "receiveTrace [] s = Inr (s, [])"
| "receiveTrace (e # es) s =
     bindR (layerStep e s) (\<lambda>(t, ranges). bindR (receiveTrace es t) (\<lambda>(u, later).
       Inr (u, takenBytes e s @ later)))"

fun highestTaken :: "u64 \<Rightarrow> (u64 \<times> nat) list \<Rightarrow> nat" where
  "highestTaken k [] = 0"
| "highestTaken k ((j, end_offset) # taken) =
     (if j = k then max end_offset (highestTaken k taken) else highestTaken k taken)"

definition totalTaken :: "(u64 \<times> nat) list \<Rightarrow> nat" where
  "totalTaken taken = (\<Sum>k \<in> fst ` set taken. highestTaken k taken)"

text \<open>What the calls must keep to: frames end below \<open>2 ^ 62\<close>, as the decoder of the frames
  makes sure, and the bytes the application releases are counted.\<close>

fun arrives_in_range :: "stream_event \<Rightarrow> bool" where
  "arrives_in_range (StreamArrives k offset data final) \<longleftrightarrow> unat offset + length data < 2 ^ 62"
| "arrives_in_range _ \<longleftrightarrow> True"

fun releasedBytes :: "stream_event list \<Rightarrow> nat" where
  "releasedBytes [] = 0"
| "releasedBytes (ReleaseWindow k n # es) = n + releasedBytes es"
| "releasedBytes (_ # es) = releasedBytes es"

lemma releasedBytes_Cons: "releasedBytes (e # es) = releasedBytes [e] + releasedBytes es"
  by (cases e) simp_all

lemma highestTaken_append [simp]: "highestTaken k (xs @ ys) = max (highestTaken k xs) (highestTaken k ys)"
  by (induction xs rule: highestTaken.induct) (auto simp: max.assoc)

lemma highestTaken_absent: "k \<notin> fst ` set taken \<Longrightarrow> highestTaken k taken = 0"
  by (induction k taken rule: highestTaken.induct) auto

lemma totalTaken_superset:
  "finite ks \<Longrightarrow> fst ` set taken \<subseteq> ks \<Longrightarrow> totalTaken taken = (\<Sum>k \<in> ks. highestTaken k taken)"
  unfolding totalTaken_def by (rule sum.mono_neutral_left) (auto simp: highestTaken_absent)

lemma totalTaken_snoc:
  "totalTaken (taken @ [(k, e)]) = totalTaken taken + (max (highestTaken k taken) e - highestTaken k taken)"
proof -
  let ?ks = "insert k (fst ` set taken)"
  have "totalTaken (taken @ [(k, e)]) = (\<Sum>j \<in> ?ks. highestTaken j (taken @ [(k, e)]))"
    by (rule totalTaken_superset) auto
  also have "\<dots> = max (highestTaken k taken) e + (\<Sum>j \<in> ?ks - {k}. highestTaken j (taken @ [(k, e)]))"
    by (subst sum.remove [of _ k]) auto
  also have "(\<Sum>j \<in> ?ks - {k}. highestTaken j (taken @ [(k, e)])) = (\<Sum>j \<in> ?ks - {k}. highestTaken j taken)"
    by (rule sum.cong) auto
  also have "totalTaken taken = highestTaken k taken + (\<Sum>j \<in> ?ks - {k}. highestTaken j taken)"
    by (subst totalTaken_superset [of ?ks]) (auto simp: sum.remove [of _ k])
  ultimately show ?thesis by simp
qed

section \<open>The view\<close>

record receive_view =
  view_windows :: "(u64, u64 \<times> u64) std_map"
  view_received :: u64
  view_limit :: u64
  view_consumed :: u64
  view_initial :: u64
  view_retired :: "u64 \<Rightarrow> bool"
  view_gaps :: "u64 set"

definition window :: "IncomingStream \<Rightarrow> u64 \<times> u64" where
  "window stream = (in_receivedHighWaterOffset stream, in_streamLimit stream)"

definition windows :: "(u64, IncomingStream) std_map \<Rightarrow> (u64, u64 \<times> u64) std_map" where
  "windows m = map (\<lambda>(k, stream). (k, window stream)) m"

definition view :: "QuicStreamLayer \<Rightarrow> receive_view" where
  "view s = \<lparr>view_windows = windows (m_incoming s), view_received = m_connectionReceivedBytes s,
     view_limit = m_connectionAdvertisedLimit s, view_consumed = m_connectionConsumedBytes s,
     view_initial = initialMaximumData (m_localParameters s), view_retired = sideRetired s True,
     view_gaps = set (m_retiredLocalBidiGaps s 0)\<rparr>"

text \<open>The rest of the layer the view depends on.\<close>

definition accounts :: "QuicStreamLayer \<Rightarrow>
    u64 \<times> QuicTransportParameters \<times> bool \<times> (nat \<Rightarrow> u64) \<times> u64 \<times> u64 list" where
  "accounts s = (m_connectionConsumedBytes s, m_localParameters s, m_isLocalServer s,
     m_retiredPeerStreamBoundaries s 0, m_retiredLocalBidiBoundaries s 0, m_retiredLocalBidiGaps s 0)"

lemma sideRetired_same:
  "accounts t = accounts s \<Longrightarrow> sideRetired t True = sideRetired s True"
  by (simp add: accounts_def sideRetired_def isPeerStreamSideRetired_def isLocalBidiStreamSideRetired_def
      isLocallyInitiated_def fun_eq_iff Let_def)

lemma view_put:
  assumes "accounts t = accounts s"
  shows "view t = (view s)\<lparr>view_windows := windows (m_incoming t), view_received := m_connectionReceivedBytes t,
    view_limit := m_connectionAdvertisedLimit t\<rparr>"
  using sideRetired_same [OF assms] assms by (simp add: view_def accounts_def)

lemma view_same:
  assumes "accounts t = accounts s" "receive_side t = receive_side s"
  shows "view t = view s"
  using sideRetired_same [OF assms(1)] assms by (simp add: view_def accounts_def receive_side_def)

lemma windows_keys [simp]: "map fst (windows m) = map fst m"
  by (auto simp: windows_def)

lemma windows_inv [simp]: "map_inv (windows m) \<longleftrightarrow> map_inv m"
  by (simp add: map_inv_def)

lemma windows_find [simp]: "map_find k (windows m) = map_option window (map_find k m)"
  by (induction m) (auto simp: windows_def map_find_def)

lemma windows_put [simp]: "windows (map_put k st m) = map_put k (window st) (windows m)"
  by (induction k st m rule: map_put.induct) (auto simp: windows_def)

lemma put_found: "map_inv m \<Longrightarrow> map_find k m = Some v \<Longrightarrow> map_put k v m = m"
  by (induction m) (fastforce simp: map_find_def split: if_splits dest: map_of_SomeD)+

lemma put_find: "map_find k (map_put k v m) = Some v"
  by (induction k v m rule: map_put.induct) (simp_all add: map_find_def)

lemma put_same_window:
  "map_inv m \<Longrightarrow> map_find k m = Some st \<Longrightarrow> window st' = window st \<Longrightarrow> windows (map_put k st' m) = windows m"
  by (simp add: put_found)

section \<open>The calls that leave the view alone\<close>

named_theorems accounts_simps \<open>operations that leave the counters and the boundaries alone\<close>

lemma fields_accounts [accounts_simps]:
  "accounts (s\<lparr>m_incoming := a\<rparr>) = accounts s"
  "accounts (s\<lparr>m_outgoing := o'\<rparr>) = accounts s"
  "accounts (s\<lparr>m_deliveries := b\<rparr>) = accounts s"
  "accounts (s\<lparr>m_abortedStreams := c\<rparr>) = accounts s"
  "accounts (s\<lparr>m_drainedSendByteCount := d\<rparr>) = accounts s"
  "accounts (s\<lparr>m_connectionReceivedBytes := e\<rparr>) = accounts s"
  "accounts (s\<lparr>m_connectionAdvertisedLimit := e\<rparr>) = accounts s"
  "accounts (s\<lparr>m_connectionSendLimit := e\<rparr>) = accounts s"
  "accounts (s\<lparr>m_connectionSentHighWater := e\<rparr>) = accounts s"
  "accounts (s\<lparr>m_connectionWindowUpdatePending := f\<rparr>) = accounts s"
  "accounts (s\<lparr>m_streamsBidirectionalUpdatePending := f\<rparr>) = accounts s"
  "accounts (s\<lparr>m_streamsUnidirectionalUpdatePending := f\<rparr>) = accounts s"
  "accounts (s\<lparr>m_incomingUnidirectionalCount := e\<rparr>) = accounts s"
  "accounts (s\<lparr>m_incomingBidirectionalCount := e\<rparr>) = accounts s"
  "accounts (s\<lparr>m_outgoingUnidirectionalLimit := e\<rparr>) = accounts s"
  "accounts (s\<lparr>m_outgoingBidirectionalLimit := e\<rparr>) = accounts s"
  "accounts (s\<lparr>m_nextBidirectionalStreamId := e\<rparr>) = accounts s"
  "accounts (s\<lparr>m_nextUnidirectionalStreamId := e\<rparr>) = accounts s"
  "accounts (s\<lparr>m_nextSendStreamId := e\<rparr>) = accounts s"
  by (simp_all add: accounts_def)

lemma raiseAdvertised_accounts [accounts_simps]: "accounts (raiseAdvertisedStreamLimits s) = accounts s"
  by (simp add: raiseAdvertisedStreamLimits_def accounts_def split: prod.splits)

lemma storeIncoming_accounts [accounts_simps]: "accounts (storeIncoming i st s) = accounts s"
  by (simp add: storeIncoming_def accounts_simps)

lemma createIncoming_accounts [accounts_simps]: "accounts (createIncomingStream i s) = accounts s"
  by (simp add: createIncomingStream_def Let_def accounts_simps)

lemma outgoingStream_accounts [accounts_simps]: "accounts (snd (outgoingStream i s)) = accounts s"
  by (simp add: outgoingStream_def Let_def accounts_simps split: option.splits)

lemma drain_accounts: "drainContiguousBytes i st s = (st', s') \<Longrightarrow> accounts s' = accounts s"
  by (auto simp: drainContiguousBytes_def Let_def accounts_simps split: prod.splits if_splits)

lemma accept_accounts [accounts_simps]: "accounts (acceptStreamBytes i offset data st s) = accounts s"
  by (auto simp: acceptStreamBytes_def Let_def accounts_simps split: prod.splits dest!: drain_accounts)

lemma calls_accounts [accounts_simps]:
  "accounts (adoptPeerParameters p s) = accounts s"
  "accounts (snd (onMaxDataFrame m s)) = accounts s"
  "accounts (snd (onMaxStreamDataFrame i m s)) = accounts s"
  "accounts (snd (onMaxStreamsFrame m uni s)) = accounts s"
  "accounts (snd (onResetStreamFrame i e n s)) = accounts s"
  "accounts (stopStreamReceiving i e s) = accounts s"
  "accounts (snd (takeDelivery s)) = accounts s"
  "accounts (snd (takeAbortedStream s)) = accounts s"
  "accounts (snd (takeDrainedSendByteCount s)) = accounts s"
  by (simp_all add: onMaxDataFrame_def onMaxStreamDataFrame_def onMaxStreamsFrame_def onResetStreamFrame_def
      pushAborted_def stopStreamReceiving_def takeDelivery_def takeAbortedStream_def
      takeDrainedSendByteCount_def Let_def accounts_simps split: option.splits prod.splits)
    (simp add: adoptPeerParameters_def accounts_def Let_def)

lemma creating_accounts [accounts_simps]:
  "accounts (snd (onStopSendingFrame i e s)) = accounts s"
  "accounts (snd (writeStreamData i data final s)) = accounts s"
  "accounts (resetStreamSending i e s) = accounts s"
proof -
  obtain stream t where out: "outgoingStream i s = (stream, t)" by (cases "outgoingStream i s")
  then have t: "accounts t = accounts s" using outgoingStream_accounts [of i s] by simp
  show "accounts (snd (onStopSendingFrame i e s)) = accounts s"
    by (simp add: onStopSendingFrame_def out t Let_def pushAborted_def accounts_simps)
  show "accounts (snd (writeStreamData i data final s)) = accounts s"
    by (simp add: writeStreamData_def out t Let_def accounts_simps)
  show "accounts (resetStreamSending i e s) = accounts s"
    by (simp add: resetStreamSending_def out t Let_def accounts_simps)
qed

lemma open_accounts [accounts_simps]:
  "accounts (snd (openUnidirectionalStream s)) = accounts s"
  "accounts (snd (openBidirectionalStream s)) = accounts s"
  by (simp_all add: openUnidirectionalStream_def openBidirectionalStream_def Let_def accounts_simps)

lemma fold_accounts:
  "(\<And>x s. accounts (f x s) = accounts s) \<Longrightarrow> accounts (fold f xs s) = accounts s"
  by (induction xs arbitrary: s) simp_all

lemma ranges_accounts [accounts_simps]:
  "accounts (onSendRangesAcknowledged rs s) = accounts s"
  "accounts (onSendRangesLost rs s) = accounts s"
  "accounts (fold (updateAbortAnnouncement f) as s) = accounts s"
proof -
  show "accounts (onSendRangesAcknowledged rs s) = accounts s"
    unfolding onSendRangesAcknowledged_def
    by (rule fold_accounts) (simp add: acknowledgeSendRange_def accounts_simps split: option.splits)
  have "accounts (fold loseSendRange rs s) = accounts s"
    by (rule fold_accounts) (simp add: loseSendRange_def accounts_simps Let_def split: option.splits)
  then show "accounts (onSendRangesLost rs s) = accounts s"
    by (simp add: onSendRangesLost_def Let_def accounts_simps)
  show "accounts (fold (updateAbortAnnouncement f) as s) = accounts s"
    by (rule fold_accounts) (simp add: updateAbortAnnouncement_def accounts_simps split: option.splits)
qed

lemma sendStep_accounts:
  "sendStep budget i stream s (frames, used, ranges) = Inr (Inr (stream', s', acc')) \<Longrightarrow> accounts s' = accounts s"
  by (erule sendStep_next) (auto simp: noteChunkSent_def Let_def accounts_simps)

lemma sendLoop_accounts:
  "sendLoop budget i stream s acc = Inr (halted, stream', s', acc') \<Longrightarrow> accounts s' = accounts s"
  by (erule sendLoop_invariant [where I = "\<lambda>stream t acc. accounts t = accounts s"])
    (auto dest: sendStep_accounts)

lemma collectRange_accounts:
  "collectRange budget entries s acc = Inr (entries', s', acc') \<Longrightarrow> accounts s' = accounts s"
proof (induction entries arbitrary: s acc entries')
  case (Cons entry entries)
  obtain i stream where "entry = (i, stream)" by (cases entry)
  from Cons.prems [unfolded this] show ?case
    by (cases rule: collectRange_cases) (use Cons.IH sendLoop_accounts in metis)+
qed simp

lemma collectStreamData_accounts:
  "collectStreamData frames budget ranges s = Inr (acc', s') \<Longrightarrow> accounts s' = accounts s"
  by (auto simp: collectStreamData_def Let_def accounts_simps split: if_splits elim!: bindR_InrE)
    (metis collectRange_accounts)+

text \<open>Writing frames out changes flags of the streams, never their windows.\<close>

lemma stopLoop_windows:
  "stopLoop budget entries acc = Inr (entries', acc') \<Longrightarrow> windows entries' = windows entries"
  by (induction budget entries acc arbitrary: entries' acc' rule: stopLoop.induct)
    (auto elim!: bindR_InrE split: option.splits if_splits prod.splits simp: Let_def windows_def window_def)

lemma streamWindowLoop_windows:
  "streamWindowLoop budget entries acc = Inr (entries', acc') \<Longrightarrow> windows entries' = windows entries"
  by (induction budget entries acc arbitrary: entries' acc' rule: streamWindowLoop.induct)
    (auto elim!: bindR_InrE split: option.splits if_splits prod.splits simp: Let_def windows_def window_def)

lemma abort_announcements_view:
  assumes "collectAbortAnnouncements frames budget announced s = Inr (frames', used, announced', s')"
  shows "view s' = view s"
proof -
  obtain incoming outgoing acc where loop: "stopLoop budget (m_incoming s) acc = Inr (incoming, frames', used, announced')"
      and s': "s' = s\<lparr>m_outgoing := outgoing, m_incoming := incoming\<rparr>"
    using assms by (auto simp: collectAbortAnnouncements_def elim!: bindR_InrE)
  have "accounts s' = accounts s" by (simp add: s' accounts_simps)
  from view_put [OF this] show ?thesis
    using stopLoop_windows [OF loop] by (simp add: s') (simp add: view_def)
qed

lemma window_updates_view:
  assumes "collectWindowUpdates frames budget s = Inr (frames', used, s')"
  shows "view s' = view s"
proof -
  obtain f1 u1 t where first: "collectConnectionUpdates frames budget s = Inr (f1, u1, t)"
      and rest: "(if u1 = budget then Inr (f1, u1, t) else bindR (streamWindowLoop budget (m_incoming t) (f1, u1))
        (\<lambda>(incoming, frames, used). Inr (frames, used, t\<lparr>m_incoming := incoming\<rparr>))) = Inr (frames', used, s')"
    using assms unfolding collectWindowUpdates_def unfold_binds by blast
  have "accounts t = accounts s" "receive_side t = receive_side s"
    using first unfolding collectConnectionUpdates_def unfold_binds by (auto simp: accounts_simps receive_side_def)
  then have t: "view t = view s" by (rule view_same)
  show ?thesis
  proof (cases "u1 = budget")
    case True
    then show ?thesis using rest t by simp
  next
    case False
    then obtain incoming f2 u2 where loop: "streamWindowLoop budget (m_incoming t) (f1, u1) = Inr (incoming, f2, u2)"
        and s': "s' = t\<lparr>m_incoming := incoming\<rparr>"
      using rest by (auto simp: bindR_Inr_iff)
    have "accounts s' = accounts t" by (simp add: s' accounts_simps)
    from view_put [OF this] have "view s' = view t"
      using streamWindowLoop_windows [OF loop] by (simp add: s') (simp add: view_def)
    then show ?thesis using t by simp
  qed
qed

lemma flags_view:
  assumes "map_inv (m_incoming s)" "map_find k (m_incoming s) = Some st" "window st' = window st"
  shows "view (storeIncoming k st' s) = view s"
  unfolding view_put [OF storeIncoming_accounts]
  using put_same_window [OF assms] by (simp add: storeIncoming_def) (simp add: view_def)

lemma announcements_view:
  "map_inv (m_incoming s) \<Longrightarrow> view (fold (updateAbortAnnouncement f) as s) = view s \<and>
    map_inv (m_incoming (fold (updateAbortAnnouncement f) as s))"
proof (induction as arbitrary: s)
  case (Cons a as)
  have "view (updateAbortAnnouncement f a s) = view s"
  proof (cases "isResetStream a")
    case True
    have "accounts (updateAbortAnnouncement f a s) = accounts s" "receive_side (updateAbortAnnouncement f a s) = receive_side s"
      using True by (simp_all add: updateAbortAnnouncement_def accounts_simps put_outgoing_receive split: option.splits)
    then show ?thesis by (rule view_same)
  next
    case False
    then show ?thesis
      using flags_view [OF Cons.prems] by (auto simp: updateAbortAnnouncement_def window_def split: option.splits)
  qed
  moreover have "map_inv (m_incoming (updateAbortAnnouncement f a s))"
    using Cons.prems by (auto simp: updateAbortAnnouncement_def storeIncoming_def split: option.splits)
  ultimately show ?case using Cons.IH by simp
qed simp

lemma reset_view:
  assumes "map_inv (m_incoming s)"
  shows "view (snd (onResetStreamFrame k e finalSize s)) = view s"
proof -
  have push: "view (pushAborted k e b t) = view t" for b t
    by (rule view_same) (simp_all add: pushAborted_def accounts_simps receive_side_def)
  show ?thesis
    using flags_view [OF assms, of k] unfolding onResetStreamFrame_def Let_def
    by (auto simp: push window_def split: option.splits)
qed

lemma stop_view: "map_inv (m_incoming s) \<Longrightarrow> view (stopStreamReceiving k e s) = view s"
  using flags_view [of s k] by (auto simp: stopStreamReceiving_def window_def split: option.splits)

section \<open>The invariant\<close>

definition receive_inv :: "(u64 \<times> nat) list \<Rightarrow> nat \<Rightarrow> (u64 \<Rightarrow> u64) \<Rightarrow> u64 \<Rightarrow> receive_view \<Rightarrow> bool" where
  "receive_inv taken released base baseLimit v \<longleftrightarrow>
     map_inv (view_windows v) \<and>
     (\<forall>k high limit. map_find k (view_windows v) = Some (high, limit) \<longrightarrow>
        unat high = highestTaken k taken \<and> highestTaken k taken < 2 ^ 62 \<and> high \<le> limit \<and> base k \<le> limit) \<and>
     (\<forall>k. map_find k (view_windows v) = None \<longrightarrow> 0 < highestTaken k taken \<or> 0 < base k \<longrightarrow> view_retired v k) \<and>
     totalTaken taken = unat (view_received v) \<and> view_received v \<le> view_limit v \<and> baseLimit \<le> view_limit v \<and>
     unat (view_consumed v) \<le> released \<and> unat (view_limit v) \<le> unat (view_initial v) + released \<and>
     unat (view_initial v) < 2 ^ 62 \<and> (\<forall>gap \<in> view_gaps v. gap < 2 ^ 62)"

lemma receive_inv_map: "receive_inv taken released base baseLimit (view s) \<Longrightarrow> map_inv (m_incoming s)"
  by (simp add: receive_inv_def view_def)

lemma receive_inv_window:
  assumes "receive_inv taken released base baseLimit v" "map_find k (view_windows v) = Some (high, limit)"
  shows "unat high = highestTaken k taken" "highestTaken k taken < 2 ^ 62" "high \<le> limit" "base k \<le> limit"
  using assms unfolding receive_inv_def by blast+

lemma receive_inv_opens:
  assumes "receive_inv taken released base baseLimit v" "map_find k (view_windows v) = None" "\<not> view_retired v k"
  shows "receive_inv taken released base baseLimit (v\<lparr>view_windows := map_put k (0, limit) (view_windows v)\<rparr>)"
proof -
  have m: "map_inv (view_windows v)" using assms(1) by (simp add: receive_inv_def)
  have "highestTaken k taken = 0" "base k = 0"
    using assms by (auto simp: receive_inv_def word_gt_0)
  then show ?thesis using assms(1) by (auto simp: receive_inv_def std.lookup_put [OF m] m)
qed

text \<open>The bytes of one frame are added to the counters without wrap-around.\<close>

lemma receive_inv_takes:
  assumes inv: "receive_inv taken released base baseLimit v"
    and found: "map_find k (view_windows v) = Some (high, limit)"
    and bounds: "released < 2 ^ 62" "unat (view_initial v) < 2 ^ 62" "unat finish < 2 ^ 62"
    and fits: "finish \<le> limit" "high < finish \<Longrightarrow> view_received v + (finish - high) \<le> view_limit v"
  shows "receive_inv (taken @ [(k, unat finish)]) released base baseLimit
    (v\<lparr>view_windows := map_put k (if high < finish then finish else high, limit) (view_windows v),
       view_received := (if high < finish then view_received v + (finish - high) else view_received v)\<rparr>)"
proof -
  have m: "map_inv (view_windows v)" using inv by (simp add: receive_inv_def)
  note window = receive_inv_window [OF inv found]
  have received: "totalTaken taken = unat (view_received v)" "view_received v \<le> view_limit v"
      "unat (view_limit v) \<le> unat (view_initial v) + released"
    using inv by (simp_all add: receive_inv_def)
  let ?received = "if high < finish then view_received v + (finish - high) else view_received v"
  let ?high = "if high < finish then finish else high"
  have "unat (view_received v) < 2 ^ 63" using received bounds by (simp add: word_le_nat_alt)
  then have grown: "high < finish \<Longrightarrow> unat (view_received v + (finish - high)) = unat (view_received v) + (unat finish - unat high)"
    using bounds by (simp add: unat_word_ariths unat_sub order.strict_implies_order)
  have "unat ?received = totalTaken (taken @ [(k, unat finish)])"
    using grown received(1) window(1) by (auto simp: totalTaken_snoc word_less_nat_alt max_def)
  moreover have "?received \<le> view_limit v" using fits(2) received(2) by simp
  moreover have "unat ?high = highestTaken k (taken @ [(k, unat finish)])"
    using window(1) by (auto simp: word_less_nat_alt max_def)
  moreover have "highestTaken k (taken @ [(k, unat finish)]) < 2 ^ 62" "?high \<le> limit" "base k \<le> limit" using bounds fits(1) window by auto
  moreover have "highestTaken j (taken @ [(k, unat finish)]) = highestTaken j taken" if "j \<noteq> k" for j
    using that by simp
  ultimately show ?thesis
    using inv unfolding receive_inv_def by (auto simp: std.lookup_put [OF m] m simp del: highestTaken_append split: if_splits)
qed

lemma receive_inv_releases:
  assumes "receive_inv taken released base baseLimit v" "map_find k (view_windows v) = Some (high, limit)"
    "limit \<le> limit'" "view_limit v \<le> connectionLimit" "unat connectionLimit \<le> unat (view_initial v) + (released + n)"
    "unat consumed \<le> released + n"
  shows "receive_inv taken (released + n) base baseLimit
    (v\<lparr>view_windows := map_put k (high, limit') (view_windows v), view_limit := connectionLimit, view_consumed := consumed\<rparr>)"
proof -
  have m: "map_inv (view_windows v)" using assms(1) by (simp add: receive_inv_def)
  note window = receive_inv_window [OF assms(1,2)]
  have "high \<le> limit'" "base k \<le> limit'" using window assms(3) by auto
  moreover have "view_received v \<le> connectionLimit" "baseLimit \<le> connectionLimit"
    using assms(1,4) by (auto simp: receive_inv_def)
  ultimately show ?thesis
    using assms window unfolding receive_inv_def
    by (auto simp: std.lookup_put [OF m] m split: if_splits)
qed

lemma receive_inv_retires:
  assumes "receive_inv taken released base baseLimit v" "\<And>j. view_retired v j \<Longrightarrow> retired j" "retired k"
    "\<And>gap. gap \<in> gaps \<Longrightarrow> gap < 2 ^ 62"
  shows "receive_inv taken released base baseLimit
    (v\<lparr>view_windows := map_erase k (view_windows v), view_retired := retired, view_gaps := gaps\<rparr>)"
proof -
  have m: "map_inv (view_windows v)" using assms(1) by (simp add: receive_inv_def)
  show ?thesis
    using assms unfolding receive_inv_def
    by (auto simp: std.lookup_erase [OF m] m split: if_splits)
qed

section \<open>The calls that change the view\<close>

lemma accept_view:
  assumes "m_incoming s = map_put k st' m"
  shows "view (acceptStreamBytes k offset data st s) = (view s)\<lparr>
    view_windows := map_put k (if in_receivedHighWaterOffset st < offset + of_nat (length data)
      then offset + of_nat (length data) else in_receivedHighWaterOffset st, in_streamLimit st) (windows m),
    view_received := (if in_receivedHighWaterOffset st < offset + of_nat (length data)
      then m_connectionReceivedBytes s + (offset + of_nat (length data) - in_receivedHighWaterOffset st)
      else m_connectionReceivedBytes s)\<rparr>"
proof -
  let ?finish = "offset + of_nat (length data)"
  define s1 where "s1 = (if ?finish > in_receivedHighWaterOffset st
    then s\<lparr>m_connectionReceivedBytes := m_connectionReceivedBytes s + (?finish - in_receivedHighWaterOffset st)\<rparr> else s)"
  define st1 where "st1 = (if ?finish > in_receivedHighWaterOffset st
    then st\<lparr>in_receivedHighWaterOffset := ?finish\<rparr> else st)"
  define st2 where "st2 = st1\<lparr>in_reassembly := reassemblyInsert offset data (in_reassembly st1)\<rparr>"
  obtain st3 s3 where drained: "drainContiguousBytes k st2 s1 = (st3, s3)"
    by (cases "drainContiguousBytes k st2 s1")
  define st4 where "st4 = (if in_finalOffset st3 = Some (m_deliveredOffset (in_reassembly st3))
    then st3\<lparr>in_isFinished := True, in_receiveStop := None\<rparr> else st3)"
  have result: "acceptStreamBytes k offset data st s = storeIncoming k st4 s3"
    unfolding acceptStreamBytes_def Let_def
    by (simp add: drained flip: s1_def st1_def st2_def st4_def)
  have s3: "receive_side s3 = receive_side s1" "in_receivedHighWaterOffset st3 = in_receivedHighWaterOffset st2"
      "in_streamLimit st3 = in_streamLimit st2"
    using reset_keeps_window [OF drained] by simp_all
  have "window st4 = (if ?finish > in_receivedHighWaterOffset st then ?finish else in_receivedHighWaterOffset st, in_streamLimit st)"
    using s3 by (simp add: window_def st4_def st2_def st1_def)
  then show ?thesis
    using s3(1) unfolding view_put [OF accept_accounts] unfolding result storeIncoming_def
    by (simp add: receive_side_def s1_def assms)
      (simp add: view_def)
qed

lemma check_view:
  assumes "map_inv (m_incoming s)" "map_find k (m_incoming s) = Some st"
    and finish: "offset + of_nat (length data) = finish"
  obtains (ignored) "view (snd (checkStreamFrame k offset data final st s)) = view s"
      "fst (checkStreamFrame k offset data final st s) \<noteq> None \<or> in_isReset st \<or> in_isFinished st"
  | (takes) "fst (checkStreamFrame k offset data final st s) = None" "\<not> in_isReset st" "\<not> in_isFinished st"
      "finish \<le> in_streamLimit st" "in_receivedHighWaterOffset st < finish \<Longrightarrow>
        m_connectionReceivedBytes s + (finish - in_receivedHighWaterOffset st) \<le> m_connectionAdvertisedLimit s"
      "view (snd (checkStreamFrame k offset data final st s)) = (view s)\<lparr>view_windows :=
        map_put k (if in_receivedHighWaterOffset st < finish then finish else in_receivedHighWaterOffset st,
          in_streamLimit st) (view_windows (view s)),
        view_received := (if in_receivedHighWaterOffset st < finish
          then m_connectionReceivedBytes s + (finish - in_receivedHighWaterOffset st)
          else m_connectionReceivedBytes s)\<rparr>"
proof -
  define st1 where "st1 = (if final then st\<lparr>in_finalOffset := Some finish\<rparr> else st)"
  have st1: "window st1 = window st" "in_isFinished st1 = in_isFinished st" "in_streamLimit st1 = in_streamLimit st"
      "in_receivedHighWaterOffset st1 = in_receivedHighWaterOffset st"
    by (simp_all add: st1_def window_def)
  have stored: "view (storeIncoming k st1 s) = view s" by (rule flags_view [OF assms(1,2) st1(1)])
  have kept: "m_connectionReceivedBytes (storeIncoming k st1 s) = m_connectionReceivedBytes s"
    by (simp add: storeIncoming_def)
  have same: "map_put k x (windows (m_incoming s)) = map_put k x (view_windows (view s))" for x
    by (simp add: view_def)
  have accepted: "view (acceptStreamBytes k offset data st1 (storeIncoming k st1 s)) = (view s)\<lparr>view_windows :=
        map_put k (if in_receivedHighWaterOffset st < finish then finish else in_receivedHighWaterOffset st,
          in_streamLimit st) (view_windows (view s)),
        view_received := (if in_receivedHighWaterOffset st < finish
          then m_connectionReceivedBytes s + (finish - in_receivedHighWaterOffset st)
          else m_connectionReceivedBytes s)\<rparr>"
    by (subst accept_view [of _ k st1 "m_incoming s"])
      (simp_all add: storeIncoming_def [of k st1 s] stored [unfolded storeIncoming_def] st1 same finish)
  show thesis
  proof (cases "fst (checkStreamFrame k offset data final st s) = None \<and> \<not> in_isReset st \<and> \<not> in_isFinished st")
    case False
    then have "view (snd (checkStreamFrame k offset data final st s)) = view s"
      using stored unfolding checkStreamFrame_def Let_def finish st1_def [symmetric]
      by (simp add: st1 split: if_splits)
    then show thesis using False ignored by blast
  next
    case True
    then have "snd (checkStreamFrame k offset data final st s) = acceptStreamBytes k offset data st1 (storeIncoming k st1 s)"
        "finish \<le> in_streamLimit st"
        "\<not> (finish > in_receivedHighWaterOffset st \<and>
          m_connectionReceivedBytes s + (finish - in_receivedHighWaterOffset st) > m_connectionAdvertisedLimit s)"
      unfolding checkStreamFrame_def Let_def finish st1_def [symmetric]
      by (auto simp: st1 not_less split: if_splits)
    then show thesis using True takes accepted by (auto simp: not_less)
  qed
qed

lemma create_view:
  assumes "map_find k (m_incoming s) = None"
  shows "view (createIncomingStream k s) = (view s)\<lparr>view_windows :=
    map_put k (0, incomingInitialWindowOf s k) (view_windows (view s))\<rparr>"
    and "map_find k (m_incoming (createIncomingStream k s)) = Some (freshIncoming\<lparr>in_streamLimit := incomingInitialWindowOf s k\<rparr>)"
proof -
  have incoming: "m_incoming (createIncomingStream k s) =
      map_put k (freshIncoming\<lparr>in_streamLimit := incomingInitialWindowOf s k\<rparr>) (m_incoming s)"
    and rest: "m_connectionReceivedBytes (createIncomingStream k s) = m_connectionReceivedBytes s"
      "m_connectionAdvertisedLimit (createIncomingStream k s) = m_connectionAdvertisedLimit s"
    using create_receive [of k s] assms by (simp_all add: receive_side_def)
  show "view (createIncomingStream k s) = (view s)\<lparr>view_windows :=
      map_put k (0, incomingInitialWindowOf s k) (view_windows (view s))\<rparr>"
    unfolding view_put [OF createIncoming_accounts] incoming rest by (simp add: view_def window_def freshIncoming_def)
  show "map_find k (m_incoming (createIncomingStream k s)) = Some (freshIncoming\<lparr>in_streamLimit := incomingInitialWindowOf s k\<rparr>)"
    unfolding incoming by (rule put_find)
qed

lemma check_inv:
  assumes inv: "receive_inv taken released base baseLimit (view s)" and found: "map_find k (m_incoming s) = Some st"
    and bounds: "released < 2 ^ 62" "unat (view_initial (view s)) < 2 ^ 62" "unat offset + length data < 2 ^ 62"
  shows "receive_inv (taken @ (if fst (checkStreamFrame k offset data final st s) = None \<and>
      \<not> in_isReset st \<and> \<not> in_isFinished st then [(k, unat offset + length data)] else []))
    released base baseLimit (view (snd (checkStreamFrame k offset data final st s)))"
proof -
  define finish where "finish = offset + of_nat (length data)"
  have len: "unat (of_nat (length data) :: u64) = length data" using bounds(3) by (simp add: unat_of_nat)
  have finish: "unat finish = unat offset + length data"
    using bounds(3) by (simp add: finish_def unat_word_ariths len)
  have windows: "map_find k (view_windows (view s)) = Some (in_receivedHighWaterOffset st, in_streamLimit st)"
    using found by (simp add: view_def window_def)
  have counters: "view_received (view s) = m_connectionReceivedBytes s" "view_limit (view s) = m_connectionAdvertisedLimit s"
    by (simp_all add: view_def)
  from receive_inv_map [OF inv] found finish_def [symmetric] show ?thesis
  proof (cases rule: check_view [where offset = offset and data = data and final = final])
    case ignored
    then show ?thesis using inv by auto
  next
    case takes
    have "receive_inv (taken @ [(k, unat finish)]) released base baseLimit
        ((view s)\<lparr>view_windows := map_put k (if in_receivedHighWaterOffset st < finish then finish
          else in_receivedHighWaterOffset st, in_streamLimit st) (view_windows (view s)),
          view_received := (if in_receivedHighWaterOffset st < finish
            then view_received (view s) + (finish - in_receivedHighWaterOffset st) else view_received (view s))\<rparr>)"
      by (rule receive_inv_takes [OF inv windows bounds(1,2)]) (use bounds(3) finish takes(4,5) counters in auto)
    then show ?thesis using takes(1,2,3) unfolding takes(6) finish counters by simp
  qed
qed

lemma frame_inv:
  assumes inv: "receive_inv taken released base baseLimit (view s)"
    and bounds: "released < 2 ^ 62" "unat (view_initial (view s)) < 2 ^ 62" "unat offset + length data < 2 ^ 62"
  shows "receive_inv (taken @ takenBytes (StreamArrives k offset data final) s) released base baseLimit
    (view (snd (onStreamFrame k offset data final s)))"
proof (cases "map_find k (m_incoming s)")
  case (Some st)
  then show ?thesis using check_inv [OF inv Some bounds, of final] by (simp add: onStreamFrame_def ignoresFrame_def)
next
  case None
  define t where "t = createIncomingStream k s"
  show ?thesis
  proof (cases "sideRetired s True k \<or> isLocallyInitiated s k \<and> isUnidirectional k \<or>
      isLocallyInitiated s k \<and> map_find k (m_outgoing s) = None \<and> \<not> isLocalBidiStreamSideRetired s k False \<or>
      \<not> isLocallyInitiated s k \<and> streamIndexOfType k \<ge> advertisedStreamsFor s k")
    case True
    then show ?thesis
      using inv None by (auto simp: onStreamFrame_def ignoresFrame_def sideRetired_def)
  next
    case False
    obtain st where st: "map_find k (m_incoming t) = Some st" "\<not> in_isReset st" "\<not> in_isFinished st"
      unfolding t_def create_view(2) [OF None] by (simp add: freshIncoming_def)
    have frame: "onStreamFrame k offset data final s = checkStreamFrame k offset data final st t"
      using False None st by (auto simp: onStreamFrame_def sideRetired_def simp flip: t_def)
    have "map_find k (view_windows (view s)) = None" "\<not> view_retired (view s) k"
      using None False by (simp_all add: view_def)
    from receive_inv_opens [OF inv this] have "receive_inv taken released base baseLimit (view t)"
      by (simp add: t_def create_view(1) [OF None])
    moreover have "view_initial (view t) = view_initial (view s)"
      by (simp add: t_def create_view(1) [OF None])
    ultimately show ?thesis
      using check_inv [OF _ st(1), of taken released base baseLimit offset data final] bounds st(2,3) None False
      by (simp add: frame ignoresFrame_def)
  qed
qed

lemma unat_add_le: "unat (a + b :: u64) \<le> unat a + unat b"
  by (simp add: unat_word_ariths)

lemma raised_bound:
  assumes "raiseWindowAfterConsumption consumed initial (limit, pending) = (limit', pending')"
    "unat consumed \<le> released" "unat limit \<le> unat initial + released"
  shows "unat limit' \<le> unat initial + released"
  using assms unat_add_le [of consumed initial]
  by (auto simp: raiseWindowAfterConsumption_def Let_def split: if_splits)

lemma release_inv:
  assumes inv: "receive_inv taken released base baseLimit (view s)" and bound: "released + n < 2 ^ 62"
  shows "receive_inv taken (released + n) base baseLimit (view (releaseReceiveWindow k n s))"
proof (cases "n = 0 \<or> map_find k (m_incoming s) = None")
  case True
  then have "releaseReceiveWindow k n s = s" by (auto simp: releaseReceiveWindow_def split: option.splits)
  then show ?thesis using inv by (auto simp: receive_inv_def)
next
  case False
  then obtain st where found: "map_find k (m_incoming s) = Some st" and n: "n \<noteq> 0" by blast
  define st1 where "st1 = st\<lparr>in_consumedByteCount := in_consumedByteCount st + of_nat n\<rparr>"
  define t where "t = s\<lparr>m_connectionConsumedBytes := m_connectionConsumedBytes s + of_nat n\<rparr>"
  obtain limit pending where stream_raised: "raiseWindowAfterConsumption (in_consumedByteCount st1)
      (incomingInitialWindowOf t k) (in_streamLimit st1, in_windowUpdatePending st1) = (limit, pending)"
    by (cases "raiseWindowAfterConsumption (in_consumedByteCount st1)
      (incomingInitialWindowOf t k) (in_streamLimit st1, in_windowUpdatePending st1)")
  obtain climit cpending where connection_raised: "raiseWindowAfterConsumption (m_connectionConsumedBytes t)
      (initialMaximumData (m_localParameters t)) (m_connectionAdvertisedLimit t, m_connectionWindowUpdatePending t)
      = (climit, cpending)"
    by (cases "raiseWindowAfterConsumption (m_connectionConsumedBytes t)
      (initialMaximumData (m_localParameters t)) (m_connectionAdvertisedLimit t, m_connectionWindowUpdatePending t)")
  have view_fields: "view_consumed (view s) = m_connectionConsumedBytes s" "view_limit (view s) = m_connectionAdvertisedLimit s"
      "view_initial (view s) = initialMaximumData (m_localParameters s)"
      "map_find k (view_windows (view s)) = Some (in_receivedHighWaterOffset st, in_streamLimit st)"
    using found by (simp_all add: view_def window_def)
  have counters: "unat (m_connectionConsumedBytes s) \<le> released"
      "unat (m_connectionAdvertisedLimit s) \<le> unat (initialMaximumData (m_localParameters s)) + released"
    using inv view_fields by (simp_all add: receive_inv_def)
  then have consumed: "unat (m_connectionConsumedBytes t) \<le> released + n"
    using bound unat_add_le [of "m_connectionConsumedBytes s" "of_nat n"] by (simp add: t_def unat_of_nat)
  have "in_streamLimit st \<le> limit" "m_connectionAdvertisedLimit s \<le> climit"
    using raiseWindow_raises [OF stream_raised] raiseWindow_raises [OF connection_raised]
    by (simp_all add: st1_def t_def)
  moreover have "unat climit \<le> unat (initialMaximumData (m_localParameters s)) + (released + n)"
    using raised_bound [OF connection_raised consumed] counters by (simp add: t_def)
  ultimately have "receive_inv taken (released + n) base baseLimit ((view s)\<lparr>view_windows :=
      map_put k (in_receivedHighWaterOffset st, limit) (view_windows (view s)), view_limit := climit,
      view_consumed := m_connectionConsumedBytes t\<rparr>)"
    using consumed by (intro receive_inv_releases [OF inv view_fields(4)]) (simp_all add: view_fields)
  moreover have "releaseReceiveWindow k n s = raiseAdvertisedStreamLimits
      ((storeIncoming k (st1\<lparr>in_streamLimit := limit, in_windowUpdatePending := pending\<rparr>) t)
        \<lparr>m_connectionAdvertisedLimit := climit, m_connectionWindowUpdatePending := cpending\<rparr>)"
    using found n stream_raised connection_raised by (simp add: releaseReceiveWindow_def Let_def st1_def t_def)
  moreover have "view (raiseAdvertisedStreamLimits
      ((storeIncoming k (st1\<lparr>in_streamLimit := limit, in_windowUpdatePending := pending\<rparr>) t)
        \<lparr>m_connectionAdvertisedLimit := climit, m_connectionWindowUpdatePending := cpending\<rparr>)) =
      view ((storeIncoming k (st1\<lparr>in_streamLimit := limit, in_windowUpdatePending := pending\<rparr>) t)
        \<lparr>m_connectionAdvertisedLimit := climit, m_connectionWindowUpdatePending := cpending\<rparr>)"
    by (rule view_same) (simp_all add: accounts_simps receive_side_simps)
  moreover have "sideRetired (s\<lparr>m_connectionConsumedBytes := c, m_incoming := i, m_connectionAdvertisedLimit := l,
      m_connectionWindowUpdatePending := p\<rparr>) True = sideRetired s True" for c i l p
    by (simp add: sideRetired_def isPeerStreamSideRetired_def isLocalBidiStreamSideRetired_def isLocallyInitiated_def fun_eq_iff Let_def)
  ultimately show ?thesis
    by (simp add: view_def storeIncoming_def t_def st1_def window_def)
qed

section \<open>Retirement\<close>

definition viewAt :: "QuicStreamLayer \<Rightarrow> (u64, IncomingStream) std_map \<Rightarrow> receive_view" where
  "viewAt s m = (view s)\<lparr>view_windows := windows m\<rparr>"

lemma viewAt_put: "view (s\<lparr>m_incoming := m\<rparr>) = viewAt s m"
proof -
  have "accounts (s\<lparr>m_incoming := m\<rparr>) = accounts s" by (rule fields_accounts)
  from view_put [OF this] show ?thesis by (simp add: viewAt_def) (simp add: view_def)
qed

lemma viewAt_self: "viewAt s (m_incoming s) = view s"
  by (simp add: viewAt_def view_def)

lemma windows_erase: "windows (map_erase k m) = map_erase k (windows m)"
  by (induction m) (auto simp: windows_def map_erase_def)

lemma noted_view:
  "viewAt (noted k True s) m = (viewAt s m)\<lparr>view_retired := sideRetired (noted k True s) True,
    view_gaps := set (m_retiredLocalBidiGaps (noted k True s) 0)\<rparr>"
  by (simp add: viewAt_def view_def)
    (simp add: noted_def noteStreamRetired_def noteLocalBidiStreamRetired_def Let_def split: prod.splits)

lemma retireIncoming_inv:
  assumes "retireIncoming entries s = (kept, s')" "map_inv (done @ entries)"
    "receive_inv taken released base baseLimit (viewAt s (done @ entries))"
  shows "receive_inv taken released base baseLimit (viewAt s' (done @ kept))"
  using assms
proof (induction entries arbitrary: s kept "done")
  case (Cons entry entries)
  obtain k st where entry: "entry = (k, st)" by (cases entry)
  have inv: "map_inv (done @ (k, st) # entries)" using Cons.prems(2) by (simp add: entry)
  from Cons.prems(1) [unfolded entry] show ?case
  proof (cases rule: retireIncoming_step)
    case (stays rest)
    then show ?thesis using Cons.IH [OF stays(2), of "done @ [(k, st)]"] Cons.prems by (simp add: entry)
  next
    case goes
    let ?t = "noted k True s"
    have small: "gap < 2 ^ 62" if "gap \<in> set (m_retiredLocalBidiGaps s 0)" for gap
      using Cons.prems(3) that by (simp add: receive_inv_def viewAt_def view_def)
    have facts: "sideRetired s True j \<Longrightarrow> sideRetired ?t True j" "sideRetired ?t True k"
        "set (m_retiredLocalBidiGaps ?t 0) \<subseteq> insert (streamIndexOfType k) (set (m_retiredLocalBidiGaps s 0))" for j
      using noted_side_retired [of s True k] small goes(3) by (simp_all add: sideSlot_def)
    have "gap < 2 ^ 62" if "gap \<in> set (m_retiredLocalBidiGaps ?t 0)" for gap
      using subsetD [OF facts(3) that] small index_small [of k] by blast
    then have "receive_inv taken released base baseLimit ((viewAt s (done @ (k, st) # entries))\<lparr>view_windows :=
        map_erase k (view_windows (viewAt s (done @ (k, st) # entries))),
        view_retired := sideRetired ?t True, view_gaps := set (m_retiredLocalBidiGaps ?t 0)\<rparr>)"
      using Cons.prems(3) facts(1,2) by (intro receive_inv_retires) (simp_all add: entry viewAt_def view_def)
    also have "(viewAt s (done @ (k, st) # entries))\<lparr>view_windows :=
        map_erase k (view_windows (viewAt s (done @ (k, st) # entries))),
        view_retired := sideRetired ?t True, view_gaps := set (m_retiredLocalBidiGaps ?t 0)\<rparr> = viewAt ?t (done @ entries)"
      unfolding noted_view by (simp add: viewAt_def erase_middle [OF inv] flip: windows_erase)
    finally show ?thesis using Cons.IH [of ?t kept "done"] goes(2) inv by (simp add: noted_def)
  qed
qed simp

lemma retireOutgoing_accounts: "retireOutgoing entries s = (kept, s') \<Longrightarrow> accounts s' = accounts s"
proof (induction entries arbitrary: s kept)
  case (Cons entry entries)
  have "accounts (noted k False s) = accounts s" for k
    by (simp add: noted_def noteStreamRetired_def noteLocalBidiStreamRetired_def accounts_def Let_def split: prod.splits)
  moreover obtain k st where entry: "entry = (k, st)" by (cases entry)
  note same = calculation
  from Cons.prems [unfolded entry] show ?case
    by (cases rule: retireOutgoing_step) (use Cons.IH same in \<open>auto simp flip: noted_def\<close>)
qed simp

lemma retire_inv:
  assumes "receive_inv taken released base baseLimit (view s)"
  shows "receive_inv taken released base baseLimit (view (retireSettledStreams s))"
proof -
  obtain incoming t outgoing u where steps: "retireIncoming (m_incoming s) s = (incoming, t)"
    "retireOutgoing (m_outgoing t) (t\<lparr>m_incoming := incoming\<rparr>) = (outgoing, u)"
    "retireSettledStreams s = u\<lparr>m_outgoing := outgoing\<rparr>"
    by (rule retire_split)
  have "receive_inv taken released base baseLimit (view (t\<lparr>m_incoming := incoming\<rparr>))"
    using retireIncoming_inv [OF steps(1), of "[]"] assms receive_inv_map [OF assms]
    by (simp add: viewAt_put viewAt_self)
  moreover have "view (u\<lparr>m_outgoing := outgoing\<rparr>) = view (t\<lparr>m_incoming := incoming\<rparr>)"
    using retireOutgoing_accounts [OF steps(2)] retireOutgoing_keeps [OF steps(2)]
    by (intro view_same) (simp_all add: accounts_simps put_outgoing_receive)
  ultimately show ?thesis by (simp add: steps(3))
qed

lemma collect_inv:
  assumes "collectFrames frames budget ranges announced s = Inr (anything, frames', ranges', announced', s')"
    "receive_inv taken released base baseLimit (view s)"
  shows "receive_inv taken released base baseLimit (view s')"
proof -
  obtain f1 n1 a1 s1 f2 n2 s2 acc where steps:
    "collectAbortAnnouncements frames budget announced (retireSettledStreams s) = Inr (f1, n1, a1, s1)"
    "collectWindowUpdates f1 (budget - n1) s1 = Inr (f2, n2, s2)"
    "collectStreamData f2 (budget - n1 - n2) ranges s2 = Inr (acc, s')"
    using assms(1) unfolding collectFrames_def unfold_binds by blast
  have "view s' = view s2"
    by (rule view_same [OF collectStreamData_accounts [OF steps(3)] collectStreamData_receive [OF steps(3)]])
  then show ?thesis
    using retire_inv [OF assms(2)] abort_announcements_view [OF steps(1)] window_updates_view [OF steps(2)] by simp
qed

section \<open>Every run\<close>

lemma quiet_view: "accounts t = accounts s \<Longrightarrow> receive_side t = receive_side s \<Longrightarrow>
    receive_inv taken released base baseLimit (view s) \<Longrightarrow> receive_inv taken released base baseLimit (view t)"
  using view_same by metis

lemma step_inv:
  assumes "layerStep e s = Inr (s', ranges)" "receive_inv taken released base baseLimit (view s)"
    "arrives_in_range e" "released + releasedBytes [e] < 2 ^ 62"
  shows "receive_inv (taken @ takenBytes e s) (released + releasedBytes [e]) base baseLimit (view s')"
proof (cases e)
  case (StreamArrives k offset data final)
  have "unat (view_initial (view s)) < 2 ^ 62" using assms(2) by (simp add: receive_inv_def)
  from frame_inv [OF assms(2) _ this, of offset data k final] show ?thesis
    using assms(1,3,4) unfolding StreamArrives by simp
next
  case (ReleaseWindow k n)
  then have "s' = releaseReceiveWindow k n s" "releasedBytes [e] = n" "takenBytes e s = []" using assms(1) by auto
  then show ?thesis using assms(4) release_inv [OF assms(2)] by simp
next
  case (CollectFrames budget)
  then show ?thesis using assms by (auto elim!: bindR_InrE dest: collect_inv)
next
  case (ResetArrives k e' n)
  then show ?thesis using assms reset_view [OF receive_inv_map [OF assms(2)]] by auto
next
  case (StopReceiving k e')
  then show ?thesis using assms stop_view [OF receive_inv_map [OF assms(2)]] by auto
next
  case (AnnouncementsAcknowledged as)
  then show ?thesis
    using assms announcements_view [OF receive_inv_map [OF assms(2)]] by (auto simp: onStreamAnnouncementsAcknowledged_def)
next
  case (AnnouncementsLost as)
  then show ?thesis
    using assms announcements_view [OF receive_inv_map [OF assms(2)]] by (auto simp: onStreamAnnouncementsLost_def)
qed (use assms(1,2) in \<open>auto simp: accounts_simps receive_side_simps elim!: quiet_view [rotated 2]\<close>)

lemma trace_inv:
  assumes "receiveTrace es s = Inr (s', later)" "receive_inv taken released base baseLimit (view s)"
    "\<forall>e \<in> set es. arrives_in_range e" "released + releasedBytes es < 2 ^ 62"
  shows "receive_inv (taken @ later) (released + releasedBytes es) base baseLimit (view s')"
  using assms
proof (induction es arbitrary: s taken later released)
  case (Cons e es)
  obtain t ranges rest where step: "layerStep e s = Inr (t, ranges)" "receiveTrace es t = Inr (s', rest)"
      and later: "later = takenBytes e s @ rest"
    using Cons.prems(1) by (auto elim!: bindR_InrE)
  have bound: "released + releasedBytes [e] + releasedBytes es < 2 ^ 62"
    using Cons.prems(4) releasedBytes_Cons [of e es] by simp
  have "receive_inv (taken @ takenBytes e s) (released + releasedBytes [e]) base baseLimit (view t)"
    using Cons.prems(2,3) bound by (intro step_inv [OF step(1)]) auto
  from Cons.IH [OF step(2) this] show ?case
    using Cons.prems(3) bound later by (simp add: add.assoc releasedBytes_Cons [of e es])
qed simp

lemma new_receive_inv:
  assumes "unat (initialMaximumData p) < 2 ^ 62"
  shows "receive_inv [] 0 (\<lambda>_. 0) 0 (view (newStreamLayer p server))"
  using assms by (simp add: receive_inv_def view_def newStreamLayer_def windows_def map_find_def totalTaken_def)

text \<open>The credit granted so far: of the connection, and of every stream.\<close>

definition grantedCredit :: "QuicStreamLayer \<Rightarrow> u64 \<Rightarrow> u64" where
  "grantedCredit s k = (case map_find k (m_incoming s) of Some stream \<Rightarrow> in_streamLimit stream | None \<Rightarrow> 0)"

lemma receive_inv_granted:
  assumes "receive_inv taken released base baseLimit (view s)"
  shows "receive_inv taken released (grantedCredit s) (m_connectionAdvertisedLimit s) (view s)"
proof -
  have "grantedCredit s k = 0" if "map_find k (view_windows (view s)) = None" for k
    using that by (simp add: grantedCredit_def view_def)
  moreover have "grantedCredit s k = limit" if "map_find k (view_windows (view s)) = Some (high, limit)" for k high limit
    using that by (auto simp: grantedCredit_def view_def window_def)
  moreover have "m_connectionAdvertisedLimit s = view_limit (view s)" by (simp add: view_def)
  ultimately show ?thesis using assms unfolding receive_inv_def by auto
qed

text \<open>A frame for a tracked stream is refused for flow control exactly when it would exceed a credit.\<close>

lemma flow_control_exact:
  assumes inv: "receive_inv taken released base baseLimit (view s)" and bound: "released < 2 ^ 62"
    and found: "map_find k (m_incoming s) = Some st" "\<not> in_isReset st" and range: "unat offset + length data < 2 ^ 62"
  shows "fst (onStreamFrame k offset data final s) = Some kFlowControlError \<longleftrightarrow>
    unat (in_streamLimit st) < unat offset + length data \<or>
    unat (m_connectionAdvertisedLimit s) < totalTaken (taken @ [(k, unat offset + length data)])"
proof -
  define finish where "finish = offset + of_nat (length data)"
  have len: "unat (of_nat (length data) :: u64) = length data" using range by (simp add: unat_of_nat)
  have finish: "unat finish = unat offset + length data"
    using range by (simp add: finish_def unat_word_ariths len)
  have windows: "map_find k (view_windows (view s)) = Some (in_receivedHighWaterOffset st, in_streamLimit st)"
    using found by (simp add: view_def window_def)
  note high = receive_inv_window [OF inv windows]
  have received: "totalTaken taken = unat (m_connectionReceivedBytes s)"
      "m_connectionReceivedBytes s \<le> m_connectionAdvertisedLimit s" "unat (m_connectionReceivedBytes s) < 2 ^ 63"
    using inv bound by (auto simp: receive_inv_def view_def word_le_nat_alt)
  have grown: "in_receivedHighWaterOffset st < finish \<Longrightarrow>
      unat (m_connectionReceivedBytes s + (finish - in_receivedHighWaterOffset st))
        = unat (m_connectionReceivedBytes s) + (unat finish - unat (in_receivedHighWaterOffset st))"
    using received(3) range finish by (simp add: unat_word_ariths unat_sub order.strict_implies_order)
  have total: "unat (m_connectionAdvertisedLimit s) < totalTaken (taken @ [(k, unat finish)]) \<longleftrightarrow>
      in_receivedHighWaterOffset st < finish \<and> m_connectionAdvertisedLimit s <
        m_connectionReceivedBytes s + (finish - in_receivedHighWaterOffset st)"
    using grown received(1,2) high(1) by (auto simp: totalTaken_snoc word_less_nat_alt word_le_nat_alt max_def)
  have "fst (onStreamFrame k offset data final s) = Some kFlowControlError \<longleftrightarrow> in_streamLimit st < finish \<or>
      in_receivedHighWaterOffset st < finish \<and> m_connectionAdvertisedLimit s <
        m_connectionReceivedBytes s + (finish - in_receivedHighWaterOffset st)"
    using found by (simp add: onStreamFrame_def checkStreamFrame_def Let_def kFlowControlError_def kFinalSizeError_def
        flip: finish_def)
  then show ?thesis using total finish by (simp add: word_less_nat_alt)
qed

text \<open>C34: For every sequence of calls: the bytes of the STREAM frames the layer took, which are the
  highest end of each stream added over all streams, are exactly what the connection counts, and
  stay within the connection's credit; of every stream that is tracked, the highest end taken is
  exactly what the stream counts and within the stream's credit; neither credit is ever taken back; and
  the next frame for such a stream, unless it was reset, is refused for flow control exactly when
  its end exceeds the stream's credit or the bytes taken with it exceed the connection's. A frame is taken when it is answered without an error and its stream has not been reset,
  finished or retired before. The frames end below \<open>2 ^ 62\<close>, as their decoder makes sure, the
  configured connection credit is below \<open>2 ^ 62\<close>, as it is sent as a variable-length integer, and
  the application releases fewer than \<open>2 ^ 62\<close> bytes.\<close>

theorem receive_credit_respected:
  assumes "receiveTrace before (newStreamLayer localParameters server) = Inr (s, taken)"
    and "receiveTrace after s = Inr (s', later)"
    and "\<forall>e \<in> set (before @ after). arrives_in_range e"
    and "releasedBytes before + releasedBytes after < 2 ^ 62"
    and "unat (initialMaximumData localParameters) < 2 ^ 62"
  shows "totalTaken (taken @ later) = unat (m_connectionReceivedBytes s') \<and>
    totalTaken (taken @ later) \<le> unat (m_connectionAdvertisedLimit s') \<and>
    (\<forall>(k, stream) \<in> set (m_incoming s').
       highestTaken k (taken @ later) = unat (in_receivedHighWaterOffset stream) \<and>
       highestTaken k (taken @ later) \<le> unat (in_streamLimit stream) \<and>
       grantedCredit s k \<le> in_streamLimit stream \<and>
       (\<forall>offset data final. \<not> in_isReset stream \<longrightarrow> unat offset + length data < 2 ^ 62 \<longrightarrow>
          (fst (onStreamFrame k offset data final s') = Some kFlowControlError \<longleftrightarrow>
           unat (in_streamLimit stream) < unat offset + length data \<or>
           unat (m_connectionAdvertisedLimit s') <
             totalTaken (taken @ later @ [(k, unat offset + length data)])))) \<and>
    m_connectionAdvertisedLimit s \<le> m_connectionAdvertisedLimit s'"
proof -
  have "receive_inv taken (releasedBytes before) (\<lambda>_. 0) 0 (view s)"
    using trace_inv [OF assms(1) new_receive_inv [OF assms(5)]] assms(3,4) by simp
  from trace_inv [OF assms(2) receive_inv_granted [OF this]]
  have inv: "receive_inv (taken @ later) (releasedBytes before + releasedBytes after) (grantedCredit s)
      (m_connectionAdvertisedLimit s) (view s')"
    using assms(3,4) by simp
  have "highestTaken k (taken @ later) = unat (in_receivedHighWaterOffset stream) \<and>
      in_receivedHighWaterOffset stream \<le> in_streamLimit stream \<and> grantedCredit s k \<le> in_streamLimit stream \<and>
      (\<forall>offset data final. \<not> in_isReset stream \<longrightarrow> unat offset + length data < 2 ^ 62 \<longrightarrow>
          (fst (onStreamFrame k offset data final s') = Some kFlowControlError \<longleftrightarrow>
           unat (in_streamLimit stream) < unat offset + length data \<or>
           unat (m_connectionAdvertisedLimit s') <
             totalTaken (taken @ later @ [(k, unat offset + length data)])))"
    if "(k, stream) \<in> set (m_incoming s')" for k stream
  proof -
    have found: "map_find k (m_incoming s') = Some stream"
      using that receive_inv_map [OF inv] by (simp add: std.lookup_entry)
    then have "map_find k (view_windows (view s')) = Some (in_receivedHighWaterOffset stream, in_streamLimit stream)"
      by (simp add: view_def window_def)
    note receive_inv_window [OF inv this]
    then show ?thesis using flow_control_exact [OF inv assms(4) found] by simp
  qed
  moreover have "totalTaken (taken @ later) = unat (m_connectionReceivedBytes s')"
      "m_connectionReceivedBytes s' \<le> m_connectionAdvertisedLimit s'" "m_connectionAdvertisedLimit s \<le> m_connectionAdvertisedLimit s'"
    using inv by (simp_all add: receive_inv_def view_def)
  ultimately show ?thesis by (auto simp: word_le_nat_alt simp del: highestTaken_append)
qed

definition exampleBefore :: "stream_event list" where
  "exampleBefore = [StreamArrives 4 2 [3, 4] False, StreamArrives 4 0 [1, 2, 3] False]"

definition exampleAfter :: "stream_event list" where
  "exampleAfter = [ReleaseWindow 4 4, StreamArrives 0 0 [7] True, StreamArrives 4 8 [9] False,
     StreamArrives 4 9 [9] False]"

lemma trace_known:
  assumes "(case receiveTrace es s of Inl e \<Rightarrow> None | Inr (t, taken) \<Rightarrow> Some taken) = Some taken"
  obtains t where "receiveTrace es s = Inr (t, taken)"
  using assms by (auto split: sum.splits)

theorem receive_credit_respected_witness:
  "\<exists>s s'. receiveTrace exampleBefore exampleLayer = Inr (s, [(4, 4), (4, 3)]) \<and>
     receiveTrace exampleAfter s = Inr (s', [(0, 1), (4, 9)]) \<and>
     10 \<le> unat (m_connectionAdvertisedLimit s') \<and> grantedCredit s 4 \<le> grantedCredit s' 4"
proof -
  have "(case receiveTrace exampleBefore exampleLayer of Inl e \<Rightarrow> None | Inr (t, taken) \<Rightarrow> Some taken) = Some [(4, 4), (4, 3)]"
    by code_simp
  then obtain s where s: "receiveTrace exampleBefore exampleLayer = Inr (s, [(4, 4), (4, 3)])"
    by (rule trace_known)
  have "(case receiveTrace exampleBefore exampleLayer of Inl e \<Rightarrow> None | Inr (t, taken) \<Rightarrow>
      (case receiveTrace exampleAfter t of Inl e \<Rightarrow> None | Inr (u, later) \<Rightarrow>
        Some (later, map_find 4 (m_incoming u) = None))) = Some ([(0, 1), (4, 9)], False)"
    by code_simp
  then obtain s' where s': "receiveTrace exampleAfter s = Inr (s', [(0, 1), (4, 9)])" "map_find 4 (m_incoming s') \<noteq> None"
    by (auto simp: s split: sum.splits)
  then obtain stream where stream: "map_find 4 (m_incoming s') = Some stream" by blast
  then have entry: "(4, stream) \<in> set (m_incoming s')" by (auto simp: map_find_def dest: map_of_SomeD)
  have "totalTaken ([(4, 4), (4, 3)] @ [(0, 1), (4, 9)]) \<le> unat (m_connectionAdvertisedLimit s') \<and>
      (\<forall>(k, stream) \<in> set (m_incoming s'). grantedCredit s k \<le> in_streamLimit stream)"
    using receive_credit_respected [OF s [unfolded exampleLayer_def] s'(1)]
    by (auto simp: exampleBefore_def exampleAfter_def exampleParameters_def defaultTransportParameters_def)
  moreover have "totalTaken ([(4, 4), (4, 3)] @ [(0, 1), (4, 9)]) = 10" by code_simp
  ultimately have "10 \<le> unat (m_connectionAdvertisedLimit s')" "grantedCredit s 4 \<le> in_streamLimit stream"
    using entry by auto
  then show ?thesis using s s' stream by (auto simp: grantedCredit_def)
qed
end
