(* ===== verification/QuicStreamCredit.thy ===== *)
theory QuicStreamCredit
  imports QuicStreamSender
begin

text \<open>
  The credit of the peer is never exceeded: for every sequence of calls, no range leaves the
  layer beyond what the peer has granted the stream, and the highest offsets of all streams
  together stay within what the peer has granted the connection. The proof is an invariant of the
  sender machine; it needs nothing of the acknowledgements and losses reported.
\<close>

section \<open>Credit as the peer sees it\<close>

fun streamCredit :: "bool \<Rightarrow> u64 \<Rightarrow> stream_event list \<Rightarrow> u64" where
  "streamCredit server k [] = 0"
| "streamCredit server k (AdoptParameters p # es) = max (peerWindow server p k) (streamCredit server k es)"
| "streamCredit server k (MaxStreamDataArrives i m # es) =
     (if i = k then max m (streamCredit server k es) else streamCredit server k es)"
| "streamCredit server k (_ # es) = streamCredit server k es"

fun connectionCredit :: "stream_event list \<Rightarrow> u64" where
  "connectionCredit [] = 0"
| "connectionCredit (AdoptParameters p # es) = max (initialMaximumData p) (connectionCredit es)"
| "connectionCredit (MaxDataArrives m # es) = max m (connectionCredit es)"
| "connectionCredit (_ # es) = connectionCredit es"

fun highestOffset :: "u64 \<Rightarrow> QuicStreamRange list \<Rightarrow> nat" where
  "highestOffset k [] = 0"
| "highestOffset k (r # rs) =
     (if range_streamId r = k then max (unat (range_endOffset r)) (highestOffset k rs) else highestOffset k rs)"

fun offeredBytes :: "stream_event list \<Rightarrow> nat" where
  "offeredBytes [] = 0"
| "offeredBytes (WriteData i data final # es) = length data + offeredBytes es"
| "offeredBytes (_ # es) = offeredBytes es"

fun adoptions :: "stream_event list \<Rightarrow> nat" where
  "adoptions [] = 0"
| "adoptions (AdoptParameters p # es) = Suc (adoptions es)"
| "adoptions (_ # es) = adoptions es"

text \<open>A run of the layer with all the ranges it sent.\<close>

fun layerTrace :: "stream_event list \<Rightarrow> QuicStreamLayer \<Rightarrow> thrown + QuicStreamLayer \<times> QuicStreamRange list" where
  "layerTrace [] s = Inr (s, [])"
| "layerTrace (e # es) s =
     bindR (layerStep e s) (\<lambda>(s, rs). bindR (layerTrace es s) (\<lambda>(s, later). Inr (s, rs @ later)))"

section \<open>The same of the labels of a run\<close>

fun highest :: "send_label list \<Rightarrow> u64 \<Rightarrow> nat" where
  "highest [] k = 0"
| "highest (Sent r # ls) k =
     (if range_streamId r = k then max (unat (range_endOffset r)) (highest ls k) else highest ls k)"
| "highest (_ # ls) k = highest ls k"

fun streamGrant :: "send_label list \<Rightarrow> u64 \<Rightarrow> u64" where
  "streamGrant [] k = 0"
| "streamGrant (Adopted window limit # ls) k = max (window k) (streamGrant ls k)"
| "streamGrant (Raised i m # ls) k = (if i = k then max m (streamGrant ls k) else streamGrant ls k)"
| "streamGrant (_ # ls) k = streamGrant ls k"

fun connectionGrant :: "send_label list \<Rightarrow> u64" where
  "connectionGrant [] = 0"
| "connectionGrant (Adopted window limit # ls) = max limit (connectionGrant ls)"
| "connectionGrant (Granted m # ls) = max m (connectionGrant ls)"
| "connectionGrant (_ # ls) = connectionGrant ls"

fun writtenTotal :: "send_label list \<Rightarrow> nat" where
  "writtenTotal [] = 0"
| "writtenTotal (Wrote k data final # ls) = length data + writtenTotal ls"
| "writtenTotal (_ # ls) = writtenTotal ls"

fun adoptedCount :: "send_label list \<Rightarrow> nat" where
  "adoptedCount [] = 0"
| "adoptedCount (Adopted window limit # ls) = Suc (adoptedCount ls)"
| "adoptedCount (_ # ls) = adoptedCount ls"

lemma labels_append [simp]:
  "highest (ls @ ks) k = max (highest ls k) (highest ks k)"
  "streamGrant (ls @ ks) k = max (streamGrant ls k) (streamGrant ks k)"
  "connectionGrant (ls @ ks) = max (connectionGrant ls) (connectionGrant ks)"
  "writtenTotal (ls @ ks) = writtenTotal ls + writtenTotal ks"
  "adoptedCount (ls @ ks) = adoptedCount ls + adoptedCount ks"
proof -
  show "highest (ls @ ks) k = max (highest ls k) (highest ks k)"
    by (induction ls k rule: highest.induct) (simp_all add: max.assoc)
  show "streamGrant (ls @ ks) k = max (streamGrant ls k) (streamGrant ks k)"
    by (induction ls k rule: streamGrant.induct) (simp_all add: max.assoc)
  show "connectionGrant (ls @ ks) = max (connectionGrant ls) (connectionGrant ks)"
    by (induction ls rule: connectionGrant.induct) (simp_all add: max.assoc)
  show "writtenTotal (ls @ ks) = writtenTotal ls + writtenTotal ks"
    by (induction ls rule: writtenTotal.induct) simp_all
  show "adoptedCount (ls @ ks) = adoptedCount ls + adoptedCount ks"
    by (induction ls rule: adoptedCount.induct) simp_all
qed

lemma sent_labels [simp]:
  "highest (map Sent rs) k = highestOffset k rs" "streamGrant (map Sent rs) k = 0"
  "connectionGrant (map Sent rs) = 0" "writtenTotal (map Sent rs) = 0" "adoptedCount (map Sent rs) = 0"
  by (induction rs) simp_all

lemma ended_labels:
  assumes "set ls \<subseteq> {Ended i}"
  shows "highest ls k = 0" "streamGrant ls k = 0" "connectionGrant ls = 0" "writtenTotal ls = 0" "adoptedCount ls = 0"
proof -
  have "highest ls k = 0 \<and> streamGrant ls k = 0 \<and> connectionGrant ls = 0 \<and> writtenTotal ls = 0 \<and> adoptedCount ls = 0"
    using assms by (induction ls) auto
  then show "highest ls k = 0" "streamGrant ls k = 0" "connectionGrant ls = 0" "writtenTotal ls = 0" "adoptedCount ls = 0"
    by simp_all
qed

lemma highestOffset_append [simp]: "highestOffset k (rs @ ss) = max (highestOffset k rs) (highestOffset k ss)"
  by (induction rs) (simp_all add: max.assoc)

section \<open>The queue of a stream reaches from the highest offset sent to the last byte written\<close>

definition chunk_start :: "QuicStreamChunk \<Rightarrow> nat" where
  "chunk_start c = unat (chunk_beginOffset c)"

definition chunk_end :: "QuicStreamChunk \<Rightarrow> nat" where
  "chunk_end c = chunk_start c + length (chunk_bytes c)"

definition covers :: "nat \<Rightarrow> QuicStreamChunk \<Rightarrow> bool" where
  "covers i c \<longleftrightarrow> chunk_start c \<le> i \<and> i < chunk_end c"

fun chained :: "nat \<Rightarrow> QuicStreamChunk list \<Rightarrow> bool" where
  "chained h [] = True"
| "chained h (c # cs) \<longleftrightarrow> chunk_start c \<le> h \<and> chained (max h (chunk_end c)) cs"

fun reach :: "nat \<Rightarrow> QuicStreamChunk list \<Rightarrow> nat" where
  "reach h [] = h"
| "reach h (c # cs) = reach (max h (chunk_end c)) cs"

lemma chained_append [simp]:
  "chained h (cs @ ds) \<longleftrightarrow> chained h cs \<and> chained (reach h cs) ds" "reach h (cs @ ds) = reach (reach h cs) ds"
  by (induction cs arbitrary: h) auto

lemma chained_covers:
  "chained h cs \<Longrightarrow> h \<le> i \<Longrightarrow> i < reach h cs \<Longrightarrow> \<exists>c \<in> set cs. covers i c"
proof (induction cs arbitrary: h)
  case (Cons c cs)
  show ?case
  proof (cases "i < chunk_end c")
    case True
    then show ?thesis using Cons.prems by (auto simp: covers_def)
  next
    case False
    then show ?thesis using Cons.IH [of "max h (chunk_end c)"] Cons.prems by auto
  qed
qed simp

lemma sorted_chained:
  assumes "sorted (map chunk_start cs)" "\<And>i. h \<le> i \<Longrightarrow> i < m \<Longrightarrow> \<exists>c \<in> set cs. covers i c"
    "\<And>c. c \<in> set cs \<Longrightarrow> chunk_end c \<le> m" "h \<le> m"
  shows "chained h cs \<and> reach h cs = m"
  using assms
proof (induction cs arbitrary: h)
  case Nil
  then show ?case by (cases "h < m") (use Nil(2) [of h] in auto)
next
  case (Cons c cs)
  have "chunk_start c \<le> h"
  proof (cases "h < m")
    case True
    then obtain d where "d \<in> set (c # cs)" "covers h d" using Cons.prems(2) [of h] by blast
    then show ?thesis using Cons.prems(1) by (auto simp: covers_def)
  next
    case False
    then show ?thesis using Cons.prems(3) [of c] by (simp add: chunk_end_def)
  qed
  moreover have "chained (max h (chunk_end c)) cs \<and> reach (max h (chunk_end c)) cs = m"
  proof (rule Cons.IH)
    show "\<exists>d \<in> set cs. covers i d" if "max h (chunk_end c) \<le> i" "i < m" for i
      using Cons.prems(2) [of i] that by (auto simp: covers_def)
  qed (use Cons.prems in auto)
  ultimately show ?case by simp
qed

definition closed :: "OutgoingStream \<Rightarrow> bool" where
  "closed st \<longleftrightarrow> out_pendingQueue st = [] \<and>
     (out_isAborted st \<or> out_finalOffset st \<noteq> None \<and> out_inFlight st = [])"

definition stream_facts :: "nat \<Rightarrow> OutgoingStream \<Rightarrow> bool" where
  "stream_facts w st \<longleftrightarrow> unat (out_nextWriteOffset st) \<le> w \<and> out_sentHighWater st \<le> out_nextWriteOffset st \<and>
     out_sentHighWater st \<le> out_streamLimit st \<and>
     (\<forall>c \<in> snd ` set (out_inFlight st). chunk_end c \<le> unat (out_sentHighWater st)) \<and>
     (\<forall>c \<in> set (out_pendingQueue st). chunk_end c \<le> unat (out_nextWriteOffset st))"

definition stream_credit :: "nat \<Rightarrow> OutgoingStream \<Rightarrow> bool" where
  "stream_credit w st \<longleftrightarrow> stream_facts w st \<and> (closed st \<or>
     chained (unat (out_sentHighWater st)) (out_pendingQueue st) \<and>
     reach (unat (out_sentHighWater st)) (out_pendingQueue st) = unat (out_nextWriteOffset st))"

text \<open>The same before the queue has been sorted again.\<close>

definition loose_credit :: "nat \<Rightarrow> OutgoingStream \<Rightarrow> bool" where
  "loose_credit w st \<longleftrightarrow> stream_facts w st \<and> (closed st \<or>
     (\<forall>i. unat (out_sentHighWater st) \<le> i \<longrightarrow> i < unat (out_nextWriteOffset st) \<longrightarrow>
        (\<exists>c \<in> set (out_pendingQueue st). covers i c)))"

lemma resorted_fields [simp]:
  "out_sentHighWater (resorted st) = out_sentHighWater st" "out_streamLimit (resorted st) = out_streamLimit st"
  by (simp_all add: resorted_def)

lemma credit_loose: "stream_credit w st \<Longrightarrow> loose_credit w st"
  by (auto simp: stream_credit_def loose_credit_def dest: chained_covers)

lemma loose_sorted: "loose_credit w st \<Longrightarrow> stream_credit w (resorted st)"
proof -
  assume loose: "loose_credit w st"
  let ?q = "sort_key chunk_beginOffset (out_pendingQueue st)"
  have sorted: "sorted (map chunk_start ?q)"
  proof -
    have "sorted (map chunk_beginOffset ?q)" by simp
    then have "sorted_wrt (\<lambda>c d. chunk_beginOffset c \<le> chunk_beginOffset d) ?q" by (simp add: sorted_map)
    then show ?thesis by (simp add: sorted_map chunk_start_def word_le_nat_alt)
  qed
  have facts: "stream_facts w (resorted st)" using loose by (simp add: loose_credit_def stream_facts_def resorted_def)
  show ?thesis
  proof (cases "closed st")
    case True
    then show ?thesis using facts by (simp add: stream_credit_def closed_def resorted_def)
  next
    case False
    then have "chained (unat (out_sentHighWater st)) ?q \<and>
        reach (unat (out_sentHighWater st)) ?q = unat (out_nextWriteOffset st)"
      using loose sorted by (intro sorted_chained) (auto simp: loose_credit_def stream_facts_def word_le_nat_alt)
    then show ?thesis using facts by (simp add: stream_credit_def resorted_def)
  qed
qed

lemma stream_credit_mono: "stream_credit w st \<Longrightarrow> w \<le> w' \<Longrightarrow> stream_credit w' st"
  by (auto simp: stream_credit_def stream_facts_def)

lemma fresh_credit: "stream_credit w (freshOutgoing\<lparr>out_streamLimit := l\<rparr>)"
  by (simp add: stream_credit_def stream_facts_def freshOutgoing_def)

lemma limit_credit: "stream_credit w st \<Longrightarrow> out_sentHighWater st \<le> l \<Longrightarrow> stream_credit w (st\<lparr>out_streamLimit := l\<rparr>)"
  by (simp add: stream_credit_def stream_facts_def closed_def)

lemma announce_credit: "stream_credit w st \<Longrightarrow> stream_credit w (st\<lparr>out_sendAbort := a\<rparr>)"
  by (simp add: stream_credit_def stream_facts_def closed_def)

lemma ended_credit: "stream_credit w st \<Longrightarrow> ended st st' \<Longrightarrow> stream_credit w st'"
  by (auto simp: stream_credit_def stream_facts_def closed_def ended_def)

lemma unat_offset:
  assumes "unat b + n < 2 ^ 64"
  shows "unat (b + of_nat n :: u64) = unat b + n"
proof -
  have "unat (of_nat n :: u64) = n" using assms by (simp add: unat_of_nat)
  then show ?thesis using assms by (simp add: unat_word_ariths)
qed

lemma write_credit:
  assumes "stream_credit w st" "\<not> out_isAborted st" "out_finalOffset st = None" "w + length data < 2 ^ 62"
  shows "stream_credit (w + length data) (withChunk data final st)"
proof -
  have "unat (out_nextWriteOffset st) \<le> w" using assms(1) by (simp add: stream_credit_def stream_facts_def)
  then have grown: "unat (out_nextWriteOffset st + of_nat (length data)) = unat (out_nextWriteOffset st) + length data"
    using assms(4) by (intro unat_offset) simp
  have "\<not> closed st" using assms(2,3) by (simp add: closed_def)
  then show ?thesis
    using assms(1) unfolding stream_credit_def stream_facts_def withChunk_def
    by (auto simp: grown word_le_nat_alt chunk_end_def chunk_start_def)
qed

lemma ack_credit: "stream_credit w st \<Longrightarrow> stream_credit w (ackRange k r st)"
  by (auto simp: stream_credit_def stream_facts_def closed_def ackRange_def map_erase_def)

lemma acks_credit: "stream_credit w st \<Longrightarrow> stream_credit w (fold (ackRange k) rs st)"
  by (induction rs arbitrary: st) (auto intro: ack_credit)

lemma lose_credit: "loose_credit w st \<Longrightarrow> loose_credit w (loseRange k r st)"
proof (cases "range_streamId r = k \<and> map_find (range_beginOffset r) (out_inFlight st) \<noteq> None")
  case True
  assume loose: "loose_credit w st"
  obtain lost where lost: "map_find (range_beginOffset r) (out_inFlight st) = Some lost" using True by blast
  then have "lost \<in> snd ` set (out_inFlight st)" by (force simp: map_find_def dest: map_of_SomeD)
  then have "chunk_end (lost\<lparr>chunk_isFinal := range_isFinal r\<rparr>) \<le> unat (out_nextWriteOffset st)"
    using loose by (fastforce simp: loose_credit_def stream_facts_def word_le_nat_alt chunk_end_def chunk_start_def)
  then show ?thesis
    using loose lost True
    by (auto simp: loose_credit_def stream_facts_def loseRange_def closed_def map_erase_def map_find_def)
qed (auto simp: loseRange_def split: option.splits)

lemma loses_credit: "stream_credit w st \<Longrightarrow> stream_credit w (resorted (fold (loseRange k) rs st))"
proof -
  have "loose_credit w st \<Longrightarrow> loose_credit w (fold (loseRange k) rs st)"
    by (induction rs arbitrary: st) (auto intro: lose_credit)
  then show "stream_credit w st \<Longrightarrow> stream_credit w (resorted (fold (loseRange k) rs st))"
    using credit_loose loose_sorted by blast
qed

section \<open>Sending\<close>

lemma creditOf_bounds:
  "creditOf limit sent st \<le> out_streamLimit st - out_sentHighWater st \<or> creditOf limit sent st = 0"
  "sent \<le> limit \<Longrightarrow> unat sent + unat (creditOf limit sent st) \<le> unat limit"
  "out_sentHighWater st \<le> out_streamLimit st \<Longrightarrow>
    unat (out_sentHighWater st) + unat (creditOf limit sent st) \<le> unat (out_streamLimit st)"
proof -
  have room: "unat a + unat c \<le> unat b" if "a \<le> b" "c \<le> b - a" for a b c :: u64
    using that by (simp add: word_le_nat_alt unat_sub)
  show "creditOf limit sent st \<le> out_streamLimit st - out_sentHighWater st \<or> creditOf limit sent st = 0"
    by (simp add: creditOf_def Let_def)
  show "unat sent + unat (creditOf limit sent st) \<le> unat limit" if "sent \<le> limit"
    using that by (intro room) (auto simp: creditOf_def Let_def not_less)
  show "unat (out_sentHighWater st) + unat (creditOf limit sent st) \<le> unat (out_streamLimit st)"
    if "out_sentHighWater st \<le> out_streamLimit st"
    using that by (intro room) (auto simp: creditOf_def Let_def not_less)
qed

text \<open>What may be sent of a chunk that starts at or below the highest offset sent.\<close>

lemma sendable_bound:
  assumes "n \<le> sendableByteCountOf b len h credit" "b \<le> h" "unat h + unat credit < 2 ^ 64"
  shows "unat b + n \<le> unat h + unat credit"
proof -
  define resendable where "resendable = (if min (b + of_nat len) h > b then min (b + of_nat len) h - b else 0)"
  have "n \<le> unat (min (of_nat len) (resendable + credit))"
    using assms(1) by (simp add: sendableByteCountOf_def Let_def resendable_def)
  then have "n \<le> unat (resendable + credit)" by (simp add: min_def word_le_nat_alt split: if_splits)
  also have "\<dots> \<le> unat resendable + unat credit" by (simp add: unat_word_ariths)
  finally have "n \<le> unat resendable + unat credit" .
  moreover have "unat b + unat resendable \<le> unat h"
    using assms(2) by (auto simp: resendable_def min_def word_le_nat_alt word_less_nat_alt unat_sub)
  ultimately show ?thesis by linarith
qed

lemma send_credit:
  assumes credit: "stream_credit w st" and small: "w < 2 ^ 62" and queue: "out_pendingQueue st = front # later"
    and n: "n \<le> length (chunk_bytes front)"
      "n \<le> sendableByteCountOf (chunk_beginOffset front) (length (chunk_bytes front)) (out_sentHighWater st)
        (creditOf limit sent st)"
  shows "stream_credit w (withSent n front later st)"
    and "unat (chunk_beginOffset front + of_nat n) = chunk_start front + n"
    and "chunk_start front + n \<le> unat (out_sentHighWater st) + unat (creditOf limit sent st)"
proof -
  let ?h = "unat (out_sentHighWater st)"
  have facts: "stream_facts w st" and chain: "chained ?h (front # later)"
      "reach ?h (front # later) = unat (out_nextWriteOffset st)"
    using credit queue by (auto simp: stream_credit_def closed_def)
  have fits: "chunk_end front \<le> unat (out_nextWriteOffset st)" "unat (out_nextWriteOffset st) \<le> w"
    using facts queue by (simp_all add: stream_facts_def)
  show high: "unat (chunk_beginOffset front + of_nat n) = chunk_start front + n"
    unfolding chunk_start_def using fits n(1) small by (intro unat_offset) (simp add: chunk_end_def chunk_start_def)
  have "out_sentHighWater st \<le> out_streamLimit st" using facts by (simp add: stream_facts_def)
  then have "?h + unat (creditOf limit sent st) < 2 ^ 64"
    using creditOf_bounds(3) [of st limit sent] unat_u64_bound [of "out_streamLimit st"] by linarith
  then have bound: "chunk_start front + n \<le> ?h + unat (creditOf limit sent st)"
    unfolding chunk_start_def using chain by (intro sendable_bound [OF n(2)]) (simp_all add: chunk_start_def word_le_nat_alt)
  then show "chunk_start front + n \<le> ?h + unat (creditOf limit sent st)" .
  define h' where "h' = max ?h (chunk_start front + n)"
  have h': "unat (out_sentHighWater (withSent n front later st)) = h'"
    by (simp add: withSent_def h'_def max_def word_le_nat_alt high)
  have rest: "chunk_start (cut_rest n front) = chunk_start front + n" "chunk_end (cut_rest n front) = chunk_end front"
    using n(1) by (simp_all add: cut_rest_def chunk_end_def) (simp_all add: chunk_start_def high)
  have front: "chunk_end (cut_front n front) = chunk_start front + n"
    using n(1) by (simp add: cut_front_def chunk_end_def) (simp add: chunk_start_def)
  have "h' \<le> unat (out_streamLimit st)"
    using bound creditOf_bounds(3) [of st limit sent] facts by (simp add: h'_def stream_facts_def word_le_nat_alt)
  moreover have "h' \<le> unat (out_nextWriteOffset st)"
    using facts fits(1) n(1) by (simp add: h'_def stream_facts_def word_le_nat_alt chunk_end_def)
  moreover have "\<forall>c \<in> snd ` set (map_put (chunk_beginOffset front) (cut_front n front) (out_inFlight st)). chunk_end c \<le> h'"
  proof -
    have "set (map_put k v m) \<subseteq> insert (k, v) (set m)" for k :: u64 and v :: QuicStreamChunk and m
      by (induction k v m rule: map_put.induct) auto
    then show ?thesis using facts front by (fastforce simp: stream_facts_def h'_def)
  qed
  ultimately have facts': "stream_facts w (withSent n front later st)"
    unfolding stream_facts_def word_le_nat_alt h' using facts queue rest
    by (auto simp: withSent_def stream_facts_def)
  have "chained h' (out_pendingQueue (withSent n front later st)) \<and>
      reach h' (out_pendingQueue (withSent n front later st)) = unat (out_nextWriteOffset st)"
  proof (cases "n = length (chunk_bytes front)")
    case True
    then have "h' = max ?h (chunk_end front)" by (simp add: h'_def chunk_end_def)
    then show ?thesis using chain True by (simp add: withSent_def)
  next
    case False
    have "max h' (chunk_end front) = max ?h (chunk_end front)" using n(1) by (simp add: h'_def chunk_end_def)
    then show ?thesis using chain False rest by (simp add: withSent_def h'_def)
  qed
  then show "stream_credit w (withSent n front later st)"
    using facts' h' by (simp add: stream_credit_def) (simp add: withSent_def)
qed

section \<open>The invariant\<close>

definition stream_granted :: "send_label list \<Rightarrow> u64 \<Rightarrow> OutgoingStream \<Rightarrow> bool" where
  "stream_granted L k st \<longleftrightarrow> stream_credit (writtenTotal L) st \<and> unat (out_sentHighWater st) \<le> highest L k \<and>
     out_streamLimit st \<le> streamGrant L k \<and> (adoptedCount L = 0 \<longrightarrow> out_sentHighWater st = 0)"

definition connection_granted :: "send_label list \<Rightarrow> send_side \<Rightarrow> bool" where
  "connection_granted L x \<longleftrightarrow> (\<forall>k. side_window x k \<le> streamGrant L k) \<and> (\<forall>k. highest L k \<le> unat (streamGrant L k)) \<and>
     side_limit x \<le> connectionGrant L \<and> side_sent x \<le> side_limit x \<and>
     (\<Sum>k \<in> UNIV. highest L k) \<le> unat (side_sent x) \<and>
     (side_ready x \<longleftrightarrow> 0 < adoptedCount L) \<and> (adoptedCount L = 0 \<longrightarrow> side_sent x = 0)"

definition credit_inv :: "send_label list \<Rightarrow> send_side \<Rightarrow> bool" where
  "credit_inv L x \<longleftrightarrow> map_inv (side_streams x) \<and> (\<forall>(k, st) \<in> set (side_streams x). stream_granted L k st) \<and>
     connection_granted L x"

lemma inv_found: "credit_inv L x \<Longrightarrow> map_find k (side_streams x) = Some st \<Longrightarrow> stream_granted L k st"
  by (auto simp: credit_inv_def std.lookup_entry)

lemma granted_mono:
  assumes "stream_granted L k st" "adoptedCount (L @ l) = 0 \<or> 0 < adoptedCount L"
  shows "stream_granted (L @ l) k st"
  using assms stream_credit_mono [of "writtenTotal L" st "writtenTotal (L @ l)"]
  by (auto simp: stream_granted_def le_max_iff_disj)

text \<open>One stream is replaced and the connection keeps its bounds.\<close>

lemma inv_put:
  assumes "credit_inv L x" "stream_granted (L @ l) k st" "connection_granted (L @ l) y" "adoptedCount l = 0"
    "side_streams y = map_put k st (side_streams x)"
  shows "credit_inv (L @ l) y"
  using assms granted_mono [of L _ _ l] by (fastforce simp: credit_inv_def)

lemma quiet_granted:
  assumes "connection_granted L x" "adoptedCount l = 0" "\<And>k. highest l k = 0"
    "side_limit y = side_limit x" "side_sent y = side_sent x" "side_ready y = side_ready x" "side_window y = side_window x"
  shows "connection_granted (L @ l) y"
proof -
  have high: "highest (L @ l) = highest L" using assms(3) by (auto simp: fun_eq_iff)
  have grown: "streamGrant L k \<le> streamGrant (L @ l) k" "connectionGrant L \<le> connectionGrant (L @ l)" for k
    by simp_all
  have "\<forall>k. highest L k \<le> unat (streamGrant (L @ l) k)"
    using assms(1) grown(1) by (meson connection_granted_def order_trans word_le_nat_alt)
  moreover have "\<forall>k. side_window x k \<le> streamGrant (L @ l) k"
    using assms(1) grown(1) by (meson connection_granted_def order_trans)
  moreover have "side_limit x \<le> connectionGrant (L @ l)"
    using assms(1) grown(2) by (meson connection_granted_def order_trans)
  ultimately show ?thesis
    using assms(1,2,4-7) by (simp add: connection_granted_def high del: labels_append(2,3))
qed

lemma inv_each:
  assumes "credit_inv L x" "connection_granted (L @ l) y" "side_streams y = each f (side_streams x)"
    "\<And>k st. stream_granted L k st \<Longrightarrow> stream_granted (L @ l) k (f k st)"
  shows "credit_inv (L @ l) y"
  using assms by (auto simp: credit_inv_def) (auto simp: each_def)

lemma inv_subset:
  assumes "credit_inv L x" "connection_granted (L @ l) y" "adoptedCount l = 0"
    "map_inv (side_streams y)" "set (side_streams y) \<subseteq> set (side_streams x)"
  shows "credit_inv (L @ l) y"
proof -
  have "stream_granted (L @ l) k st" if "(k, st) \<in> set (side_streams y)" for k st
    using that assms(1,3,5) by (intro granted_mono) (auto simp: credit_inv_def)
  then show ?thesis using assms(2,4) by (auto simp: credit_inv_def)
qed

lemma inv_granted: "credit_inv L x \<Longrightarrow> connection_granted L x"
  by (simp add: credit_inv_def)

lemma fresh_granted: "connection_granted L x \<Longrightarrow> stream_granted L k (freshOutgoing\<lparr>out_streamLimit := side_window x k\<rparr>)"
  using fresh_credit by (simp add: stream_granted_def connection_granted_def) (simp add: freshOutgoing_def)

text \<open>The steps that change one stream and nothing else.\<close>

lemma inv_put_quiet:
  assumes "credit_inv L x" "stream_granted (L @ l) k st" "adoptedCount l = 0" "\<And>k. highest l k = 0"
  shows "credit_inv (L @ l) (x\<lparr>side_streams := map_put k st (side_streams x)\<rparr>)"
  by (rule inv_put [OF assms(1,2) _ assms(3)], rule quiet_granted [OF inv_granted [OF assms(1)] assms(3,4)]) simp_all

lemma inv_each_quiet:
  assumes "credit_inv L x" "\<And>k st. stream_credit (writtenTotal L) st \<Longrightarrow> stream_credit (writtenTotal L) (f k st)"
    "\<And>k st. out_sentHighWater (f k st) = out_sentHighWater st \<and> out_streamLimit (f k st) = out_streamLimit st"
    "adoptedCount l = 0" "\<And>k. highest l k = 0" "\<And>k. streamGrant l k = 0" "writtenTotal l = 0"
  shows "credit_inv (L @ l) (x\<lparr>side_streams := each f (side_streams x)\<rparr>)"
proof (rule inv_each [OF assms(1)])
  show "connection_granted (L @ l) (x\<lparr>side_streams := each f (side_streams x)\<rparr>)"
    by (rule quiet_granted [OF inv_granted [OF assms(1)] assms(4,5)]) simp_all
  show "stream_granted (L @ l) k (f k st)" if "stream_granted L k st" for k st
    using that assms(2-) by (simp add: stream_granted_def)
qed simp

lemma sum_changed:
  fixes f :: "u64 \<Rightarrow> nat"
  shows "(\<Sum>k \<in> UNIV. if k = i then v else f k) + f i = (\<Sum>k \<in> UNIV. f k) + v"
proof -
  have "(\<Sum>k \<in> UNIV. f k) = f i + (\<Sum>k \<in> UNIV - {i}. f k)" by (rule sum.remove) simp_all
  moreover have "(\<Sum>k \<in> UNIV. if k = i then v else f k) = v + (\<Sum>k \<in> UNIV - {i}. if k = i then v else f k)"
    by (subst sum.remove [of _ i]) simp_all
  moreover have "(\<Sum>k \<in> UNIV - {i}. if k = i then v else f k) = (\<Sum>k \<in> UNIV - {i}. f k)"
    by (rule sum.cong) auto
  ultimately show ?thesis by simp
qed

lemma send_inv:
  assumes inv: "credit_inv L x" and small: "writtenTotal L < 2 ^ 62" and ready: "side_ready x"
    and found: "map_find k (side_streams x) = Some st" and queue: "out_pendingQueue st = front # later"
    and n: "n \<le> length (chunk_bytes front)"
      "n \<le> sendableByteCountOf (chunk_beginOffset front) (length (chunk_bytes front)) (out_sentHighWater st)
        (creditOf (side_limit x) (side_sent x) st)"
    and endAt: "endAt = chunk_beginOffset front + of_nat n"
    and y: "y = x\<lparr>side_streams := map_put k (withSent n front later st) (side_streams x),
       side_sent := (if endAt > out_sentHighWater st then side_sent x + (endAt - out_sentHighWater st) else side_sent x)\<rparr>"
  shows "credit_inv (L @ [Sent (sentRange k n front)]) y"
proof -
  let ?l = "[Sent (sentRange k n front)]" and ?h = "unat (out_sentHighWater st)"
  have stream: "stream_granted L k st" by (rule inv_found [OF inv found])
  then have credit: "stream_credit (writtenTotal L) st" by (simp add: stream_granted_def)
  note sent = send_credit [OF credit small queue n]
  have bounds: "side_sent x \<le> side_limit x" "\<And>j. highest L j \<le> unat (streamGrant L j)"
      "(\<Sum>j \<in> UNIV. highest L j) \<le> unat (side_sent x)" "0 < adoptedCount L"
    using inv ready by (simp_all add: credit_inv_def connection_granted_def)
  have new: "highest ?l j = (if j = k then unat endAt else 0)" for j
    by (simp add: sentRange_def endAt)
  have endAt_le: "unat endAt \<le> ?h + unat (creditOf (side_limit x) (side_sent x) st)"
    using sent(2,3) by (simp add: endAt)
  have limit: "?h + unat (creditOf (side_limit x) (side_sent x) st) \<le> unat (out_streamLimit st)"
    using credit by (intro creditOf_bounds(3)) (simp add: stream_credit_def stream_facts_def)
  have total: "unat (side_sent y) = unat (side_sent x) + (unat endAt - ?h)" "side_sent y \<le> side_limit x"
  proof -
    have room: "unat (side_sent x) + (unat endAt - ?h) \<le> unat (side_limit x)"
      using creditOf_bounds(2) [OF bounds(1), of st] endAt_le by linarith
    show "unat (side_sent y) = unat (side_sent x) + (unat endAt - ?h)"
    proof (cases "endAt > out_sentHighWater st")
      case True
      then have gap: "unat (endAt - out_sentHighWater st) = unat endAt - ?h"
        by (simp add: unat_sub word_le_nat_alt word_less_nat_alt)
      have "unat (side_sent x) + (unat endAt - ?h) < 2 ^ 64"
        using room unat_u64_bound [of "side_limit x"] by linarith
      then show ?thesis using True by (simp add: y unat_word_ariths gap)
    qed (simp add: y word_less_nat_alt)
    then show "side_sent y \<le> side_limit x" using room by (simp add: word_le_nat_alt)
  qed
  have st': "stream_granted (L @ ?l) k (withSent n front later st)"
  proof -
    have "unat (out_sentHighWater (withSent n front later st)) = max ?h (unat endAt)"
      by (simp add: withSent_def endAt max_def word_le_nat_alt)
    moreover have "out_streamLimit (withSent n front later st) = out_streamLimit st" by (simp add: withSent_def)
    ultimately show ?thesis
      using stream sent(1) bounds(4) by (auto simp: stream_granted_def new sentRange_def endAt)
  qed
  have "highest (L @ ?l) j = (if j = k then max (highest L k) (unat endAt) else highest L j)" for j
    by (simp add: new del: highest.simps)
  then have "(\<Sum>j \<in> UNIV. highest (L @ ?l) j) + highest L k = (\<Sum>j \<in> UNIV. highest L j) + max (highest L k) (unat endAt)"
    using sum_changed [of k "max (highest L k) (unat endAt)" "highest L"] by simp
  moreover have "?h \<le> highest L k" using stream by (simp add: stream_granted_def)
  ultimately have sum: "(\<Sum>j \<in> UNIV. highest (L @ ?l) j) \<le> unat (side_sent y)"
    using bounds(3) total(1) by linarith
  have "unat endAt \<le> unat (streamGrant L k)"
    using endAt_le limit stream by (simp add: stream_granted_def word_le_nat_alt)
  then have "connection_granted (L @ ?l) y"
    using inv total(2) sum bounds(2,4) unfolding credit_inv_def connection_granted_def
    by (simp add: new del: highest.simps) (simp add: y)
  then show ?thesis using inv_put [OF inv st'] by (simp add: y)
qed

lemma step_credit:
  assumes "sender_step l x y" "credit_inv L x" "writtenTotal (L @ l) < 2 ^ 62" "adoptedCount (L @ l) \<le> 1"
  shows "credit_inv (L @ l) y"
  using assms
proof (cases rule: sender_step.cases)
  case (adopts window limit)
  have fresh: "adoptedCount L = 0" using assms(4) adopts by simp
  show ?thesis
  proof (rule inv_each [OF assms(2)])
    show "side_streams y = each (\<lambda>k st. st\<lparr>out_streamLimit := window k\<rparr>) (side_streams x)" by (simp add: adopts)
    show "connection_granted (L @ l) y"
      using assms(2) fresh unfolding credit_inv_def connection_granted_def adopts
      by (simp add: le_max_iff_disj) (auto simp: max_def word_le_nat_alt intro: order_trans)
    show "stream_granted (L @ l) k (st\<lparr>out_streamLimit := window k\<rparr>)" if "stream_granted L k st" for k st
      using that fresh unfolding stream_granted_def adopts by (simp add: limit_credit le_max_iff_disj)
  qed
next
  case (grants limit)
  have "connection_granted (L @ l) y"
    using assms(2) unfolding credit_inv_def connection_granted_def grants by (auto simp: le_max_iff_disj)
  then show ?thesis using assms(2) by (intro inv_subset [OF assms(2)]) (simp_all add: grants credit_inv_def)
next
  case (creates k)
  then show ?thesis
    using inv_put_quiet [OF assms(2), of l] fresh_granted [OF inv_granted [OF assms(2)], of k] by simp
next
  case (opens k)
  have "stream_granted (L @ l) k (freshOutgoing\<lparr>out_streamLimit := side_window x k\<rparr>)"
    by (rule granted_mono [OF fresh_granted [OF inv_granted [OF assms(2)]]]) (auto simp: opens)
  then show ?thesis using inv_put_quiet [OF assms(2), of l k] by (simp add: opens)
next
  case (reopens k st)
  have "connection_granted (L @ l) y"
    by (rule quiet_granted [OF inv_granted [OF assms(2)]]) (simp_all add: reopens)
  then show ?thesis using assms(2) by (intro inv_subset [OF assms(2)]) (simp_all add: reopens credit_inv_def)
next
  case (raises k st limit)
  have old: "stream_granted L k st" by (rule inv_found [OF assms(2) raises(3)])
  have "stream_granted (L @ l) k (st\<lparr>out_streamLimit := max (out_streamLimit st) limit\<rparr>)"
    using old limit_credit [of _ st "max (out_streamLimit st) limit"]
    by (auto simp: raises stream_granted_def stream_credit_def stream_facts_def le_max_iff_disj max.coboundedI1)
  then show ?thesis using inv_put_quiet [OF assms(2), of l k] by (simp add: raises)
next
  case (announces k st a)
  have "stream_granted L k (st\<lparr>out_sendAbort := Some a\<rparr>)"
    using inv_found [OF assms(2) announces(3)] by (simp add: stream_granted_def announce_credit)
  then show ?thesis using inv_put_quiet [OF assms(2), of l k] by (simp add: announces)
next
  case (ends k st st')
  have "stream_granted (L @ l) k st'"
    using inv_found [OF assms(2) ends(3)] ended_credit [OF _ ends(4)] ends(4)
    by (simp add: stream_granted_def ends(1)) (simp add: ended_def)
  then show ?thesis using inv_put_quiet [OF assms(2), of l k] by (simp add: ends)
next
  case (writes k st data final)
  have old: "stream_granted L k st" by (rule inv_found [OF assms(2) writes(3)])
  have "stream_granted (L @ l) k (withChunk data final st)"
    using old write_credit [of "writtenTotal L" st data final] writes(4,5) assms(3)
    by (simp add: stream_granted_def writes(1)) (simp add: withChunk_def)
  then show ?thesis using inv_put_quiet [OF assms(2), of l k] by (simp add: writes)
next
  case (sends k st front later n endAt)
  then show ?thesis using send_inv [OF assms(2)] assms(3) by simp
next
  case (acks rs)
  have "out_sentHighWater (fold (ackRange k) rs st) = out_sentHighWater st \<and>
      out_streamLimit (fold (ackRange k) rs st) = out_streamLimit st" for k st
    by (induction rs arbitrary: st) (simp_all add: ackRange_def)
  then show ?thesis
    unfolding acks by (intro inv_each_quiet [OF assms(2)]) (simp_all add: acks_credit)
next
  case (loses rs)
  have "out_sentHighWater (fold (loseRange k) rs st) = out_sentHighWater st \<and>
      out_streamLimit (fold (loseRange k) rs st) = out_streamLimit st" for k st
    by (induction rs arbitrary: st) (simp_all add: loseRange_def split: option.splits)
  then show ?thesis
    unfolding loses by (intro inv_each_quiet [OF assms(2)]) (simp_all add: loses_credit)
next
  case (retires k st retired gaps)
  have "connection_granted (L @ l) y"
    by (rule quiet_granted [OF inv_granted [OF assms(2)]]) (simp_all add: retires)
  then show ?thesis using assms(2) by (intro inv_subset [OF assms(2)]) (auto simp: retires credit_inv_def)
qed

lemma run_credit:
  assumes "sender_run ls x y" "credit_inv L x" "writtenTotal (L @ ls) < 2 ^ 62" "adoptedCount (L @ ls) \<le> 1"
  shows "credit_inv (L @ ls) y"
  using assms
proof (induction arbitrary: L rule: sender_run.induct)
  case (more l x y ls z)
  have "credit_inv (L @ l) y" using more.prems by (intro step_credit [OF more.hyps(1)]) simp_all
  then show ?case using more.IH [of "L @ l"] more.prems by (simp add: ac_simps)
qed simp

lemma new_credit: "credit_inv [] (send_side (newStreamLayer p server))"
  by (simp add: credit_inv_def connection_granted_def send_side_def newStreamLayer_def startWindow_def initialSendWindowFor_def)

section \<open>Runs of the layer\<close>

lemma step_labels:
  assumes "shows_labels e s rs ls" "rs = [] \<or> (\<exists>budget. e = CollectFrames budget)"
  shows "highest ls k = highestOffset k rs" "streamGrant ls k \<le> streamCredit (m_isLocalServer s) k [e]"
    "connectionGrant ls \<le> connectionCredit [e]" "writtenTotal ls \<le> offeredBytes [e]" "adoptedCount ls = adoptions [e]"
proof -
  have "highest ls k = highestOffset k rs \<and> streamGrant ls k \<le> streamCredit (m_isLocalServer s) k [e] \<and>
    connectionGrant ls \<le> connectionCredit [e] \<and> writtenTotal ls \<le> offeredBytes [e] \<and> adoptedCount ls = adoptions [e]"
    using assms by (cases e) (auto simp: ended_labels split: option.splits)
  then show "highest ls k = highestOffset k rs" "streamGrant ls k \<le> streamCredit (m_isLocalServer s) k [e]"
    "connectionGrant ls \<le> connectionCredit [e]" "writtenTotal ls \<le> offeredBytes [e]" "adoptedCount ls = adoptions [e]"
    by simp_all
qed

lemma quiet_events: "layerStep e s = Inr (s', rs) \<Longrightarrow> rs = [] \<or> (\<exists>budget. e = CollectFrames budget)"
  by (cases e) simp_all

lemma events_cons:
  "streamCredit server k (e # es) = max (streamCredit server k [e]) (streamCredit server k es)"
  "connectionCredit (e # es) = max (connectionCredit [e]) (connectionCredit es)"
  "offeredBytes (e # es) = offeredBytes [e] + offeredBytes es" "adoptions (e # es) = adoptions [e] + adoptions es"
  by (cases e; simp)+

lemma trace_run:
  assumes "layerTrace es s = Inr (s', rs)" "sender_ok s"
  shows "\<exists>ls. sender_run ls (send_side s) (send_side s') \<and> (\<forall>k. highest ls k = highestOffset k rs) \<and>
    (\<forall>k. streamGrant ls k \<le> streamCredit (m_isLocalServer s) k es) \<and> connectionGrant ls \<le> connectionCredit es \<and>
    writtenTotal ls \<le> offeredBytes es \<and> adoptedCount ls = adoptions es"
  using assms
proof (induction es arbitrary: s rs)
  case Nil
  then show ?case by (intro exI [of _ "[]"]) (simp add: idle)
next
  case (Cons e es)
  then obtain t r1 r2 where step: "layerStep e s = Inr (t, r1)" and rest: "layerTrace es t = Inr (s', r2)"
      and rs: "rs = r1 @ r2"
    by (auto elim!: bindR_InrE)
  obtain ls where ls: "sender_run ls (send_side s) (send_side t)" "shows_labels e s r1 ls"
    using layer_refines_sender [OF step Cons.prems(2)] by blast
  note labels = step_labels [OF ls(2) quiet_events [OF step]]
  note kept = layer_keeps_ok [OF step Cons.prems(2)]
  obtain ks where ks: "sender_run ks (send_side t) (send_side s')" "\<forall>k. highest ks k = highestOffset k r2"
    "\<forall>k. streamGrant ks k \<le> streamCredit (m_isLocalServer s) k es" "connectionGrant ks \<le> connectionCredit es"
    "writtenTotal ks \<le> offeredBytes es" "adoptedCount ks = adoptions es"
    using Cons.IH [OF rest kept(1)] by (auto simp: kept(2))
  show ?case
  proof (intro exI [of _ "ls @ ks"] conjI allI)
    show "sender_run (ls @ ks) (send_side s) (send_side s')" by (rule run_trans [OF ls(1) ks(1)])
    show "highest (ls @ ks) k = highestOffset k rs" for k by (simp add: rs labels(1) ks(2))
    show "streamGrant (ls @ ks) k \<le> streamCredit (m_isLocalServer s) k (e # es)" for k
      using labels(2) [of k] ks(3) unfolding events_cons(1) [of "m_isLocalServer s" k e es] labels_append by (intro max.mono) auto
    show "connectionGrant (ls @ ks) \<le> connectionCredit (e # es)"
      using labels(3) ks(4) unfolding events_cons(2) [of e es] labels_append by (intro max.mono)
    show "writtenTotal (ls @ ks) \<le> offeredBytes (e # es)"
      using labels(4) ks(5) unfolding events_cons(3) [of e es] labels_append by linarith
    show "adoptedCount (ls @ ks) = adoptions (e # es)"
      using labels(5) ks(6) unfolding events_cons(4) [of e es] labels_append by linarith
  qed
qed

lemma highestOffset_member: "r \<in> set rs \<Longrightarrow> unat (range_endOffset r) \<le> highestOffset (range_streamId r) rs"
  by (induction rs) auto

text \<open>C5: For every sequence of calls in which the parameters of the peer are adopted at most once and
  less than 2^62 bytes are written, each range sent ends within the credit the peer has granted
  its stream, and the highest offsets of all streams together stay within the credit it has granted the
  connection, whatever is reported acknowledged or lost.\<close>

theorem send_credit_respected:
  assumes "layerTrace es (newStreamLayer localParameters server) = Inr (s, rs)"
    and "adoptions es \<le> 1" "offeredBytes es < 2 ^ 62"
  shows "(\<forall>r \<in> set rs. range_endOffset r \<le> streamCredit server (range_streamId r) es) \<and>
    (\<Sum>k \<in> range_streamId ` set rs. highestOffset k rs) \<le> unat (connectionCredit es)"
proof -
  let ?s = "newStreamLayer localParameters server"
  have server: "m_isLocalServer ?s = server" by (simp add: newStreamLayer_def)
  obtain ls where ls: "sender_run ls (send_side ?s) (send_side s)" "\<And>k. highest ls k = highestOffset k rs"
    "\<And>k. streamGrant ls k \<le> streamCredit server k es" "connectionGrant ls \<le> connectionCredit es"
    "writtenTotal ls \<le> offeredBytes es" "adoptedCount ls = adoptions es"
    using trace_run [OF assms(1) new_sender_ok] unfolding server by blast
  have "credit_inv ([] @ ls) (send_side s)"
    using ls(5,6) assms(2,3) by (intro run_credit [OF ls(1) new_credit]) simp_all
  then have granted: "\<And>k. highestOffset k rs \<le> unat (streamGrant ls k)"
      "(\<Sum>k \<in> UNIV. highestOffset k rs) \<le> unat (connectionGrant ls)"
    by (auto simp: credit_inv_def connection_granted_def ls(2) word_le_nat_alt)
  have "range_endOffset r \<le> streamCredit server (range_streamId r) es" if "r \<in> set rs" for r
    using highestOffset_member [OF that] granted(1) [of "range_streamId r"] ls(3) [of "range_streamId r"]
    by (simp add: word_le_nat_alt)
  moreover have "(\<Sum>k \<in> range_streamId ` set rs. highestOffset k rs) \<le> (\<Sum>k \<in> UNIV. highestOffset k rs)"
    by (rule sum_mono2) auto
  ultimately show ?thesis using granted(2) ls(4) by (simp add: word_le_nat_alt)
qed

definition exampleCalls :: "stream_event list" where
  "exampleCalls = [AdoptParameters exampleParameters, WriteData 4 [1, 2, 3] True, CollectFrames 100]"

definition exampleAdopted :: QuicStreamLayer where
  "exampleAdopted = adoptPeerParameters exampleParameters exampleLayer"

definition exampleWritten :: QuicStreamLayer where
  "exampleWritten = exampleAdopted\<lparr>m_outgoing := [(4, withChunk [1, 2, 3] True (freshOutgoing\<lparr>out_streamLimit := 8\<rparr>))]\<rparr>"

lemma example_write: "writeStreamData 4 [1, 2, 3] True exampleAdopted = (3, exampleWritten)"
proof -
  have found: "\<not> isLocallyInitiated exampleAdopted 4 \<and> \<not> isPeerStreamSideRetired exampleAdopted 4 False \<and>
      \<not> isLocalBidiStreamSideRetired exampleAdopted 4 False \<and> m_outgoing exampleAdopted = [] \<and>
      initialSendWindowFor exampleAdopted 4 = Some 8"
    by code_simp
  then have out: "outgoingStream 4 exampleAdopted = (freshOutgoing\<lparr>out_streamLimit := 8\<rparr>,
      exampleAdopted\<lparr>m_outgoing := [(4, freshOutgoing\<lparr>out_streamLimit := 8\<rparr>)]\<rparr>)"
    by (simp add: outgoingStream_def map_find_def Let_def)
  show ?thesis
    using found by (simp add: writeStreamData_def out freshOutgoing_def pendingQueueByteCount_def
        totalPendingSendByteCount_def saturatingRoomOf_def kMaximumPendingSendByteCount_def
        kMaximumConnectionPendingSendByteCount_def exampleWritten_def withChunk_def)
qed

lemma example_trace: "\<exists>s r. layerTrace exampleCalls exampleLayer = Inr (s, [r]) \<and> range_endOffset r = 3 \<and> range_isFinal r"
proof -
  have "case layerStep (CollectFrames 100) exampleWritten of Inl _ \<Rightarrow> False
      | Inr (s, rs) \<Rightarrow> length rs = 1 \<and> range_endOffset (hd rs) = 3 \<and> range_isFinal (hd rs)"
    by code_simp
  then obtain s rs where "layerStep (CollectFrames 100) exampleWritten = Inr (s, rs)"
      "length rs = 1" "range_endOffset (hd rs) = 3" "range_isFinal (hd rs)"
    by (auto split: sum.splits)
  then show ?thesis
    unfolding exampleCalls_def layerTrace.simps layerStep.simps(1,8) bindR_simps prod.case
      exampleAdopted_def [symmetric] example_write snd_conv
    by (auto simp: length_Suc_conv simp del: layerStep.simps)
qed

theorem send_credit_respected_witness:
  "\<exists>s r. layerTrace exampleCalls (newStreamLayer exampleParameters True) = Inr (s, [r]) \<and>
    range_endOffset r = 3 \<and> range_endOffset r \<le> streamCredit True (range_streamId r) exampleCalls"
proof -
  obtain s r where trace: "layerTrace exampleCalls (newStreamLayer exampleParameters True) = Inr (s, [r])"
      "range_endOffset r = 3"
    using example_trace unfolding exampleLayer_def by blast
  have "adoptions exampleCalls \<le> 1" "offeredBytes exampleCalls < 2 ^ 62" by (simp_all add: exampleCalls_def)
  from send_credit_respected [OF trace(1) this] trace show ?thesis by auto
qed

end
