(* ===== verification/QuicStreamSending.thy ===== *)
theory QuicStreamSending
  imports QuicStreamCredit "HOL-Library.Multiset"
begin

text \<open>
  No byte is lost: every byte the application has handed to a stream is, until the peer
  acknowledges it, in exactly one chunk of the stream, waiting or in flight, with its value, and so is the
  FIN. A ghost state follows the stream: what was written, what was acknowledged, and which
  ranges are outstanding.
\<close>

section \<open>One stream\<close>

record sending_ghost =
  g_written :: bytes
  g_acked :: "nat set"
  g_finAcked :: bool
  g_outstanding :: "QuicStreamRange set"

definition freshGhost :: sending_ghost where
  "freshGhost = \<lparr>g_written = [], g_acked = {}, g_finAcked = False, g_outstanding = {}\<rparr>"

text \<open>How many of the chunks hold a byte, and how many carry the FIN.\<close>

definition holders :: "nat \<Rightarrow> QuicStreamChunk list \<Rightarrow> nat" where
  "holders i cs = length (filter (covers i) cs)"

definition finals :: "QuicStreamChunk list \<Rightarrow> nat" where
  "finals cs = length (filter chunk_isFinal cs)"

definition chunks_of :: "OutgoingStream \<Rightarrow> QuicStreamChunk list" where
  "chunks_of st = out_pendingQueue st @ map snd (out_inFlight st)"

definition chunk_ok :: "bytes \<Rightarrow> QuicStreamChunk \<Rightarrow> bool" where
  "chunk_ok w c \<longleftrightarrow> chunk_end c \<le> length w \<and>
     chunk_bytes c = take (length (chunk_bytes c)) (drop (chunk_start c) w) \<and>
     (chunk_isFinal c \<longrightarrow> chunk_end c = length w) \<and> (chunk_bytes c = [] \<longrightarrow> chunk_isFinal c)"

definition kMaximumStreamLength :: nat where
  "kMaximumStreamLength = 2 ^ 62"

text \<open>The books of a stream agree with the ghost; \<open>queue_sorted\<close> is apart because a loss puts chunks
  back before the queue is sorted again.\<close>

definition rangeOf :: "u64 \<Rightarrow> QuicStreamChunk \<Rightarrow> QuicStreamRange" where
  "rangeOf k c = \<lparr>range_streamId = k, range_beginOffset = chunk_beginOffset c,
     range_endOffset = chunk_beginOffset c + of_nat (length (chunk_bytes c)), range_isFinal = chunk_isFinal c\<rparr>"

definition stream_books :: "u64 \<Rightarrow> sending_ghost \<Rightarrow> OutgoingStream \<Rightarrow> bool" where
  "stream_books k g st \<longleftrightarrow>
     \<not> out_isAborted st \<and> out_sendAbort st = None \<and>
     g_outstanding g = rangeOf k ` snd ` set (out_inFlight st) \<and>
     length (g_written g) < kMaximumStreamLength \<and>
     unat (out_nextWriteOffset st) = length (g_written g) \<and>
     unat (out_sentHighWater st) \<le> length (g_written g) \<and>
     (\<forall>c \<in> set (chunks_of st). chunk_ok (g_written g) c) \<and>
     map_inv (out_inFlight st) \<and>
     (\<forall>entry \<in> set (out_inFlight st). fst entry = chunk_beginOffset (snd entry) \<and>
        chunk_end (snd entry) \<le> unat (out_sentHighWater st)) \<and>
     (\<forall>i \<in> g_acked g. i < unat (out_sentHighWater st)) \<and>
     (\<forall>i < length (g_written g). (if i \<in> g_acked g then 1 else 0) + holders i (chunks_of st) = 1) \<and>
     finals (chunks_of st) + (if g_finAcked g then 1 else 0) = (if out_finalOffset st = None then 0 else 1) \<and>
     (out_isFinalSentToPeer st \<longleftrightarrow> g_finAcked g \<or> finals (map snd (out_inFlight st)) > 0)"

definition queue_sorted :: "OutgoingStream \<Rightarrow> bool" where
  "queue_sorted st \<longleftrightarrow> sorted (map chunk_beginOffset (out_pendingQueue st))"

lemma holders_simps [simp]:
  "holders i [] = 0" "holders i (c # cs) = (if covers i c then 1 else 0) + holders i cs"
  "holders i (xs @ ys) = holders i xs + holders i ys"
  by (simp_all add: holders_def)

lemma finals_simps [simp]:
  "finals [] = 0" "finals (c # cs) = (if chunk_isFinal c then 1 else 0) + finals cs"
  "finals (xs @ ys) = finals xs + finals ys"
  by (simp_all add: finals_def)

lemma holders_member: "c \<in> set cs \<Longrightarrow> covers i c \<Longrightarrow> 0 < holders i cs"
  by (auto simp: holders_def filter_empty_conv)

lemma holders_exists: "0 < holders i cs \<Longrightarrow> \<exists>c \<in> set cs. covers i c"
  by (auto simp: holders_def filter_empty_conv)

lemma finals_member: "c \<in> set cs \<Longrightarrow> chunk_isFinal c \<Longrightarrow> 0 < finals cs"
  by (auto simp: finals_def filter_empty_conv)

lemma books_fresh: "stream_books k freshGhost (freshOutgoing\<lparr>out_streamLimit := limit\<rparr>)"
  by (simp add: stream_books_def freshGhost_def freshOutgoing_def chunks_of_def kMaximumStreamLength_def)

lemma queue_fresh: "queue_sorted (freshOutgoing\<lparr>out_streamLimit := limit\<rparr>)"
  by (simp add: queue_sorted_def freshOutgoing_def)

lemma books_limit [simp]:
  "stream_books k g (st\<lparr>out_streamLimit := limit\<rparr>) = stream_books k g st"
  "queue_sorted (st\<lparr>out_streamLimit := limit\<rparr>) = queue_sorted st"
  by (simp_all add: stream_books_def chunks_of_def queue_sorted_def)

text \<open>The front of the queue is where the next unsent byte is, or before it.\<close>

lemma front_below_high_water:
  assumes books: "stream_books k g st" and sorted: "queue_sorted st"
    and queue: "out_pendingQueue st = front # later"
  shows "chunk_start front \<le> unat (out_sentHighWater st)"
proof (rule ccontr)
  let ?h = "unat (out_sentHighWater st)"
  assume "\<not> chunk_start front \<le> ?h"
  then have above: "?h < chunk_start front" by simp
  have "chunk_ok (g_written g) front"
    using books queue by (simp add: stream_books_def chunks_of_def)
  then have "?h < length (g_written g)"
    using above by (auto simp: chunk_ok_def chunk_end_def)
  then have "(if ?h \<in> g_acked g then 1 else 0) + holders ?h (chunks_of st) = 1"
    using books unfolding stream_books_def by blast
  moreover have "?h \<notin> g_acked g" using books unfolding stream_books_def by blast
  ultimately have "0 < holders ?h (chunks_of st)" by simp
  then obtain c where c: "c \<in> set (chunks_of st)" "covers ?h c" using holders_exists by blast
  have "c \<notin> snd ` set (out_inFlight st)"
    using books c(2) unfolding stream_books_def by (auto simp: covers_def dest: bspec)
  then have "c \<in> set (front # later)" using c(1) queue by (simp add: chunks_of_def)
  then have "chunk_start front \<le> chunk_start c"
    using sorted queue by (auto simp: queue_sorted_def chunk_start_def word_le_nat_alt)
  then show False using above c(2) by (simp add: covers_def)
qed


lemma books_chunk: "stream_books k g st \<Longrightarrow> c \<in> set (chunks_of st) \<Longrightarrow> chunk_ok (g_written g) c"
  by (simp add: stream_books_def)

lemma books_holders:
  "stream_books k g st \<Longrightarrow> i < length (g_written g) \<Longrightarrow>
    (if i \<in> g_acked g then 1 else 0) + holders i (chunks_of st) = 1"
  by (simp add: stream_books_def)

lemma books_finals:
  "stream_books k g st \<Longrightarrow>
    finals (chunks_of st) + (if g_finAcked g then 1 else 0) = (if out_finalOffset st = None then 0 else 1)"
  by (simp add: stream_books_def)

lemma chunk_bytes_Nil: "chunk_ok w c \<Longrightarrow> chunk_bytes c = [] \<Longrightarrow> chunk_isFinal c \<and> chunk_start c = length w"
  by (auto simp: chunk_ok_def chunk_end_def)

text \<open>Two different places in the books never hold the same byte.\<close>

lemma front_apart:
  assumes books: "stream_books k g st" and queue: "out_pendingQueue st = front # later"
    and c: "c \<in> set later \<union> set (map snd (out_inFlight st))"
    and at: "chunk_start front \<le> chunk_start c" "chunk_start c < chunk_end front \<or> chunk_start c = chunk_start front"
  shows False
proof -
  have in_c: "c \<in> set (chunks_of st)" using c queue by (auto simp: chunks_of_def)
  have ok: "chunk_ok (g_written g) front" "chunk_ok (g_written g) c"
    using books_chunk [OF books] in_c queue by (auto simp: chunks_of_def)
  have others: "\<And>i. covers i c \<Longrightarrow> covers i front \<Longrightarrow> 2 \<le> holders i (chunks_of st)"
    using c queue holders_member [of c "later @ map snd (out_inFlight st)"]
    by (fastforce simp: chunks_of_def)
  show False
  proof (cases "chunk_bytes c = [] \<or> chunk_bytes front = []")
    case True
    have "chunk_isFinal c \<and> chunk_isFinal front"
    proof (cases "chunk_bytes c = []")
      case empty: True
      then have "chunk_isFinal c" "chunk_start c = length (g_written g)"
        using chunk_bytes_Nil [OF ok(2)] by simp_all
      moreover from this have "chunk_bytes front = []"
        using at ok(1) by (auto simp: chunk_ok_def chunk_end_def)
      ultimately show ?thesis using chunk_bytes_Nil [OF ok(1)] by simp
    next
      case False
      then have empty: "chunk_bytes front = []" using True by simp
      then have "chunk_start front = length (g_written g)" using chunk_bytes_Nil [OF ok(1)] by simp
      then show ?thesis using False at ok(2) by (auto simp: chunk_ok_def chunk_end_def)
    qed
    moreover have "finals (chunks_of st) = (if chunk_isFinal front then 1 else 0) +
        finals (later @ map snd (out_inFlight st))"
      using queue by (simp add: chunks_of_def)
    moreover have "chunk_isFinal c \<Longrightarrow> 0 < finals (later @ map snd (out_inFlight st))"
      using c finals_member [of c "later @ map snd (out_inFlight st)"] by auto
    ultimately have "2 \<le> finals (chunks_of st)" by auto
    then show False using books_finals [OF books] by (simp split: if_splits)
  next
    case False
    let ?i = "chunk_start c"
    have "covers ?i c" "covers ?i front" using False at by (auto simp: covers_def chunk_end_def)
    moreover have "0 < length (chunk_bytes c)" "chunk_start c + length (chunk_bytes c) \<le> length (g_written g)"
      using ok(2) False by (simp_all add: chunk_ok_def chunk_end_def)
    then have "?i < length (g_written g)" by linarith
    ultimately show False
      using others [of ?i] books_holders [OF books, of ?i] by simp
  qed
qed

lemma holders_put:
  "map_find k m = None \<Longrightarrow> holders i (map snd (map_put k v m)) = (if covers i v then 1 else 0) + holders i (map snd m)"
  by (induction k v m rule: map_put.induct) (auto simp: map_find_def split: if_splits)

lemma finals_put:
  "map_find k m = None \<Longrightarrow> finals (map snd (map_put k v m)) = (if chunk_isFinal v then 1 else 0) + finals (map snd m)"
  by (induction k v m rule: map_put.induct) (auto simp: map_find_def split: if_splits)

lemma holders_erase:
  "map_inv m \<Longrightarrow> map_find k m = Some c \<Longrightarrow>
    holders i (map snd m) = (if covers i c then 1 else 0) + holders i (map snd (map_erase k m))"
proof (induction m)
  case (Cons p m)
  show ?case
  proof (cases "fst p = k")
    case True
    then have "map_erase k m = m" using Cons.prems(1) by (auto simp: map_erase_def filter_id_conv)
    then show ?thesis using True Cons.prems by (cases p) (auto simp: map_erase_def map_find_def)
  next
    case False
    then show ?thesis using Cons by (cases p) (auto simp: map_erase_def map_find_def)
  qed
qed (simp add: map_find_def)

lemma finals_erase:
  "map_inv m \<Longrightarrow> map_find k m = Some c \<Longrightarrow>
    finals (map snd m) = (if chunk_isFinal c then 1 else 0) + finals (map snd (map_erase k m))"
proof (induction m)
  case (Cons p m)
  show ?case
  proof (cases "fst p = k")
    case True
    then have "map_erase k m = m" using Cons.prems(1) by (auto simp: map_erase_def filter_id_conv)
    then show ?thesis using True Cons.prems by (cases p) (auto simp: map_erase_def map_find_def)
  next
    case False
    then show ?thesis using Cons by (cases p) (auto simp: map_erase_def map_find_def)
  qed
qed (simp add: map_find_def)

lemma cut_front_bounds:
  "n \<le> length (chunk_bytes c) \<Longrightarrow> chunk_start (cut_front n c) = chunk_start c"
  "n \<le> length (chunk_bytes c) \<Longrightarrow> chunk_end (cut_front n c) = chunk_start c + n"
  by (simp_all add: cut_front_def chunk_start_def chunk_end_def)

lemma cut_rest_bounds:
  assumes "n \<le> length (chunk_bytes c)" "chunk_end c < 2 ^ 62"
  shows "chunk_start (cut_rest n c) = chunk_start c + n" "chunk_end (cut_rest n c) = chunk_end c"
proof -
  have "unat (chunk_beginOffset c + of_nat n) = unat (chunk_beginOffset c) + n"
    using assms by (intro unat_offset) (simp add: chunk_end_def chunk_start_def)
  then show "chunk_start (cut_rest n c) = chunk_start c + n" "chunk_end (cut_rest n c) = chunk_end c"
    using assms(1) by (simp_all add: cut_rest_def chunk_start_def chunk_end_def)
qed


lemma cut_ok:
  assumes "chunk_ok w c" "length w < 2 ^ 62" "n \<le> length (chunk_bytes c)" "n \<noteq> length (chunk_bytes c) \<Longrightarrow> 0 < n"
  shows "chunk_ok w (cut_front n c)" "n \<noteq> length (chunk_bytes c) \<Longrightarrow> chunk_ok w (cut_rest n c)"
proof -
  let ?l = "length (chunk_bytes c)" and ?s = "chunk_start c"
  have bytes: "chunk_bytes c = take ?l (drop ?s w)" and fits: "?s + ?l \<le> length w"
    using assms(1) by (simp_all add: chunk_ok_def chunk_end_def)
  have taken: "take n (chunk_bytes c) = take n (drop ?s w)"
    using bytes assms(3) by (metis min.absorb1 take_take)
  have size: "length (chunk_bytes (cut_front n c)) = n" using assms(3) by (simp add: cut_front_def)
  have prefix: "chunk_bytes (cut_front n c) = take (length (chunk_bytes (cut_front n c))) (drop (chunk_start (cut_front n c)) w)"
    unfolding size cut_front_bounds(1) [OF assms(3)] by (simp add: cut_front_def taken)
  have "n = length (chunk_bytes c)" if "take n (chunk_bytes c) = []"
    using that assms(3,4) by (cases "n = length (chunk_bytes c)") auto
  then have empty: "chunk_bytes (cut_front n c) = [] \<Longrightarrow> chunk_isFinal (cut_front n c)"
    using assms(1) by (auto simp: cut_front_def chunk_ok_def)
  have final: "chunk_isFinal (cut_front n c) \<Longrightarrow> ?s + n = length w"
    using assms(1) by (simp add: cut_front_def chunk_ok_def chunk_end_def)
  show "chunk_ok w (cut_front n c)"
    unfolding chunk_ok_def cut_front_bounds(2) [OF assms(3)]
    using prefix empty final assms(3) fits by (intro conjI) (auto simp del: take_eq_Nil)
  assume less: "n \<noteq> length (chunk_bytes c)"
  have "drop n (chunk_bytes c) = take (?l - n) (drop (?s + n) w)"
    using bytes by (metis add.commute drop_drop drop_take)
  moreover have "chunk_start (cut_rest n c) = ?s + n" "chunk_end (cut_rest n c) = chunk_end c"
    using cut_rest_bounds [OF assms(3)] assms(1,2) by (simp_all add: chunk_ok_def)
  ultimately show "chunk_ok w (cut_rest n c)"
    using assms(1,3) less fits by (simp add: chunk_ok_def cut_rest_def)
qed

lemma books_send:
  assumes books: "stream_books k g st" and sorted: "queue_sorted st"
    and queue: "out_pendingQueue st = front # later"
    and n: "n \<le> length (chunk_bytes front)" "n \<noteq> length (chunk_bytes front) \<Longrightarrow> 0 < n"
  shows "stream_books k (g\<lparr>g_outstanding := insert (sentRange k n front) (g_outstanding g)\<rparr>) (withSent n front later st)"
      (is "stream_books k ?g ?st")
    and "queue_sorted (withSent n front later st)"
    and "map_find (chunk_beginOffset front) (out_inFlight st) = None"
proof -
  have ok: "chunk_ok (g_written g) front"
    using books_chunk [OF books] queue by (simp add: chunks_of_def)
  have short: "length (g_written g) < 2 ^ 62"
    using books by (simp add: stream_books_def kMaximumStreamLength_def)
  have ends: "chunk_end front \<le> length (g_written g)" using ok by (simp add: chunk_ok_def)
  let ?k = "chunk_beginOffset front"
  show absent: "map_find ?k (out_inFlight st) = None"
  proof (rule ccontr)
    assume "map_find ?k (out_inFlight st) \<noteq> None"
    then obtain c where c: "(?k, c) \<in> set (out_inFlight st)"
      by (auto simp: map_find_def dest: map_of_SomeD)
    then have "chunk_start c = chunk_start front"
      using books by (auto simp: stream_books_def chunk_start_def dest!: bspec)
    moreover have "c \<in> set later \<union> set (map snd (out_inFlight st))" using c by force
    ultimately show False using front_apart [OF books queue, of c] by simp
  qed
  have high: "unat (?k + of_nat n) = chunk_start front + n"
    using n(1) ends short by (simp add: chunk_start_def chunk_end_def unat_offset)
  have high': "unat (out_sentHighWater ?st) = max (unat (out_sentHighWater st)) (chunk_start front + n)"
    unfolding withSent_def by (simp add: max_def word_le_nat_alt high)
  have rest: "n \<noteq> length (chunk_bytes front) \<Longrightarrow> chunk_start (cut_rest n front) = chunk_start front + n \<and>
      chunk_end (cut_rest n front) = chunk_end front"
    using cut_rest_bounds [OF n(1)] ends short by simp
  have covers: "(if covers j (cut_front n front) then 1 else 0) +
      (if n \<noteq> length (chunk_bytes front) \<and> covers j (cut_rest n front) then 1 else 0)
      = (if covers j front then 1 else (0 :: nat))" for j
  proof (cases "n = length (chunk_bytes front)")
    case True
    then show ?thesis using cut_front_bounds [OF n(1)] by (simp add: covers_def chunk_end_def)
  next
    case False
    then have "covers j front \<longleftrightarrow> covers j (cut_front n front) \<or> covers j (cut_rest n front)"
        "\<not> (covers j (cut_front n front) \<and> covers j (cut_rest n front))"
      unfolding covers_def using rest n(1) cut_front_bounds [OF n(1)] by (auto simp: chunk_end_def)
    then show ?thesis using False by auto
  qed
  have final_cut: "chunk_isFinal (cut_front n front) \<longleftrightarrow> chunk_isFinal front \<and> n = length (chunk_bytes front)"
    "chunk_isFinal (cut_rest n front) = chunk_isFinal front"
    by (simp_all add: cut_front_def cut_rest_def)
  have queue': "out_pendingQueue ?st = (if n = length (chunk_bytes front) then later else cut_rest n front # later)"
    and flight': "out_inFlight ?st = map_put ?k (cut_front n front) (out_inFlight st)"
    and final': "out_isFinalSentToPeer ?st \<longleftrightarrow> out_isFinalSentToPeer st \<or> chunk_isFinal (cut_front n front)"
    and same: "out_nextWriteOffset ?st = out_nextWriteOffset st" "out_finalOffset ?st = out_finalOffset st"
    unfolding withSent_def by simp_all
  have inv: "map_inv (out_inFlight st)" using books by (simp add: stream_books_def)
  have chunks': "chunk_ok (g_written g) c" if "c \<in> set (chunks_of ?st)" for c
  proof -
    have "c \<in> set later \<or> c = cut_front n front \<or> (n \<noteq> length (chunk_bytes front) \<and> c = cut_rest n front) \<or>
        c \<in> snd ` set (out_inFlight st)"
      using that inv unfolding chunks_of_def queue' flight' by (auto split: if_splits)
    then show ?thesis
      using cut_ok [OF ok short n] books_chunk [OF books, of c] queue by (auto simp: chunks_of_def)
  qed
  have sent: "rangeOf k (cut_front n front) = sentRange k n front"
    using n(1) by (simp add: rangeOf_def sentRange_def cut_front_def)
  have ghost: "g_written ?g = g_written g" "g_acked ?g = g_acked g" "g_finAcked ?g = g_finAcked g" by simp_all
  have flight: "snd ` set (map_put ?k (cut_front n front) (out_inFlight st)) = insert (cut_front n front) (snd ` set (out_inFlight st))"
  proof -
    have "{p \<in> set (out_inFlight st). fst p \<noteq> ?k} = set (out_inFlight st)"
      using absent by (force simp: map_find_def map_of_eq_None_iff)
    then show ?thesis using inv by simp
  qed
  show "stream_books k ?g ?st"
    unfolding stream_books_def ghost
  proof (intro conjI)
    show "\<not> out_isAborted ?st" "out_sendAbort ?st = None"
      using books by (simp_all add: stream_books_def withSent_def)
    show "g_outstanding ?g = rangeOf k ` snd ` set (out_inFlight ?st)"
      unfolding flight' flight using books sent by (simp add: stream_books_def)
    show "length (g_written g) < kMaximumStreamLength" "unat (out_nextWriteOffset ?st) = length (g_written g)"
      using books same by (simp_all add: stream_books_def)
    show "unat (out_sentHighWater ?st) \<le> length (g_written g)"
      using books n(1) ends unfolding high' by (simp add: stream_books_def chunk_end_def)
    show "\<forall>c \<in> set (chunks_of ?st). chunk_ok (g_written g) c" using chunks' by blast
    show "map_inv (out_inFlight ?st)" using inv by (simp add: flight' map_inv_put)
    show "\<forall>entry \<in> set (out_inFlight ?st). fst entry = chunk_beginOffset (snd entry) \<and>
        chunk_end (snd entry) \<le> unat (out_sentHighWater ?st)"
      using books inv cut_front_bounds [OF n(1)] unfolding high' flight'
      by (auto simp: stream_books_def cut_front_def le_max_iff_disj dest!: bspec)
    show "\<forall>j \<in> g_acked g. j < unat (out_sentHighWater ?st)"
      using books unfolding high' by (auto simp: stream_books_def less_max_iff_disj)
    show "\<forall>j < length (g_written g). (if j \<in> g_acked g then 1 else 0) + holders j (chunks_of ?st) = 1"
    proof (intro allI impI)
      fix j assume "j < length (g_written g)"
      then have "(if j \<in> g_acked g then 1 else 0) + holders j (chunks_of st) = 1"
        by (rule books_holders [OF books])
      moreover have "holders j (chunks_of ?st) = holders j (chunks_of st)"
        using covers [of j] unfolding chunks_of_def queue' flight' by (auto simp: holders_put [OF absent] queue split: if_splits)
      ultimately show "(if j \<in> g_acked g then 1 else 0) + holders j (chunks_of ?st) = 1" by simp
    qed
    show "finals (chunks_of ?st) + (if g_finAcked g then 1 else 0) = (if out_finalOffset ?st = None then 0 else 1)"
    proof -
      have "finals (chunks_of ?st) = finals (chunks_of st)"
        unfolding chunks_of_def queue' flight' by (simp add: finals_put [OF absent] queue final_cut)
      then show ?thesis using books_finals [OF books] unfolding same by simp
    qed
    show "out_isFinalSentToPeer ?st \<longleftrightarrow> g_finAcked g \<or> finals (map snd (out_inFlight ?st)) > 0"
      using books unfolding final' flight' by (auto simp: stream_books_def finals_put [OF absent])
  qed
  show "queue_sorted ?st"
  proof (cases "n = length (chunk_bytes front)")
    case True
    have "out_pendingQueue ?st = later" unfolding queue' by (simp only: True refl if_True)
    then show ?thesis using sorted queue by (simp add: queue_sorted_def)
  next
    case False
    have "chunk_beginOffset (cut_rest n front) \<le> chunk_beginOffset c" if c: "c \<in> set later" for c
    proof (rule ccontr)
      assume "\<not> ?thesis"
      then have "chunk_start c < chunk_start front + n"
        using rest False by (simp add: chunk_start_def word_le_nat_alt)
      moreover have "chunk_start front \<le> chunk_start c"
        using sorted queue c by (auto simp: queue_sorted_def chunk_start_def word_le_nat_alt)
      ultimately show False
        using front_apart [OF books queue, of c] c n(1) by (simp add: chunk_end_def)
    qed
    then show ?thesis using sorted queue False by (simp add: queue_sorted_def queue')
  qed
qed

lemma holders_none: "(\<And>c. c \<in> set cs \<Longrightarrow> \<not> covers i c) \<Longrightarrow> holders i cs = 0"
  by (simp add: holders_def filter_empty_conv)

lemma finals_none: "finals cs = 0 \<Longrightarrow> c \<in> set cs \<Longrightarrow> \<not> chunk_isFinal c"
  using finals_member by fastforce

lemma books_write:
  assumes books: "stream_books k g st" and sorted: "queue_sorted st" and "open": "out_finalOffset st = None"
    and data: "data = [] \<Longrightarrow> final" and small: "length (g_written g @ data) < kMaximumStreamLength"
  shows "stream_books k (g\<lparr>g_written := g_written g @ data\<rparr>) (withChunk data final st)"
    and "queue_sorted (withChunk data final st)"
proof -
  let ?w = "g_written g" and ?new = "\<lparr>chunk_beginOffset = out_nextWriteOffset st, chunk_bytes = data, chunk_isFinal = final\<rparr>"
  have next_offset: "unat (out_nextWriteOffset st) = length ?w" using books by (simp add: stream_books_def)
  then have grown: "unat (out_nextWriteOffset st + of_nat (length data)) = length (?w @ data)"
    using small by (subst unat_offset) (simp_all add: kMaximumStreamLength_def)
  have new: "chunk_start ?new = length ?w" "chunk_end ?new = length (?w @ data)"
    by (simp_all add: chunk_start_def chunk_end_def next_offset)
  have chunks: "chunks_of (withChunk data final st) = out_pendingQueue st @ ?new # map snd (out_inFlight st)"
    by (simp add: chunks_of_def withChunk_def)
  have "finals (chunks_of st) = 0" using books_finals [OF books] "open" by simp
  then have unfinal: "\<not> chunk_isFinal c" if "c \<in> set (chunks_of st)" for c using finals_none that by blast
  have ok: "chunk_ok (?w @ data) c" if "c \<in> set (chunks_of st)" for c
    using books_chunk [OF books that] unfinal [OF that]
    by (auto simp: chunk_ok_def chunk_end_def chunk_start_def drop_append take_append)
  have ends: "chunk_end c \<le> length ?w" if "c \<in> set (chunks_of st)" for c
    using books_chunk [OF books that] by (simp add: chunk_ok_def)
  have "chunk_ok (?w @ data) ?new" using data new by (cases final) (auto simp: chunk_ok_def)
  then have all_ok: "\<forall>c \<in> set (chunks_of (withChunk data final st)). chunk_ok (?w @ data) c"
    using ok unfolding chunks by (auto simp: chunks_of_def)
  have count: "holders j (chunks_of (withChunk data final st)) = holders j (chunks_of st) + (if covers j ?new then 1 else 0)" for j
    unfolding chunks by (simp add: chunks_of_def)
  have acked: "\<forall>j \<in> g_acked g. j < length ?w"
    using books unfolding stream_books_def by fastforce
  have cover: "\<forall>j < length (?w @ data). (if j \<in> g_acked g then 1 else 0) + holders j (chunks_of (withChunk data final st)) = 1"
  proof (intro allI impI)
    fix j assume j: "j < length (?w @ data)"
    show "(if j \<in> g_acked g then 1 else 0) + holders j (chunks_of (withChunk data final st)) = 1"
    proof (cases "j < length ?w")
      case True
      then show ?thesis using books_holders [OF books True] by (simp add: count covers_def new)
    next
      case False
      have "holders j (chunks_of st) = 0" using False ends by (intro holders_none) (fastforce simp: covers_def)
      then show ?thesis using False j acked by (auto simp: count covers_def new)
    qed
  qed
  have "finals (chunks_of (withChunk data final st)) = finals (chunks_of st) + (if final then 1 else 0)"
    unfolding chunks by (simp add: chunks_of_def)
  then have "finals (chunks_of (withChunk data final st)) + (if g_finAcked g then 1 else 0) =
      (if out_finalOffset (withChunk data final st) = None then 0 else 1)"
    using books_finals [OF books] "open" by (simp add: withChunk_def)
  then show "stream_books k (g\<lparr>g_written := ?w @ data\<rparr>) (withChunk data final st)"
    unfolding stream_books_def
  proof (intro conjI)
    show "unat (out_nextWriteOffset (withChunk data final st)) = length (g_written (g\<lparr>g_written := ?w @ data\<rparr>))"
      using grown by (simp add: withChunk_def)
    show "unat (out_sentHighWater (withChunk data final st)) \<le> length (g_written (g\<lparr>g_written := ?w @ data\<rparr>))"
      using books by (simp add: withChunk_def stream_books_def)
    show "\<forall>c \<in> set (chunks_of (withChunk data final st)). chunk_ok (g_written (g\<lparr>g_written := ?w @ data\<rparr>)) c"
      using all_ok by simp
    show "\<forall>j < length (g_written (g\<lparr>g_written := ?w @ data\<rparr>)).
        (if j \<in> g_acked (g\<lparr>g_written := ?w @ data\<rparr>) then 1 else 0) + holders j (chunks_of (withChunk data final st)) = 1"
      using cover by simp
  qed (use books small in \<open>simp_all add: stream_books_def withChunk_def\<close>)
  have "chunk_beginOffset c \<le> out_nextWriteOffset st" if "c \<in> set (out_pendingQueue st)" for c
    using ends [of c] that by (simp add: chunks_of_def word_le_nat_alt next_offset chunk_end_def chunk_start_def)
  then show "queue_sorted (withChunk data final st)"
    using sorted by (simp add: queue_sorted_def withChunk_def sorted_append)
qed

text \<open>An outstanding range is a chunk in flight.\<close>

lemma outstanding_chunk:
  assumes books: "stream_books k g st" and r: "r \<in> g_outstanding g"
  obtains c where "map_find (range_beginOffset r) (out_inFlight st) = Some c" "range_streamId r = k"
    "range_isFinal r = chunk_isFinal c" "unat (range_beginOffset r) = chunk_start c" "unat (range_endOffset r) = chunk_end c"
    "rangeOf k ` snd ` set (map_erase (range_beginOffset r) (out_inFlight st)) = g_outstanding g - {r}"
proof -
  have flight: "g_outstanding g = rangeOf k ` snd ` set (out_inFlight st)" "map_inv (out_inFlight st)"
      "\<And>e. e \<in> set (out_inFlight st) \<Longrightarrow> fst e = chunk_beginOffset (snd e)"
    using books by (auto simp: stream_books_def)
  then obtain c where c: "(chunk_beginOffset c, c) \<in> set (out_inFlight st)" "r = rangeOf k c" using r by force
  then have first: "range_beginOffset r = chunk_beginOffset c" by (simp add: rangeOf_def)
  have "c \<in> set (chunks_of st)" using c(1) by (force simp: chunks_of_def)
  then have "chunk_end c \<le> length (g_written g)" using books_chunk [OF books] by (simp add: chunk_ok_def)
  moreover have "length (g_written g) < 2 ^ 62" using books by (simp add: stream_books_def kMaximumStreamLength_def)
  ultimately have "unat (range_endOffset r) = chunk_end c"
    unfolding c(2) rangeOf_def QuicStreamRange.select_convs chunk_end_def chunk_start_def by (intro unat_offset) simp
  moreover have "rangeOf k ` snd ` set (map_erase (range_beginOffset r) (out_inFlight st)) = g_outstanding g - {r}"
  proof
    show "rangeOf k ` snd ` set (map_erase (range_beginOffset r) (out_inFlight st)) \<subseteq> g_outstanding g - {r}"
      using flight by (auto simp: set_map_erase first c(2)) (auto simp: rangeOf_def)
    show "g_outstanding g - {r} \<subseteq> rangeOf k ` snd ` set (map_erase (range_beginOffset r) (out_inFlight st))"
    proof
      fix q assume q: "q \<in> g_outstanding g - {r}"
      then obtain e where e: "e \<in> set (out_inFlight st)" "q = rangeOf k (snd e)" using flight(1) by auto
      have "fst e \<noteq> chunk_beginOffset c"
      proof
        assume "fst e = chunk_beginOffset c"
        then have "snd e = c"
          using std.entry_unique [OF flight(2), of "chunk_beginOffset c" "snd e" c] e(1) c(1) by (cases e) auto
        then show False using q e(2) c(2) by simp
      qed
      then show "q \<in> rangeOf k ` snd ` set (map_erase (range_beginOffset r) (out_inFlight st))"
        using e by (auto simp: set_map_erase first)
    qed
  qed
  ultimately show thesis
    using c flight(2) by (intro that [of c]) (auto simp: first std.lookup_entry rangeOf_def chunk_start_def)
qed

text \<open>What an acknowledgement, a loss and the sorting leave alone, and what they have to restore.\<close>

lemma books_update:
  assumes books: "stream_books k g st"
    and same: "out_nextWriteOffset st' = out_nextWriteOffset st" "out_sentHighWater st' = out_sentHighWater st"
      "out_finalOffset st' = out_finalOffset st" "out_isAborted st' = out_isAborted st"
      "out_sendAbort st' = out_sendAbort st" "g_written g' = g_written g"
    and flight: "g_outstanding g' = rangeOf k ` snd ` set (out_inFlight st')" "map_inv (out_inFlight st')"
      "set (out_inFlight st') \<subseteq> set (out_inFlight st)" "set (chunks_of st') \<subseteq> set (chunks_of st)"
    and acked: "\<And>j. j \<in> g_acked g' \<Longrightarrow> j < unat (out_sentHighWater st)"
    and held: "\<And>j. j < length (g_written g) \<Longrightarrow> (if j \<in> g_acked g' then 1 else 0) + holders j (chunks_of st')
      = (if j \<in> g_acked g then 1 else 0) + holders j (chunks_of st)"
    and final: "finals (chunks_of st') + (if g_finAcked g' then 1 else 0) = finals (chunks_of st) + (if g_finAcked g then 1 else 0)"
      "out_isFinalSentToPeer st' \<longleftrightarrow> g_finAcked g' \<or> 0 < finals (map snd (out_inFlight st'))"
  shows "stream_books k g' st'"
  unfolding stream_books_def same
proof (intro conjI)
  show "\<forall>c \<in> set (chunks_of st'). chunk_ok (g_written g) c" using books_chunk [OF books] flight(4) by blast
  show "\<forall>e \<in> set (out_inFlight st'). fst e = chunk_beginOffset (snd e) \<and> chunk_end (snd e) \<le> unat (out_sentHighWater st)"
    using books flight(3) unfolding stream_books_def by blast
  show "\<forall>j < length (g_written g). (if j \<in> g_acked g' then 1 else 0) + holders j (chunks_of st') = 1"
    using held books_holders [OF books] by simp
  show "finals (chunks_of st') + (if g_finAcked g' then 1 else 0) = (if out_finalOffset st = None then 0 else 1)"
    using final(1) books_finals [OF books] by simp
qed (use books flight acked final(2) in \<open>simp_all add: stream_books_def\<close>)

definition ackGhost :: "QuicStreamRange \<Rightarrow> sending_ghost \<Rightarrow> sending_ghost" where
  "ackGhost r g = g\<lparr>g_acked := g_acked g \<union> {unat (range_beginOffset r) ..< unat (range_endOffset r)},
     g_finAcked := (g_finAcked g \<or> range_isFinal r), g_outstanding := g_outstanding g - {r}\<rparr>"

definition loseGhost :: "QuicStreamRange \<Rightarrow> sending_ghost \<Rightarrow> sending_ghost" where
  "loseGhost r g = g\<lparr>g_outstanding := g_outstanding g - {r}\<rparr>"

lemma books_ack:
  assumes books: "stream_books k g st" and r: "r \<in> g_outstanding g"
  shows "stream_books k (ackGhost r g) (ackRange k r st)" "queue_sorted (ackRange k r st) = queue_sorted st"
proof -
  obtain c where c: "map_find (range_beginOffset r) (out_inFlight st) = Some c" "range_streamId r = k"
    "range_isFinal r = chunk_isFinal c" "unat (range_beginOffset r) = chunk_start c" "unat (range_endOffset r) = chunk_end c"
    "rangeOf k ` snd ` set (map_erase (range_beginOffset r) (out_inFlight st)) = g_outstanding g - {r}"
    using outstanding_chunk [OF books r] by blast
  let ?st = "ackRange k r st" and ?flight = "map_erase (range_beginOffset r) (out_inFlight st)"
  have st: "?st = st\<lparr>out_inFlight := ?flight\<rparr>" using c(2) by (simp add: ackRange_def)
  have inv: "map_inv (out_inFlight st)" using books by (simp add: stream_books_def)
  have count: "holders j (chunks_of st) = (if covers j c then 1 else 0) + holders j (chunks_of ?st)"
      "finals (chunks_of st) = (if chunk_isFinal c then 1 else 0) + finals (chunks_of ?st)"
      "finals (map snd (out_inFlight st)) = (if chunk_isFinal c then 1 else 0) + finals (map snd ?flight)" for j
    using holders_erase [OF inv c(1)] finals_erase [OF inv c(1)] by (simp_all add: chunks_of_def st)
  have in_flight: "c \<in> snd ` set (out_inFlight st)"
    using c(1) inv by (force simp: std.lookup_entry)
  then have high: "chunk_end c \<le> unat (out_sentHighWater st)"
    using books by (fastforce simp: stream_books_def)
  show "stream_books k (ackGhost r g) ?st"
  proof (rule books_update [OF books])
    show "j < unat (out_sentHighWater st)" if "j \<in> g_acked (ackGhost r g)" for j
      using that high books by (auto simp: stream_books_def ackGhost_def c(5))
    show "(if j \<in> g_acked (ackGhost r g) then 1 else 0) + holders j (chunks_of ?st)
        = (if j \<in> g_acked g then 1 else 0) + holders j (chunks_of st)" if "j < length (g_written g)" for j
      using books_holders [OF books that] by (auto simp: count(1) ackGhost_def c(4,5) covers_def split: if_splits)
    show "finals (chunks_of ?st) + (if g_finAcked (ackGhost r g) then 1 else 0) = finals (chunks_of st) + (if g_finAcked g then 1 else 0)"
      using books_finals [OF books] by (auto simp: count(2) ackGhost_def c(3) split: if_splits)
    show "out_isFinalSentToPeer ?st \<longleftrightarrow> g_finAcked (ackGhost r g) \<or> 0 < finals (map snd (out_inFlight ?st))"
    proof -
      have "out_isFinalSentToPeer st \<longleftrightarrow> g_finAcked g \<or> 0 < finals (map snd (out_inFlight st))"
        using books by (simp add: stream_books_def)
      then show ?thesis by (auto simp: count(3) ackGhost_def c(3) st)
    qed
  qed (use c(6) inv in \<open>auto simp: st ackGhost_def chunks_of_def set_map_erase map_inv_erase\<close>)
  show "queue_sorted ?st = queue_sorted st" by (simp add: st queue_sorted_def)
qed

lemma books_lose:
  assumes books: "stream_books k g st" and r: "r \<in> g_outstanding g"
  shows "stream_books k (loseGhost r g) (loseRange k r st)"
proof -
  obtain c where c: "map_find (range_beginOffset r) (out_inFlight st) = Some c" "range_streamId r = k"
    "range_isFinal r = chunk_isFinal c"
    "rangeOf k ` snd ` set (map_erase (range_beginOffset r) (out_inFlight st)) = g_outstanding g - {r}"
    by (rule outstanding_chunk [OF books r])
  let ?st = "loseRange k r st" and ?flight = "map_erase (range_beginOffset r) (out_inFlight st)"
  have same: "c\<lparr>chunk_isFinal := range_isFinal r\<rparr> = c" by (simp add: c(3))
  have live: "\<not> out_isAborted st" using books by (simp add: stream_books_def)
  have st: "?st = st\<lparr>out_inFlight := ?flight, out_isFinalSentToPeer := (out_isFinalSentToPeer st \<and> \<not> chunk_isFinal c),
      out_pendingQueue := c # out_pendingQueue st\<rparr>"
    using c(1-3) live same by (simp add: loseRange_def)
  have inv: "map_inv (out_inFlight st)" using books by (simp add: stream_books_def)
  have count: "holders j (chunks_of ?st) = holders j (chunks_of st)" "finals (chunks_of ?st) = finals (chunks_of st)"
      "finals (map snd (out_inFlight st)) = (if chunk_isFinal c then 1 else 0) + finals (map snd ?flight)" for j
    using holders_erase [OF inv c(1)] finals_erase [OF inv c(1)] by (simp_all add: chunks_of_def st)
  have in_flight: "c \<in> snd ` set (out_inFlight st)"
    using c(1) inv by (force simp: std.lookup_entry)
  show ?thesis
  proof (rule books_update [OF books])
    show "out_isFinalSentToPeer ?st \<longleftrightarrow> g_finAcked (loseGhost r g) \<or> 0 < finals (map snd (out_inFlight ?st))"
    proof -
      have "out_isFinalSentToPeer st \<longleftrightarrow> g_finAcked g \<or> 0 < finals (map snd (out_inFlight st))"
        using books by (simp add: stream_books_def)
      moreover have "finals (map snd (out_inFlight st)) + (if g_finAcked g then 1 else 0) \<le> 1"
        using books_finals [OF books] by (simp add: chunks_of_def split: if_splits)
      ultimately show ?thesis by (auto simp: count(3) st loseGhost_def split: if_splits)
    qed
    show "j < unat (out_sentHighWater st)" if "j \<in> g_acked (loseGhost r g)" for j
      using that books by (auto simp: stream_books_def loseGhost_def)
    show "(if j \<in> g_acked (loseGhost r g) then 1 else 0) + holders j (chunks_of ?st)
        = (if j \<in> g_acked g then 1 else 0) + holders j (chunks_of st)" for j
      by (simp add: count(1) loseGhost_def)
    show "finals (chunks_of ?st) + (if g_finAcked (loseGhost r g) then 1 else 0) = finals (chunks_of st) + (if g_finAcked g then 1 else 0)"
      by (simp add: count(2) loseGhost_def)
  qed (use c(4) inv in_flight in \<open>auto simp: st loseGhost_def chunks_of_def set_map_erase map_inv_erase\<close>)
qed

lemma books_resorted: "stream_books k g st \<Longrightarrow> stream_books k g (resorted st)"
proof -
  assume books: "stream_books k g st"
  have perm: "mset (chunks_of (resorted st)) = mset (chunks_of st)"
    by (simp add: chunks_of_def resorted_def)
  have count: "length (filter P (chunks_of (resorted st))) = length (filter P (chunks_of st))" for P
    using arg_cong [OF perm, of "\<lambda>m. size (filter_mset P m)"] by (simp flip: mset_filter)
  have members: "set (chunks_of (resorted st)) = set (chunks_of st)" using perm by (metis set_mset_mset)
  have same: "out_inFlight (resorted st) = out_inFlight st" "out_isFinalSentToPeer (resorted st) = out_isFinalSentToPeer st"
    by (simp_all add: resorted_def)
  have facts: "g_outstanding g = rangeOf k ` snd ` set (out_inFlight st)" "map_inv (out_inFlight st)"
      "out_isFinalSentToPeer st \<longleftrightarrow> g_finAcked g \<or> 0 < finals (map snd (out_inFlight st))"
    using books unfolding stream_books_def by - (elim conjE, assumption)+
  show ?thesis
  proof (rule books_update [OF books])
    show "set (chunks_of (resorted st)) \<subseteq> set (chunks_of st)" using members by blast
    show "(if j \<in> g_acked g then 1 else 0) + holders j (chunks_of (resorted st))
        = (if j \<in> g_acked g then 1 else 0) + holders j (chunks_of st)" for j
      unfolding holders_def count by (rule refl)
    show "finals (chunks_of (resorted st)) + (if g_finAcked g then 1 else 0) = finals (chunks_of st) + (if g_finAcked g then 1 else 0)"
      unfolding finals_def count by (rule refl)
    show "g_outstanding g = rangeOf k ` snd ` set (out_inFlight (resorted st))" "map_inv (out_inFlight (resorted st))"
      "set (out_inFlight (resorted st)) \<subseteq> set (out_inFlight st)"
      "out_isFinalSentToPeer (resorted st) \<longleftrightarrow> g_finAcked g \<or> 0 < finals (map snd (out_inFlight (resorted st)))"
      unfolding same using facts by blast+
    show "j < unat (out_sentHighWater st)" if "j \<in> g_acked g" for j
      using that books unfolding stream_books_def by blast
  qed (simp_all add: resorted_def)
qed

lemma queue_resorted: "queue_sorted (resorted st)"
  by (simp add: queue_sorted_def resorted_def)

section \<open>The stream in the machine\<close>

text \<open>What the environment reports is taken one range at a time; a range that is not outstanding, an
  end of the stream, or an opening of a stream that has been used before ends the following.\<close>

fun resolve :: "u64 \<Rightarrow> (QuicStreamRange \<Rightarrow> sending_ghost \<Rightarrow> sending_ghost) \<Rightarrow> QuicStreamRange list \<Rightarrow>
    sending_ghost \<Rightarrow> sending_ghost option" where
  "resolve k f [] g = Some g"
| "resolve k f (r # rs) g =
     (if range_streamId r \<noteq> k then resolve k f rs g
      else if r \<in> g_outstanding g then resolve k f rs (f r g) else None)"

definition g_used :: "sending_ghost \<Rightarrow> bool" where
  "g_used g \<longleftrightarrow> g_written g \<noteq> [] \<or> g_finAcked g"

fun follow :: "u64 \<Rightarrow> send_label list \<Rightarrow> sending_ghost \<Rightarrow> sending_ghost option" where
  "follow k [] g = Some g"
| "follow k (Opened i # ls) g = (if i = k \<and> g_used g then None else follow k ls g)"
| "follow k (Ended i # ls) g = (if i = k then None else follow k ls g)"
| "follow k (Wrote i data final # ls) g =
     follow k ls (if i = k then g\<lparr>g_written := g_written g @ data\<rparr> else g)"
| "follow k (Sent r # ls) g =
     follow k ls (if range_streamId r = k then g\<lparr>g_outstanding := insert r (g_outstanding g)\<rparr> else g)"
| "follow k (Acked rs # ls) g = (case resolve k ackGhost rs g of None \<Rightarrow> None | Some g \<Rightarrow> follow k ls g)"
| "follow k (Lost rs # ls) g = (case resolve k loseGhost rs g of None \<Rightarrow> None | Some g \<Rightarrow> follow k ls g)"
| "follow k (_ # ls) g = follow k ls g"

lemma follow_append: "follow k (ls @ ks) g = (case follow k ls g of None \<Rightarrow> None | Some g \<Rightarrow> follow k ks g)"
  by (induction k ls g rule: follow.induct) (auto split: option.splits)

lemma resolve_written:
  "resolve k ackGhost rs g = Some g' \<Longrightarrow> g_written g' = g_written g"
  "resolve k loseGhost rs g = Some g' \<Longrightarrow> g_written g' = g_written g"
  by (induction rs arbitrary: g) (auto simp: ackGhost_def loseGhost_def split: if_splits)

lemma follow_written: "follow k ls g = Some g' \<Longrightarrow> length (g_written g) \<le> length (g_written g')"
  by (induction k ls g rule: follow.induct)
    (force split: option.splits if_splits dest: resolve_written)+

lemma resolve_ack:
  "stream_books k g st \<Longrightarrow> resolve k ackGhost rs g = Some g' \<Longrightarrow>
    stream_books k g' (fold (ackRange k) rs st) \<and> queue_sorted (fold (ackRange k) rs st) = queue_sorted st"
proof (induction rs arbitrary: g st)
  case (Cons r rs)
  show ?case
  proof (cases "range_streamId r = k")
    case True
    then have r: "r \<in> g_outstanding g" "resolve k ackGhost rs (ackGhost r g) = Some g'"
      using Cons.prems(2) by (auto split: if_splits)
    show ?thesis using Cons.IH [OF books_ack(1) [OF Cons.prems(1) r(1)] r(2)] books_ack(2) [OF Cons.prems(1) r(1)] by simp
  next
    case False
    then show ?thesis using Cons by (simp add: ackRange_def)
  qed
qed simp

lemma resolve_lose:
  "stream_books k g st \<Longrightarrow> resolve k loseGhost rs g = Some g' \<Longrightarrow> stream_books k g' (fold (loseRange k) rs st)"
proof (induction rs arbitrary: g st)
  case (Cons r rs)
  show ?case
  proof (cases "range_streamId r = k")
    case True
    then have r: "r \<in> g_outstanding g" "resolve k loseGhost rs (loseGhost r g) = Some g'"
      using Cons.prems(2) by (auto split: if_splits)
    show ?thesis using Cons.IH [OF books_lose [OF Cons.prems(1) r(1)] r(2)] by simp
  next
    case False
    then have "loseRange k r st = st" by (simp add: loseRange_def split: option.splits)
    then show ?thesis using Cons False by simp
  qed
qed simp

lemma resolve_nothing: "g_outstanding g = {} \<Longrightarrow> resolve k f rs g = Some g' \<Longrightarrow> g' = g"
  by (induction rs) (auto split: if_splits)

definition sending_inv :: "u64 \<Rightarrow> sending_ghost \<Rightarrow> send_side \<Rightarrow> bool" where
  "sending_inv k g x \<longleftrightarrow> map_inv (side_streams x) \<and>
     (case map_find k (side_streams x) of
        Some st \<Rightarrow> stream_books k g st \<and> queue_sorted st
      | None \<Rightarrow> g_outstanding g = {} \<and>
          (g = freshGhost \<or> side_retired x k \<and> g_finAcked g \<and> {..<length (g_written g)} \<subseteq> g_acked g))"

lemma sending_inv_total [simp]:
  "sending_inv k g (x\<lparr>side_sent := v\<rparr>) = sending_inv k g x" "sending_inv k g (x\<lparr>side_limit := v\<rparr>) = sending_inv k g x"
  by (simp_all add: sending_inv_def cong: option.case_cong)

lemma settled_all_acked:
  assumes "stream_books k g st" "isOutgoingSettled st"
  shows "g_finAcked g" "g_outstanding g = {}" "{..<length (g_written g)} \<subseteq> g_acked g"
proof -
  have empty: "out_pendingQueue st = []" "out_inFlight st = []" "out_isFinalSentToPeer st"
    using assms by (auto simp: isOutgoingSettled_def stream_books_def)
  show "g_finAcked g" "g_outstanding g = {}"
    using assms(1) empty by (simp_all add: stream_books_def)
  show "{..<length (g_written g)} \<subseteq> g_acked g"
  proof
    fix j assume "j \<in> {..<length (g_written g)}"
    then have "(if j \<in> g_acked g then 1 else 0) + holders j (chunks_of st) = 1"
      by (intro books_holders [OF assms(1)]) simp
    then show "j \<in> g_acked g" using empty by (simp add: chunks_of_def split: if_splits)
  qed
qed

lemma step_sending:
  assumes "sender_step l x y" "sending_inv k g x" "follow k l g = Some g'" "length (g_written g') < kMaximumStreamLength"
  shows "sending_inv k g' y"
proof -
  have inv: "map_inv (side_streams x)" and inv': "map_inv (side_streams y)"
    using assms(2) step_map_inv [OF assms(1)] by (simp_all add: sending_inv_def)
  have put: "sending_inv k g' (x\<lparr>side_streams := map_put i st (side_streams x)\<rparr>)"
    if "i \<noteq> k \<and> g' = g \<or> i = k \<and> stream_books k g' st \<and> queue_sorted st" for i st
    using that assms(2) inv by (auto simp: sending_inv_def std.lookup_put split: option.splits)
  from assms(1) show ?thesis
  proof (cases rule: sender_step.cases)
    case (adopts window limit)
    then show ?thesis using assms(2,3) inv' by (auto simp: sending_inv_def split: option.splits)
  next
    case (grants limit)
    then show ?thesis using assms(2,3) by simp
  next
    case (creates i)
    have "g = freshGhost" if "i = k" using that creates(3,4) assms(2) by (simp add: sending_inv_def)
    then show ?thesis using put [of i] assms(3) books_fresh queue_fresh by (auto simp: creates)
  next
    case (opens i)
    have "g = freshGhost" if "i = k"
      using that opens assms(2,3) by (auto simp: sending_inv_def g_used_def split: if_splits)
    moreover have "g' = g" using assms(3) by (auto simp: opens split: if_splits)
    ultimately show ?thesis using put [of i] books_fresh queue_fresh by (auto simp: opens)
  next
    case (reopens i st)
    then show ?thesis using assms(2,3) by (auto split: if_splits)
  next
    case (raises i st limit)
    have "stream_books k g st \<and> queue_sorted st" if "i = k"
      using that raises(3) assms(2) by (simp add: sending_inv_def)
    then show ?thesis using put [of i] assms(3) by (auto simp: raises)
  next
    case (announces i st a)
    have "i \<noteq> k" using announces(3,4) assms(2) by (auto simp: sending_inv_def stream_books_def)
    then show ?thesis using put [of i] assms(3) by (simp add: announces)
  next
    case (ends i st st')
    then show ?thesis using put [of i] assms(3) by (auto split: if_splits)
  next
    case (writes i st data final)
    have "stream_books k g' (withChunk data final st) \<and> queue_sorted (withChunk data final st)" if "i = k"
    proof -
      have "stream_books k g st" "queue_sorted st" using that writes(3) assms(2) by (simp_all add: sending_inv_def)
      moreover have "g' = g\<lparr>g_written := g_written g @ data\<rparr>" using that assms(3) by (simp add: writes)
      ultimately show ?thesis using books_write [of k g st data final] writes(5,6) assms(4) by simp
    qed
    then show ?thesis using put [of i] assms(3) by (auto simp: writes)
  next
    case (sends i st front later n endAt)
    have "stream_books k g' (withSent n front later st) \<and> queue_sorted (withSent n front later st)" if "i = k"
    proof -
      have "stream_books k g st" "queue_sorted st" using that sends(4) assms(2) by (simp_all add: sending_inv_def)
      moreover have "g' = g\<lparr>g_outstanding := insert (sentRange k n front) (g_outstanding g)\<rparr>"
        using that assms(3) by (simp add: sends sentRange_def)
      ultimately show ?thesis using books_send(1,2) [of k g st front later n] sends(6-8) by blast
    qed
    moreover have "g' = g" if "i \<noteq> k" using that assms(3) by (simp add: sends sentRange_def)
    ultimately show ?thesis using put [of i "withSent n front later st"] by (auto simp: sends)
  next
    case (acks rs)
    have resolved: "resolve k ackGhost rs g = Some g'" using assms(3) by (simp add: acks split: option.splits)
    show ?thesis
    proof (cases "map_find k (side_streams x)")
      case None
      then show ?thesis
        using assms(2) inv' resolve_nothing [OF _ resolved] by (auto simp: sending_inv_def acks)
    next
      case (Some st)
      then show ?thesis
        using assms(2) inv' resolve_ack [OF _ resolved, of st] by (simp add: sending_inv_def acks)
    qed
  next
    case (loses rs)
    have resolved: "resolve k loseGhost rs g = Some g'" using assms(3) by (simp add: loses split: option.splits)
    show ?thesis
    proof (cases "map_find k (side_streams x)")
      case None
      then show ?thesis
        using assms(2) inv' resolve_nothing [OF _ resolved] by (auto simp: sending_inv_def loses)
    next
      case (Some st)
      then show ?thesis
        using assms(2) inv' resolve_lose [OF _ resolved, of st] books_resorted queue_resorted
        by (simp add: sending_inv_def loses)
    qed
  next
    case (retires i st retired gaps)
    have g': "g' = g" using assms(3) by (simp add: retires)
    show ?thesis
    proof (cases "i = k")
      case True
      then have "stream_books k g st" using retires(3) assms(2) by (simp add: sending_inv_def)
      note acked = settled_all_acked [OF this retires(4)]
      have "map_find k (side_streams y) = None" using inv True by (simp add: retires std.lookup_erase)
      then show ?thesis using acked inv' retires(6) True by (simp add: sending_inv_def g' retires(2))
    next
      case False
      then show ?thesis
        using assms(2) inv retires(5) by (auto simp: sending_inv_def g' retires(2) std.lookup_erase split: option.splits)
    qed
  qed
qed

lemma run_sending:
  assumes "sender_run ls x y" "sending_inv k g x" "follow k ls g = Some g'" "length (g_written g') < kMaximumStreamLength"
  shows "sending_inv k g' y"
  using assms
proof (induction arbitrary: g rule: sender_run.induct)
  case (more l x y ls z)
  then obtain h where h: "follow k l g = Some h" "follow k ls h = Some g'"
    by (auto simp: follow_append split: option.splits)
  have "sending_inv k h y"
    using step_sending [OF more.hyps(1) more.prems(1) h(1)] follow_written [OF h(2)] more.prems(3) by simp
  then show ?case using more.IH [OF _ h(2) more.prems(3)] by blast
qed simp

section \<open>The stream in the layer\<close>

text \<open>The ghost of stream \<open>k\<close> along the calls of the layer. What the layer accepts is written, what it sends is
  outstanding. \<open>None\<close> where the following ends: the layer throws, the peer or the application
  ends the stream, a range is reported that is not outstanding, or the stream is opened after use.\<close>

fun noteEvent :: "u64 \<Rightarrow> stream_event \<Rightarrow> QuicStreamLayer \<Rightarrow> QuicStreamRange list \<Rightarrow> sending_ghost \<Rightarrow> sending_ghost option" where
  "noteEvent k (WriteData i data final) s rs g =
     Some (if i = k then g\<lparr>g_written := g_written g @ take (fst (writeStreamData i data final s)) data\<rparr> else g)"
| "noteEvent k (CollectFrames budget) s rs g =
     Some (g\<lparr>g_outstanding := g_outstanding g \<union> {r \<in> set rs. range_streamId r = k}\<rparr>)"
| "noteEvent k (RangesAcknowledged as) s rs g = resolve k ackGhost as g"
| "noteEvent k (RangesLost as) s rs g = resolve k loseGhost as g"
| "noteEvent k (StopArrives i e) s rs g = (if i = k then None else Some g)"
| "noteEvent k (ResetSending i e) s rs g = (if i = k then None else Some g)"
| "noteEvent k OpenUnidirectional s rs g =
     (if fst (openUnidirectionalStream s) = Some k \<and> g_used g then None else Some g)"
| "noteEvent k OpenBidirectional s rs g =
     (if fst (openBidirectionalStream s) = Some k \<and> g_used g then None else Some g)"
| "noteEvent k _ s rs g = Some g"

fun followed :: "u64 \<Rightarrow> stream_event list \<Rightarrow> QuicStreamLayer \<Rightarrow> sending_ghost \<Rightarrow> (QuicStreamLayer \<times> sending_ghost) option" where
  "followed k [] s g = Some (s, g)"
| "followed k (e # es) s g =
     (case layerStep e s of
        Inl _ \<Rightarrow> None
      | Inr (s', rs) \<Rightarrow>
          (case noteEvent k e s rs g of None \<Rightarrow> None | Some g' \<Rightarrow> followed k es s' g'))"

lemma follow_sent:
  "follow k (map Sent rs) g = Some (g\<lparr>g_outstanding := g_outstanding g \<union> {r \<in> set rs. range_streamId r = k}\<rparr>)"
proof (induction rs arbitrary: g)
  case (Cons r rs)
  have "insert r (g_outstanding g) \<union> {q \<in> set rs. range_streamId q = k}
      = g_outstanding g \<union> {q \<in> set (r # rs). range_streamId q = k}" if "range_streamId r = k" using that by auto
  moreover have "{q \<in> set rs. range_streamId q = k} = {q \<in> set (r # rs). range_streamId q = k}"
    if "range_streamId r \<noteq> k" using that by auto
  ultimately show ?case by (simp add: Cons.IH del: set_simps)
qed simp

lemma follow_ended: "set ls \<subseteq> {Ended i} \<Longrightarrow> i \<noteq> k \<Longrightarrow> follow k ls g = Some g"
  by (induction ls) auto

lemma shown_follow:
  assumes "shows_labels e s rs ls" "noteEvent k e s rs g = Some g'"
  shows "follow k ls g = Some g'"
  using assms by (cases e) (auto simp: follow_sent follow_ended split: option.splits if_splits)

lemma noteEvent_written: "noteEvent k e s rs g = Some g' \<Longrightarrow> length (g_written g) \<le> length (g_written g')"
  by (cases e) (auto simp: resolve_written split: if_splits)

lemma followed_step:
  assumes "followed k (e # es) s g = Some r"
  obtains t rs h where "layerStep e s = Inr (t, rs)" "noteEvent k e s rs g = Some h" "followed k es t h = Some r"
  using assms by (auto split: sum.splits option.splits prod.splits)

lemma followed_written: "followed k es s g = Some (s', g') \<Longrightarrow> length (g_written g) \<le> length (g_written g')"
proof (induction es arbitrary: s g)
  case (Cons e es)
  from Cons.prems obtain t rs h where step: "noteEvent k e s rs g = Some h" "followed k es t h = Some (s', g')"
    by (rule followed_step)
  then show ?case using noteEvent_written [OF step(1)] Cons.IH [OF step(2)] by simp
qed simp

lemma followed_inv:
  assumes "followed k es s g = Some (s', g')" "sender_ok s" "sending_inv k g (send_side s)"
    "length (g_written g') < kMaximumStreamLength"
  shows "sending_inv k g' (send_side s')"
  using assms
proof (induction es arbitrary: s g)
  case (Cons e es)
  from Cons.prems(1) obtain t rs h where step: "layerStep e s = Inr (t, rs)" "noteEvent k e s rs g = Some h"
      "followed k es t h = Some (s', g')"
    by (rule followed_step)
  obtain ls where ls: "sender_run ls (send_side s) (send_side t)" "shows_labels e s rs ls"
    using layer_refines_sender [OF step(1) Cons.prems(2)] by blast
  have "length (g_written h) < kMaximumStreamLength"
    using followed_written [OF step(3)] Cons.prems(4) by simp
  then have "sending_inv k h (send_side t)"
    by (rule run_sending [OF ls(1) Cons.prems(3) shown_follow [OF ls(2) step(2)]])
  then show ?case by (rule Cons.IH [OF step(3) layer_keeps_ok(1) [OF step(1) Cons.prems(2)] _ Cons.prems(4)])
qed simp

lemma new_sending: "sending_inv k freshGhost (send_side (newStreamLayer p server))"
  by (simp add: sending_inv_def send_side_def newStreamLayer_def freshGhost_def map_find_def)

lemma ok_value:
  assumes "chunk_ok w c" "covers j c"
  shows "chunk_bytes c ! (j - chunk_start c) = w ! j"
proof -
  let ?n = "length (chunk_bytes c)" and ?i = "j - chunk_start c"
  have bytes: "chunk_bytes c = take ?n (drop (chunk_start c) w)" and fits: "chunk_start c + ?n \<le> length w"
    using assms(1) by (simp_all add: chunk_ok_def chunk_end_def)
  have inside: "?i < ?n" "chunk_start c + ?i = j" using assms(2) by (auto simp: covers_def chunk_end_def)
  have "take ?n (drop (chunk_start c) w) ! ?i = w ! (chunk_start c + ?i)" using inside fits by simp
  then show ?thesis using bytes inside(2) by simp
qed

text \<open>C4: No byte is lost and none is kept twice. Follow a stream through any sequence of calls in which
  the reported acknowledgements and losses name outstanding ranges, until one side ends it. Every byte
  accepted from the application is then either acknowledged, or it is in exactly one chunk of the
  stream, waiting or in flight, with its value; an acknowledged byte is in none. The same holds of
  the FIN.\<close>

theorem no_byte_lost:
  assumes "followed k es (newStreamLayer localParameters server) freshGhost = Some (s, g)"
    and "length (g_written g) < 2 ^ 62"
  shows "case map_find k (m_outgoing s) of
      None \<Rightarrow> \<forall>j < length (g_written g). j \<in> g_acked g
    | Some st \<Rightarrow>
        (\<forall>j < length (g_written g). holders j (chunks_of st) = (if j \<in> g_acked g then 0 else 1)) \<and>
        (\<forall>c \<in> set (chunks_of st). \<forall>j. covers j c \<longrightarrow> chunk_bytes c ! (j - chunk_start c) = g_written g ! j) \<and>
        finals (chunks_of st) = (if out_finalOffset st = None \<or> g_finAcked g then 0 else 1)"
proof -
  have inv: "sending_inv k g (send_side s)"
    using followed_inv [OF assms(1) new_sender_ok new_sending] assms(2) by (simp add: kMaximumStreamLength_def)
  show ?thesis
  proof (cases "map_find k (m_outgoing s)")
    case None
    then show ?thesis using inv by (auto simp: sending_inv_def freshGhost_def)
  next
    case (Some st)
    then have books: "stream_books k g st" using inv by (simp add: sending_inv_def)
    have "\<forall>j < length (g_written g). holders j (chunks_of st) = (if j \<in> g_acked g then 0 else 1)"
    proof (intro allI impI)
      fix j assume "j < length (g_written g)"
      from books_holders [OF books this] show "holders j (chunks_of st) = (if j \<in> g_acked g then 0 else 1)"
        by (simp split: if_splits)
    qed
    moreover have "\<forall>c \<in> set (chunks_of st). \<forall>j. covers j c \<longrightarrow> chunk_bytes c ! (j - chunk_start c) = g_written g ! j"
      using ok_value [OF books_chunk [OF books]] by blast
    moreover have "finals (chunks_of st) = (if out_finalOffset st = None \<or> g_finAcked g then 0 else 1)"
      using books_finals [OF books] by (auto split: if_splits)
    ultimately show ?thesis using Some by simp
  qed
qed

text \<open>Three bytes with a FIN on a stream of the client, not yet sent.\<close>

theorem no_byte_lost_witness:
  "\<exists>s g st. followed 4 [AdoptParameters exampleParameters, WriteData 4 [1, 2, 3] True]
      (newStreamLayer exampleParameters True) freshGhost = Some (s, g) \<and>
    map_find 4 (m_outgoing s) = Some st \<and> holders 1 (chunks_of st) = 1 \<and> finals (chunks_of st) = 1"
proof -
  let ?g = "freshGhost\<lparr>g_written := [1, 2, 3]\<rparr>"
  have run: "followed 4 [AdoptParameters exampleParameters, WriteData 4 [1, 2, 3] True]
      (newStreamLayer exampleParameters True) freshGhost = Some (exampleWritten, ?g)"
    unfolding followed.simps layerStep.simps noteEvent.simps exampleLayer_def [symmetric] exampleAdopted_def [symmetric]
    by (simp add: example_write freshGhost_def)
  have found: "map_find 4 (m_outgoing exampleWritten) = Some (withChunk [1, 2, 3] True (freshOutgoing\<lparr>out_streamLimit := 8\<rparr>))"
    by (simp add: exampleWritten_def map_find_def)
  have "length (g_written ?g) < 2 ^ 62" by simp
  from no_byte_lost [OF run this]
  have "holders 1 (chunks_of (withChunk [1, 2, 3] True (freshOutgoing\<lparr>out_streamLimit := 8\<rparr>))) = 1 \<and>
      finals (chunks_of (withChunk [1, 2, 3] True (freshOutgoing\<lparr>out_streamLimit := 8\<rparr>))) = 1"
    unfolding found by (simp add: freshGhost_def) (simp add: withChunk_def)
  then show ?thesis using run found by blast
qed

end
