(* ===== verification/HpackInteger.thy ===== *)
theory HpackInteger
  imports WordShift
begin

text \<open>
  Integers of HPACK, \<open>src/Net/Http2/Hpack.cpp\<close>: a prefix of 1 to 8 bits in the first byte and,
  where the prefix is full, continuation bytes of seven bits, the low ones first (RFC 7541 section
  5.1). The number a sequence of bytes stands for, without any bound, is \<open>hpackIntegerValue\<close>.
\<close>

section \<open>The code\<close>

definition hpackPrefixMaximum :: "nat \<Rightarrow> u64" where
  "hpackPrefixMaximum prefixBitCount = push_bit prefixBitCount 1 - 1"

definition hpackPrefixMask :: "nat \<Rightarrow> byte" where
  "hpackPrefixMask prefixBitCount = ucast (hpackPrefixMaximum prefixBitCount)"

lemma unat_div_128: "unat ((r :: u64) div 128) = unat r div 128" "unat (r mod 128) = unat r mod 128"
  by (simp_all add: unat_div_distrib unat_mod_distrib)

function appendHpackContinuation :: "bytes \<Rightarrow> u64 \<Rightarrow> bytes" where
  "appendHpackContinuation out remainingValue =
     (if remainingValue \<ge> 128
      then appendHpackContinuation (out @ [ucast (remainingValue mod 128 + 128)]) (remainingValue div 128)
      else out @ [ucast remainingValue])"
  by pat_completeness auto
termination
  by (relation "measure (unat \<circ> snd)") (auto simp: unat_div_128 word_le_nat_alt)

declare appendHpackContinuation.simps [simp del]

definition appendHpackInteger :: "bytes \<Rightarrow> u64 \<Rightarrow> nat \<Rightarrow> byte \<Rightarrow> appended" where
  "appendHpackInteger out value prefixBitCount firstByteHighBits =
     (if prefixBitCount < 1 \<or> prefixBitCount > 8 then Inl (InvalidArgumentException out)
      else let prefixMaximumValue = hpackPrefixMaximum prefixBitCount;
               prefixMask = hpackPrefixMask prefixBitCount in
        if firstByteHighBits AND prefixMask \<noteq> 0 then Inl (InvalidArgumentException out)
        else if value < prefixMaximumValue then Inr (out @ [firstByteHighBits OR ucast value])
        else Inr (appendHpackContinuation (out @ [firstByteHighBits OR prefixMask])
                    (value - prefixMaximumValue)))"

definition encodeHpackInteger :: "u64 \<Rightarrow> nat \<Rightarrow> byte \<Rightarrow> appended" where
  "encodeHpackInteger value prefixBitCount firstByteHighBits =
     appendHpackInteger [] value prefixBitCount firstByteHighBits"

function decodeHpackContinuation :: "bytes \<Rightarrow> u64 \<Rightarrow> nat \<Rightarrow> nat \<Rightarrow> (u64 \<times> nat) option" where
  "decodeHpackContinuation bs value consumedByteCount shiftBitCount =
     (if consumedByteCount \<ge> length bs then None
      else let continuationByte = bs ! consumedByteCount;
               consumedByteCount = consumedByteCount + 1;
               payloadBits = ucast (continuationByte AND 0x7F) :: u64 in
        if payloadBits > drop_bit shiftBitCount (- 1) then None
        else let value = value + push_bit shiftBitCount payloadBits in
          if continuationByte AND 0x80 = 0 then Some (value, consumedByteCount)
          else let shiftBitCount = shiftBitCount + 7 in
            if shiftBitCount > 63 then None
            else decodeHpackContinuation bs value consumedByteCount shiftBitCount)"
  by pat_completeness auto
termination
  by (relation "measure (\<lambda>(bs, value, consumedByteCount, shiftBitCount). length bs - consumedByteCount)") auto

declare decodeHpackContinuation.simps [simp del]

definition decodeHpackInteger :: "bytes \<Rightarrow> nat \<Rightarrow> (u64 \<times> nat) option" where
  "decodeHpackInteger bs prefixBitCount =
     (if prefixBitCount < 1 \<or> prefixBitCount > 8 then None
      else if bs = [] then None
      else let prefixMaximumValue = hpackPrefixMaximum prefixBitCount;
               value = ucast (bs ! 0 AND hpackPrefixMask prefixBitCount) in
        if value < prefixMaximumValue then Some (value, 1)
        else decodeHpackContinuation bs value 1 0)"

section \<open>The number a representation stands for\<close>

primrec continuationValue :: "bytes \<Rightarrow> nat" where
  "continuationValue [] = 0"
| "continuationValue (b # bs) = unat b mod 128 + 128 * continuationValue bs"

definition hpackIntegerValue :: "nat \<Rightarrow> bytes \<Rightarrow> nat" where
  "hpackIntegerValue n bs = unat (hd bs) mod 2 ^ n + continuationValue (tl bs)"

lemma continuationValue_append:
  "continuationValue (xs @ ys) = continuationValue xs + 128 ^ length xs * continuationValue ys"
  by (induction xs) (auto simp: algebra_simps)

lemma prefix_cases:
  assumes "1 \<le> n" "n \<le> (8 :: nat)"
  obtains "n = 1" | "n = 2" | "n = 3" | "n = 4" | "n = 5" | "n = 6" | "n = 7" | "n = 8"
  using assms by linarith

lemma prefix_values:
  assumes "1 \<le> n" "n \<le> 8"
  shows "unat (hpackPrefixMaximum n) = 2 ^ n - 1" "hpackPrefixMask n = mask n"
    "unat (hpackPrefixMask n) = 2 ^ n - 1"
  by (rule prefix_cases [OF assms];
      simp add: hpackPrefixMask_def hpackPrefixMaximum_def mask_eq_exp_minus_1)+

lemma payload_value: "unat (ucast ((c :: byte) AND 0x7F) :: u64) = unat c mod 128"
proof -
  have "(0x7F :: byte) = mask 7" by (simp add: mask_eq_exp_minus_1)
  then have "unat (c AND 0x7F) = unat c mod 2 ^ 7"
    by (simp only: unat_and_mask)
  moreover from this have "unat (ucast (c AND 0x7F) :: u64) = unat (c AND 0x7F)"
    by (simp add: unsigned_ucast_eq take_bit_nat_eq_self)
  ultimately show ?thesis by simp
qed

lemma unat_ucast_small:
  "unat (v :: 'a :: len word) < 2 ^ LENGTH('b) \<Longrightarrow> unat (ucast v :: 'b :: len word) = unat v"
  by (simp add: unsigned_ucast_eq unsigned_take_bit_eq take_bit_nat_eq_self)

lemma masked_byte:
  assumes "1 \<le> n" "n \<le> 8"
  shows "unat (ucast ((c :: byte) AND hpackPrefixMask n) :: u64) = unat c mod 2 ^ n"
proof -
  have "unat (c AND hpackPrefixMask n) = unat c mod 2 ^ n"
    by (simp only: prefix_values(2) [OF assms] unat_and_mask)
  moreover have "unat (c AND hpackPrefixMask n) < 2 ^ 64"
    using unat_byte_bound [of "c AND hpackPrefixMask n"] by simp
  ultimately show ?thesis
    by (simp add: unsigned_ucast_eq take_bit_nat_eq_self)
qed

lemma pattern_kept:
  assumes "high AND m = 0" "(x :: 'a :: len word) AND m = x"
  shows "(high OR x) AND NOT m = high"
proof (rule bit_word_eqI)
  fix i
  assume "i < LENGTH('a)"
  moreover have "\<not> (bit high i \<and> bit m i)" using assms(1) by (metis bit_and_iff bit_0_eq bot_apply bot_bool_def)
  moreover have "bit x i \<Longrightarrow> bit m i" using assms(2) by (metis bit_and_iff)
  ultimately show "bit ((high OR x) AND NOT m) i = bit high i" by (auto simp: bit_simps)
qed

lemma full_prefix_byte:
  assumes "1 \<le> n" "n \<le> 8" "high AND hpackPrefixMask n = 0"
  shows "(ucast ((high OR hpackPrefixMask n) AND hpackPrefixMask n) :: u64) = hpackPrefixMaximum n"
    "unat (high OR hpackPrefixMask n) mod 2 ^ n = 2 ^ n - 1"
    "(high OR hpackPrefixMask n) AND NOT (hpackPrefixMask n) = high"
proof -
  show "(high OR hpackPrefixMask n) AND NOT (hpackPrefixMask n) = high"
    by (rule pattern_kept [OF assms(3)]) simp
  have eq: "(high OR hpackPrefixMask n) AND hpackPrefixMask n = hpackPrefixMask n"
    by (simp add: bit.conj_disj_distrib2 assms(3))
  have "unat (hpackPrefixMask n) < 2 ^ 64"
    by (rule less_trans [OF unat_byte_bound]) simp
  then have "unat (ucast (hpackPrefixMask n) :: u64) = unat (hpackPrefixMaximum n)"
    unfolding prefix_values(1) [OF assms(1,2)] prefix_values(3) [OF assms(1,2), symmetric]
    by (intro unat_ucast_small) simp
  then show "(ucast ((high OR hpackPrefixMask n) AND hpackPrefixMask n) :: u64) = hpackPrefixMaximum n"
    unfolding eq word_unat_eq_iff .
  have "unat ((high OR hpackPrefixMask n) AND hpackPrefixMask n) = unat (high OR hpackPrefixMask n) mod 2 ^ n"
    unfolding prefix_values(2) [OF assms(1,2)] by (rule unat_and_mask)
  then show "unat (high OR hpackPrefixMask n) mod 2 ^ n = 2 ^ n - 1"
    unfolding eq by (simp only: prefix_values(3) [OF assms(1,2)])
qed

lemma prefix_byte:
  assumes "1 \<le> n" "n \<le> 8" "high AND hpackPrefixMask n = 0" "v < hpackPrefixMaximum n"
  shows "(ucast ((high OR ucast v) AND hpackPrefixMask n) :: u64) = v" "unat (high OR ucast v) mod 2 ^ n = unat v"
    "(high OR ucast v) AND NOT (hpackPrefixMask n) = high"
proof -
  have small: "unat v < 2 ^ n" "unat v < 256"
    using assms(4) prefix_values(1) [OF assms(1,2)] power_increasing [OF assms(2), of "2 :: nat"]
    by (simp_all add: word_less_nat_alt)
  then have cast: "unat (ucast v :: byte) = unat v"
    by (intro unat_ucast_small) simp
  have "(ucast v :: byte) AND hpackPrefixMask n = ucast v"
    by (rule word_unat_eq_iff [THEN iffD2])
      (simp add: prefix_values(2) [OF assms(1,2)] unat_and_mask cast small)
  then show "(high OR ucast v) AND NOT (hpackPrefixMask n) = high"
    by (rule pattern_kept [OF assms(3)])
  from \<open>(ucast v :: byte) AND hpackPrefixMask n = ucast v\<close> have eq: "(high OR ucast v) AND hpackPrefixMask n = ucast v"
    by (simp add: bit.conj_disj_distrib2 assms(3))
  show "(ucast ((high OR ucast v) AND hpackPrefixMask n) :: u64) = v"
    unfolding eq word_unat_eq_iff using small(2)
    by (subst unat_ucast_small) (simp_all add: cast)
  have "unat ((high OR ucast v) AND hpackPrefixMask n) = unat (high OR ucast v) mod 2 ^ n"
    unfolding prefix_values(2) [OF assms(1,2)] by (rule unat_and_mask)
  then show "unat (high OR ucast v) mod 2 ^ n = unat v"
    unfolding eq cast by simp
qed

lemma high_bit_clear: "(c :: byte) AND 0x80 = 0 \<longleftrightarrow> unat c < 128"
proof -
  have "\<forall>i < (256::nat). ((of_nat i :: byte) AND 0x80 = 0 \<longleftrightarrow> i < 128)"
    by code_simp
  from this [rule_format, of "unat c"] show ?thesis
    by (simp add: unat_byte_bound)
qed

lemma fits_shifted:
  assumes "shift < 64"
  shows "payload > drop_bit shift (- 1 :: u64) \<longleftrightarrow> unat payload * 2 ^ shift \<ge> 2 ^ 64"
proof -
  have "unat (- 1 :: u64) = 2 ^ 64 - 1" by (simp add: unsigned_minus_1_eq_mask mask_eq_exp_minus_1)
  then have "unat (drop_bit shift (- 1 :: u64)) = (2 ^ 64 - 1) div 2 ^ shift"
    by (simp only: unat_drop)
  moreover have "(2 ^ 64 - 1) div 2 ^ shift < unat payload \<longleftrightarrow> 2 ^ 64 - 1 < unat payload * 2 ^ shift"
    by (simp only: div_less_iff_less_mult zero_less_power zero_less_numeral)
  ultimately show ?thesis
    by (auto simp: word_less_nat_alt)
qed

definition continuationBytes :: "u64 \<Rightarrow> bytes" where
  "continuationBytes r = appendHpackContinuation [] r"

lemma appendHpackContinuation_eq: "appendHpackContinuation out r = out @ continuationBytes r"
proof -
  have "appendHpackContinuation (out @ more) r = out @ appendHpackContinuation more r" for more
  proof (induction more r arbitrary: out rule: appendHpackContinuation.induct)
    case (1 more r)
    show ?case
    proof (cases "r \<ge> 128")
      case True
      then show ?thesis
        using 1 [OF True, of out]
        unfolding appendHpackContinuation.simps [of "out @ more" r] appendHpackContinuation.simps [of more r]
        by simp
    next
      case False
      then show ?thesis
        unfolding appendHpackContinuation.simps [of "out @ more" r] appendHpackContinuation.simps [of more r]
        by simp
    qed
  qed
  from this [of "[]"] show ?thesis by (simp add: continuationBytes_def)
qed

lemma continuationBytes_rec:
  "continuationBytes r = (if r \<ge> 128 then ucast (r mod 128 + 128) # continuationBytes (r div 128) else [ucast r])"
  unfolding continuationBytes_def
  unfolding appendHpackContinuation.simps [of "[]" r] appendHpackContinuation_eq [of "[] @ _"]
  by (simp add: continuationBytes_def)

lemma continuation_bytes_values:
  "unat (ucast (r mod 128 + 128 :: u64) :: byte) = unat r mod 128 + 128"
  "r < 128 \<Longrightarrow> unat (ucast r :: byte) = unat r"
proof -
  have "unat (r mod 128 + 128) = unat r mod 128 + 128"
    by (subst unat_add_lem [THEN iffD1]) (simp_all add: unat_div_128)
  then show "unat (ucast (r mod 128 + 128 :: u64) :: byte) = unat r mod 128 + 128"
    by (simp add: unsigned_ucast_eq take_bit_nat_eq_self)
  show "unat (ucast r :: byte) = unat r" if "r < 128"
    using that by (simp add: unsigned_ucast_eq take_bit_nat_eq_self word_less_nat_alt)
qed

lemma continuation_induct [case_names more last]:
  assumes "\<And>r :: u64. r \<ge> 128 \<Longrightarrow> P (r div 128) \<Longrightarrow> P r" "\<And>r. r < 128 \<Longrightarrow> P r"
  shows "P r"
proof (induction "unat r" arbitrary: r rule: less_induct)
  case less
  show ?case
  proof (cases "r \<ge> 128")
    case True
    then have "unat (r div 128) < unat r" by (simp add: unat_div_128 word_le_nat_alt)
    then show ?thesis using less assms(1) True by blast
  next
    case False
    then show ?thesis using assms(2) by simp
  qed
qed

lemma continuationValue_bytes: "continuationValue (continuationBytes r) = unat r"
proof (induction r rule: continuation_induct)
  case (more r)
  then show ?case
    by (subst continuationBytes_rec) (simp add: continuation_bytes_values(1) unat_div_128 del: ucast_bintr)
next
  case (last r)
  then have "unat r mod 128 = unat r" by (simp add: word_less_nat_alt)
  moreover have "\<not> 128 \<le> r" using last by simp
  ultimately show ?case
    using last by (subst continuationBytes_rec) (simp add: continuation_bytes_values(2))
qed

text \<open>Reading on: what the loop adds, and what it returns.\<close>

lemma decode_continuation:
  assumes "bs = front @ continuationBytes r @ rest" "consumed = length front"
    "shift < 64" "unat sofar + unat r * 2 ^ shift < 2 ^ 64"
  shows "decodeHpackContinuation bs sofar consumed shift
    = Some (sofar + push_bit shift r, consumed + length (continuationBytes r))"
  using assms
proof (induction r arbitrary: front sofar consumed shift rule: continuation_induct)
  case (more r)
  let ?c = "ucast (r mod 128 + 128) :: byte" let ?p = "ucast (?c AND 0x7F) :: u64"
  have split: "continuationBytes r = ?c # continuationBytes (r div 128)"
    using more.hyps by (subst continuationBytes_rec) simp
  have c: "unat ?c = unat r mod 128 + 128" by (rule continuation_bytes_values(1))
  have p: "unat ?p = unat r mod 128" by (simp only: payload_value c) simp
  have r: "unat r = unat r mod 128 + 128 * (unat r div 128)" by simp
  have le: "unat r mod 128 * 2 ^ shift \<le> unat r * 2 ^ shift" by simp
  have small: "unat sofar + unat r mod 128 * 2 ^ shift < 2 ^ 64" using more.prems(4) le by linarith
  have fits: "\<not> ?p > drop_bit shift (- 1)"
    unfolding fits_shifted [OF more.prems(3)] p using small by linarith
  have pushed: "unat (push_bit shift ?p) = unat r mod 128 * 2 ^ shift"
    using small unfolding p [symmetric]
    by (subst unsigned_push_bit_eq) (simp add: push_bit_eq_mult take_bit_nat_eq_self)
  let ?sofar = "sofar + push_bit shift ?p"
  have sofar: "unat ?sofar = unat sofar + unat r mod 128 * 2 ^ shift"
    using small pushed by (simp add: unat_plus_simple [THEN iffD1] word_le_nat_alt unat_word_ariths)
  have "128 * 2 ^ shift \<le> unat r * 2 ^ shift"
    using more.hyps by (simp add: word_le_nat_alt)
  then have "128 * 2 ^ shift < (2 :: nat) ^ 64"
    using more.prems(4) by linarith
  then have "2 ^ (shift + 7) < (2 :: nat) ^ 64"
    by (simp only: power_add) simp
  then have shift: "shift + 7 < 64" by (rule power_less_imp_less_exp [rotated]) simp
  have "decodeHpackContinuation bs ?sofar (consumed + 1) (shift + 7)
      = Some (?sofar + push_bit (shift + 7) (r div 128), consumed + 1 + length (continuationBytes (r div 128)))"
  proof (rule more.IH)
    show "bs = (front @ [?c]) @ continuationBytes (r div 128) @ rest"
      using more.prems(1) split by simp
    show "consumed + 1 = length (front @ [?c])" using more.prems(2) by simp
    show "shift + 7 < 64" by (rule shift)
    have "unat r * 2 ^ shift = unat r mod 128 * 2 ^ shift + unat r div 128 * 2 ^ (shift + 7)"
    proof -
      have "unat r * 2 ^ shift = (unat r mod 128 + 128 * (unat r div 128)) * 2 ^ shift"
        by (simp only: r [symmetric])
      then show ?thesis by (simp only: power_add distrib_right) simp
    qed
    then show "unat ?sofar + unat (r div 128) * 2 ^ (shift + 7) < 2 ^ 64"
      using more.prems(4) by (simp only: sofar unat_div_128)
  qed
  moreover have "push_bit shift ?p + push_bit (shift + 7) (r div 128) = push_bit shift r"
  proof -
    have "?p = r mod 128" by (rule word_unat_eq_iff [THEN iffD2]) (simp only: p unat_div_128)
    then have "push_bit shift ?p + push_bit (shift + 7) (r div 128) = (r mod 128 + r div 128 * 128) * 2 ^ shift"
      by (simp add: push_bit_eq_mult power_add algebra_simps)
    then show ?thesis by (simp add: push_bit_eq_mult mod_div_mult_eq)
  qed
  moreover have "bs ! consumed = ?c" "\<not> length bs \<le> consumed"
    using more.prems(1,2) split by (simp_all add: nth_append)
  moreover have "?c AND 0x80 \<noteq> 0"
    unfolding high_bit_clear c by simp
  ultimately show ?case
    unfolding decodeHpackContinuation.simps [of bs sofar consumed shift] split
    using fits shift by (simp add: Let_def add.assoc)
next
  case (last r)
  let ?c = "ucast r :: byte" let ?p = "ucast (?c AND 0x7F) :: u64"
  have single: "continuationBytes r = [?c]"
    using last.hyps by (subst continuationBytes_rec) (simp add: linorder_not_le [symmetric])
  have c: "unat ?c = unat r" "unat r < 128"
    using continuation_bytes_values(2) [OF last.hyps] last.hyps by (simp_all add: word_less_nat_alt)
  have "?p = r"
    by (rule word_unat_eq_iff [THEN iffD2]) (simp only: payload_value c(1), simp add: c(2))
  moreover have "\<not> r > drop_bit shift (- 1)"
    unfolding fits_shifted [OF last.prems(3)] using last.prems(4) by linarith
  moreover have "bs ! consumed = ?c" "\<not> length bs \<le> consumed"
    using last.prems(1,2) single by (simp_all add: nth_append)
  moreover have "?c AND 0x80 = 0"
    unfolding high_bit_clear using c by simp
  ultimately show ?case
    unfolding decodeHpackContinuation.simps [of bs sofar consumed shift] single
    by (simp add: Let_def)
qed

lemma decode_continuation_value:
  assumes "decodeHpackContinuation bs sofar consumed shift = Some (v, n)" "shift < 64"
  shows "consumed < n \<and> n \<le> length bs \<and>
    unat v = (unat sofar + 2 ^ shift * continuationValue (take (n - consumed) (drop consumed bs))) mod 2 ^ 64"
  using assms
proof (induction bs sofar consumed shift rule: decodeHpackContinuation.induct)
  case (1 bs sofar consumed shift)
  let ?c = "bs ! consumed" let ?p = "ucast (?c AND 0x7F) :: u64"
  let ?sofar = "sofar + push_bit shift ?p"
  have c: "consumed < length bs" "\<not> ?p > drop_bit shift (- 1)"
    using 1(2) by (simp_all add: decodeHpackContinuation.simps [of bs sofar] Let_def split: if_splits)
  have p: "unat ?p = unat ?c mod 128" by (rule payload_value)
  have pushed: "unat (push_bit shift ?p) = unat ?c mod 128 * 2 ^ shift"
    using c(2) unfolding fits_shifted [OF 1(3)] p [symmetric]
    by (subst unsigned_push_bit_eq) (simp add: push_bit_eq_mult take_bit_nat_eq_self)
  have sofar: "unat ?sofar = (unat sofar + 2 ^ shift * (unat ?c mod 128)) mod 2 ^ 64"
    by (simp add: unat_word_ariths pushed mult.commute)
  have dropped: "drop consumed bs = ?c # drop (Suc consumed) bs"
    using c(1) by (simp add: Cons_nth_drop_Suc)
  show ?case
  proof (cases "?c AND 0x80 = 0")
    case True
    then have "v = ?sofar" "n = Suc consumed"
      using 1(2) c by (auto simp add: decodeHpackContinuation.simps [of bs sofar] Let_def)
    then show ?thesis using c(1) sofar dropped by simp
  next
    case False
    then have rest: "decodeHpackContinuation bs ?sofar (consumed + 1) (shift + 7) = Some (v, n)" "shift + 7 < 64"
      using 1(2) c by (auto simp add: decodeHpackContinuation.simps [of bs sofar] Let_def split: if_splits)
    have IH: "consumed + 1 < n \<and> n \<le> length bs \<and>
      unat v = (unat ?sofar + 2 ^ (shift + 7) * continuationValue (take (n - (consumed + 1)) (drop (consumed + 1) bs))) mod 2 ^ 64"
      by (rule 1(1) [OF _ refl refl refl _ refl False refl _ rest]) (use c rest in auto)
    moreover from this have "take (n - consumed) (drop consumed bs) = ?c # take (n - (consumed + 1)) (drop (consumed + 1) bs)"
      unfolding dropped by (simp add: Suc_diff_Suc [symmetric])
    ultimately show ?thesis
      unfolding sofar mod_add_left_eq by (simp add: power_add algebra_simps)
  qed
qed

lemma decodeHpackInteger_value:
  assumes "decodeHpackInteger bs n = Some (v, k)"
  shows "0 < k \<and> k \<le> length bs \<and> unat v = hpackIntegerValue n (take k bs) mod 2 ^ 64"
proof -
  have n: "1 \<le> n" "n \<le> 8" and bs: "bs \<noteq> []"
    using assms by (auto simp: decodeHpackInteger_def Let_def split: if_splits)
  let ?v = "ucast (bs ! 0 AND hpackPrefixMask n) :: u64"
  have v: "unat ?v = unat (hd bs) mod 2 ^ n"
    using bs masked_byte [OF n] by (simp add: hd_conv_nth)
  have small: "unat (hd bs) mod 2 ^ n < 2 ^ 64"
    by (rule le_less_trans [OF mod_less_eq_dividend less_trans [OF unat_byte_bound]]) simp
  show ?thesis
  proof (cases "?v < hpackPrefixMaximum n")
    case True
    then have "v = ?v" "k = 1"
      using assms n bs by (simp_all add: decodeHpackInteger_def Let_def)
    then show ?thesis using bs v small by (cases bs) (auto simp: hpackIntegerValue_def)
  next
    case False
    then have "decodeHpackContinuation bs ?v 1 0 = Some (v, k)"
      using assms n bs by (simp add: decodeHpackInteger_def Let_def)
    from decode_continuation_value [OF this]
    have k: "1 < k" "k \<le> length bs"
      and "unat v = (unat ?v + continuationValue (take (k - 1) (drop 1 bs))) mod 2 ^ 64"
      by simp_all
    then show ?thesis
      using bs v by (cases bs; cases k) (auto simp: hpackIntegerValue_def)
  qed
qed

text \<open>What is written, read back; the bits above the prefix are those of the pattern.\<close>

lemma integer_written:
  assumes "1 \<le> n" "n \<le> 8" "high AND hpackPrefixMask n = 0"
  obtains bs where "\<And>out. appendHpackInteger out v n high = Inr (out @ bs)" "bs \<noteq> []"
    "\<And>rest. decodeHpackInteger (bs @ rest) n = Some (v, length bs)"
    "hpackIntegerValue n bs = unat v" "hd bs AND NOT (hpackPrefixMask n) = high"
proof (cases "v < hpackPrefixMaximum n")
  case True
  let ?b = "high OR ucast v"
  have b: "(ucast (?b AND hpackPrefixMask n) :: u64) = v" "unat ?b mod 2 ^ n = unat v"
    "?b AND NOT (hpackPrefixMask n) = high"
    using prefix_byte [OF assms True] by simp_all
  show ?thesis
    by (rule that [of "[?b]"])
      (use assms True b in \<open>auto simp: appendHpackInteger_def decodeHpackInteger_def Let_def hpackIntegerValue_def\<close>)
next
  case False
  let ?b = "high OR hpackPrefixMask n" let ?r = "v - hpackPrefixMaximum n"
  let ?bs = "?b # continuationBytes ?r"
  have b: "(ucast (?b AND hpackPrefixMask n) :: u64) = hpackPrefixMaximum n" "unat ?b mod 2 ^ n = 2 ^ n - 1"
    "?b AND NOT (hpackPrefixMask n) = high"
    using full_prefix_byte [OF assms] by simp_all
  have r: "unat (hpackPrefixMaximum n) + unat ?r = unat v"
  proof -
    have le: "hpackPrefixMaximum n \<le> v" using False by simp
    then show ?thesis unfolding unat_sub [OF le] by (simp add: word_le_nat_alt)
  qed
  show ?thesis
  proof (rule that [of ?bs])
    fix rest
    have "decodeHpackContinuation (?bs @ rest) (hpackPrefixMaximum n) 1 0
        = Some (hpackPrefixMaximum n + push_bit 0 ?r, 1 + length (continuationBytes ?r))"
      by (rule decode_continuation [where front = "[?b]" and rest = rest])
        (use r unat_u64_bound [of v] in auto)
    then show "decodeHpackInteger (?bs @ rest) n = Some (v, length ?bs)"
      using assms b(1) by (simp add: decodeHpackInteger_def Let_def)
  next
    fix out
    show "appendHpackInteger out v n high = Inr (out @ ?bs)"
      using assms False by (simp add: appendHpackInteger_def Let_def appendHpackContinuation_eq)
  next
    show "hpackIntegerValue n ?bs = unat v"
      using r b(2) prefix_values(1) [OF assms(1,2)] by (simp add: hpackIntegerValue_def continuationValue_bytes)
  qed (simp_all add: b(3))
qed

section \<open>What the integers promise\<close>

text \<open>
  Every number is written so that it is read back, whatever follows it, and what is written stands for
  it by the rule of RFC 7541.
\<close>

theorem hpack_integer_roundtrip:
  assumes "1 \<le> n" "n \<le> 8" "high AND hpackPrefixMask n = 0"
  shows "\<exists>bs. appendHpackInteger out v n high = Inr (out @ bs) \<and> bs \<noteq> [] \<and>
    decodeHpackInteger (bs @ rest) n = Some (v, length bs) \<and> hpackIntegerValue n bs = unat v"
  using integer_written [OF assms, of v] by metis

lemma hpack_integer_roundtrip_witness:
  "\<exists>bs. appendHpackInteger [] 1337 5 0x20 = Inr ([] @ bs) \<and> bs \<noteq> [] \<and>
    decodeHpackInteger (bs @ [0x85]) 5 = Some (1337, length bs) \<and> hpackIntegerValue 5 bs = unat (1337 :: u64)"
  by (rule hpack_integer_roundtrip) (simp_all add: hpackPrefixMask_def hpackPrefixMaximum_def)

text \<open>
  The decoder returns the number it has read modulo \<open>2 ^ 64\<close>, and where that number is too large it
  does not always notice: a full prefix and ten continuation bytes that add up to
  \<open>2 ^ 64 + 2 ^ n - 2\<close> are accepted as \<open>2 ^ n - 2\<close>.
\<close>

theorem hpack_integer_wraps:
  assumes "1 \<le> n" "n \<le> 8"
  shows "(\<forall>bs v k. decodeHpackInteger bs n = Some (v, k) \<longrightarrow>
      0 < k \<and> k \<le> length bs \<and> unat v = hpackIntegerValue n (take k bs) mod 2 ^ 64)
    \<and> (\<exists>bs. hpackIntegerValue n bs = 2 ^ 64 + 2 ^ n - 2 \<and>
      decodeHpackInteger bs n = Some (2 ^ n - 2, length bs))"
proof (intro conjI allI impI)
  fix bs v k
  assume decoded: "decodeHpackInteger bs n = Some (v, k)"
  then show "0 < k" "k \<le> length bs" "unat v = hpackIntegerValue n (take k bs) mod 2 ^ 64"
    using decodeHpackInteger_value [OF decoded] by auto
next
  have nine: "replicate 9 b = [b, b, b, b, b, b, b, b, b :: byte]" for b
    by (simp add: numeral_eq_Suc)
  let ?bs = "mask n # replicate 9 0xFF @ [1] :: bytes"
  have "hpackIntegerValue n ?bs = 2 ^ 64 + 2 ^ n - 2"
    by (rule prefix_cases [OF assms];
        simp add: hpackIntegerValue_def mask_eq_exp_minus_1 nine)
  moreover have "decodeHpackInteger ?bs n = Some (2 ^ n - 2, length ?bs)"
    by (rule prefix_cases [OF assms]; hypsubst; code_simp)
  ultimately show "\<exists>bs. hpackIntegerValue n bs = 2 ^ 64 + 2 ^ n - 2 \<and>
      decodeHpackInteger bs n = Some (2 ^ n - 2, length bs)"
    by blast
qed

lemma hpack_integer_wraps_witness:
  "(\<forall>bs v k. decodeHpackInteger bs 7 = Some (v, k) \<longrightarrow>
      0 < k \<and> k \<le> length bs \<and> unat v = hpackIntegerValue 7 (take k bs) mod 2 ^ 64)
    \<and> (\<exists>bs. hpackIntegerValue 7 bs = 2 ^ 64 + 2 ^ 7 - 2 \<and>
      decodeHpackInteger bs 7 = Some (2 ^ 7 - 2, length bs))"
  by (rule hpack_integer_wraps) simp_all

end
