(* ===== verification/HpackStatic.thy ===== *)
theory HpackStatic
  imports Base64 "HOL-Library.List_Lexorder" "HOL-Library.Multiset"
begin

text \<open>
  The static table of HPACK and its name index, \<open>src/Net/Http2/Hpack.h\<close> and \<open>Hpack.cpp\<close>. The table
  is not in alphabetical order; the entries that share a name stand together, and an index of these
  runs, sorted at compile time, is searched by bisection. What is found is what a scan of the table
  from its beginning would find.
\<close>

section \<open>The table\<close>

record HpackStaticTableEntry =
  entry_name :: bytes
  entry_value :: bytes

record HpackStaticNameRun =
  run_name :: bytes
  firstEntryIndex :: nat
  entryCount :: nat

definition staticEntry :: "string \<Rightarrow> string \<Rightarrow> HpackStaticTableEntry" where
  "staticEntry name value = \<lparr>entry_name = characters name, entry_value = characters value\<rparr>"

definition kHpackStaticTable :: "HpackStaticTableEntry list" where
  "kHpackStaticTable =
     [staticEntry '':authority'' '''',
      staticEntry '':method'' ''GET'',
      staticEntry '':method'' ''POST'',
      staticEntry '':path'' ''/'',
      staticEntry '':path'' ''/index.html'',
      staticEntry '':scheme'' ''http'',
      staticEntry '':scheme'' ''https'',
      staticEntry '':status'' ''200'',
      staticEntry '':status'' ''204'',
      staticEntry '':status'' ''206'',
      staticEntry '':status'' ''304'',
      staticEntry '':status'' ''400'',
      staticEntry '':status'' ''404'',
      staticEntry '':status'' ''500'',
      staticEntry ''accept-charset'' '''',
      staticEntry ''accept-encoding'' ''gzip, deflate'',
      staticEntry ''accept-language'' '''',
      staticEntry ''accept-ranges'' '''',
      staticEntry ''accept'' '''',
      staticEntry ''access-control-allow-origin'' '''',
      staticEntry ''age'' '''',
      staticEntry ''allow'' '''',
      staticEntry ''authorization'' '''',
      staticEntry ''cache-control'' '''',
      staticEntry ''content-disposition'' '''',
      staticEntry ''content-encoding'' '''',
      staticEntry ''content-language'' '''',
      staticEntry ''content-length'' '''',
      staticEntry ''content-location'' '''',
      staticEntry ''content-range'' '''',
      staticEntry ''content-type'' '''',
      staticEntry ''cookie'' '''',
      staticEntry ''date'' '''',
      staticEntry ''etag'' '''',
      staticEntry ''expect'' '''',
      staticEntry ''expires'' '''',
      staticEntry ''from'' '''',
      staticEntry ''host'' '''',
      staticEntry ''if-match'' '''',
      staticEntry ''if-modified-since'' '''',
      staticEntry ''if-none-match'' '''',
      staticEntry ''if-range'' '''',
      staticEntry ''if-unmodified-since'' '''',
      staticEntry ''last-modified'' '''',
      staticEntry ''link'' '''',
      staticEntry ''location'' '''',
      staticEntry ''max-forwards'' '''',
      staticEntry ''proxy-authenticate'' '''',
      staticEntry ''proxy-authorization'' '''',
      staticEntry ''range'' '''',
      staticEntry ''referer'' '''',
      staticEntry ''refresh'' '''',
      staticEntry ''retry-after'' '''',
      staticEntry ''server'' '''',
      staticEntry ''set-cookie'' '''',
      staticEntry ''strict-transport-security'' '''',
      staticEntry ''transfer-encoding'' '''',
      staticEntry ''user-agent'' '''',
      staticEntry ''vary'' '''',
      staticEntry ''via'' '''',
      staticEntry ''www-authenticate'' '''']"

section \<open>The runs of equal names\<close>

definition countHpackStaticNameRuns :: nat where
  "countHpackStaticNameRuns =
     fold (\<lambda>entryIndex runCount.
       if entryIndex = 0 \<or> entry_name (kHpackStaticTable ! entryIndex) \<noteq> entry_name (kHpackStaticTable ! (entryIndex - 1))
       then Suc runCount else runCount) [0..<length kHpackStaticTable] 0"

definition countHpackStaticDistinctNames :: nat where
  "countHpackStaticDistinctNames =
     fold (\<lambda>entryIndex distinctCount.
       if list_ex (\<lambda>earlierIndex. entry_name (kHpackStaticTable ! earlierIndex) = entry_name (kHpackStaticTable ! entryIndex))
            [0..<entryIndex]
       then distinctCount else Suc distinctCount) [0..<length kHpackStaticTable] 0"

text \<open>\<open>buildHpackStaticNameRuns\<close>: the inner loop finds the last entry of a run, the outer one collects the
  runs; then an insertion sort by name.\<close>

function lastOfRun :: "HpackStaticTableEntry list \<Rightarrow> nat \<Rightarrow> nat \<Rightarrow> nat" where
  "lastOfRun table first entryIndex =
     (if entryIndex + 1 < length table \<and> entry_name (table ! (entryIndex + 1)) = entry_name (table ! first)
      then lastOfRun table first (entryIndex + 1) else entryIndex)"
  by pat_completeness auto
termination by (relation "measure (\<lambda>(table, first, entryIndex). length table - entryIndex)") auto

declare lastOfRun.simps [simp del]

lemma lastOfRun_ge: "entryIndex \<le> lastOfRun table first entryIndex"
proof (induction table first entryIndex rule: lastOfRun.induct)
  case (1 table first entryIndex)
  then show ?case by (subst lastOfRun.simps) (auto dest: Suc_leD)
qed

function nameRunsFrom :: "HpackStaticTableEntry list \<Rightarrow> nat \<Rightarrow> HpackStaticNameRun list" where
  "nameRunsFrom table entryIndex =
     (if entryIndex < length table
      then let lastIndex = lastOfRun table entryIndex entryIndex in
        \<lparr>run_name = entry_name (table ! entryIndex), firstEntryIndex = entryIndex, entryCount = lastIndex - entryIndex + 1\<rparr>
        # nameRunsFrom table (lastIndex + 1)
      else [])"
  by pat_completeness auto
termination
  by (relation "measure (\<lambda>(table, entryIndex). length table - entryIndex)")
    (auto simp: lastOfRun_ge less_Suc_eq_le intro!: diff_less_mono2)

declare nameRunsFrom.simps [simp del]

fun shiftRuns :: "HpackStaticNameRun list \<Rightarrow> HpackStaticNameRun \<Rightarrow> nat \<Rightarrow> HpackStaticNameRun list" where
  "shiftRuns runs moving 0 = runs[0 := moving]"
| "shiftRuns runs moving (Suc before) =
     (if run_name (runs ! before) > run_name moving
      then shiftRuns (runs[Suc before := runs ! before]) moving before
      else runs[Suc before := moving])"

definition sortNameRuns :: "HpackStaticNameRun list \<Rightarrow> HpackStaticNameRun list" where
  "sortNameRuns runs = fold (\<lambda>insertIndex runs. shiftRuns runs (runs ! insertIndex) insertIndex) [1..<length runs] runs"

definition buildHpackStaticNameRuns :: "HpackStaticNameRun list" where
  "buildHpackStaticNameRuns = sortNameRuns (nameRunsFrom kHpackStaticTable 0)"

section \<open>Looking up\<close>

text \<open>\<open>std::ranges::lower_bound\<close> over the names of the runs.\<close>

function lowerBoundByName :: "HpackStaticNameRun list \<Rightarrow> bytes \<Rightarrow> nat \<Rightarrow> nat \<Rightarrow> nat" where
  "lowerBoundByName runs name first remaining =
     (if remaining = 0 then first
      else let half = remaining div 2 in
        if run_name (runs ! (first + half)) < name
        then lowerBoundByName runs name (first + half + 1) (remaining - half - 1)
        else lowerBoundByName runs name first half)"
  by pat_completeness auto
termination by (relation "measure (\<lambda>(runs, name, first, remaining). remaining)") auto

declare lowerBoundByName.simps [simp del]

definition findHpackStaticNameRun :: "bytes \<Rightarrow> HpackStaticNameRun option" where
  "findHpackStaticNameRun name =
     (let runs = buildHpackStaticNameRuns; location = lowerBoundByName runs name 0 (length runs) in
      if location = length runs \<or> run_name (runs ! location) \<noteq> name then None else Some (runs ! location))"

definition findHpackStaticExactIndex :: "HpackStaticNameRun option \<Rightarrow> bytes \<Rightarrow> nat" where
  "findHpackStaticExactIndex run value =
     (case run of None \<Rightarrow> 0
      | Some run \<Rightarrow>
          (case find (\<lambda>offset. entry_value (kHpackStaticTable ! (firstEntryIndex run + offset)) = value) [0..<entryCount run] of
             None \<Rightarrow> 0
           | Some offset \<Rightarrow> firstEntryIndex run + offset + 1))"

definition findHpackStaticTableIndex :: "bytes \<Rightarrow> bytes \<Rightarrow> nat" where
  "findHpackStaticTableIndex name value = findHpackStaticExactIndex (findHpackStaticNameRun name) value"

definition findHpackStaticTableNameIndex :: "bytes \<Rightarrow> nat" where
  "findHpackStaticTableNameIndex name =
     (case findHpackStaticNameRun name of None \<Rightarrow> 0 | Some run \<Rightarrow> firstEntryIndex run + 1)"

section \<open>The runs cover the table\<close>

lemma static_table_length: "length kHpackStaticTable = 61"
  by (simp add: kHpackStaticTable_def)

definition static_names :: "bytes list" where
  "static_names = map entry_name kHpackStaticTable"

lemma names_distinct: "distinct (remdups_adj static_names)"
  by code_simp

lemma runs_counted:
  "fold (\<lambda>i n. if i = 0 \<or> xs ! i \<noteq> xs ! (i - 1) then Suc n else n) [0..<length xs] 0 = length (remdups_adj xs)"
proof (induction xs rule: rev_induct)
  case (snoc x xs)
  let ?f = "\<lambda>xs i n. if i = 0 \<or> xs ! i \<noteq> xs ! (i - 1) then Suc n else n"
  have "fold (?f (xs @ [x])) [0..<length xs] 0 = fold (?f xs) [0..<length xs] (0 :: nat)"
    by (intro fold_cong) (auto simp: nth_append fun_eq_iff)
  then show ?case
    using snoc by (cases xs rule: rev_cases) (auto simp: nth_append remdups_adj_append_two)
qed simp

lemma distinct_counted:
  "fold (\<lambda>i n. if list_ex (\<lambda>j. xs ! j = xs ! i) [0..<i] then n else Suc n) [0..<length xs] 0 = card (set xs)"
proof (induction xs rule: rev_induct)
  case (snoc x xs)
  let ?f = "\<lambda>xs i n. if list_ex (\<lambda>j. xs ! j = xs ! i) [0..<i] then n else Suc n"
  have "fold (?f (xs @ [x])) [0..<length xs] 0 = fold (?f xs) [0..<length xs] (0 :: nat)"
    by (intro fold_cong) (auto simp: nth_append fun_eq_iff list_ex_iff)
  then show ?case
    using snoc by (auto simp: nth_append list_ex_iff card_insert_if in_set_conv_nth)
qed simp

text \<open>The compile-time assertion of the header.\<close>

lemma equal_names_stand_together: "countHpackStaticNameRuns = countHpackStaticDistinctNames"
proof -
  have "countHpackStaticNameRuns
      = fold (\<lambda>i n. if i = 0 \<or> static_names ! i \<noteq> static_names ! (i - 1) then Suc n else n) [0..<length static_names] 0"
    unfolding countHpackStaticNameRuns_def by (intro fold_cong) (auto simp: static_names_def)
  moreover have "countHpackStaticDistinctNames
      = fold (\<lambda>i n. if list_ex (\<lambda>j. static_names ! j = static_names ! i) [0..<i] then n else Suc n) [0..<length static_names] 0"
    unfolding countHpackStaticDistinctNames_def
    by (intro fold_cong) (auto simp: static_names_def list_ex_iff fun_eq_iff)
  moreover have "card (set static_names) = length (remdups_adj static_names)"
    using distinct_card [OF names_distinct] by simp
  ultimately show ?thesis by (simp only: runs_counted distinct_counted)
qed

lemma remdups_adj_replicate_append:
  assumes "ys = [] \<or> hd ys \<noteq> x"
  shows "remdups_adj (replicate (Suc n) x @ ys) = x # remdups_adj ys"
proof (induction n)
  case 0
  then show ?case using assms by (cases ys) auto
qed simp

lemma lastOfRun_spec:
  assumes "entryIndex < length table" "entry_name (table ! entryIndex) = entry_name (table ! first)"
  defines "n \<equiv> lastOfRun table first entryIndex"
  shows "n < length table \<and> (\<forall>i. entryIndex \<le> i \<and> i \<le> n \<longrightarrow> entry_name (table ! i) = entry_name (table ! first))
    \<and> (n + 1 < length table \<longrightarrow> entry_name (table ! (n + 1)) \<noteq> entry_name (table ! first))"
  using assms(1,2) unfolding n_def
proof (induction table first entryIndex rule: lastOfRun.induct)
  case (1 table first e)
  show ?case
  proof (cases "e + 1 < length table \<and> entry_name (table ! (e + 1)) = entry_name (table ! first)")
    case True
    then have eq: "lastOfRun table first e = lastOfRun table first (e + 1)"
      by (subst lastOfRun.simps) simp
    have "entry_name (table ! i) = entry_name (table ! first)"
      if "e \<le> i" "i \<le> lastOfRun table first (e + 1)" for i
    proof (cases "i = e")
      case True
      then show ?thesis using 1(3) by blast
    next
      case False
      then have "e + 1 \<le> i" using that(1) by simp
      then show ?thesis using 1(1) [OF True] True that(2) by blast
    qed
    moreover note 1(1) [OF True conjunct1 [OF True] conjunct2 [OF True]]
    ultimately show ?thesis unfolding eq by blast
  next
    case False
    then have "lastOfRun table first e = e"
      unfolding lastOfRun.simps [of table first e] by (simp only: if_False)
    moreover have "i = e" if "e \<le> i" "i \<le> e" for i using that by simp
    ultimately show ?thesis using 1(2,3) False by metis
  qed
qed

definition run_ok :: "HpackStaticTableEntry list \<Rightarrow> HpackStaticNameRun \<Rightarrow> bool" where
  "run_ok table r \<longleftrightarrow> firstEntryIndex r + entryCount r \<le> length table \<and> 0 < entryCount r \<and>
     (\<forall>i < entryCount r. entry_name (table ! (firstEntryIndex r + i)) = run_name r)"

lemma nameRuns_ok:
  "\<forall>r \<in> set (nameRunsFrom table e). run_ok table r"
proof (induction table e rule: nameRunsFrom.induct)
  case (1 table e)
  show ?case
  proof (cases "e < length table")
    case True
    let ?n = "lastOfRun table e e"
    have n: "?n < length table" "e \<le> ?n" "\<And>i. e \<le> i \<Longrightarrow> i \<le> ?n \<Longrightarrow> entry_name (table ! i) = entry_name (table ! e)"
      using lastOfRun_spec [OF True refl] lastOfRun_ge by blast+
    have "run_ok table \<lparr>run_name = entry_name (table ! e), firstEntryIndex = e, entryCount = ?n - e + 1\<rparr>"
      unfolding run_ok_def using n(1,2)
      by (simp, intro allI impI n(3)) simp_all
    then show ?thesis
      using 1 [OF True refl] True by (subst nameRunsFrom.simps) (auto simp: Let_def)
  qed (subst nameRunsFrom.simps, simp)
qed

lemma nameRuns_cover:
  "\<forall>i. e \<le> i \<and> i < length table \<longrightarrow>
    (\<exists>r \<in> set (nameRunsFrom table e). firstEntryIndex r \<le> i \<and> i < firstEntryIndex r + entryCount r)"
proof (induction table e rule: nameRunsFrom.induct)
  case (1 table e)
  show ?case
  proof (intro allI impI)
    fix i
    assume i: "e \<le> i \<and> i < length table"
    then have e: "e < length table" by simp
    let ?n = "lastOfRun table e e"
    have n: "e \<le> ?n" by (rule lastOfRun_ge)
    show "\<exists>r \<in> set (nameRunsFrom table e). firstEntryIndex r \<le> i \<and> i < firstEntryIndex r + entryCount r"
    proof (cases "i \<le> ?n")
      case True
      then show ?thesis using i n e by (subst nameRunsFrom.simps) (auto simp: Let_def)
    next
      case False
      then have "?n + 1 \<le> i \<and> i < length table" using i by simp
      from 1 [OF e refl, rule_format, OF this] show ?thesis
        using e by (subst nameRunsFrom.simps) (auto simp: Let_def)
    qed
  qed
qed

lemma nameRuns_names: "map run_name (nameRunsFrom table e) = remdups_adj (drop e (map entry_name table))"
proof (induction table e rule: nameRunsFrom.induct)
  case (1 table e)
  show ?case
  proof (cases "e < length table")
    case True
    let ?n = "lastOfRun table e e" let ?x = "entry_name (table ! e)"
    have n: "?n < length table" "e \<le> ?n"
      and same: "\<And>i. e \<le> i \<Longrightarrow> i \<le> ?n \<Longrightarrow> entry_name (table ! i) = ?x"
      and different: "?n + 1 < length table \<Longrightarrow> entry_name (table ! (?n + 1)) \<noteq> ?x"
      using lastOfRun_spec [OF True refl] lastOfRun_ge by blast+
    have "drop e (map entry_name table) = replicate (Suc (?n - e)) ?x @ drop (?n + 1) (map entry_name table)"
    proof (rule nth_equalityI)
      fix i
      assume "i < length (drop e (map entry_name table))"
      then show "drop e (map entry_name table) ! i = (replicate (Suc (?n - e)) ?x @ drop (?n + 1) (map entry_name table)) ! i"
      proof (cases "i \<le> ?n - e")
        case True
        then have "entry_name (table ! (e + i)) = ?x" using n by (intro same) linarith+
        then show ?thesis
          using True \<open>i < _\<close> by (simp add: nth_append nth_replicate less_Suc_eq_le del: replicate_Suc)
      next
        case False
        then show ?thesis
          using \<open>i < _\<close> n(2) by (simp add: nth_append nth_replicate less_Suc_eq_le add.commute del: replicate_Suc)
      qed
    qed (use n True in auto)
    moreover have "drop (?n + 1) (map entry_name table) = [] \<or> hd (drop (?n + 1) (map entry_name table)) \<noteq> ?x"
      using different by (cases "?n + 1 < length table") (simp_all add: hd_drop_conv_nth)
    ultimately show ?thesis
      using 1 [OF True refl] True
      by (subst nameRunsFrom.simps) (simp add: Let_def remdups_adj_replicate_append del: replicate_Suc)
  qed (subst nameRunsFrom.simps, simp)
qed

section \<open>The index is sorted\<close>

abbreviation by_name :: "HpackStaticNameRun list \<Rightarrow> bool" where
  "by_name runs \<equiv> sorted (map run_name runs)"

lemma shiftRuns_inserts:
  assumes "by_name xs"
  shows "\<exists>zs. shiftRuns (xs @ hole # ys) moving (length xs) = zs @ ys \<and> by_name zs \<and> mset zs = add_mset moving (mset xs)"
  using assms
proof (induction xs arbitrary: hole ys rule: rev_induct)
  case (snoc x xs)
  have le: "run_name y \<le> run_name x" if "y \<in> set xs" for y
    using snoc.prems that by (auto simp: sorted_append)
  show ?case
  proof (cases "run_name x > run_name moving")
    case True
    obtain zs where zs: "shiftRuns (xs @ x # x # ys) moving (length xs) = zs @ x # ys" "by_name zs"
        "mset zs = add_mset moving (mset xs)"
      using snoc.IH [of x "x # ys"] snoc.prems by (auto simp: sorted_append)
    have "set zs = insert moving (set xs)"
      using arg_cong [OF zs(3), of set_mset] by simp
    then have "by_name (zs @ [x])"
      using zs(2) le True by (auto simp: sorted_append)
    moreover have "shiftRuns ((xs @ [x]) @ hole # ys) moving (length (xs @ [x])) = (zs @ [x]) @ ys"
      using True zs(1) by (simp add: nth_append list_update_append)
    ultimately show ?thesis using zs(3) by (intro exI [of _ "zs @ [x]"]) simp
  next
    case False
    then have "by_name (xs @ [x, moving])"
      using snoc.prems le by (auto simp: sorted_append intro: order.trans [of _ "run_name x"])
    moreover have "shiftRuns ((xs @ [x]) @ hole # ys) moving (length (xs @ [x])) = (xs @ [x, moving]) @ ys"
      using False by (simp add: nth_append list_update_append)
    ultimately show ?thesis by (intro exI [of _ "xs @ [x, moving]"]) simp
  qed
qed (auto simp: exI [of _ "[moving]"])

lemma sort_steps:
  assumes "0 < k" "k \<le> length runs"
  defines "rs \<equiv> fold (\<lambda>i runs. shiftRuns runs (runs ! i) i) [1..<k] runs"
  shows "length rs = length runs \<and> mset rs = mset runs \<and> by_name (take k rs)"
  using assms(1,2) unfolding rs_def
proof (induction k)
  case (Suc k)
  show ?case
  proof (cases "k = 0")
    case True
    then show ?thesis using Suc.prems by (cases runs) auto
  next
    case False
    let ?r = "fold (\<lambda>i runs. shiftRuns runs (runs ! i) i) [1..<k] runs"
    have IH: "length ?r = length runs" "mset ?r = mset runs" "by_name (take k ?r)"
      using Suc False by auto
    have k: "k < length ?r" using Suc.prems IH(1) by simp
    then have split: "?r = take k ?r @ ?r ! k # drop (Suc k) ?r" by (rule id_take_nth_drop)
    obtain zs where zs: "shiftRuns ?r (?r ! k) k = zs @ drop (Suc k) ?r" "by_name zs"
        "mset zs = add_mset (?r ! k) (mset (take k ?r))"
      using shiftRuns_inserts [OF IH(3), of "?r ! k" "drop (Suc k) ?r" "?r ! k"] k
      unfolding split [symmetric] by (auto simp: min_def)
    have len: "length zs = Suc k"
      using arg_cong [OF zs(3), of size] k by (simp add: min_def)
    have "mset ?r = mset (take k ?r @ ?r ! k # drop (Suc k) ?r)" using split by simp
    also have "\<dots> = mset (zs @ drop (Suc k) ?r)" using zs(3) by simp
    finally have "mset (zs @ drop (Suc k) ?r) = mset runs" using IH(2) by simp
    moreover have "fold (\<lambda>i runs. shiftRuns runs (runs ! i) i) [1..<Suc k] runs = zs @ drop (Suc k) ?r"
      using False zs(1) by simp
    moreover from this have "length (zs @ drop (Suc k) ?r) = length runs"
      using len k IH(1) by simp
    ultimately show ?thesis using zs(2) len by simp
  qed
qed simp

lemma sortNameRuns_spec: "mset (sortNameRuns runs) = mset runs" "by_name (sortNameRuns runs)"
proof -
  have "mset (sortNameRuns runs) = mset runs \<and> by_name (sortNameRuns runs)"
  proof (cases "runs = []")
    case True
    then show ?thesis by (simp add: sortNameRuns_def)
  next
    case False
    let ?rs = "sortNameRuns runs"
    have "length ?rs = length runs \<and> mset ?rs = mset runs \<and> by_name (take (length runs) ?rs)"
      unfolding sortNameRuns_def by (rule sort_steps) (use False in simp_all)
    moreover from this have "take (length runs) ?rs = ?rs" by simp
    ultimately show ?thesis by simp
  qed
  then show "mset (sortNameRuns runs) = mset runs" "by_name (sortNameRuns runs)" by simp_all
qed

lemma lowerBound_spec:
  assumes "by_name runs" "first + remaining \<le> length runs"
    "\<forall>i < first. run_name (runs ! i) < name"
    "\<forall>i. first + remaining \<le> i \<and> i < length runs \<longrightarrow> name \<le> run_name (runs ! i)"
  defines "p \<equiv> lowerBoundByName runs name first remaining"
  shows "p \<le> length runs \<and> (\<forall>i < p. run_name (runs ! i) < name) \<and>
    (\<forall>i. p \<le> i \<and> i < length runs \<longrightarrow> name \<le> run_name (runs ! i))"
  using assms(1-4) unfolding p_def
proof (induction runs name first remaining rule: lowerBoundByName.induct)
  case (1 runs name first remaining)
  show ?case
  proof (cases "remaining = 0")
    case True
    then show ?thesis using 1(3-6) by (subst (1 2 3) lowerBoundByName.simps) simp
  next
    case False
    let ?h = "remaining div 2"
    have h: "first + ?h < first + remaining" using False by simp
    have mono: "run_name (runs ! i) \<le> run_name (runs ! j)" if "i \<le> j" "j < length runs" for i j
      using sorted_nth_mono [OF 1(3), of i j] that by simp
    show ?thesis
    proof (cases "run_name (runs ! (first + ?h)) < name")
      case True
      have eq: "lowerBoundByName runs name first remaining = lowerBoundByName runs name (first + ?h + 1) (remaining - ?h - 1)"
        using False True by (subst lowerBoundByName.simps) (simp add: Let_def)
      have "\<forall>i < first + ?h + 1. run_name (runs ! i) < name"
      proof (intro allI impI)
        fix i
        assume "i < first + ?h + 1"
        then have "i \<le> first + ?h" by simp
        moreover have "first + ?h < length runs" using h 1(4) by simp
        ultimately have "run_name (runs ! i) \<le> run_name (runs ! (first + ?h))" by (rule mono)
        then show "run_name (runs ! i) < name" using True by (rule le_less_trans)
      qed
      then show ?thesis unfolding eq
        by (intro 1(1) [OF False refl True]) (use 1(3,4,6) h in auto)
    next
      case lower: False
      have eq: "lowerBoundByName runs name first remaining = lowerBoundByName runs name first ?h"
        using False lower by (subst lowerBoundByName.simps) (simp add: Let_def)
      have "\<forall>i. first + ?h \<le> i \<and> i < length runs \<longrightarrow> name \<le> run_name (runs ! i)"
        using mono [of "first + ?h"] lower by (meson linorder_not_less order.trans)
      then show ?thesis unfolding eq
        by (intro 1(2) [OF False refl lower]) (use 1(3,4,5) h in auto)
    qed
  qed
qed

section \<open>A lookup finds what a scan would find\<close>

text \<open>The index, counted from 1, of the first entry that satisfies a condition, and 0 where none does.\<close>

primrec firstMatch :: "('a \<Rightarrow> bool) \<Rightarrow> 'a list \<Rightarrow> nat" where
  "firstMatch P [] = 0"
| "firstMatch P (x # xs) = (if P x then 1 else if firstMatch P xs = 0 then 0 else Suc (firstMatch P xs))"

lemma firstMatch_at:
  assumes "i < length xs" "P (xs ! i)" "\<forall>j < i. \<not> P (xs ! j)"
  shows "firstMatch P xs = Suc i"
  using assms
proof (induction xs arbitrary: i)
  case (Cons x xs)
  then show ?case
  proof (cases i)
    case (Suc k)
    then have "firstMatch P xs = Suc k"
      using Cons.prems by (intro Cons.IH) auto
    then show ?thesis using Cons.prems Suc by auto
  qed simp
qed simp

lemma firstMatch_none: "\<forall>x \<in> set xs. \<not> P x \<Longrightarrow> firstMatch P xs = 0"
  by (induction xs) auto

lemma static_runs:
  defines "runs \<equiv> buildHpackStaticNameRuns"
  shows "by_name runs" "distinct (map run_name runs)" "\<forall>r \<in> set runs. run_ok kHpackStaticTable r"
    "\<forall>i < length kHpackStaticTable. \<exists>r \<in> set runs. firstEntryIndex r \<le> i \<and> i < firstEntryIndex r + entryCount r"
proof -
  have m: "mset runs = mset (nameRunsFrom kHpackStaticTable 0)"
    unfolding runs_def buildHpackStaticNameRuns_def by (rule sortNameRuns_spec)
  then have s: "set runs = set (nameRunsFrom kHpackStaticTable 0)" by (rule mset_eq_setD)
  show "by_name runs"
    unfolding runs_def buildHpackStaticNameRuns_def by (rule sortNameRuns_spec)
  have "distinct (map run_name (nameRunsFrom kHpackStaticTable 0))"
    unfolding nameRuns_names using names_distinct by (simp add: static_names_def)
  moreover have "mset (map run_name runs) = mset (map run_name (nameRunsFrom kHpackStaticTable 0))"
    using m by simp
  ultimately show "distinct (map run_name runs)"
    using mset_eq_imp_distinct_iff by blast
  show "\<forall>r \<in> set runs. run_ok kHpackStaticTable r" unfolding s by (rule nameRuns_ok)
  show "\<forall>i < length kHpackStaticTable. \<exists>r \<in> set runs. firstEntryIndex r \<le> i \<and> i < firstEntryIndex r + entryCount r"
    unfolding s using nameRuns_cover [of 0 kHpackStaticTable] by simp
qed

text \<open>The run found holds exactly the entries of the name.\<close>

lemma findRun_spec:
  "(case findHpackStaticNameRun name of
      None \<Rightarrow> \<forall>i < length kHpackStaticTable. entry_name (kHpackStaticTable ! i) \<noteq> name
    | Some r \<Rightarrow> run_ok kHpackStaticTable r \<and> run_name r = name \<and>
        (\<forall>i < length kHpackStaticTable. entry_name (kHpackStaticTable ! i) = name \<longrightarrow>
          firstEntryIndex r \<le> i \<and> i < firstEntryIndex r + entryCount r))"
proof -
  let ?runs = buildHpackStaticNameRuns
  let ?p = "lowerBoundByName ?runs name 0 (length ?runs)"
  note runs = static_runs
  have p: "?p \<le> length ?runs" "\<forall>i < ?p. run_name (?runs ! i) < name"
    "\<forall>i. ?p \<le> i \<and> i < length ?runs \<longrightarrow> name \<le> run_name (?runs ! i)"
    using lowerBound_spec [of ?runs 0 "length ?runs" name, OF runs(1)] by (simp_all add: not_less [symmetric])
  have home: "\<exists>r \<in> set ?runs. run_name r = name \<and> firstEntryIndex r \<le> i \<and> i < firstEntryIndex r + entryCount r"
    if "i < length kHpackStaticTable" "entry_name (kHpackStaticTable ! i) = name" for i
  proof -
    obtain r where r: "r \<in> set ?runs" "firstEntryIndex r \<le> i" "i < firstEntryIndex r + entryCount r"
      using runs(4) \<open>i < length kHpackStaticTable\<close> by blast
    moreover have "entry_name (kHpackStaticTable ! (firstEntryIndex r + (i - firstEntryIndex r))) = run_name r"
    proof -
      have "i - firstEntryIndex r < entryCount r" using r(2,3) by linarith
      then show ?thesis using runs(3) r(1) unfolding run_ok_def by blast
    qed
    ultimately show ?thesis using that(2) by auto
  qed
  have found: "?p < length ?runs \<and> ?runs ! ?p = r" if r: "r \<in> set ?runs" "run_name r = name" for r
  proof -
    obtain k where k: "k < length ?runs" "?runs ! k = r" using r(1) by (auto simp: in_set_conv_nth)
    have "?p \<le> k" using p(2) k r(2) by (metis less_irrefl not_less)
    then have lt: "?p < length ?runs" using k(1) by simp
    have "run_name (?runs ! ?p) \<le> run_name (?runs ! k)"
      using sorted_nth_mono [OF runs(1), of ?p k] \<open>?p \<le> k\<close> k(1) lt by simp
    moreover have "name \<le> run_name (?runs ! ?p)" using p(3) lt by blast
    ultimately have "run_name (?runs ! ?p) = run_name (?runs ! k)" using k(2) r(2) by simp
    then have "?p = k"
      using nth_eq_iff_index_eq [OF runs(2), of ?p k] lt k(1) by simp
    then show ?thesis using k by simp
  qed
  show ?thesis
  proof (cases "findHpackStaticNameRun name")
    case None
    then have "?p = length ?runs \<or> run_name (?runs ! ?p) \<noteq> name"
      by (auto simp: findHpackStaticNameRun_def Let_def split: if_splits)
    then have "\<forall>r \<in> set ?runs. run_name r \<noteq> name" using found by fastforce
    then show ?thesis using None home by fastforce
  next
    case (Some r)
    then have r: "r = ?runs ! ?p" "?p \<noteq> length ?runs" "run_name r = name"
      by (auto simp: findHpackStaticNameRun_def Let_def split: if_splits)
    then have "r \<in> set ?runs" using p(1) by simp
    moreover have "firstEntryIndex r \<le> i \<and> i < firstEntryIndex r + entryCount r"
      if "i < length kHpackStaticTable" "entry_name (kHpackStaticTable ! i) = name" for i
      using home [OF that] found r(1) by auto
    ultimately show ?thesis using Some r(3) runs(3) by simp
  qed
qed

text \<open>
  The bisection over the sorted runs finds exactly what a scan of the static table from its
  beginning finds: the first entry with the name and the value, the first entry with the name, or nothing.
\<close>

theorem hpack_static_lookup_is_scan:
  "findHpackStaticTableIndex name val
     = firstMatch (\<lambda>e. entry_name e = name \<and> entry_value e = val) kHpackStaticTable
   \<and> findHpackStaticTableNameIndex name = firstMatch (\<lambda>e. entry_name e = name) kHpackStaticTable"
proof (cases "findHpackStaticNameRun name")
  case None
  then have "\<forall>e \<in> set kHpackStaticTable. entry_name e \<noteq> name"
    using findRun_spec [of name] by (auto simp: in_set_conv_nth)
  then show ?thesis
    using None by (simp add: findHpackStaticTableIndex_def findHpackStaticExactIndex_def
        findHpackStaticTableNameIndex_def firstMatch_none)
next
  case (Some r)
  let ?t = kHpackStaticTable let ?f = "firstEntryIndex r" let ?n = "entryCount r"
  have r: "?f + ?n \<le> length ?t" "0 < ?n" "\<And>i. i < ?n \<Longrightarrow> entry_name (?t ! (?f + i)) = name"
    and only: "\<And>i. i < length ?t \<Longrightarrow> entry_name (?t ! i) = name \<Longrightarrow> ?f \<le> i \<and> i < ?f + ?n"
    using findRun_spec [of name] Some by (auto simp: run_ok_def)
  have name: "firstMatch (\<lambda>e. entry_name e = name) ?t = Suc ?f"
  proof (rule firstMatch_at)
    show "?f < length ?t" "entry_name (?t ! ?f) = name" using r r(3) [of 0] by simp_all
    show "\<forall>j < ?f. entry_name (?t ! j) \<noteq> name"
    proof (intro allI impI notI)
      fix j
      assume j: "j < ?f" "entry_name (?t ! j) = name"
      then have "j < length ?t" using r(1) by simp
      then have "?f \<le> j" using only j(2) by blast
      then show False using j(1) by simp
    qed
  qed
  let ?hit = "\<lambda>offset. entry_value (?t ! (?f + offset)) = val"
  have "findHpackStaticTableIndex name val = firstMatch (\<lambda>e. entry_name e = name \<and> entry_value e = val) ?t"
  proof (cases "find ?hit [0..<?n]")
    case none: None
    then have miss: "\<not> ?hit i" if "i < ?n" for i using that by (auto simp: find_None_iff)
    have "\<not> (entry_name (?t ! i) = name \<and> entry_value (?t ! i) = val)" if "i < length ?t" for i
    proof
      assume e: "entry_name (?t ! i) = name \<and> entry_value (?t ! i) = val"
      then have "?f \<le> i \<and> i < ?f + ?n" using only that by blast
      moreover from this have "i - ?f < ?n" by linarith
      ultimately show False using miss [of "i - ?f"] e by simp
    qed
    then have "firstMatch (\<lambda>e. entry_name e = name \<and> entry_value e = val) ?t = 0"
      by (intro firstMatch_none ballI) (metis in_set_conv_nth)
    then show ?thesis
      using Some none by (simp add: findHpackStaticTableIndex_def findHpackStaticExactIndex_def)
  next
    case hit: (Some k)
    then have k: "k < ?n" "?hit k" "\<forall>j < k. \<not> ?hit j"
      by (auto simp: find_Some_iff)
    have "firstMatch (\<lambda>e. entry_name e = name \<and> entry_value e = val) ?t = Suc (?f + k)"
    proof (rule firstMatch_at)
      show "?f + k < length ?t" using k(1) r(1) by simp
      show "entry_name (?t ! (?f + k)) = name \<and> entry_value (?t ! (?f + k)) = val"
        using r(3) [OF k(1)] k(2) by simp
      show "\<forall>j < ?f + k. \<not> (entry_name (?t ! j) = name \<and> entry_value (?t ! j) = val)"
      proof (intro allI impI notI)
        fix j
        assume j: "j < ?f + k" "entry_name (?t ! j) = name \<and> entry_value (?t ! j) = val"
        then have "j < length ?t" using r(1) k(1) by simp
        then have "?f \<le> j" using only j(2) by blast
        moreover from this have "j - ?f < k" using j(1) by linarith
        ultimately show False using k(3) [rule_format, of "j - ?f"] j by simp
      qed
    qed
    then show ?thesis
      using Some hit by (simp add: findHpackStaticTableIndex_def findHpackStaticExactIndex_def)
  qed
  then show ?thesis
    using Some name by (simp add: findHpackStaticTableNameIndex_def)
qed

end
