(* ===== verification/HpackCode.thy ===== *)
theory HpackCode
  imports WordShift "HOL-Library.Sublist" "HOL-Library.Multiset"
begin

text \<open>
  The Huffman code of HPACK, the table of RFC 7541 in \<open>src/Net/Http2/Hpack.h\<close>: it is a complete
  prefix code. No codeword begins with another one, and every long enough string of bits begins with
  a codeword.
\<close>

section \<open>The code table\<close>

record HpackHuffmanCode =
  code_bits :: u32
  bitCount :: nat

definition huffmanCode :: "u32 \<Rightarrow> nat \<Rightarrow> HpackHuffmanCode" where
  "huffmanCode c n = \<lparr>code_bits = c, bitCount = n\<rparr>"

definition kHpackHuffmanEndOfStringSymbol :: nat where "kHpackHuffmanEndOfStringSymbol = 256"

definition kHpackHuffmanCodeTable :: "HpackHuffmanCode list" where
  "kHpackHuffmanCodeTable =
     [huffmanCode 0x00001FF8 13, huffmanCode 0x007FFFD8 23, huffmanCode 0x0FFFFFE2 28, huffmanCode 0x0FFFFFE3 28,
      huffmanCode 0x0FFFFFE4 28, huffmanCode 0x0FFFFFE5 28, huffmanCode 0x0FFFFFE6 28, huffmanCode 0x0FFFFFE7 28,
      huffmanCode 0x0FFFFFE8 28, huffmanCode 0x00FFFFEA 24, huffmanCode 0x3FFFFFFC 30, huffmanCode 0x0FFFFFE9 28,
      huffmanCode 0x0FFFFFEA 28, huffmanCode 0x3FFFFFFD 30, huffmanCode 0x0FFFFFEB 28, huffmanCode 0x0FFFFFEC 28,
      huffmanCode 0x0FFFFFED 28, huffmanCode 0x0FFFFFEE 28, huffmanCode 0x0FFFFFEF 28, huffmanCode 0x0FFFFFF0 28,
      huffmanCode 0x0FFFFFF1 28, huffmanCode 0x0FFFFFF2 28, huffmanCode 0x3FFFFFFE 30, huffmanCode 0x0FFFFFF3 28,
      huffmanCode 0x0FFFFFF4 28, huffmanCode 0x0FFFFFF5 28, huffmanCode 0x0FFFFFF6 28, huffmanCode 0x0FFFFFF7 28,
      huffmanCode 0x0FFFFFF8 28, huffmanCode 0x0FFFFFF9 28, huffmanCode 0x0FFFFFFA 28, huffmanCode 0x0FFFFFFB 28,
      huffmanCode 0x00000014 6, huffmanCode 0x000003F8 10, huffmanCode 0x000003F9 10, huffmanCode 0x00000FFA 12,
      huffmanCode 0x00001FF9 13, huffmanCode 0x00000015 6, huffmanCode 0x000000F8 8, huffmanCode 0x000007FA 11,
      huffmanCode 0x000003FA 10, huffmanCode 0x000003FB 10, huffmanCode 0x000000F9 8, huffmanCode 0x000007FB 11,
      huffmanCode 0x000000FA 8, huffmanCode 0x00000016 6, huffmanCode 0x00000017 6, huffmanCode 0x00000018 6,
      huffmanCode 0x00000000 5, huffmanCode 0x00000001 5, huffmanCode 0x00000002 5, huffmanCode 0x00000019 6,
      huffmanCode 0x0000001A 6, huffmanCode 0x0000001B 6, huffmanCode 0x0000001C 6, huffmanCode 0x0000001D 6,
      huffmanCode 0x0000001E 6, huffmanCode 0x0000001F 6, huffmanCode 0x0000005C 7, huffmanCode 0x000000FB 8,
      huffmanCode 0x00007FFC 15, huffmanCode 0x00000020 6, huffmanCode 0x00000FFB 12, huffmanCode 0x000003FC 10,
      huffmanCode 0x00001FFA 13, huffmanCode 0x00000021 6, huffmanCode 0x0000005D 7, huffmanCode 0x0000005E 7,
      huffmanCode 0x0000005F 7, huffmanCode 0x00000060 7, huffmanCode 0x00000061 7, huffmanCode 0x00000062 7,
      huffmanCode 0x00000063 7, huffmanCode 0x00000064 7, huffmanCode 0x00000065 7, huffmanCode 0x00000066 7,
      huffmanCode 0x00000067 7, huffmanCode 0x00000068 7, huffmanCode 0x00000069 7, huffmanCode 0x0000006A 7,
      huffmanCode 0x0000006B 7, huffmanCode 0x0000006C 7, huffmanCode 0x0000006D 7, huffmanCode 0x0000006E 7,
      huffmanCode 0x0000006F 7, huffmanCode 0x00000070 7, huffmanCode 0x00000071 7, huffmanCode 0x00000072 7,
      huffmanCode 0x000000FC 8, huffmanCode 0x00000073 7, huffmanCode 0x000000FD 8, huffmanCode 0x00001FFB 13,
      huffmanCode 0x0007FFF0 19, huffmanCode 0x00001FFC 13, huffmanCode 0x00003FFC 14, huffmanCode 0x00000022 6,
      huffmanCode 0x00007FFD 15, huffmanCode 0x00000003 5, huffmanCode 0x00000023 6, huffmanCode 0x00000004 5,
      huffmanCode 0x00000024 6, huffmanCode 0x00000005 5, huffmanCode 0x00000025 6, huffmanCode 0x00000026 6,
      huffmanCode 0x00000027 6, huffmanCode 0x00000006 5, huffmanCode 0x00000074 7, huffmanCode 0x00000075 7,
      huffmanCode 0x00000028 6, huffmanCode 0x00000029 6, huffmanCode 0x0000002A 6, huffmanCode 0x00000007 5,
      huffmanCode 0x0000002B 6, huffmanCode 0x00000076 7, huffmanCode 0x0000002C 6, huffmanCode 0x00000008 5,
      huffmanCode 0x00000009 5, huffmanCode 0x0000002D 6, huffmanCode 0x00000077 7, huffmanCode 0x00000078 7,
      huffmanCode 0x00000079 7, huffmanCode 0x0000007A 7, huffmanCode 0x0000007B 7, huffmanCode 0x00007FFE 15,
      huffmanCode 0x000007FC 11, huffmanCode 0x00003FFD 14, huffmanCode 0x00001FFD 13, huffmanCode 0x0FFFFFFC 28,
      huffmanCode 0x000FFFE6 20, huffmanCode 0x003FFFD2 22, huffmanCode 0x000FFFE7 20, huffmanCode 0x000FFFE8 20,
      huffmanCode 0x003FFFD3 22, huffmanCode 0x003FFFD4 22, huffmanCode 0x003FFFD5 22, huffmanCode 0x007FFFD9 23,
      huffmanCode 0x003FFFD6 22, huffmanCode 0x007FFFDA 23, huffmanCode 0x007FFFDB 23, huffmanCode 0x007FFFDC 23,
      huffmanCode 0x007FFFDD 23, huffmanCode 0x007FFFDE 23, huffmanCode 0x00FFFFEB 24, huffmanCode 0x007FFFDF 23,
      huffmanCode 0x00FFFFEC 24, huffmanCode 0x00FFFFED 24, huffmanCode 0x003FFFD7 22, huffmanCode 0x007FFFE0 23,
      huffmanCode 0x00FFFFEE 24, huffmanCode 0x007FFFE1 23, huffmanCode 0x007FFFE2 23, huffmanCode 0x007FFFE3 23,
      huffmanCode 0x007FFFE4 23, huffmanCode 0x001FFFDC 21, huffmanCode 0x003FFFD8 22, huffmanCode 0x007FFFE5 23,
      huffmanCode 0x003FFFD9 22, huffmanCode 0x007FFFE6 23, huffmanCode 0x007FFFE7 23, huffmanCode 0x00FFFFEF 24,
      huffmanCode 0x003FFFDA 22, huffmanCode 0x001FFFDD 21, huffmanCode 0x000FFFE9 20, huffmanCode 0x003FFFDB 22,
      huffmanCode 0x003FFFDC 22, huffmanCode 0x007FFFE8 23, huffmanCode 0x007FFFE9 23, huffmanCode 0x001FFFDE 21,
      huffmanCode 0x007FFFEA 23, huffmanCode 0x003FFFDD 22, huffmanCode 0x003FFFDE 22, huffmanCode 0x00FFFFF0 24,
      huffmanCode 0x001FFFDF 21, huffmanCode 0x003FFFDF 22, huffmanCode 0x007FFFEB 23, huffmanCode 0x007FFFEC 23,
      huffmanCode 0x001FFFE0 21, huffmanCode 0x001FFFE1 21, huffmanCode 0x003FFFE0 22, huffmanCode 0x001FFFE2 21,
      huffmanCode 0x007FFFED 23, huffmanCode 0x003FFFE1 22, huffmanCode 0x007FFFEE 23, huffmanCode 0x007FFFEF 23,
      huffmanCode 0x000FFFEA 20, huffmanCode 0x003FFFE2 22, huffmanCode 0x003FFFE3 22, huffmanCode 0x003FFFE4 22,
      huffmanCode 0x007FFFF0 23, huffmanCode 0x003FFFE5 22, huffmanCode 0x003FFFE6 22, huffmanCode 0x007FFFF1 23,
      huffmanCode 0x03FFFFE0 26, huffmanCode 0x03FFFFE1 26, huffmanCode 0x000FFFEB 20, huffmanCode 0x0007FFF1 19,
      huffmanCode 0x003FFFE7 22, huffmanCode 0x007FFFF2 23, huffmanCode 0x003FFFE8 22, huffmanCode 0x01FFFFEC 25,
      huffmanCode 0x03FFFFE2 26, huffmanCode 0x03FFFFE3 26, huffmanCode 0x03FFFFE4 26, huffmanCode 0x07FFFFDE 27,
      huffmanCode 0x07FFFFDF 27, huffmanCode 0x03FFFFE5 26, huffmanCode 0x00FFFFF1 24, huffmanCode 0x01FFFFED 25,
      huffmanCode 0x0007FFF2 19, huffmanCode 0x001FFFE3 21, huffmanCode 0x03FFFFE6 26, huffmanCode 0x07FFFFE0 27,
      huffmanCode 0x07FFFFE1 27, huffmanCode 0x03FFFFE7 26, huffmanCode 0x07FFFFE2 27, huffmanCode 0x00FFFFF2 24,
      huffmanCode 0x001FFFE4 21, huffmanCode 0x001FFFE5 21, huffmanCode 0x03FFFFE8 26, huffmanCode 0x03FFFFE9 26,
      huffmanCode 0x0FFFFFFD 28, huffmanCode 0x07FFFFE3 27, huffmanCode 0x07FFFFE4 27, huffmanCode 0x07FFFFE5 27,
      huffmanCode 0x000FFFEC 20, huffmanCode 0x00FFFFF3 24, huffmanCode 0x000FFFED 20, huffmanCode 0x001FFFE6 21,
      huffmanCode 0x003FFFE9 22, huffmanCode 0x001FFFE7 21, huffmanCode 0x001FFFE8 21, huffmanCode 0x007FFFF3 23,
      huffmanCode 0x003FFFEA 22, huffmanCode 0x003FFFEB 22, huffmanCode 0x01FFFFEE 25, huffmanCode 0x01FFFFEF 25,
      huffmanCode 0x00FFFFF4 24, huffmanCode 0x00FFFFF5 24, huffmanCode 0x03FFFFEA 26, huffmanCode 0x007FFFF4 23,
      huffmanCode 0x03FFFFEB 26, huffmanCode 0x07FFFFE6 27, huffmanCode 0x03FFFFEC 26, huffmanCode 0x03FFFFED 26,
      huffmanCode 0x07FFFFE7 27, huffmanCode 0x07FFFFE8 27, huffmanCode 0x07FFFFE9 27, huffmanCode 0x07FFFFEA 27,
      huffmanCode 0x07FFFFEB 27, huffmanCode 0x0FFFFFFE 28, huffmanCode 0x07FFFFEC 27, huffmanCode 0x07FFFFED 27,
      huffmanCode 0x07FFFFEE 27, huffmanCode 0x07FFFFEF 27, huffmanCode 0x07FFFFF0 27, huffmanCode 0x03FFFFEE 26,
      huffmanCode 0x3FFFFFFF 30]"

section \<open>The table is a complete prefix code\<close>

text \<open>The bits of a word from the most significant one down, and the codewords of the table.\<close>

definition word_bits :: "nat \<Rightarrow> 'a :: len word \<Rightarrow> bool list" where
  "word_bits n w = map (bit w) (rev [0..<n])"

definition codeword :: "nat \<Rightarrow> bool list" where
  "codeword s = word_bits (bitCount (kHpackHuffmanCodeTable ! s)) (code_bits (kHpackHuffmanCodeTable ! s))"

definition bits_value :: "bool list \<Rightarrow> nat" where
  "bits_value bs = digits_value 2 (map of_bool bs)"

text \<open>Read as binary fractions, the codewords in order of length cut the unit interval into adjoining
  pieces. They are sorted by length bit by bit.\<close>

definition code_pairs :: "(int \<times> nat) list" where
  "code_pairs = map (\<lambda>c. (uint (code_bits c), bitCount c)) kHpackHuffmanCodeTable"

primrec by_length :: "nat \<Rightarrow> nat \<Rightarrow> (int \<times> nat) list \<Rightarrow> (int \<times> nat) list" where
  "by_length 0 low cs = cs"
| "by_length (Suc k) low cs =
     by_length k low (filter (\<lambda>c. snd c < low + 2 ^ k) cs)
     @ by_length k (low + 2 ^ k) (filter (\<lambda>c. \<not> snd c < low + 2 ^ k) cs)"

primrec adjoining :: "int \<Rightarrow> (int \<times> nat) list \<Rightarrow> bool" where
  "adjoining x [] \<longleftrightarrow> x = 2 ^ 30"
| "adjoining x (c # cs) \<longleftrightarrow> fst c * 2 ^ (30 - snd c) = x \<and> adjoining (x + 2 ^ (30 - snd c)) cs"

lemma huffman_lengths: "list_all (\<lambda>c. 5 \<le> snd c \<and> snd c \<le> 30 \<and> fst c < 2 ^ snd c) code_pairs"
  by code_simp

lemma pieces_adjoin: "adjoining 0 (by_length 5 0 code_pairs)"
  by code_simp

lemma end_of_string_code: "last kHpackHuffmanCodeTable = huffmanCode 0x3FFFFFFF 30"
  by (simp add: kHpackHuffmanCodeTable_def)

lemma table_length: "length kHpackHuffmanCodeTable = 257"
  by (simp add: kHpackHuffmanCodeTable_def)

subsection \<open>Pieces of the unit interval\<close>

definition piece :: "int \<times> nat \<Rightarrow> int set" where
  "piece c = {fst c * 2 ^ (30 - snd c) ..< fst c * 2 ^ (30 - snd c) + 2 ^ (30 - snd c)}"

lemma adjoining_cover: "adjoining x cs \<Longrightarrow> x \<le> y \<Longrightarrow> y < 2 ^ 30 \<Longrightarrow> \<exists>c \<in> set cs. y \<in> piece c"
proof (induction cs arbitrary: x)
  case (Cons c cs)
  then show ?case by (cases "y < x + 2 ^ (30 - snd c)") (auto simp: piece_def)
qed simp

lemma adjoining_above: "adjoining x cs \<Longrightarrow> c \<in> set cs \<Longrightarrow> y \<in> piece c \<Longrightarrow> x \<le> y"
proof (induction cs arbitrary: x)
  case (Cons d cs)
  show ?case
  proof (cases "c = d")
    case False
    then have "x + 2 ^ (30 - snd d) \<le> y" using Cons by auto
    moreover have "0 < (2 :: int) ^ (30 - snd d)" by simp
    ultimately show ?thesis by linarith
  qed (use Cons.prems in \<open>auto simp: piece_def\<close>)
qed simp

lemma adjoining_apart:
  "adjoining x cs \<Longrightarrow> i < length cs \<Longrightarrow> j < length cs \<Longrightarrow> y \<in> piece (cs ! i) \<Longrightarrow> y \<in> piece (cs ! j) \<Longrightarrow> i = j"
proof (induction cs arbitrary: x i j)
  case (Cons c cs)
  have above: "x + 2 ^ (30 - snd c) \<le> y" if "k < length cs" "y \<in> piece (cs ! k)" for k
    using adjoining_above [of "x + 2 ^ (30 - snd c)" cs "cs ! k" y] Cons.prems(1) that by simp
  have below: "y < x + 2 ^ (30 - snd c)" if "y \<in> piece c"
    using that Cons.prems(1) by (auto simp: piece_def)
  show ?case
  proof (cases i)
    case 0
    then show ?thesis using Cons.prems above below by (cases j) fastforce+
  next
    case (Suc i')
    then show ?thesis
    proof (cases j)
      case 0
      then show ?thesis using Cons.prems above [of i'] below Suc by fastforce
    next
      case (Suc j')
      then show ?thesis using Cons.IH [of "x + 2 ^ (30 - snd c)" i' j'] Cons.prems \<open>i = Suc i'\<close> by simp
    qed
  qed
qed simp

lemma mset_by_length: "mset (by_length k low cs) = mset cs"
  by (induction k arbitrary: low cs) auto

text \<open>Equal pairs at two places would be one piece at two places.\<close>

lemma adjoining_distinct: "adjoining x cs \<Longrightarrow> distinct cs"
proof (unfold distinct_conv_nth, intro allI impI notI)
  fix i j
  assume "adjoining x cs" "i < length cs" "j < length cs" "i \<noteq> j" "cs ! i = cs ! j"
  moreover have "fst (cs ! i) * 2 ^ (30 - snd (cs ! i)) \<in> piece (cs ! i)" by (simp add: piece_def)
  ultimately show False using adjoining_apart [of x cs i j] by metis
qed

lemma code_pieces:
  "\<And>y. 0 \<le> y \<Longrightarrow> y < 2 ^ 30 \<Longrightarrow> \<exists>s < 257. y \<in> piece (code_pairs ! s)"
  "\<And>s t y. s < 257 \<Longrightarrow> t < 257 \<Longrightarrow> y \<in> piece (code_pairs ! s) \<Longrightarrow> y \<in> piece (code_pairs ! t) \<Longrightarrow> s = t"
proof -
  let ?cs = "by_length 5 0 code_pairs"
  have set: "set ?cs = set code_pairs" by (rule mset_eq_setD [OF mset_by_length])
  have dist: "distinct code_pairs"
    using adjoining_distinct [OF pieces_adjoin] mset_eq_imp_distinct_iff [OF mset_by_length] by blast
  have len: "length code_pairs = 257" by (simp add: code_pairs_def table_length)
  show "\<exists>s < 257. y \<in> piece (code_pairs ! s)" if "0 \<le> y" "y < 2 ^ 30" for y
    using adjoining_cover [OF pieces_adjoin that] unfolding set by (metis in_set_conv_nth len)
  show "s = t" if st: "s < 257" "t < 257" "y \<in> piece (code_pairs ! s)" "y \<in> piece (code_pairs ! t)" for s t y
  proof -
    have "code_pairs ! s \<in> set ?cs" "code_pairs ! t \<in> set ?cs" unfolding set using st len by simp_all
    then obtain i j where "i < length ?cs" "?cs ! i = code_pairs ! s" "j < length ?cs" "?cs ! j = code_pairs ! t"
      by (auto simp: in_set_conv_nth)
    moreover from this have "i = j" using adjoining_apart [OF pieces_adjoin, of i j y] st by simp
    ultimately have "code_pairs ! s = code_pairs ! t" by simp
    then show "s = t" using nth_eq_iff_index_eq [OF dist] st(1,2) len by simp
  qed
qed

subsection \<open>Bit strings as numbers\<close>

lemma bits_value_append: "bits_value (xs @ ys) = bits_value xs * 2 ^ length ys + bits_value ys"
  by (simp add: bits_value_def digits_value_append)

lemma bits_value_bound: "bits_value bs < 2 ^ length bs"
  using digits_value_bound [of "map of_bool bs" 2] by (auto simp: bits_value_def)

lemma bits_value_inject: "length xs = length ys \<Longrightarrow> bits_value xs = bits_value ys \<Longrightarrow> xs = ys"
proof -
  assume eq: "length xs = length ys" "bits_value xs = bits_value ys"
  then have "map of_bool xs = (map of_bool ys :: nat list)"
    by (intro digits_value_inject [where base = 2]) (auto simp: bits_value_def)
  then show "xs = ys" by (rule map_injective) (auto simp: inj_on_def)
qed

lemma length_word_bits [simp]: "length (word_bits n w) = n"
  by (simp add: word_bits_def)

lemma word_bits_Suc: "word_bits (Suc n) w = bit w n # word_bits n w"
  by (simp add: word_bits_def)

lemma bits_value_word: "n \<le> LENGTH('a) \<Longrightarrow> bits_value (word_bits n (w :: 'a :: len word)) = take_bit n (unat w)"
proof (induction n)
  case (Suc n)
  have "bits_value (word_bits (Suc n) w) = of_bool (bit w n) * 2 ^ n + bits_value (word_bits n w)"
    by (simp add: word_bits_Suc bits_value_def)
  then show ?case
    using Suc by (simp add: take_bit_Suc_from_most bit_unsigned_iff)
qed (simp add: word_bits_def bits_value_def)

lemma prefix_iff_piece:
  assumes "length c = n" "n \<le> 30" "length q = 30"
  shows "prefix c q \<longleftrightarrow> int (bits_value q) \<in> piece (int (bits_value c), n)"
proof -
  let ?m = "30 - n"
  have q: "bits_value q = bits_value (take n q) * 2 ^ ?m + bits_value (drop n q)"
    using bits_value_append [of "take n q" "drop n q"] assms by simp
  have r: "bits_value (drop n q) < 2 ^ ?m" using bits_value_bound [of "drop n q"] assms by simp
  have "prefix c q \<longleftrightarrow> take n q = c"
    using assms(1) by (auto simp: prefix_def take_append) (metis append_take_drop_id)
  also have "\<dots> \<longleftrightarrow> bits_value (take n q) = bits_value c"
    using bits_value_inject [of "take n q" c] assms by auto
  also have "\<dots> \<longleftrightarrow> bits_value c * 2 ^ ?m \<le> bits_value q \<and> bits_value q < (bits_value c + 1) * 2 ^ ?m"
  proof
    assume "bits_value c * 2 ^ ?m \<le> bits_value q \<and> bits_value q < (bits_value c + 1) * 2 ^ ?m"
    moreover have "bits_value q div 2 ^ ?m = bits_value (take n q)" using q r by simp
    ultimately show "bits_value (take n q) = bits_value c"
      by (metis Suc_eq_plus1 div_nat_eqI mult.commute)
  qed (use q r in auto)
  also have "\<dots> \<longleftrightarrow> int (bits_value q) \<in> piece (int (bits_value c), n)"
  proof -
    have "int (bits_value c) * 2 ^ ?m = int (bits_value c * 2 ^ ?m)"
      "int (bits_value c) * 2 ^ ?m + 2 ^ ?m = int ((bits_value c + 1) * 2 ^ ?m)" by simp_all
    then show ?thesis
      by (simp only: piece_def atLeastLessThan_iff fst_conv snd_conv of_nat_le_iff of_nat_less_iff)
  qed
  finally show ?thesis .
qed

subsection \<open>Codewords\<close>

lemma code_pair:
  assumes "s < 257"
  shows "5 \<le> length (codeword s)" "length (codeword s) \<le> 30"
    "code_pairs ! s = (int (bits_value (codeword s)), length (codeword s))"
proof -
  let ?c = "kHpackHuffmanCodeTable ! s"
  have pair: "code_pairs ! s = (uint (code_bits ?c), bitCount ?c)"
    using assms by (simp add: code_pairs_def table_length)
  have "code_pairs ! s \<in> set code_pairs"
    using assms by (intro nth_mem) (simp add: code_pairs_def table_length)
  then have n: "5 \<le> bitCount ?c" "bitCount ?c \<le> 30" "uint (code_bits ?c) < 2 ^ bitCount ?c"
    using huffman_lengths pair by (auto simp: list_all_iff)
  have len: "length (codeword s) = bitCount ?c" by (simp add: codeword_def)
  have "bits_value (codeword s) = take_bit (bitCount ?c) (unat (code_bits ?c))"
    using n(2) by (simp add: codeword_def bits_value_word)
  moreover have "unat (code_bits ?c) < 2 ^ bitCount ?c"
  proof -
    have "int (unat (code_bits ?c)) < int (2 ^ bitCount ?c)" using n(3) by simp
    then show ?thesis by (simp only: of_nat_less_iff)
  qed
  ultimately have "int (bits_value (codeword s)) = uint (code_bits ?c)"
    by (simp add: take_bit_nat_eq_self)
  then show "5 \<le> length (codeword s)" "length (codeword s) \<le> 30"
    "code_pairs ! s = (int (bits_value (codeword s)), length (codeword s))"
    using n len pair by simp_all
qed

lemma codeword_prefix_iff:
  assumes "s < 257" "length q = 30"
  shows "prefix (codeword s) q \<longleftrightarrow> int (bits_value q) \<in> piece (code_pairs ! s)"
  using prefix_iff_piece [OF refl _ assms(2)] code_pair [OF assms(1)] by metis

lemma codeword_prefix_free:
  assumes "s < 257" "t < 257" "prefix (codeword s) (codeword t)"
  shows "s = t"
proof -
  let ?q = "codeword t @ replicate (30 - length (codeword t)) False"
  have q: "length ?q = 30" using code_pair(2) [OF assms(2)] by simp
  have "prefix (codeword s) ?q" "prefix (codeword t) ?q" using assms(3) by (simp_all add: prefix_prefix)
  then show ?thesis
    using codeword_prefix_iff [OF _ q] code_pieces(2) assms(1,2) by metis
qed

lemma codeword_complete: "\<exists>s < 257. prefix (codeword s) (p @ replicate 30 False)"
proof -
  let ?q = "take 30 (p @ replicate 30 False)"
  have q: "length ?q = 30" by simp
  have "bits_value ?q < 2 ^ 30" using bits_value_bound [of ?q] q by simp
  then have "int (bits_value ?q) < 2 ^ 30" by simp
  then obtain s where "s < 257" "int (bits_value ?q) \<in> piece (code_pairs ! s)"
    using code_pieces(1) [of "int (bits_value ?q)"] by auto
  then have "prefix (codeword s) ?q" using codeword_prefix_iff [OF _ q] by blast
  then show ?thesis using \<open>s < 257\<close> take_is_prefix prefix_order.trans by blast
qed

lemma end_of_string_codeword: "codeword 256 = replicate 30 True"
proof -
  have "kHpackHuffmanCodeTable ! 256 = huffmanCode 0x3FFFFFFF 30"
    using end_of_string_code last_conv_nth [of kHpackHuffmanCodeTable] table_length by force
  moreover have "word_bits 30 (0x3FFFFFFF :: u32) = replicate 30 True" by code_simp
  ultimately show ?thesis by (simp add: codeword_def huffmanCode_def)
qed

end
