(* ===== verification/HpackHuffman.thy ===== *)
theory HpackHuffman
  imports HpackCode
begin

text \<open>
  The Huffman decoder of HPACK, \<open>src/Net/Http2/Hpack.cpp\<close>: the prefix tree the compiler builds from the
  code table and the walk through it, bit by bit. It accepts exactly the encodings of byte strings
  followed by at most seven one bits.

  The array of nodes has a fixed capacity in the code and the compiler refuses to build it when it is
  too small; the model keeps the nodes in use.
\<close>

section \<open>The prefix tree\<close>

record HpackHuffmanDecodeNode =
  childZeroIndex :: nat
  childOneIndex :: nat
  symbol :: int

definition emptyNode :: HpackHuffmanDecodeNode where
  "emptyNode = \<lparr>childZeroIndex = 0, childOneIndex = 0, symbol = - 1\<rparr>"

fun insertCodeBits :: "HpackHuffmanDecodeNode list \<Rightarrow> u32 \<Rightarrow> nat \<Rightarrow> nat \<Rightarrow> HpackHuffmanDecodeNode list \<times> nat" where
  "insertCodeBits nodes code 0 nodeIndex = (nodes, nodeIndex)"
| "insertCodeBits nodes code (Suc bitIndex) nodeIndex =
     (let isOneBit = drop_bit bitIndex code AND 1 \<noteq> 0;
          childIndex = (if isOneBit then childOneIndex (nodes ! nodeIndex) else childZeroIndex (nodes ! nodeIndex)) in
      if childIndex = 0
      then let childIndex = length nodes;
               node = (if isOneBit then (nodes ! nodeIndex)\<lparr>childOneIndex := childIndex\<rparr>
                       else (nodes ! nodeIndex)\<lparr>childZeroIndex := childIndex\<rparr>) in
        insertCodeBits (nodes[nodeIndex := node] @ [emptyNode]) code bitIndex childIndex
      else insertCodeBits nodes code bitIndex childIndex)"

definition insertCode :: "nat \<Rightarrow> HpackHuffmanDecodeNode list \<Rightarrow> HpackHuffmanDecodeNode list" where
  "insertCode entry nodes =
     (let code = kHpackHuffmanCodeTable ! entry;
          (nodes, nodeIndex) = insertCodeBits nodes (code_bits code) (bitCount code) 0 in
      nodes[nodeIndex := (nodes ! nodeIndex)\<lparr>symbol := int entry\<rparr>])"

definition buildHpackHuffmanDecodingTable :: "HpackHuffmanDecodeNode list" where
  "buildHpackHuffmanDecodingTable = fold insertCode [0..<length kHpackHuffmanCodeTable] [emptyNode]"

section \<open>The decoder\<close>

record HuffmanDecoding =
  decoded_value :: bytes
  pendingBitCount :: nat
  arePendingBitsAllOnes :: bool
  nodeIndex :: nat

definition decodeHuffmanBit :: "bool \<Rightarrow> HuffmanDecoding \<Rightarrow> HuffmanDecoding option" where
  "decodeHuffmanBit isOneBit s =
     (let node = buildHpackHuffmanDecodingTable ! nodeIndex s;
          nextIndex = (if isOneBit then childOneIndex node else childZeroIndex node);
          s = s\<lparr>nodeIndex := nextIndex, pendingBitCount := pendingBitCount s + 1,
                arePendingBitsAllOnes := arePendingBitsAllOnes s \<and> isOneBit\<rparr>;
          entry = symbol (buildHpackHuffmanDecodingTable ! nextIndex) in
      if entry < 0 then Some s
      else if nat entry = kHpackHuffmanEndOfStringSymbol then None
      else Some (s\<lparr>decoded_value := decoded_value s @ [of_int entry], nodeIndex := 0, pendingBitCount := 0,
                   arePendingBitsAllOnes := True\<rparr>))"

fun decodeHuffmanByteBits :: "byte \<Rightarrow> nat \<Rightarrow> HuffmanDecoding \<Rightarrow> HuffmanDecoding option" where
  "decodeHuffmanByteBits b 0 s = Some s"
| "decodeHuffmanByteBits b (Suc bitIndex) s =
     (case decodeHuffmanBit (drop_bit bitIndex b AND 1 \<noteq> 0) s of
        None \<Rightarrow> None | Some s \<Rightarrow> decodeHuffmanByteBits b bitIndex s)"

primrec decodeHuffmanBytes :: "bytes \<Rightarrow> HuffmanDecoding \<Rightarrow> HuffmanDecoding option" where
  "decodeHuffmanBytes [] s = Some s"
| "decodeHuffmanBytes (b # bs) s =
     (case decodeHuffmanByteBits b 8 s of None \<Rightarrow> None | Some s \<Rightarrow> decodeHuffmanBytes bs s)"

definition decodeHpackHuffmanString :: "bytes \<Rightarrow> bytes option" where
  "decodeHpackHuffmanString encodedBytes =
     (case decodeHuffmanBytes encodedBytes
             \<lparr>decoded_value = [], pendingBitCount = 0, arePendingBitsAllOnes = True, nodeIndex = 0\<rparr> of
        None \<Rightarrow> None
      | Some s \<Rightarrow>
          if pendingBitCount s > 7 then None
          else if pendingBitCount s > 0 \<and> \<not> arePendingBitsAllOnes s then None
          else Some (decoded_value s))"

section \<open>The tree of the table\<close>

text \<open>A tree whose nodes are reached along the bit strings \<open>paths\<close>, one path per node in the order of
  the nodes; \<open>label\<close> says which symbol the end of a path stands for.\<close>

definition child :: "bool \<Rightarrow> HpackHuffmanDecodeNode \<Rightarrow> nat" where
  "child b node = (if b then childOneIndex node else childZeroIndex node)"

definition tree_of :: "HpackHuffmanDecodeNode list \<Rightarrow> bool list list \<Rightarrow> (bool list \<Rightarrow> int) \<Rightarrow> bool" where
  "tree_of nodes paths label \<longleftrightarrow>
     length paths = length nodes \<and> paths \<noteq> [] \<and> paths ! 0 = [] \<and> distinct paths \<and>
     (\<forall>p b. p @ [b] \<in> set paths \<longrightarrow> p \<in> set paths) \<and>
     (\<forall>p. p \<notin> set paths \<longrightarrow> label p = - 1) \<and>
     (\<forall>i < length nodes. symbol (nodes ! i) = label (paths ! i)) \<and>
     (\<forall>i < length nodes. \<forall>b. paths ! i @ [b] \<in> set paths \<longrightarrow>
        child b (nodes ! i) < length nodes \<and> paths ! child b (nodes ! i) = paths ! i @ [b]) \<and>
     (\<forall>i < length nodes. \<forall>b. paths ! i @ [b] \<notin> set paths \<longrightarrow> child b (nodes ! i) = 0)"

lemma tree_start: "tree_of [emptyNode] [[]] (\<lambda>p. - 1)"
  by (simp add: tree_of_def emptyNode_def child_def)

lemma tree_ofD:
  assumes "tree_of nodes paths label"
  shows "length paths = length nodes" "paths \<noteq> []" "paths ! 0 = []" "distinct paths"
    "\<And>p b. p @ [b] \<in> set paths \<Longrightarrow> p \<in> set paths"
    "\<And>p. p \<notin> set paths \<Longrightarrow> label p = - 1"
    "\<And>i. i < length nodes \<Longrightarrow> symbol (nodes ! i) = label (paths ! i)"
    "\<And>i b. i < length nodes \<Longrightarrow> paths ! i @ [b] \<in> set paths \<Longrightarrow>
       child b (nodes ! i) < length nodes \<and> paths ! child b (nodes ! i) = paths ! i @ [b]"
    "\<And>i b. i < length nodes \<Longrightarrow> paths ! i @ [b] \<notin> set paths \<Longrightarrow> child b (nodes ! i) = 0"
  using assms unfolding tree_of_def by blast+

text \<open>Index 0 is the root and never a child, so it can stand for a missing one.\<close>

lemma tree_child:
  assumes "tree_of nodes paths label" "i < length nodes"
  shows "child b (nodes ! i) = 0 \<longleftrightarrow> paths ! i @ [b] \<notin> set paths"
proof
  show "paths ! i @ [b] \<notin> set paths" if zero: "child b (nodes ! i) = 0"
  proof
    assume "paths ! i @ [b] \<in> set paths"
    from tree_ofD(8) [OF assms this] show False using tree_ofD(3) [OF assms(1)] zero by simp
  qed
qed (rule tree_ofD(9) [OF assms])

lemma tree_grow:
  assumes tree: "tree_of nodes paths label" and i: "i < length nodes" and new: "paths ! i @ [b] \<notin> set paths"
  defines "node \<equiv> (if b then (nodes ! i)\<lparr>childOneIndex := length nodes\<rparr> else (nodes ! i)\<lparr>childZeroIndex := length nodes\<rparr>)"
  shows "tree_of (nodes[i := node] @ [emptyNode]) (paths @ [paths ! i @ [b]]) label"
proof -
  let ?nodes = "nodes[i := node] @ [emptyNode]" let ?new = "paths ! i @ [b]"
  let ?paths = "paths @ [?new]"
  note t = tree_ofD [OF tree]
  have old: "?nodes ! j = (if j = i then node else nodes ! j)" "?paths ! j = paths ! j" if "j < length nodes" for j
    using that t(1) by (simp_all add: nth_append nth_list_update)
  have last: "?nodes ! length nodes = emptyNode" "?paths ! length nodes = ?new"
    using t(1) by (simp_all add: nth_append)
  have same: "j = i" if "j < length nodes" "paths ! j = paths ! i" for j
    using nth_eq_iff_index_eq [OF t(4)] t(1) i that by simp
  have node: "symbol node = symbol (nodes ! i)" "child b node = length nodes"
    "\<And>c. c \<noteq> b \<Longrightarrow> child c node = child c (nodes ! i)"
    by (auto simp: node_def child_def)
  have dead: "?new @ [c] \<notin> set ?paths" for c
  proof
    assume "?new @ [c] \<in> set ?paths"
    then have "?new @ [c] \<in> set paths" by simp
    then show False using t(5) new by blast
  qed
  have children: "(?paths ! j @ [c] \<in> set ?paths \<longrightarrow>
        child c (?nodes ! j) < length ?nodes \<and> ?paths ! child c (?nodes ! j) = ?paths ! j @ [c]) \<and>
      (?paths ! j @ [c] \<notin> set ?paths \<longrightarrow> child c (?nodes ! j) = 0)" if j: "j < length ?nodes" for j c
  proof (cases "j < length nodes")
    case True
    show ?thesis
    proof (cases "j = i \<and> c = b")
      case True
      then show ?thesis using i old [of i] last node(2) by simp
    next
      case False
      have kept: "child c (?nodes ! j) = child c (nodes ! j)"
        using False old(1) [OF True] node(3) by (cases "j = i") auto
      have "paths ! j @ [c] \<noteq> ?new" using same [OF True] False by auto
      then have mem: "paths ! j @ [c] \<in> set ?paths \<longleftrightarrow> paths ! j @ [c] \<in> set paths" by auto
      show ?thesis
      proof (cases "paths ! j @ [c] \<in> set paths")
        case inside: True
        from t(8) [OF True this] show ?thesis
          unfolding kept old(2) [OF True] mem using inside old(2) by auto
      next
        case False
        then show ?thesis unfolding kept old(2) [OF True] mem using t(9) [OF True False] by simp
      qed
    qed
  next
    case False
    then have "j = length nodes" using j by simp
    then show ?thesis using dead last by (simp add: emptyNode_def child_def)
  qed
  have labels: "symbol (?nodes ! j) = label (?paths ! j)" if j: "j < length ?nodes" for j
  proof (cases "j < length nodes")
    case True
    then show ?thesis using old [OF True] t(7) node(1) by auto
  next
    case False
    then have "j = length nodes" using j by simp
    then show ?thesis using t(6) [OF new] last by (simp add: emptyNode_def)
  qed
  have "paths ! i \<in> set paths" using i t(1) by simp
  then have "p \<in> set ?paths" if "p @ [c] \<in> set ?paths" for p c
    using t(5) that by auto
  moreover have "label p = - 1" if "p \<notin> set ?paths" for p using t(6) that by simp
  moreover have "length ?paths = length ?nodes" "?paths ! 0 = []" "distinct ?paths"
    using t(1-4) new i by (auto simp: nth_append)
  ultimately show ?thesis
    unfolding tree_of_def using children labels by blast
qed

lemma tree_label:
  assumes tree: "tree_of nodes paths label" and i: "i < length nodes"
  shows "tree_of (nodes[i := (nodes ! i)\<lparr>symbol := s\<rparr>]) paths (label (paths ! i := s))"
proof -
  let ?nodes = "nodes[i := (nodes ! i)\<lparr>symbol := s\<rparr>]"
  note t = tree_ofD [OF tree]
  have kept: "child b (?nodes ! j) = child b (nodes ! j)" for b j
    using i by (cases "j = i") (simp_all add: nth_list_update child_def)
  have mine: "paths ! i \<in> set paths" using i t(1) by simp
  have other: "j = i" if "j < length nodes" "paths ! j = paths ! i" for j
    using nth_eq_iff_index_eq [OF t(4)] t(1) i that by simp
  have "symbol (?nodes ! j) = (label (paths ! i := s)) (paths ! j)" if "j < length nodes" for j
    using that t(7) [OF that] other [OF that] by (cases "j = i") auto
  moreover have "(label (paths ! i := s)) p = - 1" if "p \<notin> set paths" for p
    using t(6) [OF that] mine that by auto
  ultimately show ?thesis
    unfolding tree_of_def kept length_list_update
    using t(1-5,8,9) by blast
qed

text \<open>Putting in the low \<open>k\<close> bits of a codeword from the end of a path on.\<close>

lemma one_bit: "drop_bit k (w :: 'a :: len word) AND 1 \<noteq> 0 \<longleftrightarrow> bit w k"
  by (simp add: and_one_eq bit_iff_odd_drop_bit odd_iff_mod_2_eq_one)

lemma insertCodeBits_spec:
  assumes "tree_of nodes paths label" "i < length nodes" "insertCodeBits nodes code k i = (nodes', j)"
  shows "\<exists>paths'. tree_of nodes' paths' label \<and> j < length nodes' \<and> paths' ! j = paths ! i @ word_bits k code \<and>
    set paths' = set paths \<union> {paths ! i @ w |w. prefix w (word_bits k code)}"
  using assms
proof (induction k arbitrary: nodes paths i)
  case 0
  then have "paths ! i \<in> set paths" using tree_ofD(1) by fastforce
  then show ?case using 0 by (intro exI [of _ paths]) (auto simp: word_bits_def)
next
  case (Suc k)
  let ?b = "bit code k" let ?c = "child ?b (nodes ! i)"
  have words: "word_bits (Suc k) code = ?b # word_bits k code" by (rule word_bits_Suc)
  have here: "paths ! i \<in> set paths"
    using Suc.prems(2) tree_ofD(1) [OF Suc.prems(1)] by simp
  have longer: "{paths ! i @ w |w. prefix w (word_bits (Suc k) code)}
      = insert (paths ! i) {(paths ! i @ [?b]) @ w |w. prefix w (word_bits k code)}"
    unfolding words prefix_Cons by auto
  have "\<exists>nodes1 paths1 i1. tree_of nodes1 paths1 label \<and> i1 < length nodes1 \<and> paths1 ! i1 = paths ! i @ [?b] \<and>
      insertCodeBits nodes1 code k i1 = (nodes', j) \<and> set paths1 = insert (paths ! i @ [?b]) (set paths)"
  proof (cases "?c = 0")
    case True
    then have new: "paths ! i @ [?b] \<notin> set paths"
      using tree_child [OF Suc.prems(1,2)] by blast
    let ?node = "if ?b then (nodes ! i)\<lparr>childOneIndex := length nodes\<rparr> else (nodes ! i)\<lparr>childZeroIndex := length nodes\<rparr>"
    have "tree_of (nodes[i := ?node] @ [emptyNode]) (paths @ [paths ! i @ [?b]]) label"
      by (rule tree_grow [OF Suc.prems(1,2) new])
    moreover have "insertCodeBits (nodes[i := ?node] @ [emptyNode]) code k (length nodes) = (nodes', j)"
      using Suc.prems(3) True by (simp add: one_bit child_def Let_def split: if_splits)
    ultimately show ?thesis
      using tree_ofD(1) [OF Suc.prems(1)]
      by (intro exI [of _ "nodes[i := ?node] @ [emptyNode]"] exI [of _ "paths @ [paths ! i @ [?b]]"]
          exI [of _ "length nodes"]) (simp add: nth_append)
  next
    case False
    then have old: "paths ! i @ [?b] \<in> set paths"
      using tree_child [OF Suc.prems(1,2), of ?b] by simp
    moreover have "insertCodeBits nodes code k ?c = (nodes', j)"
      using Suc.prems(3) False by (simp add: one_bit child_def Let_def split: if_splits)
    ultimately show ?thesis
      using Suc.prems(1) tree_ofD(8) [OF Suc.prems(1,2) old] by (metis insert_absorb)
  qed
  then obtain nodes1 paths1 i1 where one: "tree_of nodes1 paths1 label" "i1 < length nodes1"
      "paths1 ! i1 = paths ! i @ [?b]" "insertCodeBits nodes1 code k i1 = (nodes', j)"
      "set paths1 = insert (paths ! i @ [?b]) (set paths)"
    by blast
  from Suc.IH [OF one(1,2,4)] obtain paths' where p: "tree_of nodes' paths' label" "j < length nodes'"
      "paths' ! j = paths1 ! i1 @ word_bits k code"
      "set paths' = set paths1 \<union> {paths1 ! i1 @ w |w. prefix w (word_bits k code)}"
    by blast
  have "paths ! i @ [?b] \<in> {(paths ! i @ [?b]) @ w |w. prefix w (word_bits k code)}" by auto
  then have "set paths' = set paths \<union> {paths ! i @ w |w. prefix w (word_bits (Suc k) code)}"
    unfolding longer p(4) one(3,5) using here by blast
  then show ?case using p(1-3) one(3) words by auto
qed

primrec labels_below :: "nat \<Rightarrow> bool list \<Rightarrow> int" where
  "labels_below 0 = (\<lambda>p. - 1)"
| "labels_below (Suc s) = (labels_below s)(codeword s := int s)"

lemma insertCode_spec:
  assumes "tree_of nodes paths (labels_below s)"
  shows "\<exists>paths'. tree_of (insertCode s nodes) paths' (labels_below (Suc s)) \<and>
    set paths' = set paths \<union> {w. prefix w (codeword s)}"
proof -
  let ?c = "kHpackHuffmanCodeTable ! s"
  obtain nodes' j where ins: "insertCodeBits nodes (code_bits ?c) (bitCount ?c) 0 = (nodes', j)" by fastforce
  have "0 < length nodes" using tree_ofD(1,2) [OF assms] by (cases nodes) auto
  from insertCodeBits_spec [OF assms this ins] obtain paths' where p:
      "tree_of nodes' paths' (labels_below s)" "j < length nodes'" "paths' ! j = codeword s"
      "set paths' = set paths \<union> {w. prefix w (codeword s)}"
    unfolding tree_ofD(3) [OF assms] codeword_def by auto
  then show ?thesis
    using tree_label [OF p(1,2), of "int s"] ins by (auto simp: insertCode_def)
qed

text \<open>The tree: its paths are the beginnings of the codewords.\<close>

lemma huffman_nodes:
  "\<exists>paths. tree_of buildHpackHuffmanDecodingTable paths (labels_below 257) \<and>
    set paths = {w. \<exists>s < 257. prefix w (codeword s)}"
proof -
  have "\<exists>paths. tree_of (fold insertCode [0..<n] [emptyNode]) paths (labels_below n) \<and>
      set paths = insert [] {w. \<exists>s < n. prefix w (codeword s)}" for n
  proof (induction n)
    case 0
    then show ?case using tree_start by (intro exI [of _ "[[]]"]) (simp add: fun_eq_iff)
  next
    case (Suc n)
    then obtain paths where p: "tree_of (fold insertCode [0..<n] [emptyNode]) paths (labels_below n)"
        "set paths = insert [] {w. \<exists>s < n. prefix w (codeword s)}" by blast
    obtain paths' where "tree_of (insertCode n (fold insertCode [0..<n] [emptyNode])) paths' (labels_below (Suc n))"
        "set paths' = set paths \<union> {w. prefix w (codeword n)}"
      using insertCode_spec [OF p(1)] by blast
    moreover have "set paths \<union> {w. prefix w (codeword n)} = insert [] {w. \<exists>s < Suc n. prefix w (codeword s)}"
      unfolding p(2) by (auto simp: less_Suc_eq)
    moreover have "fold insertCode [0..<Suc n] [emptyNode] = insertCode n (fold insertCode [0..<n] [emptyNode])"
      by simp
    ultimately show ?case by metis
  qed
  moreover have "insert [] {w. \<exists>s < 257. prefix w (codeword s)} = {w. \<exists>s < 257. prefix w (codeword s)}"
    by (auto intro: exI [of _ 0])
  ultimately show ?thesis unfolding buildHpackHuffmanDecodingTable_def table_length by metis
qed

lemma labels_codeword: "s < n \<Longrightarrow> n \<le> 257 \<Longrightarrow> labels_below n (codeword s) = int s"
proof (induction n)
  case (Suc n)
  then show ?case using codeword_prefix_free [of s n] by (cases "s = n") auto
qed simp

lemma labels_other: "\<forall>s < n. p \<noteq> codeword s \<Longrightarrow> labels_below n p = - 1"
  by (induction n) auto

section \<open>The walk\<close>

text \<open>The tree seen from outside: \<open>node_at w\<close> is the node at the end of a path.\<close>

definition on_tree :: "nat \<Rightarrow> bool list \<Rightarrow> bool" where
  "on_tree i w \<longleftrightarrow> (\<exists>paths. tree_of buildHpackHuffmanDecodingTable paths (labels_below 257) \<and>
     set paths = {w. \<exists>s < 257. prefix w (codeword s)} \<and> i < length buildHpackHuffmanDecodingTable \<and> paths ! i = w)"

lemma on_tree_root: "on_tree 0 []"
proof -
  obtain paths where p: "tree_of buildHpackHuffmanDecodingTable paths (labels_below 257)"
      "set paths = {w. \<exists>s < 257. prefix w (codeword s)}"
    using huffman_nodes by blast
  have "0 < length buildHpackHuffmanDecodingTable"
    using tree_ofD(1,2) [OF p(1)] by (cases buildHpackHuffmanDecodingTable) auto
  then show ?thesis using p tree_ofD(3) [OF p(1)] unfolding on_tree_def by blast
qed

lemma on_tree_step:
  assumes "on_tree i w" "\<exists>s < 257. prefix (w @ [b]) (codeword s)"
  shows "on_tree (child b (buildHpackHuffmanDecodingTable ! i)) (w @ [b])"
proof -
  obtain paths where p: "tree_of buildHpackHuffmanDecodingTable paths (labels_below 257)"
      "set paths = {w. \<exists>s < 257. prefix w (codeword s)}" "i < length buildHpackHuffmanDecodingTable" "paths ! i = w"
    using assms(1) unfolding on_tree_def by blast
  have "paths ! i @ [b] \<in> set paths" using assms(2) p(2,4) by auto
  from tree_ofD(8) [OF p(1,3) this] show ?thesis
    unfolding on_tree_def using p by metis
qed

lemma on_tree_symbol:
  assumes "on_tree i w"
  shows "symbol (buildHpackHuffmanDecodingTable ! i) = labels_below 257 w"
  using assms tree_ofD(7) unfolding on_tree_def by metis

text \<open>Pending bits: the proper beginning of a codeword. Whatever bit comes next, the walk stays on the tree.\<close>

definition pending :: "bool list \<Rightarrow> bool" where
  "pending w \<longleftrightarrow> (\<exists>s < 257. strict_prefix w (codeword s))"

lemma pending_Nil: "pending []"
proof -
  have "codeword 0 \<noteq> []" using code_pair(1) [of 0] by auto
  then show ?thesis unfolding pending_def by (intro exI [of _ 0]) (simp add: strict_prefix_def)
qed

lemma pending_label:
  assumes "pending w"
  shows "labels_below 257 w = - 1"
proof (rule labels_other, intro allI impI notI)
  fix s
  assume s: "s < 257" "w = codeword s"
  obtain t where t: "t < 257" "strict_prefix w (codeword t)" using assms unfolding pending_def by blast
  then have "s = t" using codeword_prefix_free s by (simp add: strict_prefix_def)
  then show False using s t by simp
qed

lemma pending_extend:
  assumes "pending w"
  shows "pending (w @ [b]) \<or> (\<exists>s < 257. w @ [b] = codeword s)"
proof -
  obtain s where s: "s < 257" "prefix (codeword s) ((w @ [b]) @ replicate 30 False)"
    using codeword_complete by blast
  then consider "prefix (w @ [b]) (codeword s)" | "strict_prefix (codeword s) (w @ [b])"
    by (metis prefix_order.le_less prefix_same_cases prefixI)
  then show ?thesis
  proof cases
    case 1
    then show ?thesis using s(1) unfolding pending_def by (auto simp: strict_prefix_def)
  next
    case 2
    then have "prefix (codeword s) w" by (auto simp: strict_prefix_def prefix_snoc)
    obtain t where t: "t < 257" "strict_prefix w (codeword t)" using assms unfolding pending_def by blast
    then have "s = t"
      using \<open>prefix (codeword s) w\<close> codeword_prefix_free [OF s(1) t(1)] by (metis prefix_order.less_imp_le prefix_order.trans)
    then show ?thesis using t(2) \<open>prefix (codeword s) w\<close> by (metis prefix_order.leD)
  qed
qed

text \<open>One bit of the walk.\<close>

definition walking :: "HuffmanDecoding \<Rightarrow> bytes \<Rightarrow> bool list \<Rightarrow> bool" where
  "walking s v w \<longleftrightarrow> decoded_value s = v \<and> pending w \<and> on_tree (nodeIndex s) w \<and> pendingBitCount s = length w \<and>
     (arePendingBitsAllOnes s \<longleftrightarrow> (\<forall>b \<in> set w. b))"

lemma bit_pending:
  assumes "walking s v w" "pending (w @ [b])"
  shows "\<exists>s'. decodeHuffmanBit b s = Some s' \<and> walking s' v (w @ [b])"
proof -
  let ?next = "child b (buildHpackHuffmanDecodingTable ! nodeIndex s)"
  have next_node: "on_tree ?next (w @ [b])"
    using assms on_tree_step [of "nodeIndex s" w b] by (auto simp: walking_def pending_def strict_prefix_def)
  then have "symbol (buildHpackHuffmanDecodingTable ! ?next) = - 1"
    using on_tree_symbol pending_label [OF assms(2)] by simp
  then show ?thesis
    using assms next_node by (auto simp: decodeHuffmanBit_def walking_def Let_def child_def)
qed

lemma bit_symbol:
  assumes "walking s v w" "w @ [b] = codeword c" "c < 257"
  shows "decodeHuffmanBit b s = None \<and> c = 256 \<or>
    (\<exists>s'. decodeHuffmanBit b s = Some s' \<and> walking s' (v @ [of_nat c]) [] \<and> c < 256)"
proof -
  let ?next = "child b (buildHpackHuffmanDecodingTable ! nodeIndex s)"
  have "on_tree ?next (w @ [b])"
    using assms on_tree_step [of "nodeIndex s" w b] by (auto simp: walking_def)
  then have "symbol (buildHpackHuffmanDecodingTable ! ?next) = int c"
    using on_tree_symbol labels_codeword [OF assms(3)] assms(2) by simp
  then show ?thesis
    using assms on_tree_root pending_Nil
    by (auto simp: decodeHuffmanBit_def walking_def Let_def child_def kHpackHuffmanEndOfStringSymbol_def)
qed

text \<open>The walk over a string of bits, and the two loops as such a walk.\<close>

primrec decodeBits :: "bool list \<Rightarrow> HuffmanDecoding \<Rightarrow> HuffmanDecoding option" where
  "decodeBits [] s = Some s"
| "decodeBits (b # bs) s = (case decodeHuffmanBit b s of None \<Rightarrow> None | Some s \<Rightarrow> decodeBits bs s)"

lemma decodeBits_append:
  "decodeBits (xs @ ys) s = (case decodeBits xs s of None \<Rightarrow> None | Some s \<Rightarrow> decodeBits ys s)"
  by (induction xs arbitrary: s) (auto split: option.split)

lemma byteBits_walk: "decodeHuffmanByteBits b k s = decodeBits (word_bits k b) s"
  by (induction k arbitrary: s) (auto simp: word_bits_Suc one_bit word_bits_def split: option.split)

definition string_bits :: "bytes \<Rightarrow> bool list" where
  "string_bits bs = concat (map (word_bits 8) bs)"

lemma bytes_walk: "decodeHuffmanBytes bs s = decodeBits (string_bits bs) s"
  by (induction bs arbitrary: s)
    (auto simp: string_bits_def byteBits_walk decodeBits_append split: option.split)

definition encoding :: "bytes \<Rightarrow> bool list" where
  "encoding v = concat (map (\<lambda>c. codeword (unat c)) v)"

lemma walk_splits:
  assumes "walking s v w" "decodeBits bs s = Some s'"
  shows "\<exists>v' w'. walking s' (v @ v') w' \<and> w @ bs = encoding v' @ w'"
  using assms
proof (induction bs arbitrary: s v w)
  case Nil
  then show ?case by (intro exI [of _ "[]"] exI [of _ w]) (simp add: encoding_def)
next
  case (Cons b bs)
  then obtain s1 where s1: "decodeHuffmanBit b s = Some s1" "decodeBits bs s1 = Some s'"
    by (auto split: option.splits)
  from Cons.prems(1) have "pending w" by (simp add: walking_def)
  then consider "pending (w @ [b])" | c where "c < 257" "w @ [b] = codeword c"
    using pending_extend by blast
  then show ?case
  proof cases
    case 1
    then have "walking s1 v (w @ [b])" using bit_pending [OF Cons.prems(1) 1] s1(1) by auto
    from Cons.IH [OF this s1(2)] show ?thesis by simp
  next
    case 2
    then have c: "walking s1 (v @ [of_nat c]) []" "c < 256"
      using bit_symbol [OF Cons.prems(1) 2(2,1)] s1(1) by auto
    from Cons.IH [OF c(1) s1(2)] obtain v' w' where
        "walking s' ((v @ [of_nat c]) @ v') w'" "[] @ bs = encoding v' @ w'" by blast
    moreover have "codeword (unat (of_nat c :: byte)) = codeword c"
      using c(2) by (simp add: unat_of_nat)
    ultimately show ?thesis
      using 2(2) by (intro exI [of _ "of_nat c # v'"] exI [of _ w']) (simp add: encoding_def)
  qed
qed

lemma walk_pending:
  assumes "walking s v w" "pending (w @ bs)"
  shows "\<exists>s'. decodeBits bs s = Some s' \<and> walking s' v (w @ bs)"
  using assms
proof (induction bs arbitrary: s w)
  case (Cons b bs)
  then have "pending (w @ [b])" unfolding pending_def
    by (metis append.assoc append_Cons append_Nil prefixI prefix_order.le_less_trans)
  from bit_pending [OF Cons.prems(1) this] obtain s1 where
      "decodeHuffmanBit b s = Some s1" "walking s1 v (w @ [b])" by blast
  then show ?case using Cons.IH [of s1 "w @ [b]"] Cons.prems(2) by simp
qed simp

lemma walk_encoding:
  assumes "walking s v []"
  shows "\<exists>s'. decodeBits (encoding v') s = Some s' \<and> walking s' (v @ v') []"
  using assms
proof (induction v' arbitrary: s v)
  case (Cons c v')
  have c: "unat c < 256" by (rule unat_byte_bound)
  then obtain w b where w: "codeword (unat c) = w @ [b]"
    using code_pair(1) [of "unat c"] by (cases "codeword (unat c)" rule: rev_cases) auto
  then have "pending w" using c unfolding pending_def
    by (intro exI [of _ "unat c"]) (simp add: strict_prefix_def)
  then obtain s1 where s1: "decodeBits w s = Some s1" "walking s1 v w"
    using walk_pending [OF Cons.prems, of w] by auto
  obtain s2 where s2: "decodeHuffmanBit b s1 = Some s2" "walking s2 (v @ [c]) []"
    using bit_symbol [OF s1(2) w [symmetric]] c by auto
  from Cons.IH [OF s2(2)] show ?case
    using w s1(1) s2(1) by (auto simp: encoding_def decodeBits_append)
qed (simp add: encoding_def)

lemma huffman_accepts:
  "decodeHpackHuffmanString bs = Some v \<longleftrightarrow>
     (\<exists>padding. string_bits bs = encoding v @ padding \<and> length padding \<le> 7 \<and> (\<forall>b \<in> set padding. b))"
proof -
  let ?s = "\<lparr>decoded_value = [], pendingBitCount = 0, arePendingBitsAllOnes = True, nodeIndex = 0\<rparr>"
  have start: "walking ?s [] []" using pending_Nil on_tree_root by (simp add: walking_def)
  show ?thesis
  proof
    assume "decodeHpackHuffmanString bs = Some v"
    then obtain s' where s': "decodeBits (string_bits bs) ?s = Some s'" "decoded_value s' = v"
        "pendingBitCount s' \<le> 7" "pendingBitCount s' > 0 \<longrightarrow> arePendingBitsAllOnes s'"
      by (auto simp: decodeHpackHuffmanString_def bytes_walk split: option.splits if_splits)
    from walk_splits [OF start s'(1)] obtain v' w where
        "walking s' v' w" "string_bits bs = encoding v' @ w" by auto
    then show "\<exists>padding. string_bits bs = encoding v @ padding \<and> length padding \<le> 7 \<and> (\<forall>b \<in> set padding. b)"
      using s'(2-4) by (intro exI [of _ w]) (auto simp: walking_def)
  next
    assume "\<exists>padding. string_bits bs = encoding v @ padding \<and> length padding \<le> 7 \<and> (\<forall>b \<in> set padding. b)"
    then obtain padding where p: "string_bits bs = encoding v @ padding" "length padding \<le> 7" "\<forall>b \<in> set padding. b"
      by blast
    then have "padding = replicate (length padding) True"
      by (auto simp: list_eq_iff_nth_eq)
    moreover have "replicate 30 True = replicate (length padding) True @ replicate (30 - length padding) True"
      unfolding replicate_add [symmetric] using p(2) by simp
    ultimately have "codeword 256 = padding @ replicate (30 - length padding) True"
      unfolding end_of_string_codeword by metis
    then have pend: "pending ([] @ padding)"
      using p(2) unfolding pending_def by (intro exI [of _ 256]) (simp add: strict_prefix_def)
    from walk_encoding [OF start, of v] obtain s1 where
        s1: "decodeBits (encoding v) ?s = Some s1" "walking s1 v []" by auto
    from walk_pending [OF s1(2) pend] obtain s2 where
        "decodeBits padding s1 = Some s2" "walking s2 v padding" by auto
    then show "decodeHpackHuffmanString bs = Some v"
      using p s1(1) by (auto simp: decodeHpackHuffmanString_def bytes_walk decodeBits_append walking_def)
  qed
qed

text \<open>C16: The Huffman decoder, walking the tree the compiler has built, accepts exactly the encodings of byte
  strings by the code of RFC 7541, filled up with at most seven one bits, and returns the string.
\<close>

theorem huffman_decodes:
  "decodeHpackHuffmanString bs = Some v \<longleftrightarrow>
     (\<exists>n. n \<le> 7 \<and> string_bits bs = encoding v @ replicate n True)"
proof
  assume "decodeHpackHuffmanString bs = Some v"
  then obtain padding where padding: "string_bits bs = encoding v @ padding" "length padding \<le> 7" "\<forall>b \<in> set padding. b"
    using huffman_accepts by blast
  then have "padding = replicate (length padding) True" by (intro replicate_eqI) auto
  then show "\<exists>n. n \<le> 7 \<and> string_bits bs = encoding v @ replicate n True" using padding by metis
next
  assume "\<exists>n. n \<le> 7 \<and> string_bits bs = encoding v @ replicate n True"
  then obtain n where "n \<le> 7" "string_bits bs = encoding v @ replicate n True" by blast
  then show "decodeHpackHuffmanString bs = Some v"
    unfolding huffman_accepts by (intro exI [of _ "replicate n True"]) auto
qed

end
