(* ===== verification/Hpack.thy ===== *)
theory Hpack
  imports HpackInteger HpackStatic HpackHuffman
begin

text \<open>
  HPACK header compression, \<open>src/Net/Http2/Hpack.{h,cpp}\<close>: strings, the dynamic table, the decoder and
  the encoder. A string view is the bytes it shows, and the arena that holds them is the number of
  bytes written to it. Sizes of things in memory are nat; the integers on the wire are 64-bit words.
  Error texts are left out, error kinds are kept.
\<close>

section \<open>Strings\<close>

definition kHuffmanFlag :: byte where "kHuffmanFlag = 0x80"

definition decodeHpackString :: "bytes \<Rightarrow> (bytes \<times> nat) option" where
  "decodeHpackString bs =
     (if bs = [] then None
      else let isHuffmanEncoded = bs ! 0 AND kHuffmanFlag \<noteq> 0 in
        case decodeHpackInteger bs 7 of
          None \<Rightarrow> None
        | Some (encodedLength, lengthByteCount) \<Rightarrow>
            if unat encodedLength > length bs - lengthByteCount then None
            else let encodedBytes = take (unat encodedLength) (drop lengthByteCount bs) in
              if isHuffmanEncoded
              then map_option (\<lambda>v. (v, lengthByteCount + unat encodedLength)) (decodeHpackHuffmanString encodedBytes)
              else Some (encodedBytes, lengthByteCount + unat encodedLength))"

definition appendHpackString :: "bytes \<Rightarrow> bytes \<Rightarrow> appended" where
  "appendHpackString out v = bindR (appendHpackInteger out (of_nat (length v)) 7 0) (\<lambda>out. Inr (out @ v))"

section \<open>The dynamic table\<close>

definition kHpackDynamicTableEntryOverheadBytes :: nat where "kHpackDynamicTableEntryOverheadBytes = 32"
definition kHpackDefaultDynamicTableSizeByteCount :: nat where "kHpackDefaultDynamicTableSizeByteCount = 4096"
definition kHpackStaticTableEntryCount :: nat where "kHpackStaticTableEntryCount = 61"
definition kHpackFirstDynamicTableIndex :: nat where "kHpackFirstDynamicTableIndex = kHpackStaticTableEntryCount + 1"

lemmas hpack_consts = kHpackDynamicTableEntryOverheadBytes_def kHpackStaticTableEntryCount_def
  kHpackFirstDynamicTableIndex_def

record HpackHeaderField =
  field_name :: bytes
  field_value :: bytes

record HpackDynamicTable =
  table_entries :: "HpackHeaderField list"
  table_sizeByteCount :: nat
  table_maximumSizeByteCount :: nat

definition dynamicTableEntrySizeByteCount :: "HpackHeaderField \<Rightarrow> nat" where
  "dynamicTableEntrySizeByteCount field =
     length (field_name field) + length (field_value field) + kHpackDynamicTableEntryOverheadBytes"

definition newDynamicTable :: "nat \<Rightarrow> HpackDynamicTable" where
  "newDynamicTable maximumSize =
     \<lparr>table_entries = [], table_sizeByteCount = 0, table_maximumSizeByteCount = maximumSize\<rparr>"

text \<open>The loop that evicts from the old end until \<open>extra\<close> more bytes fit.\<close>

function evictEntries :: "nat \<Rightarrow> HpackDynamicTable \<Rightarrow> HpackDynamicTable" where
  "evictEntries extra table =
     (if table_sizeByteCount table + extra > table_maximumSizeByteCount table \<and> table_entries table \<noteq> []
      then evictEntries extra
        (table\<lparr>table_sizeByteCount := table_sizeByteCount table - dynamicTableEntrySizeByteCount (last (table_entries table)),
               table_entries := butlast (table_entries table)\<rparr>)
      else table)"
  by pat_completeness auto
termination by (relation "measure (\<lambda>(extra, table). length (table_entries table))") auto

declare evictEntries.simps [simp del]

definition clearDynamicTable :: "HpackDynamicTable \<Rightarrow> HpackDynamicTable" where
  "clearDynamicTable table = table\<lparr>table_entries := [], table_sizeByteCount := 0\<rparr>"

definition setMaximumSizeByteCount :: "nat \<Rightarrow> HpackDynamicTable \<Rightarrow> HpackDynamicTable" where
  "setMaximumSizeByteCount maximumSize table = evictEntries 0 (table\<lparr>table_maximumSizeByteCount := maximumSize\<rparr>)"

definition insertEntry :: "HpackHeaderField \<Rightarrow> HpackDynamicTable \<Rightarrow> HpackDynamicTable" where
  "insertEntry field table =
     (let entrySize = dynamicTableEntrySizeByteCount field in
      if entrySize > table_maximumSizeByteCount table then clearDynamicTable table
      else let table = evictEntries entrySize table in
        table\<lparr>table_sizeByteCount := table_sizeByteCount table + entrySize,
              table_entries := field # table_entries table\<rparr>)"

definition findEntry :: "HpackDynamicTable \<Rightarrow> nat \<Rightarrow> HpackHeaderField option" where
  "findEntry table entryIndex =
     (if entryIndex \<ge> length (table_entries table) then None else Some (table_entries table ! entryIndex))"

text \<open>Searching for a name and a value: the index in the common index space, or 0.\<close>

definition findHpackDynamicTableIndex :: "HpackDynamicTable \<Rightarrow> bytes \<Rightarrow> bytes \<Rightarrow> nat" where
  "findHpackDynamicTableIndex table name value =
     (case find (\<lambda>i. field_name (table_entries table ! i) = name \<and> field_value (table_entries table ! i) = value)
             [0..<length (table_entries table)] of
        None \<Rightarrow> 0
      | Some entryIndex \<Rightarrow> kHpackFirstDynamicTableIndex + entryIndex)"

section \<open>The decoder\<close>

datatype Http2ErrorCode = H2NoError | H2ProtocolError | H2InternalError | H2FlowControlError | H2SettingsTimeout
  | H2StreamClosed | H2FrameSizeError | H2RefusedStream | H2Cancel | H2CompressionError | H2ConnectError
  | H2EnhanceYourCalm | H2InadequateSecurity | H2Http11Required

datatype HpackErrorKind = NoHpackError | CompressionError | LimitExceeded

fun toHttp2ErrorCode :: "HpackErrorKind \<Rightarrow> Http2ErrorCode" where
  "toHttp2ErrorCode NoHpackError = H2NoError"
| "toHttp2ErrorCode CompressionError = H2CompressionError"
| "toHttp2ErrorCode LimitExceeded = H2EnhanceYourCalm"

record HpackDecoderLimits =
  maximumDynamicTableSizeByteCount :: nat
  maximumHeaderListByteCount :: nat
  maximumHeaderFieldNameLength :: nat
  maximumHeaderFieldValueLength :: nat

record HpackDecoder =
  dec_limits :: HpackDecoderLimits
  dec_dynamicTable :: HpackDynamicTable
  dec_headerListByteCount :: nat
  dec_hasSeenHeaderRepresentation :: bool
  dec_isBeyondHeaderLimits :: bool
  dec_hasError :: bool
  dec_errorKind :: HpackErrorKind

definition newHpackDecoder :: "HpackDecoderLimits \<Rightarrow> HpackDecoder" where
  "newHpackDecoder limits =
     \<lparr>dec_limits = limits, dec_dynamicTable = newDynamicTable (maximumDynamicTableSizeByteCount limits),
      dec_headerListByteCount = 0, dec_hasSeenHeaderRepresentation = False, dec_isBeyondHeaderLimits = False,
      dec_hasError = False, dec_errorKind = NoHpackError\<rparr>"

definition resetHpackDecoder :: "HpackDecoder \<Rightarrow> HpackDecoder" where
  "resetHpackDecoder d =
     d\<lparr>dec_dynamicTable := newDynamicTable (maximumDynamicTableSizeByteCount (dec_limits d)),
       dec_headerListByteCount := 0, dec_hasSeenHeaderRepresentation := False, dec_isBeyondHeaderLimits := False,
       dec_hasError := False, dec_errorKind := NoHpackError\<rparr>"

definition isLimitExceeded :: "HpackDecoder \<Rightarrow> bool" where
  "isLimitExceeded d \<longleftrightarrow> dec_isBeyondHeaderLimits d \<and> \<not> dec_hasError d"

definition recordFailure :: "HpackErrorKind \<Rightarrow> HpackDecoder \<Rightarrow> HpackDecoder" where
  "recordFailure errorKind d = d\<lparr>dec_hasError := True, dec_errorKind := errorKind\<rparr>"

definition noteHeaderLimitExceeded :: "HpackDecoder \<Rightarrow> HpackDecoder" where
  "noteHeaderLimitExceeded d = d\<lparr>dec_isBeyondHeaderLimits := True, dec_errorKind := LimitExceeded\<rparr>"

definition appendField ::
  "HpackHeaderField \<Rightarrow> HpackDecoder \<Rightarrow> HpackHeaderField list \<Rightarrow> HpackDecoder \<times> HpackHeaderField list" where
  "appendField field d headerFields =
     (if dec_isBeyondHeaderLimits d then (d, headerFields)
      else if length (field_name field) > maximumHeaderFieldNameLength (dec_limits d)
      then (noteHeaderLimitExceeded d, headerFields)
      else if length (field_value field) > maximumHeaderFieldValueLength (dec_limits d)
      then (noteHeaderLimitExceeded d, headerFields)
      else let d = d\<lparr>dec_headerListByteCount := dec_headerListByteCount d + length (field_name field)
                      + length (field_value field) + kHpackDynamicTableEntryOverheadBytes\<rparr> in
        if dec_headerListByteCount d > maximumHeaderListByteCount (dec_limits d)
        then (noteHeaderLimitExceeded d, headerFields)
        else (d, headerFields @ [field]))"

definition resolveIndexedFieldView :: "HpackDecoder \<Rightarrow> nat \<Rightarrow> nat \<Rightarrow> (HpackHeaderField \<times> nat) option" where
  "resolveIndexedFieldView d index arena =
     (if index \<le> kHpackStaticTableEntryCount
      then let entry = kHpackStaticTable ! (index - 1) in
        Some (\<lparr>field_name = entry_name entry, field_value = entry_value entry\<rparr>, arena)
      else case findEntry (dec_dynamicTable d) (index - kHpackFirstDynamicTableIndex) of
        None \<Rightarrow> None
      | Some entry \<Rightarrow> Some (entry, arena + length (field_name entry) + length (field_value entry)))"

definition resolveIndexedNameView :: "HpackDecoder \<Rightarrow> nat \<Rightarrow> bytes option" where
  "resolveIndexedNameView d index =
     (if index \<le> kHpackStaticTableEntryCount then Some (entry_name (kHpackStaticTable ! (index - 1)))
      else case findEntry (dec_dynamicTable d) (index - kHpackFirstDynamicTableIndex) of
        None \<Rightarrow> None
      | Some entry \<Rightarrow> Some (field_name entry))"

text \<open>A representation decoded: the decoder, the bytes consumed, the size of the arena and the fields
  collected. Every failure records itself, so the left side is the decoder after \<open>recordFailure\<close>.\<close>

type_synonym represented = "HpackDecoder + HpackDecoder \<times> nat \<times> nat \<times> HpackHeaderField list"

text \<open>A literal is its name index, the name it stands for or the name spelled out, and the value.\<close>

definition decodeLiteralName ::
  "u64 \<Rightarrow> bytes \<Rightarrow> HpackDecoder \<Rightarrow> nat \<Rightarrow> nat \<Rightarrow> HpackDecoder + bytes \<times> nat \<times> nat" where
  "decodeLiteralName nameIndex headerBlock d consumed arena =
     (if nameIndex = 0
      then bindR (someOr (recordFailure CompressionError d) (decodeHpackString (drop consumed headerBlock)))
        (\<lambda>(literalName, nameByteCount).
          Inr (literalName, consumed + nameByteCount,
               if dec_isBeyondHeaderLimits d then arena else arena + length literalName))
      else bindR (someOr (recordFailure CompressionError d) (resolveIndexedNameView d (unat nameIndex)))
        (\<lambda>name.
          Inr (name, consumed,
               if \<not> dec_isBeyondHeaderLimits d \<and> unat nameIndex > kHpackStaticTableEntryCount
               then arena + length name else arena)))"

definition decodeLiteralValue ::
  "bool \<Rightarrow> bytes \<Rightarrow> HpackDecoder \<Rightarrow> HpackHeaderField list \<Rightarrow> bytes \<times> nat \<times> nat \<Rightarrow> represented" where
  "decodeLiteralValue isIncrementalIndexing headerBlock d headerFields = (\<lambda>(name, consumed, arena).
     bindR (someOr (recordFailure CompressionError d) (decodeHpackString (drop consumed headerBlock)))
       (\<lambda>(value, valueByteCount).
         let consumed = consumed + valueByteCount;
             field = \<lparr>field_name = name, field_value = value\<rparr>;
             arena = (if dec_isBeyondHeaderLimits d then arena else arena + length value);
             d = d\<lparr>dec_hasSeenHeaderRepresentation := True\<rparr>;
             (d, headerFields) = appendField field d headerFields;
             d = (if isIncrementalIndexing then d\<lparr>dec_dynamicTable := insertEntry field (dec_dynamicTable d)\<rparr> else d) in
         Inr (d, consumed, arena, headerFields)))"

definition decodeLiteralRepresentation ::
  "nat \<Rightarrow> bool \<Rightarrow> bytes \<Rightarrow> HpackDecoder \<Rightarrow> nat \<Rightarrow> nat \<Rightarrow> HpackHeaderField list \<Rightarrow> represented" where
  "decodeLiteralRepresentation nameIndexPrefixBitCount isIncrementalIndexing headerBlock d consumed arena headerFields =
     bindR (someOr (recordFailure CompressionError d)
              (decodeHpackInteger (drop consumed headerBlock) nameIndexPrefixBitCount))
       (\<lambda>(nameIndex, nameIndexByteCount).
         bindR (decodeLiteralName nameIndex headerBlock d (consumed + nameIndexByteCount) arena)
           (decodeLiteralValue isIncrementalIndexing headerBlock d headerFields))"

definition decodeRepresentation ::
  "bytes \<Rightarrow> HpackDecoder \<Rightarrow> nat \<Rightarrow> nat \<Rightarrow> HpackHeaderField list \<Rightarrow> represented" where
  "decodeRepresentation headerBlock d consumed arena headerFields =
     (let firstByte = headerBlock ! consumed in
      if firstByte AND 0x80 \<noteq> 0
      then bindR (someOr (recordFailure CompressionError d) (decodeHpackInteger (drop consumed headerBlock) 7))
        (\<lambda>(index, indexByteCount).
          let consumed = consumed + indexByteCount in
          if index = 0 then Inl (recordFailure CompressionError d)
          else bindR (someOr (recordFailure CompressionError d)
                        (if dec_isBeyondHeaderLimits d
                         then map_option (\<lambda>name. (\<lparr>field_name = name, field_value = []\<rparr>, arena))
                                (resolveIndexedNameView d (unat index))
                         else resolveIndexedFieldView d (unat index) arena))
            (\<lambda>(field, arena).
              let d = d\<lparr>dec_hasSeenHeaderRepresentation := True\<rparr>;
                  (d, headerFields) = appendField field d headerFields in
              Inr (d, consumed, arena, headerFields)))
      else if firstByte AND 0xC0 = 0x40
      then decodeLiteralRepresentation 6 True headerBlock d consumed arena headerFields
      else if firstByte AND 0xE0 = 0x20
      then if dec_hasSeenHeaderRepresentation d then Inl (recordFailure CompressionError d)
        else bindR (someOr (recordFailure CompressionError d) (decodeHpackInteger (drop consumed headerBlock) 5))
          (\<lambda>(maximumSize, sizeByteCount).
            let consumed = consumed + sizeByteCount in
            if unat maximumSize > maximumDynamicTableSizeByteCount (dec_limits d)
            then Inl (recordFailure CompressionError d)
            else Inr (d\<lparr>dec_dynamicTable := setMaximumSizeByteCount (unat maximumSize) (dec_dynamicTable d)\<rparr>,
                      consumed, arena, headerFields))
      else decodeLiteralRepresentation 4 False headerBlock d consumed arena headerFields)"

text \<open>The steps of a literal that succeeds.\<close>

lemma decodeLiteral_steps:
  assumes "decodeLiteralRepresentation n b block d consumed arena hs = Inr r"
  obtains i k name c1 a1 v k2 where "decodeHpackInteger (drop consumed block) n = Some (i, k)" "0 < k"
    "decodeLiteralName i block d (consumed + k) arena = Inr (name, c1, a1)" "consumed + k \<le> c1"
    "decodeHpackString (drop c1 block) = Some (v, k2)"
    "r = (let h = \<lparr>field_name = name, field_value = v\<rparr>;
              d1 = appendField h (d\<lparr>dec_hasSeenHeaderRepresentation := True\<rparr>) hs in
          (if b then (fst d1)\<lparr>dec_dynamicTable := insertEntry h (dec_dynamicTable (fst d1))\<rparr> else fst d1,
           c1 + k2, if dec_isBeyondHeaderLimits d then a1 else a1 + length v, snd d1))"
proof -
  obtain i k where i: "decodeHpackInteger (drop consumed block) n = Some (i, k)"
    using assms by (cases "decodeHpackInteger (drop consumed block) n") (auto simp: decodeLiteralRepresentation_def)
  then obtain name c1 a1 where name: "decodeLiteralName i block d (consumed + k) arena = Inr (name, c1, a1)"
      "decodeLiteralValue b block d hs (name, c1, a1) = Inr r"
    using assms by (auto simp: decodeLiteralRepresentation_def bindR_Inr_iff)
  then obtain v k2 where v: "decodeHpackString (drop c1 block) = Some (v, k2)"
    by (cases "decodeHpackString (drop c1 block)") (auto simp: decodeLiteralValue_def)
  have "consumed + k \<le> c1"
    using name(1) by (auto simp: decodeLiteralName_def bindR_Inr_iff someOr_def split: if_splits option.splits)
  moreover have "0 < k" using decodeHpackInteger_value [OF i] by blast
  moreover obtain d1 hs1 where "appendField \<lparr>field_name = name, field_value = v\<rparr>
      (d\<lparr>dec_hasSeenHeaderRepresentation := True\<rparr>) hs = (d1, hs1)" by fastforce
  ultimately show thesis
    using that [OF i _ name(1) _ v] name(2) v by (simp add: decodeLiteralValue_def Let_def cong: if_cong)
qed

lemma decodeLiteral_consumes:
  assumes "decodeLiteralRepresentation n b block d consumed arena hs = Inr (d', consumed', rest)"
  shows "consumed < consumed'"
  using assms by (elim decodeLiteral_steps) (simp add: Let_def)

lemma decodeRepresentation_consumes:
  assumes "decodeRepresentation block d consumed arena hs = Inr (d', consumed', rest)"
  shows "consumed < consumed'"
proof -
  have number: "0 < k" if "decodeHpackInteger bs n = Some (i, k)" for bs n i k
    using decodeHpackInteger_value [OF that] by blast
  show ?thesis
    using assms decodeLiteral_consumes unfolding decodeRepresentation_def Let_def case_prod_unfold
    by (auto simp: bindR_Inr_iff someOr_def split: if_splits option.splits dest: number)
qed

function decodeLoop ::
  "nat \<Rightarrow> bytes \<Rightarrow> HpackDecoder \<Rightarrow> nat \<Rightarrow> nat \<Rightarrow> HpackHeaderField list \<Rightarrow> HpackDecoder + HpackDecoder \<times> HpackHeaderField list" where
  "decodeLoop arenaHardLimitByteCount headerBlock d consumed arena headerFields =
     (if consumed < length headerBlock
      then case decodeRepresentation headerBlock d consumed arena headerFields of
          Inl d \<Rightarrow> Inl d
        | Inr (d, consumed, arena, headerFields) \<Rightarrow>
            if arena > arenaHardLimitByteCount then Inl (recordFailure CompressionError d)
            else decodeLoop arenaHardLimitByteCount headerBlock d consumed arena headerFields
      else Inr (d, headerFields))"
  by pat_completeness auto
termination
  by (relation "measure (\<lambda>(limit, headerBlock, d, consumed, rest). length headerBlock - consumed)")
    (auto intro: diff_less_mono2 dest: decodeRepresentation_consumes)

declare decodeLoop.simps [simp del]

definition arenaHardLimit :: "HpackDecoder \<Rightarrow> bytes \<Rightarrow> nat" where
  "arenaHardLimit d headerBlock =
     maximumHeaderListByteCount (dec_limits d) + maximumDynamicTableSizeByteCount (dec_limits d) + length headerBlock * 2"

definition startBlock :: "HpackDecoder \<Rightarrow> HpackDecoder" where
  "startBlock d = d\<lparr>dec_isBeyondHeaderLimits := False, dec_errorKind := NoHpackError,
     dec_headerListByteCount := 0, dec_hasSeenHeaderRepresentation := False\<rparr>"

definition decodeHeaderBlock :: "bytes \<Rightarrow> HpackDecoder \<Rightarrow> bool \<times> HpackDecoder \<times> HpackHeaderField list" where
  "decodeHeaderBlock headerBlock d =
     (if dec_hasError d then (False, d, [])
      else case decodeLoop (arenaHardLimit d headerBlock) headerBlock (startBlock d) 0 0 [] of
          Inl d \<Rightarrow> (False, d, [])
        | Inr (d, headerFields) \<Rightarrow>
            if dec_isBeyondHeaderLimits d then (False, d, []) else (True, d, headerFields))"

section \<open>The encoder\<close>

record HpackEncoder =
  enc_dynamicTable :: HpackDynamicTable
  enc_hasPendingTableSizeUpdate :: bool

definition newHpackEncoder :: "nat \<Rightarrow> HpackEncoder" where
  "newHpackEncoder maximumSize =
     \<lparr>enc_dynamicTable = newDynamicTable maximumSize, enc_hasPendingTableSizeUpdate = False\<rparr>"

definition encoderSetMaximum :: "nat \<Rightarrow> HpackEncoder \<Rightarrow> HpackEncoder" where
  "encoderSetMaximum maximumSize e =
     (if maximumSize = table_maximumSizeByteCount (enc_dynamicTable e) then e
      else e\<lparr>enc_dynamicTable := setMaximumSizeByteCount maximumSize (enc_dynamicTable e),
             enc_hasPendingTableSizeUpdate := True\<rparr>)"

definition encodeField ::
  "HpackHeaderField \<Rightarrow> bytes \<times> HpackDynamicTable \<Rightarrow> thrown + bytes \<times> HpackDynamicTable" where
  "encodeField field = (\<lambda>(headerBlock, table).
     let staticNameRun = findHpackStaticNameRun (field_name field);
         staticExactIndex = findHpackStaticExactIndex staticNameRun (field_value field) in
     if staticExactIndex \<noteq> 0
     then bindR (appendHpackInteger headerBlock (of_nat staticExactIndex) 7 0x80) (\<lambda>out. Inr (out, table))
     else let dynamicIndex = findHpackDynamicTableIndex table (field_name field) (field_value field) in
       if dynamicIndex \<noteq> 0
       then bindR (appendHpackInteger headerBlock (of_nat dynamicIndex) 7 0x80) (\<lambda>out. Inr (out, table))
       else let staticNameIndex = (case staticNameRun of None \<Rightarrow> 0 | Some run \<Rightarrow> firstEntryIndex run + 1) in
         bindR (if staticNameIndex \<noteq> 0
                then bindR (appendHpackInteger headerBlock (of_nat staticNameIndex) 6 0x40)
                  (\<lambda>out. appendHpackString out (field_value field))
                else bindR (appendHpackInteger headerBlock 0 6 0x40)
                  (\<lambda>out. bindR (appendHpackString out (field_name field))
                    (\<lambda>out. appendHpackString out (field_value field))))
           (\<lambda>out. Inr (out, insertEntry field table)))"

primrec encodeFields ::
  "HpackHeaderField list \<Rightarrow> bytes \<times> HpackDynamicTable \<Rightarrow> thrown + bytes \<times> HpackDynamicTable" where
  "encodeFields [] s = Inr s"
| "encodeFields (field # hs) s = bindR (encodeField field s) (encodeFields hs)"

definition encodeHeaderBlock :: "HpackHeaderField list \<Rightarrow> HpackEncoder \<Rightarrow> thrown + bytes \<times> HpackEncoder" where
  "encodeHeaderBlock hs e =
     bindR (if enc_hasPendingTableSizeUpdate e
            then bindR (appendHpackInteger [] (of_nat (table_maximumSizeByteCount (enc_dynamicTable e))) 5 0x20)
              (\<lambda>out. Inr (out, e\<lparr>enc_hasPendingTableSizeUpdate := False\<rparr>))
            else Inr ([], e))
       (\<lambda>(headerBlock, e).
         bindR (encodeFields hs (headerBlock, enc_dynamicTable e))
           (\<lambda>(headerBlock, table). Inr (headerBlock, e\<lparr>enc_dynamicTable := table\<rparr>)))"

definition resetHpackEncoder :: "HpackEncoder \<Rightarrow> HpackEncoder" where
  "resetHpackEncoder e =
     e\<lparr>enc_dynamicTable := clearDynamicTable (enc_dynamicTable e), enc_hasPendingTableSizeUpdate := False\<rparr>"

end
