(* ===== verification/HpackLimits.thy ===== *)
theory HpackLimits
  imports Hpack
begin

text \<open>
  What the HPACK decoder promises for any input: the dynamic table stays within the size announced to
  the peer and its counter is exact, a header list that is returned obeys the limits, and the guard on
  the arena never fires.
\<close>

section \<open>The dynamic table\<close>

definition entries_size :: "HpackHeaderField list \<Rightarrow> nat" where
  "entries_size hs = sum_list (map dynamicTableEntrySizeByteCount hs)"

lemma entries_size_simps [simp]:
  "entries_size [] = 0"
  "entries_size (h # hs) = dynamicTableEntrySizeByteCount h + entries_size hs"
  "entries_size (xs @ ys) = entries_size xs + entries_size ys"
  by (simp_all add: entries_size_def)

definition table_exact :: "HpackDynamicTable \<Rightarrow> bool" where
  "table_exact t \<longleftrightarrow> table_sizeByteCount t = entries_size (table_entries t)"

definition table_ok :: "HpackDynamicTable \<Rightarrow> bool" where
  "table_ok t \<longleftrightarrow> table_exact t \<and> table_sizeByteCount t \<le> table_maximumSizeByteCount t"

text \<open>Evicting leaves the longest run of newest entries that fits.\<close>

definition fits :: "nat \<Rightarrow> nat \<Rightarrow> HpackHeaderField list \<Rightarrow> bool" where
  "fits maximum extra hs \<longleftrightarrow> hs = [] \<or> entries_size hs + extra \<le> maximum"

lemma evictEntries_spec:
  fixes extra :: nat
  assumes "table_exact t"
  defines "t' \<equiv> evictEntries extra t"
  shows "table_exact t' \<and> table_maximumSizeByteCount t' = table_maximumSizeByteCount t \<and>
    prefix (table_entries t') (table_entries t) \<and> fits (table_maximumSizeByteCount t) extra (table_entries t') \<and>
    (\<forall>hs. prefix hs (table_entries t) \<and> fits (table_maximumSizeByteCount t) extra hs \<longrightarrow> prefix hs (table_entries t'))"
  using assms(1) unfolding t'_def
proof (induction extra t rule: evictEntries.induct)
  case (1 extra t)
  show ?case
  proof (cases "table_sizeByteCount t + extra > table_maximumSizeByteCount t \<and> table_entries t \<noteq> []")
    case True
    obtain hs h where split: "table_entries t = hs @ [h]" using True by (cases "table_entries t" rule: rev_cases) auto
    let ?t = "t\<lparr>table_sizeByteCount := table_sizeByteCount t - dynamicTableEntrySizeByteCount (last (table_entries t)),
      table_entries := butlast (table_entries t)\<rparr>"
    have eq: "evictEntries extra t = evictEntries extra ?t"
      using True by (subst evictEntries.simps) simp
    have exact: "table_exact ?t" using 1(2) split by (simp add: table_exact_def)
    note IH = 1(1) [OF True exact]
    have "prefix xs hs" if "prefix xs (table_entries t)" "fits (table_maximumSizeByteCount t) extra xs" for xs
      using that True 1(2) split by (auto simp: prefix_snoc fits_def table_exact_def)
    then show ?thesis unfolding eq using IH split by auto
  next
    case False
    then have "evictEntries extra t = t" by (subst evictEntries.simps) auto
    then show ?thesis using False 1(2) by (auto simp: fits_def table_exact_def)
  qed
qed

lemma newDynamicTable_ok [simp]: "table_ok (newDynamicTable n)"
  by (simp add: table_ok_def table_exact_def newDynamicTable_def)

lemma setMaximum_spec:
  assumes "table_exact t"
  shows "table_ok (setMaximumSizeByteCount n t)" "table_maximumSizeByteCount (setMaximumSizeByteCount n t) = n"
    "prefix (table_entries (setMaximumSizeByteCount n t)) (table_entries t)"
    "prefix hs (table_entries t) \<Longrightarrow> entries_size hs \<le> n \<Longrightarrow> prefix hs (table_entries (setMaximumSizeByteCount n t))"
proof -
  let ?t = "t\<lparr>table_maximumSizeByteCount := n\<rparr>"
  have exact: "table_exact ?t" using assms by (simp add: table_exact_def)
  note spec = evictEntries_spec [OF exact, of 0]
  from spec show "table_maximumSizeByteCount (setMaximumSizeByteCount n t) = n"
    "prefix (table_entries (setMaximumSizeByteCount n t)) (table_entries t)"
    by (simp_all add: setMaximumSizeByteCount_def)
  from spec show "table_ok (setMaximumSizeByteCount n t)"
    by (auto simp: setMaximumSizeByteCount_def table_ok_def table_exact_def fits_def)
  show "prefix hs (table_entries (setMaximumSizeByteCount n t))" if "prefix hs (table_entries t)" "entries_size hs \<le> n"
    using spec that by (simp add: setMaximumSizeByteCount_def fits_def)
qed

lemma insertEntry_spec:
  assumes "table_ok t"
  shows "table_ok (insertEntry h t)" "table_maximumSizeByteCount (insertEntry h t) = table_maximumSizeByteCount t"
proof -
  have "table_ok (insertEntry h t) \<and> table_maximumSizeByteCount (insertEntry h t) = table_maximumSizeByteCount t"
  proof (cases "dynamicTableEntrySizeByteCount h > table_maximumSizeByteCount t")
    case True
    then show ?thesis by (simp add: insertEntry_def clearDynamicTable_def table_ok_def table_exact_def)
  next
    case False
    let ?t = "evictEntries (dynamicTableEntrySizeByteCount h) t"
    have "table_exact ?t \<and> table_maximumSizeByteCount ?t = table_maximumSizeByteCount t \<and>
        fits (table_maximumSizeByteCount t) (dynamicTableEntrySizeByteCount h) (table_entries ?t)"
      using assms evictEntries_spec by (simp add: table_ok_def)
    then show ?thesis
      using False by (auto simp: insertEntry_def Let_def table_ok_def table_exact_def fits_def)
  qed
  then show "table_ok (insertEntry h t)" "table_maximumSizeByteCount (insertEntry h t) = table_maximumSizeByteCount t"
    by simp_all
qed

text \<open>A table that starts with the entries of a smaller one still does after both have taken an entry in.\<close>

lemma insertEntry_prefix:
  assumes "table_ok s" "table_ok t" "prefix (table_entries s) (table_entries t)"
    "table_maximumSizeByteCount s \<le> table_maximumSizeByteCount t"
  shows "prefix (table_entries (insertEntry h s)) (table_entries (insertEntry h t))"
proof (cases "dynamicTableEntrySizeByteCount h > table_maximumSizeByteCount s")
  case True
  then show ?thesis by (simp add: insertEntry_def clearDynamicTable_def)
next
  case False
  let ?n = "dynamicTableEntrySizeByteCount h"
  let ?s = "evictEntries ?n s" let ?t = "evictEntries ?n t"
  have s: "prefix (table_entries ?s) (table_entries s)" "fits (table_maximumSizeByteCount s) ?n (table_entries ?s)"
    using assms(1) evictEntries_spec [of s ?n] by (simp_all add: table_ok_def)
  then have "fits (table_maximumSizeByteCount t) ?n (table_entries ?s)"
    using assms(4) by (auto simp: fits_def)
  then have "prefix (table_entries ?s) (table_entries ?t)"
    using assms(2,3) s(1) evictEntries_spec [of t ?n] by (meson prefix_order.trans table_ok_def)
  moreover have "\<not> ?n > table_maximumSizeByteCount t" using False assms(4) by simp
  ultimately show ?thesis using False by (simp add: insertEntry_def Let_def)
qed

lemma findEntry_bound:
  assumes "table_exact t" "findEntry t i = Some h"
  shows "dynamicTableEntrySizeByteCount h \<le> table_sizeByteCount t"
proof -
  have "h \<in> set (table_entries t)" using assms(2) by (auto simp: findEntry_def split: if_splits)
  then show ?thesis
    using assms(1) member_le_sum_list [of "dynamicTableEntrySizeByteCount h" "map dynamicTableEntrySizeByteCount (table_entries t)"]
    by (simp add: table_exact_def entries_size_def)
qed

section \<open>How much a string can hold\<close>

lemma length_encoding: "5 * length v \<le> length (encoding v)"
proof (induction v)
  case (Cons c v)
  have "5 \<le> length (codeword (unat c))"
    using code_pair(1) [of "unat c"] unat_byte_bound [of c] by simp
  then show ?case using Cons by (simp add: encoding_def)
qed (simp add: encoding_def)

lemma huffman_length:
  assumes "decodeHpackHuffmanString bs = Some v"
  shows "5 * length v \<le> 8 * length bs"
proof -
  obtain padding where "string_bits bs = encoding v @ padding"
    using huffman_accepts assms by blast
  then have "length (encoding v) \<le> length (string_bits bs)" by simp
  moreover have "length (string_bits bs) = 8 * length bs"
    by (induction bs) (simp_all add: string_bits_def)
  ultimately show ?thesis using length_encoding [of v] by simp
qed

lemma string_length:
  assumes "decodeHpackString bs = Some (v, k)"
  shows "k \<le> length bs" "5 * length v \<le> 8 * k"
proof -
  obtain n m where n: "decodeHpackInteger bs 7 = Some (n, m)" "unat n \<le> length bs - m" "k = m + unat n"
    "v = take (unat n) (drop m bs) \<or> decodeHpackHuffmanString (take (unat n) (drop m bs)) = Some v"
    using assms by (auto simp: decodeHpackString_def Let_def not_less split: if_splits option.splits)
  moreover have m: "m \<le> length bs" using decodeHpackInteger_value [OF n(1)] by blast
  ultimately show "k \<le> length bs" by simp
  have "length (take (unat n) (drop m bs)) = unat n" using n(2) m by simp
  then show "5 * length v \<le> 8 * k" using n(3,4) huffman_length by fastforce
qed

section \<open>The decoding loop\<close>

definition fields_fit :: "HpackDecoderLimits \<Rightarrow> HpackHeaderField list \<Rightarrow> bool" where
  "fields_fit limits hs \<longleftrightarrow>
     list_all (\<lambda>h. length (field_name h) \<le> maximumHeaderFieldNameLength limits
       \<and> length (field_value h) \<le> maximumHeaderFieldValueLength limits) hs
     \<and> entries_size hs \<le> maximumHeaderListByteCount limits"

definition decoder_ok :: "HpackDecoder \<Rightarrow> bool" where
  "decoder_ok d \<longleftrightarrow> table_ok (dec_dynamicTable d) \<and>
     table_maximumSizeByteCount (dec_dynamicTable d) \<le> maximumDynamicTableSizeByteCount (dec_limits d)"

text \<open>While a block is decoded: what has been collected obeys the limits, and the arena holds no more than
  what was collected, or, once a limit is passed, what was collected and the one field that passed it.\<close>

definition collected :: "bytes \<Rightarrow> HpackDecoder \<Rightarrow> nat \<Rightarrow> HpackHeaderField list \<Rightarrow> bool" where
  "collected block d arena hs \<longleftrightarrow> \<not> dec_hasError d \<and>
     (if dec_isBeyondHeaderLimits d then dec_errorKind d = LimitExceeded \<and> arena \<le> arenaHardLimit d block
      else dec_errorKind d = NoHpackError \<and> fields_fit (dec_limits d) hs \<and>
        dec_headerListByteCount d = entries_size hs \<and> arena \<le> entries_size hs)"

lemma collected_guard: "collected block d arena hs \<Longrightarrow> arena \<le> arenaHardLimit d block"
  by (auto simp: collected_def arenaHardLimit_def fields_fit_def split: if_splits)

lemma collected_same [simp]:
  "collected block (d\<lparr>dec_hasSeenHeaderRepresentation := b\<rparr>) arena hs = collected block d arena hs"
  "collected block (d\<lparr>dec_dynamicTable := t\<rparr>) arena hs = collected block d arena hs"
  by (simp_all add: collected_def arenaHardLimit_def)

lemma decoder_ok_same [simp]:
  "decoder_ok (d\<lparr>dec_hasSeenHeaderRepresentation := b\<rparr>) = decoder_ok d"
  "decoder_ok (recordFailure kind d) = decoder_ok d"
  by (simp_all add: decoder_ok_def recordFailure_def)

lemma appendField_keeps:
  assumes "appendField h d hs = (d', hs')"
  shows "dec_limits d' = dec_limits d" "dec_dynamicTable d' = dec_dynamicTable d" "dec_hasError d' = dec_hasError d"
    "dec_hasSeenHeaderRepresentation d' = dec_hasSeenHeaderRepresentation d" "decoder_ok d' = decoder_ok d"
  using assms
  by (auto simp: appendField_def noteHeaderLimitExceeded_def decoder_ok_def Let_def split: if_splits)

lemma appendField_collects:
  assumes "collected block d arena hs" "appendField h d hs = (d', hs')"
    "\<not> dec_isBeyondHeaderLimits d \<Longrightarrow> extra \<le> length (field_name h) + length (field_value h) \<and>
       extra \<le> maximumDynamicTableSizeByteCount (dec_limits d) + 2 * length block"
  shows "collected block d' (if dec_isBeyondHeaderLimits d then arena else arena + extra) hs'"
proof (cases "dec_isBeyondHeaderLimits d")
  case True
  then show ?thesis using assms by (simp add: appendField_def)
next
  case False
  then have arena: "arena \<le> entries_size hs" "entries_size hs \<le> maximumHeaderListByteCount (dec_limits d)"
    using assms(1) by (simp_all add: collected_def fields_fit_def)
  then show ?thesis
    using assms False
    by (auto simp: collected_def appendField_def noteHeaderLimitExceeded_def arenaHardLimit_def fields_fit_def
        dynamicTableEntrySizeByteCount_def Let_def split: if_splits)
qed

lemma insertEntry_decoder_ok:
  "decoder_ok d \<Longrightarrow> decoder_ok (d\<lparr>dec_dynamicTable := insertEntry h (dec_dynamicTable d)\<rparr>)"
  by (simp add: decoder_ok_def insertEntry_spec)

lemma dynamic_name_bound:
  assumes "decoder_ok d" "findEntry (dec_dynamicTable d) i = Some h"
  shows "length (field_name h) + length (field_value h) \<le> maximumDynamicTableSizeByteCount (dec_limits d)"
  using findEntry_bound [OF _ assms(2)] assms(1)
  by (simp add: decoder_ok_def table_ok_def dynamicTableEntrySizeByteCount_def)

text \<open>What the name of a literal adds to the arena.\<close>

lemma literal_name_arena:
  assumes "decodeLiteralName i block d c arena = Inr (name, c1, a1)" "decoder_ok d"
  shows "\<exists>more. a1 = (if dec_isBeyondHeaderLimits d then arena else arena + more) \<and> more \<le> length name \<and> c \<le> c1 \<and>
    (more \<le> maximumDynamicTableSizeByteCount (dec_limits d) \<and> c1 = c \<or> 5 * more \<le> 8 * (c1 - c) \<and> c1 - c \<le> length block - c)"
proof (cases "i = 0")
  case True
  then obtain k where k: "decodeHpackString (drop c block) = Some (name, k)"
      "c1 = c + k" "a1 = (if dec_isBeyondHeaderLimits d then arena else arena + length name)"
    using assms(1) by (auto simp: decodeLiteralName_def bindR_Inr_iff someOr_def split: option.splits)
  then show ?thesis using string_length [OF k(1)] by (intro exI [of _ "length name"]) simp
next
  case False
  then have name: "resolveIndexedNameView d (unat i) = Some name" "c1 = c"
      "a1 = (if \<not> dec_isBeyondHeaderLimits d \<and> unat i > kHpackStaticTableEntryCount then arena + length name else arena)"
    using assms(1) by (auto simp: decodeLiteralName_def bindR_Inr_iff someOr_def split: option.splits)
  show ?thesis
  proof (cases "unat i > kHpackStaticTableEntryCount")
    case True
    then obtain h where "findEntry (dec_dynamicTable d) (unat i - kHpackFirstDynamicTableIndex) = Some h" "name = field_name h"
      using name(1) by (auto simp: resolveIndexedNameView_def split: if_splits option.splits)
    then have "length name \<le> maximumDynamicTableSizeByteCount (dec_limits d)"
      using dynamic_name_bound [OF assms(2)] by fastforce
    then show ?thesis using name True by (intro exI [of _ "length name"]) simp
  next
    case False
    then show ?thesis using name by (intro exI [of _ 0]) simp
  qed
qed

lemma literal_collects:
  assumes inv: "collected block d arena hs" "decoder_ok d"
    and decoded: "decodeLiteralRepresentation n incremental block d consumed arena hs = Inr (d', consumed', arena', hs')"
  shows "collected block d' arena' hs' \<and> decoder_ok d' \<and> dec_limits d' = dec_limits d"
  using decoded
proof (rule decodeLiteral_steps)
  fix i k name c1 a1 v k2
  assume name: "decodeLiteralName i block d (consumed + k) arena = Inr (name, c1, a1)"
    and v: "decodeHpackString (drop c1 block) = Some (v, k2)"
    and r: "(d', consumed', arena', hs') = (let h = \<lparr>field_name = name, field_value = v\<rparr>;
              d1 = appendField h (d\<lparr>dec_hasSeenHeaderRepresentation := True\<rparr>) hs in
          (if incremental then (fst d1)\<lparr>dec_dynamicTable := insertEntry h (dec_dynamicTable (fst d1))\<rparr> else fst d1,
           c1 + k2, if dec_isBeyondHeaderLimits d then a1 else a1 + length v, snd d1))"
  let ?h = "\<lparr>field_name = name, field_value = v\<rparr>" let ?d = "d\<lparr>dec_hasSeenHeaderRepresentation := True\<rparr>"
  obtain d1 hs1 where one: "appendField ?h ?d hs = (d1, hs1)" by fastforce
  obtain more where more: "a1 = (if dec_isBeyondHeaderLimits d then arena else arena + more)" "more \<le> length name"
      "more \<le> maximumDynamicTableSizeByteCount (dec_limits d) \<and> c1 = consumed + k
       \<or> 5 * more \<le> 8 * (c1 - (consumed + k)) \<and> c1 - (consumed + k) \<le> length block - (consumed + k)"
      "consumed + k \<le> c1"
    using literal_name_arena [OF name inv(2)] by blast
  have "k2 \<le> length block - c1" "5 * length v \<le> 8 * k2" using string_length [OF v] by simp_all
  then have "more + length v \<le> maximumDynamicTableSizeByteCount (dec_limits d) + 2 * length block"
    using more(3,4) by linarith
  then have "collected block d1 (if dec_isBeyondHeaderLimits ?d then arena else arena + (more + length v)) hs1"
    using inv(1) more(2) by (intro appendField_collects [OF _ one]) auto
  moreover have "arena' = (if dec_isBeyondHeaderLimits ?d then arena else arena + (more + length v))" "hs' = hs1"
    "d' = (if incremental then d1\<lparr>dec_dynamicTable := insertEntry ?h (dec_dynamicTable d1)\<rparr> else d1)"
    using r one more(1) by (simp_all add: Let_def)
  moreover have "decoder_ok d1" "dec_limits d1 = dec_limits d"
    using appendField_keeps [OF one] inv(2) by simp_all
  ultimately show ?thesis using insertEntry_decoder_ok by simp
qed

text \<open>A failure is recorded and leaves the table as it is.\<close>

definition failed :: "HpackDecoder \<Rightarrow> HpackDecoder \<Rightarrow> bool" where
  "failed d d' \<longleftrightarrow> dec_hasError d' \<and> dec_errorKind d' = CompressionError \<and> dec_limits d' = dec_limits d \<and> decoder_ok d'"

lemma recordFailure_failed [simp]: "decoder_ok d \<Longrightarrow> failed d (recordFailure CompressionError d)"
  by (simp add: failed_def) (simp add: recordFailure_def)

lemma representation_fails:
  assumes "decodeRepresentation block d consumed arena hs = Inl d'" "decoder_ok d"
  shows "failed d d'"
proof -
  have literal: "d' = recordFailure CompressionError d"
    if "decodeLiteralRepresentation n incremental block d consumed arena hs = Inl d'" for n incremental
    using that
    by (auto simp: decodeLiteralRepresentation_def decodeLiteralName_def decodeLiteralValue_def
        Let_def bindR_def someOr_def split: if_splits option.splits sum.splits prod.splits)
  have "d' = recordFailure CompressionError d"
    using assms(1) literal unfolding decodeRepresentation_def Let_def
    by (auto simp: bindR_def someOr_def split: if_splits option.splits sum.splits prod.splits)
  then show ?thesis using assms(2) by simp
qed

lemma representation_collects:
  assumes inv: "collected block d arena hs" "decoder_ok d"
    and decoded: "decodeRepresentation block d consumed arena hs = Inr (d', consumed', arena', hs')"
  shows "collected block d' arena' hs' \<and> decoder_ok d' \<and> dec_limits d' = dec_limits d"
proof -
  let ?b = "block ! consumed" let ?d = "d\<lparr>dec_hasSeenHeaderRepresentation := True\<rparr>"
  consider (indexed) "?b AND 0x80 \<noteq> 0"
    | (incremental) "?b AND 0x80 = 0" "?b AND 0xC0 = 0x40"
    | (update) "?b AND 0x80 = 0" "?b AND 0xC0 \<noteq> 0x40" "?b AND 0xE0 = 0x20"
    | (plain) "?b AND 0x80 = 0" "?b AND 0xC0 \<noteq> 0x40" "?b AND 0xE0 \<noteq> 0x20"
    by blast
  then show ?thesis
  proof cases
    case indexed
    then obtain i k h a where i: "decodeHpackInteger (drop consumed block) 7 = Some (i, k)"
        "(if dec_isBeyondHeaderLimits d
          then map_option (\<lambda>name. (\<lparr>field_name = name, field_value = []\<rparr>, arena)) (resolveIndexedNameView d (unat i))
          else resolveIndexedFieldView d (unat i) arena) = Some (h, a)"
        "(d', arena', hs') = (fst (appendField h ?d hs), a, snd (appendField h ?d hs))"
      using decoded
      by (auto simp: decodeRepresentation_def Let_def bindR_Inr_iff someOr_def case_prod_unfold split: if_splits option.splits)
    have "\<exists>extra. a = (if dec_isBeyondHeaderLimits d then arena else arena + extra) \<and>
        (\<not> dec_isBeyondHeaderLimits d \<longrightarrow> extra \<le> length (field_name h) + length (field_value h) \<and>
          extra \<le> maximumDynamicTableSizeByteCount (dec_limits d) + 2 * length block)"
    proof (cases "dec_isBeyondHeaderLimits d")
      case True
      then show ?thesis using i(2) by auto
    next
      case False
      then have h: "resolveIndexedFieldView d (unat i) arena = Some (h, a)" using i(2) by simp
      show ?thesis
      proof (cases "unat i \<le> kHpackStaticTableEntryCount")
        case True
        then show ?thesis using h by (intro exI [of _ 0]) (auto simp: resolveIndexedFieldView_def Let_def)
      next
        case beyond: False
        then have "findEntry (dec_dynamicTable d) (unat i - kHpackFirstDynamicTableIndex) = Some h"
            "a = arena + (length (field_name h) + length (field_value h))"
          using h by (auto simp: resolveIndexedFieldView_def split: option.splits)
        then show ?thesis
          using dynamic_name_bound [OF inv(2)] False
          by (intro exI [of _ "length (field_name h) + length (field_value h)"]) fastforce
      qed
    qed
    then obtain extra where extra: "a = (if dec_isBeyondHeaderLimits ?d then arena else arena + extra)"
        "\<not> dec_isBeyondHeaderLimits ?d \<Longrightarrow> extra \<le> length (field_name h) + length (field_value h) \<and>
          extra \<le> maximumDynamicTableSizeByteCount (dec_limits ?d) + 2 * length block"
      by auto
    obtain d1 hs1 where one: "appendField h ?d hs = (d1, hs1)" by fastforce
    have "collected block ?d arena hs" using inv(1) by simp
    from appendField_collects [OF this one extra(2)] show ?thesis
      using i(3) one extra(1) appendField_keeps [OF one] inv(2) by simp
  next
    case incremental
    then show ?thesis using literal_collects [OF inv] decoded by (simp add: decodeRepresentation_def)
  next
    case plain
    then show ?thesis using literal_collects [OF inv] decoded by (simp add: decodeRepresentation_def)
  next
    case update
    then obtain n k where "decodeHpackInteger (drop consumed block) 5 = Some (n, k)"
        "unat n \<le> maximumDynamicTableSizeByteCount (dec_limits d)" "arena' = arena" "hs' = hs"
        "d' = d\<lparr>dec_dynamicTable := setMaximumSizeByteCount (unat n) (dec_dynamicTable d)\<rparr>"
      using decoded
      by (auto simp: decodeRepresentation_def Let_def bindR_Inr_iff someOr_def split: if_splits option.splits)
    then show ?thesis
      using inv setMaximum_spec [of "dec_dynamicTable d"] by (simp add: decoder_ok_def table_ok_def)
  qed
qed

lemma loop_step:
  assumes "collected block d arena hs" "decoder_ok d" "arenaHardLimit d block \<le> L"
  shows "decodeLoop L block d consumed arena hs =
    (if consumed < length block
     then case decodeRepresentation block d consumed arena hs of
         Inl d \<Rightarrow> Inl d
       | Inr (d, consumed, arena, hs) \<Rightarrow> decodeLoop L block d consumed arena hs
     else Inr (d, hs))"
proof -
  have "arena' \<le> L" if "decodeRepresentation block d consumed arena hs = Inr (d', consumed', arena', hs')"
    for d' consumed' arena' hs'
    using collected_guard representation_collects [OF assms(1,2) that] assms(3)
    by (fastforce simp: arenaHardLimit_def)
  then show ?thesis
    by (subst decodeLoop.simps) (auto simp: not_less split: sum.split)
qed

lemma loop_collects:
  assumes "collected block d arena hs" "decoder_ok d" "arenaHardLimit d block \<le> L"
  shows "decodeLoop L block d consumed arena hs = decodeLoop (arenaHardLimit d block) block d consumed arena hs
    \<and> (case decodeLoop L block d consumed arena hs of
         Inl d' \<Rightarrow> failed d d'
       | Inr (d', hs') \<Rightarrow> (\<exists>arena'. collected block d' arena' hs') \<and> decoder_ok d' \<and> dec_limits d' = dec_limits d)"
  using assms
proof (induction L block d consumed arena hs rule: decodeLoop.induct)
  case (1 L block d consumed arena hs)
  note step = loop_step [OF 1(2,3)]
  show ?case
  proof (cases "consumed < length block")
    case True
    show ?thesis
    proof (cases "decodeRepresentation block d consumed arena hs")
      case (Inl d')
      then show ?thesis using representation_fails [OF Inl 1(3)] True by (simp add: step 1(4))
    next
      case (Inr r)
      obtain d' consumed' arena' hs' where r: "r = (d', consumed', arena', hs')" by (cases r) auto
      have inv: "collected block d' arena' hs'" "decoder_ok d'" "dec_limits d' = dec_limits d"
        using representation_collects [OF 1(2,3)] Inr r by blast+
      then have hard: "arenaHardLimit d' block = arenaHardLimit d block" by (simp add: arenaHardLimit_def)
      have "\<not> L < arena'" using collected_guard [OF inv(1)] hard 1(4) by simp
      with 1(1) [OF True Inr [unfolded r] refl refl refl] inv hard 1(4) True Inr r show ?thesis
        by (auto simp: step failed_def split: sum.splits)
    qed
  next
    case False
    then show ?thesis using 1(2-4) by (auto simp: step)
  qed
qed

lemma startBlock_collected:
  "\<not> dec_hasError d \<Longrightarrow> collected block (startBlock d) 0 []" "decoder_ok (startBlock d) = decoder_ok d"
  "arenaHardLimit (startBlock d) block = arenaHardLimit d block" "dec_limits (startBlock d) = dec_limits d"
  by (simp_all add: collected_def startBlock_def fields_fit_def decoder_ok_def arenaHardLimit_def)

definition block_result :: "HpackDecoder \<Rightarrow> bool \<Rightarrow> HpackDecoder \<Rightarrow> HpackHeaderField list \<Rightarrow> bool" where
  "block_result d ok d' hs \<longleftrightarrow> decoder_ok d' \<and> dec_limits d' = dec_limits d \<and>
     (if ok then \<not> dec_hasError d' \<and> fields_fit (dec_limits d) hs \<and> dec_errorKind d' = NoHpackError
      else hs = [] \<and> (if dec_hasError d' then \<not> isLimitExceeded d' else isLimitExceeded d' \<and> dec_errorKind d' = LimitExceeded))"

lemma decodeHeaderBlock_result:
  assumes "decoder_ok d" "decodeHeaderBlock block d = (ok, d', hs)"
  shows "block_result d ok d' hs"
proof (cases "dec_hasError d")
  case True
  then show ?thesis using assms by (auto simp: decodeHeaderBlock_def block_result_def isLimitExceeded_def)
next
  case False
  let ?r = "decodeLoop (arenaHardLimit d block) block (startBlock d) 0 0 []"
  have "case ?r of Inl d' \<Rightarrow> failed (startBlock d) d'
       | Inr (d', hs') \<Rightarrow> (\<exists>arena'. collected block d' arena' hs') \<and> decoder_ok d' \<and> dec_limits d' = dec_limits (startBlock d)"
    using loop_collects [OF startBlock_collected(1) [OF False], of block "arenaHardLimit d block" 0] assms(1)
    by (simp add: startBlock_collected)
  then show ?thesis
    using assms(2) False
    by (auto simp: decodeHeaderBlock_def block_result_def failed_def collected_def isLimitExceeded_def startBlock_collected
        split: sum.splits if_splits)
qed

section \<open>What the decoder promises\<close>

text \<open>A decoder after any history: header blocks decoded, and resets.\<close>

datatype decoder_call = Decode bytes | ResetDecoder

primrec decoderCall :: "decoder_call \<Rightarrow> HpackDecoder \<Rightarrow> HpackDecoder" where
  "decoderCall (Decode block) d = fst (snd (decodeHeaderBlock block d))"
| "decoderCall ResetDecoder d = resetHpackDecoder d"

definition decoderAfter :: "HpackDecoderLimits \<Rightarrow> decoder_call list \<Rightarrow> HpackDecoder" where
  "decoderAfter limits calls = fold decoderCall calls (newHpackDecoder limits)"

lemma decoderAfter_ok: "decoder_ok (decoderAfter limits calls)" "dec_limits (decoderAfter limits calls) = limits"
proof -
  have "decoder_ok (fold decoderCall calls d) \<and> dec_limits (fold decoderCall calls d) = dec_limits d" if "decoder_ok d" for d
    using that
  proof (induction calls arbitrary: d)
    case (Cons call calls)
    have "decoder_ok (decoderCall call d) \<and> dec_limits (decoderCall call d) = dec_limits d"
    proof (cases call)
      case (Decode block)
      obtain ok d' hs where r: "decodeHeaderBlock block d = (ok, d', hs)" by (cases "decodeHeaderBlock block d") auto
      from decodeHeaderBlock_result [OF Cons.prems r] show ?thesis using Decode r by (simp add: block_result_def)
    next
      case ResetDecoder
      then show ?thesis by (simp add: resetHpackDecoder_def decoder_ok_def) (simp add: newDynamicTable_def)
    qed
    then show ?case using Cons.IH by simp
  qed simp
  moreover have "decoder_ok (newHpackDecoder limits)" "dec_limits (newHpackDecoder limits) = limits"
    by (simp_all add: newHpackDecoder_def decoder_ok_def) (simp add: newDynamicTable_def)
  ultimately show "decoder_ok (decoderAfter limits calls)" "dec_limits (decoderAfter limits calls) = limits"
    by (simp_all add: decoderAfter_def)
qed

text \<open>
  Whatever blocks a decoder is given, its dynamic table has an exact size counter and stays within the
  announced limit; a list it returns obeys every limit; and a refused block leaves no fields and is either a
  sticky compression error or a limit that spoils only this block.
\<close>

theorem hpack_decoder_bounded:
  "case decodeHeaderBlock block (decoderAfter limits calls) of (ok, d, hs) \<Rightarrow>
     table_sizeByteCount (dec_dynamicTable d) = entries_size (table_entries (dec_dynamicTable d)) \<and>
     table_sizeByteCount (dec_dynamicTable d) \<le> maximumDynamicTableSizeByteCount limits \<and>
     (if ok then fields_fit limits hs \<and> dec_errorKind d = NoHpackError
      else hs = [] \<and> dec_hasError d \<noteq> isLimitExceeded d)"
proof -
  obtain ok d hs where r: "decodeHeaderBlock block (decoderAfter limits calls) = (ok, d, hs)"
    by (cases "decodeHeaderBlock block (decoderAfter limits calls)") auto
  from decodeHeaderBlock_result [OF decoderAfter_ok(1) r] show ?thesis
    using r decoderAfter_ok(2) [of limits calls]
    by (auto simp: block_result_def decoder_ok_def table_ok_def table_exact_def split: if_splits)
qed

text \<open>
  The guard on the arena is dead code: with any larger bound, or none, every block is decoded the same.
\<close>

theorem hpack_arena_guard_never_fires:
  assumes "\<not> dec_hasError (decoderAfter limits calls)" "arenaHardLimit (decoderAfter limits calls) block \<le> bound"
  shows "decodeLoop bound block (startBlock (decoderAfter limits calls)) 0 0 []
    = decodeLoop (arenaHardLimit (decoderAfter limits calls) block) block (startBlock (decoderAfter limits calls)) 0 0 []"
  using loop_collects [OF startBlock_collected(1) [OF assms(1)], of block bound 0] assms(2) decoderAfter_ok(1)
  by (simp add: startBlock_collected)

lemma hpack_arena_guard_never_fires_witness:
  "let d = decoderAfter \<lparr>maximumDynamicTableSizeByteCount = 4096, maximumHeaderListByteCount = 100,
        maximumHeaderFieldNameLength = 20, maximumHeaderFieldValueLength = 20\<rparr> [ResetDecoder] in
   decodeLoop 100000 [0x40, 1, 0x61, 1, 0x62, 0xBE] (startBlock d) 0 0 []
     = decodeLoop (arenaHardLimit d [0x40, 1, 0x61, 1, 0x62, 0xBE]) [0x40, 1, 0x61, 1, 0x62, 0xBE] (startBlock d) 0 0 []"
  unfolding Let_def
  by (rule hpack_arena_guard_never_fires)
    (simp_all add: decoderAfter_def newHpackDecoder_def resetHpackDecoder_def arenaHardLimit_def)

end
