(* ===== verification/HpackExchange.thy ===== *)
theory HpackExchange
  imports HpackLimits
begin

text \<open>
  The encoder and the decoder together. Their dynamic tables need not be equal: the decoder may have
  more room and then keeps entries the encoder has dropped. What holds at all times is that the
  entries of the encoder are the newest ones of the decoder, so that every index means the same on
  both sides. From this every header list arrives as it was sent, whatever was sent before.
\<close>

section \<open>Representations written and read\<close>

lemma pattern_masks:
  "NOT (hpackPrefixMask 7) = 0x80" "NOT (hpackPrefixMask 6) = 0xC0" "NOT (hpackPrefixMask 5) = 0xE0"
  by (simp_all add: hpackPrefixMask_def hpackPrefixMaximum_def)

lemma pattern_bits:
  "(b :: byte) AND 0x80 = 0x80 \<Longrightarrow> b AND 0x80 \<noteq> 0"
  "(b :: byte) AND 0xC0 = 0x40 \<Longrightarrow> b AND 0x80 = 0"
  "(b :: byte) AND 0xE0 = 0x20 \<Longrightarrow> b AND 0x80 = 0 \<and> b AND 0xC0 \<noteq> 0x40"
  "(b :: byte) AND 0x80 = 0 \<Longrightarrow> \<not> b AND 0x80 \<noteq> 0"
proof -
  have high: "b AND 0x80 = (b AND 0xC0) AND 0x80" "b AND 0x80 = (b AND 0xE0) AND 0x80"
    "b AND 0xC0 = 0x40 \<Longrightarrow> b AND 0x40 = 0x40" "b AND 0x40 = (b AND 0xE0) AND 0x40"
    for b :: byte
    by (simp_all add: and.assoc) (metis and.assoc and.idem and.left_commute)
  show "(b :: byte) AND 0x80 = 0x80 \<Longrightarrow> b AND 0x80 \<noteq> 0" by simp
  show "(b :: byte) AND 0xC0 = 0x40 \<Longrightarrow> b AND 0x80 = 0" using high(1) [of b] by simp
  show "(b :: byte) AND 0xE0 = 0x20 \<Longrightarrow> b AND 0x80 = 0 \<and> b AND 0xC0 \<noteq> 0x40"
    using high(2-4) [of b] by auto
qed simp

lemma string_written:
  assumes "length v < 2 ^ 64"
  obtains bs where "\<And>out. appendHpackString out v = Inr (out @ bs)" "bs \<noteq> []"
    "\<And>rest. decodeHpackString (bs @ rest) = Some (v, length bs)"
proof -
  have n: "unat (of_nat (length v) :: u64) = length v"
    using assms by (simp add: unat_of_nat take_bit_nat_eq_self)
  obtain bs where bs: "\<And>out. appendHpackInteger out (of_nat (length v)) 7 0 = Inr (out @ bs)" "bs \<noteq> []"
      "\<And>rest. decodeHpackInteger (bs @ rest) 7 = Some (of_nat (length v), length bs)"
      "hd bs AND NOT (hpackPrefixMask 7) = 0"
    by (rule integer_written [of 7 0 "of_nat (length v)"]) auto
  show thesis
  proof (rule that [of "bs @ v"])
    show "appendHpackString out v = Inr (out @ bs @ v)" for out
      by (simp add: appendHpackString_def bs(1))
    show "bs @ v \<noteq> []" using bs(2) by simp
    fix rest
    have "(bs @ v @ rest) ! 0 AND kHuffmanFlag = 0"
      using bs(2,4) by (cases bs) (simp_all add: pattern_masks kHuffmanFlag_def)
    then show "decodeHpackString ((bs @ v) @ rest) = Some (v, length (bs @ v))"
      using bs(2) by (simp add: decodeHpackString_def bs(3) n Let_def)
  qed
qed

text \<open>An index that both sides understand.\<close>

abbreviation seen :: "HpackDecoder \<Rightarrow> HpackDecoder" where
  "seen d \<equiv> d\<lparr>dec_hasSeenHeaderRepresentation := True\<rparr>"

definition index_means :: "HpackDynamicTable \<Rightarrow> nat \<Rightarrow> HpackHeaderField \<Rightarrow> bool" where
  "index_means table i h \<longleftrightarrow> 0 < i \<and>
     (if i \<le> 61 then h = \<lparr>field_name = entry_name (kHpackStaticTable ! (i - 1)), field_value = entry_value (kHpackStaticTable ! (i - 1))\<rparr>
      else i - 62 < length (table_entries table) \<and> h = table_entries table ! (i - 62))"

lemma index_means_prefix:
  assumes "index_means s i h" "prefix (table_entries s) (table_entries t)"
  shows "index_means t i h"
  using assms by (auto simp: index_means_def prefix_def nth_append)

lemma indexed_written:
  assumes "i < 2 ^ 64" "0 < i"
  obtains bs where "\<And>out. appendHpackInteger out (of_nat i) 7 0x80 = Inr (out @ bs)" "bs \<noteq> []"
    "\<And>(d :: HpackDecoder) h front rest arena hs. index_means (dec_dynamicTable d) i h \<Longrightarrow>
      \<exists>a. decodeRepresentation (front @ bs @ rest) d (length front) arena hs
        = Inr (fst (appendField h (seen d) hs), length front + length bs, a, snd (appendField h (seen d) hs))"
proof -
  have n: "unat (of_nat i :: u64) = i" using assms by (simp add: unat_of_nat take_bit_nat_eq_self)
  then have pos: "(of_nat i :: u64) \<noteq> 0" using assms(2) by (metis unat_0 less_irrefl)
  obtain bs where bs: "\<And>out. appendHpackInteger out (of_nat i) 7 0x80 = Inr (out @ bs)" "bs \<noteq> []"
      "\<And>rest. decodeHpackInteger (bs @ rest) 7 = Some (of_nat i, length bs)"
      "hd bs AND NOT (hpackPrefixMask 7) = 0x80"
    by (rule integer_written [of 7 "0x80" "of_nat i"]) (simp_all add: hpackPrefixMask_def hpackPrefixMaximum_def)
  show thesis
  proof (rule that [OF bs(1,2)])
    fix d :: HpackDecoder and h front rest arena hs
    assume h: "index_means (dec_dynamicTable d) i h"
    have b: "(front @ bs @ rest) ! length front AND 0x80 \<noteq> 0"
      using bs(2,4) by (cases bs) (simp_all add: nth_append pattern_masks)
    have view: "\<exists>a. resolveIndexedFieldView d i arena = Some (h, a)"
      and name: "resolveIndexedNameView d i = Some (field_name h)"
      using h by (auto simp: index_means_def resolveIndexedFieldView_def resolveIndexedNameView_def hpack_consts
          findEntry_def Let_def split: if_splits)
    show "\<exists>a. decodeRepresentation (front @ bs @ rest) d (length front) arena hs
        = Inr (fst (appendField h (seen d) hs), length front + length bs, a, snd (appendField h (seen d) hs))"
    proof (cases "dec_isBeyondHeaderLimits d")
      case True
      then have "appendField h' (seen d) hs = (seen d, hs)" for h' by (simp add: appendField_def)
      then show ?thesis
        using True b name by (simp add: decodeRepresentation_def bs(3) n pos Let_def)
    next
      case False
      obtain a where "resolveIndexedFieldView d i arena = Some (h, a)" using view by blast
      then show ?thesis
        using False b by (simp add: decodeRepresentation_def bs(3) n pos Let_def case_prod_unfold)
    qed
  qed
qed

text \<open>A literal that goes into the tables, with the name given by an index or spelled out.\<close>

lemma literal_read:
  fixes d :: HpackDecoder
  assumes i: "\<And>rest. decodeHpackInteger (ib @ rest) 6 = Some (i, length ib)" "ib \<noteq> []"
      "hd ib AND NOT (hpackPrefixMask 6) = 0x40"
    and name: "\<And>front rest arena. \<exists>a. decodeLiteralName i (front @ ib @ nb @ rest) d (length front + length ib) arena
        = Inr (field_name h, length front + length ib + length nb, a)"
    and v: "\<And>rest. decodeHpackString (vb @ rest) = Some (field_value h, length vb)"
  shows "\<exists>a. decodeRepresentation (front @ (ib @ nb @ vb) @ rest) d (length front) arena hs
    = Inr ((fst (appendField h (seen d) hs))\<lparr>dec_dynamicTable := insertEntry h (dec_dynamicTable d)\<rparr>,
           length front + length (ib @ nb @ vb), a, snd (appendField h (seen d) hs))"
proof -
  let ?block = "front @ ib @ nb @ vb @ rest"
  have "?block ! length front AND 0xC0 = 0x40"
    using i(2,3) by (cases ib) (simp_all add: nth_append pattern_masks)
  then have lit: "decodeRepresentation ?block d (length front) arena hs
      = decodeLiteralRepresentation 6 True ?block d (length front) arena hs"
    using pattern_bits(2) by (simp add: decodeRepresentation_def Let_def)
  obtain a where a: "decodeLiteralName i ?block d (length front + length ib) arena
      = Inr (field_name h, length front + length ib + length nb, a)"
    using name [of front "vb @ rest" arena] by auto
  have drop: "drop (length front + length ib + length nb) ?block = vb @ rest" by simp
  have h: "\<lparr>field_name = field_name h, field_value = field_value h\<rparr> = h" by simp
  obtain d1 hs1 where one: "appendField h (seen d) hs = (d1, hs1)" by fastforce
  have "dec_dynamicTable d1 = dec_dynamicTable d" using appendField_keeps(2) [OF one] by simp
  then show ?thesis
    unfolding append_assoc lit using one
    by (simp add: decodeLiteralRepresentation_def i(1) a decodeLiteralValue_def drop v Let_def h cong: if_cong)
qed

section \<open>One field\<close>

definition in_step :: "HpackDynamicTable \<Rightarrow> HpackDecoder \<Rightarrow> bool" where
  "in_step te d \<longleftrightarrow> table_ok te \<and> decoder_ok d \<and> prefix (table_entries te) (table_entries (dec_dynamicTable d)) \<and>
     table_maximumSizeByteCount te \<le> table_maximumSizeByteCount (dec_dynamicTable d)"

text \<open>What one representation does to a decoder in step: the field is offered to the list, and only the
  dynamic table may change besides.\<close>

definition delivers :: "bytes \<Rightarrow> HpackHeaderField \<Rightarrow> HpackDynamicTable \<Rightarrow> HpackDynamicTable \<Rightarrow> bool" where
  "delivers bs h te te' \<longleftrightarrow> (\<forall>d front rest arena hs. in_step te d \<longrightarrow>
     (\<exists>a t. decodeRepresentation (front @ bs @ rest) d (length front) arena hs
        = Inr ((fst (appendField h (seen d) hs))\<lparr>dec_dynamicTable := t\<rparr>, length front + length bs, a,
               snd (appendField h (seen d) hs)) \<and>
      in_step te' (d\<lparr>dec_dynamicTable := t\<rparr>)))"

definition small_field :: "HpackHeaderField \<Rightarrow> bool" where
  "small_field h \<longleftrightarrow> length (field_name h) < 2 ^ 64 \<and> length (field_value h) < 2 ^ 64"

lemma entries_count:
  assumes "table_ok t"
  shows "length (table_entries t) \<le> table_maximumSizeByteCount t"
proof -
  have "length hs \<le> entries_size hs" for hs
    by (induction hs) (simp_all add: dynamicTableEntrySizeByteCount_def kHpackDynamicTableEntryOverheadBytes_def)
  from this [of "table_entries t"] show ?thesis using assms by (simp add: table_ok_def table_exact_def)
qed

lemma same_table: "dec_dynamicTable d' = dec_dynamicTable d \<Longrightarrow> d'\<lparr>dec_dynamicTable := dec_dynamicTable d\<rparr> = d'"
  for d d' :: HpackDecoder
  by simp

lemma index_delivers:
  assumes "index_means te i h" "i < 2 ^ 64"
  obtains bs where "\<And>out. appendHpackInteger out (of_nat i) 7 0x80 = Inr (out @ bs)" "bs \<noteq> []" "delivers bs h te te"
proof -
  have "0 < i" using assms(1) by (simp add: index_means_def)
  then obtain bs where bs: "\<And>out. appendHpackInteger out (of_nat i) 7 0x80 = Inr (out @ bs)" "bs \<noteq> []"
    "\<And>(d :: HpackDecoder) h front rest arena hs. index_means (dec_dynamicTable d) i h \<Longrightarrow>
      \<exists>a. decodeRepresentation (front @ bs @ rest) d (length front) arena hs
        = Inr (fst (appendField h (seen d) hs), length front + length bs, a, snd (appendField h (seen d) hs))"
    using indexed_written [OF assms(2)] by metis
  have "delivers bs h te te"
    unfolding delivers_def
  proof (intro allI impI)
    fix d front rest arena hs
    assume step: "in_step te d"
    then have "index_means (dec_dynamicTable d) i h"
      using index_means_prefix [OF assms(1)] by (simp add: in_step_def)
    from bs(3) [OF this] obtain a where a: "decodeRepresentation (front @ bs @ rest) d (length front) arena hs
        = Inr (fst (appendField h (seen d) hs), length front + length bs, a, snd (appendField h (seen d) hs))"
      by blast
    obtain d1 hs1 where one: "appendField h (seen d) hs = (d1, hs1)" by fastforce
    have "d1\<lparr>dec_dynamicTable := dec_dynamicTable d\<rparr> = d1" using appendField_keeps(2) [OF one] by simp
    then show "\<exists>a t. decodeRepresentation (front @ bs @ rest) d (length front) arena hs
        = Inr ((fst (appendField h (seen d) hs))\<lparr>dec_dynamicTable := t\<rparr>, length front + length bs, a,
               snd (appendField h (seen d) hs)) \<and> in_step te (d\<lparr>dec_dynamicTable := t\<rparr>)"
      using a step one by (intro exI [of _ a] exI [of _ "dec_dynamicTable d"]) simp
  qed
  then show thesis using that bs(1,2) by blast
qed

text \<open>A literal, its name given by \<open>i\<close> and the bytes \<open>nb\<close>.\<close>

lemma literal_delivers:
  assumes i: "\<And>rest. decodeHpackInteger (ib @ rest) 6 = Some (i, length ib)" "ib \<noteq> []"
      "hd ib AND NOT (hpackPrefixMask 6) = 0x40"
    and name: "\<And>(d :: HpackDecoder) front rest arena. \<exists>a. decodeLiteralName i (front @ ib @ nb @ rest) d (length front + length ib) arena
        = Inr (field_name h, length front + length ib + length nb, a)"
    and v: "\<And>rest. decodeHpackString (vb @ rest) = Some (field_value h, length vb)"
  shows "delivers (ib @ nb @ vb) h te (insertEntry h te)"
  unfolding delivers_def
proof (intro allI impI)
  fix d front rest arena hs
  assume step: "in_step te d"
  obtain a where "decodeRepresentation (front @ (ib @ nb @ vb) @ rest) d (length front) arena hs
    = Inr ((fst (appendField h (seen d) hs))\<lparr>dec_dynamicTable := insertEntry h (dec_dynamicTable d)\<rparr>,
           length front + length (ib @ nb @ vb), a, snd (appendField h (seen d) hs))"
    using literal_read [OF i name v] by blast
  moreover have "in_step (insertEntry h te) (d\<lparr>dec_dynamicTable := insertEntry h (dec_dynamicTable d)\<rparr>)"
    using step insertEntry_prefix [of te "dec_dynamicTable d" h] insertEntry_spec [of te h]
      insertEntry_spec [of "dec_dynamicTable d" h] by (simp add: in_step_def decoder_ok_def)
  ultimately show "\<exists>a t. decodeRepresentation (front @ (ib @ nb @ vb) @ rest) d (length front) arena hs
        = Inr ((fst (appendField h (seen d) hs))\<lparr>dec_dynamicTable := t\<rparr>, length front + length (ib @ nb @ vb), a,
               snd (appendField h (seen d) hs)) \<and> in_step (insertEntry h te) (d\<lparr>dec_dynamicTable := t\<rparr>)"
    by blast
qed

text \<open>What the searches of the encoder find.\<close>

lemma static_index_means:
  assumes "findHpackStaticExactIndex (findHpackStaticNameRun (field_name h)) (field_value h) = i" "i \<noteq> 0"
  shows "index_means te i h" "i \<le> 61"
proof -
  obtain r offset where r: "findHpackStaticNameRun (field_name h) = Some r"
      and f: "find (\<lambda>offset. entry_value (kHpackStaticTable ! (firstEntryIndex r + offset)) = field_value h) [0..<entryCount r] = Some offset"
      and i: "i = firstEntryIndex r + offset + 1"
    using assms by (auto simp: findHpackStaticExactIndex_def split: option.splits)
  have offset: "offset < entryCount r" "entry_value (kHpackStaticTable ! (firstEntryIndex r + offset)) = field_value h"
    using f by (auto simp: find_Some_iff)
  moreover have "run_ok kHpackStaticTable r" "run_name r = field_name h"
    using findRun_spec [of "field_name h"] r by simp_all
  ultimately show "index_means te i h" "i \<le> 61"
    using i by (auto simp: index_means_def run_ok_def static_table_length)
qed

lemma static_name_means:
  assumes "findHpackStaticNameRun name = Some r"
  shows "firstEntryIndex r + 1 \<le> 61" "entry_name (kHpackStaticTable ! firstEntryIndex r) = name"
proof -
  have "run_ok kHpackStaticTable r" "run_name r = name"
    using findRun_spec [of name] assms by simp_all
  then show "firstEntryIndex r + 1 \<le> 61" "entry_name (kHpackStaticTable ! firstEntryIndex r) = name"
    by (auto simp: run_ok_def static_table_length dest: spec [of _ 0])
qed

lemma dynamic_index_means:
  assumes "findHpackDynamicTableIndex te (field_name h) (field_value h) = i" "i \<noteq> 0"
  shows "index_means te i h" "i < 62 + length (table_entries te)"
proof -
  obtain j where j: "find (\<lambda>i. field_name (table_entries te ! i) = field_name h \<and> field_value (table_entries te ! i) = field_value h)
      [0..<length (table_entries te)] = Some j" "i = 62 + j"
    using assms by (auto simp: findHpackDynamicTableIndex_def hpack_consts split: option.splits)
  then have "j < length (table_entries te)" "field_name (table_entries te ! j) = field_name h"
      "field_value (table_entries te ! j) = field_value h"
    by (auto simp: find_Some_iff)
  then show "index_means te i h" "i < 62 + length (table_entries te)"
    using j(2) by (simp_all add: index_means_def)
qed

lemma encodeField_delivers:
  assumes ok: "table_ok te" "table_maximumSizeByteCount te < 2 ^ 63" and h: "small_field h"
  shows "\<exists>bs te'. (\<forall>out. encodeField h (out, te) = Inr (out @ bs, te')) \<and> bs \<noteq> [] \<and> delivers bs h te te' \<and>
    table_ok te' \<and> table_maximumSizeByteCount te' = table_maximumSizeByteCount te"
proof -
  let ?run = "findHpackStaticNameRun (field_name h)"
  let ?exact = "findHpackStaticExactIndex ?run (field_value h)"
  let ?dynamic = "findHpackDynamicTableIndex te (field_name h) (field_value h)"
  consider (exact) "?exact \<noteq> 0" | (dynamic) "?exact = 0" "?dynamic \<noteq> 0" | (literal) "?exact = 0" "?dynamic = 0"
    by blast
  then show ?thesis
  proof cases
    case exact
    have "?exact < 2 ^ 64" using static_index_means(2) [OF refl exact] by simp
    from index_delivers [OF static_index_means(1) [OF refl exact] this] obtain bs where
      "\<And>out. appendHpackInteger out (of_nat ?exact) 7 0x80 = Inr (out @ bs)" "bs \<noteq> []" "delivers bs h te te"
      by metis
    then show ?thesis using exact ok by (intro exI [of _ bs] exI [of _ te]) (simp add: encodeField_def)
  next
    case dynamic
    have "?dynamic < 2 ^ 64"
      using dynamic_index_means(2) [OF refl dynamic(2)] entries_count [OF ok(1)] ok(2) by simp
    from index_delivers [OF dynamic_index_means(1) [OF refl dynamic(2)] this] obtain bs where
      "\<And>out. appendHpackInteger out (of_nat ?dynamic) 7 0x80 = Inr (out @ bs)" "bs \<noteq> []" "delivers bs h te te"
      by metis
    then show ?thesis using dynamic ok by (intro exI [of _ bs] exI [of _ te]) (simp add: encodeField_def Let_def)
  next
    case literal
    obtain vb where vb: "\<And>out. appendHpackString out (field_value h) = Inr (out @ vb)" "vb \<noteq> []"
        "\<And>rest. decodeHpackString (vb @ rest) = Some (field_value h, length vb)"
      using string_written [of "field_value h"] h by (metis small_field_def)
    note inserted = insertEntry_spec [OF ok(1), of h]
    let ?i = "case ?run of None \<Rightarrow> 0 | Some run \<Rightarrow> firstEntryIndex run + 1"
    have i: "?i \<le> 61" "?i \<noteq> 0 \<Longrightarrow> entry_name (kHpackStaticTable ! (?i - 1)) = field_name h"
      using static_name_means [of "field_name h"] by (auto split: option.splits)
    have n: "unat (of_nat ?i :: u64) = ?i" using i(1) by (simp add: unat_of_nat take_bit_nat_eq_self)
    obtain ib where ib: "\<And>out. appendHpackInteger out (of_nat ?i) 6 0x40 = Inr (out @ ib)" "ib \<noteq> []"
        "\<And>rest. decodeHpackInteger (ib @ rest) 6 = Some (of_nat ?i, length ib)" "hd ib AND NOT (hpackPrefixMask 6) = 0x40"
      by (rule integer_written [of 6 "0x40" "of_nat ?i"]) (simp_all add: hpackPrefixMask_def hpackPrefixMaximum_def)
    show ?thesis
    proof (cases "?i = 0")
      case False
      then have "(of_nat ?i :: u64) \<noteq> 0" using n by (metis unat_0)
      then have "delivers (ib @ [] @ vb) h te (insertEntry h te)"
        using i False n by (intro literal_delivers [of ib "of_nat ?i" "[]"] ib(2-) vb(3))
          (simp add: decodeLiteralName_def resolveIndexedNameView_def hpack_consts)
      then show ?thesis
        using literal False ib(1,2) vb(1) inserted
        by (intro exI [of _ "ib @ vb"] exI [of _ "insertEntry h te"]) (simp add: encodeField_def Let_def)
    next
      case True
      obtain nb where nb: "\<And>out. appendHpackString out (field_name h) = Inr (out @ nb)" "nb \<noteq> []"
          "\<And>rest. decodeHpackString (nb @ rest) = Some (field_name h, length nb)"
        using string_written [of "field_name h"] h by (metis small_field_def)
      have "delivers (ib @ nb @ vb) h te (insertEntry h te)"
        using ib(2-) True by (intro literal_delivers [of ib 0] vb(3)) (simp_all add: decodeLiteralName_def nb(3))
      then show ?thesis
        using literal True ib(1,2) vb(1) nb(1) inserted
        by (intro exI [of _ "ib @ nb @ vb"] exI [of _ "insertEntry h te"]) (simp add: encodeField_def Let_def)
    qed
  qed
qed

section \<open>One block\<close>

text \<open>What a decoder has to show for the fields \<open>sent\<close> so far: all of them while they fit its limits, and
  otherwise that a limit was passed.\<close>

definition gathered :: "HpackHeaderField list \<Rightarrow> HpackDecoder \<Rightarrow> HpackHeaderField list \<Rightarrow> bool" where
  "gathered sent d hs \<longleftrightarrow>
     (if fields_fit (dec_limits d) sent then \<not> dec_isBeyondHeaderLimits d \<and> hs = sent else dec_isBeyondHeaderLimits d)"

lemma gathered_more:
  assumes "gathered sent d hs" "collected block d arena hs"
  shows "gathered (sent @ [h]) ((fst (appendField h (seen d) hs))\<lparr>dec_dynamicTable := t\<rparr>) (snd (appendField h (seen d) hs))"
proof (cases "dec_isBeyondHeaderLimits d")
  case True
  then have "\<not> fields_fit (dec_limits d) sent" using assms(1) by (simp add: gathered_def split: if_splits)
  then have "\<not> fields_fit (dec_limits d) (sent @ [h])" by (auto simp: fields_fit_def)
  then show ?thesis using True by (simp add: gathered_def appendField_def)
next
  case False
  then have "fields_fit (dec_limits d) sent" "hs = sent" "dec_headerListByteCount d = entries_size sent"
    using assms by (auto simp: gathered_def collected_def split: if_splits)
  then show ?thesis
    using False by (auto simp: gathered_def appendField_def noteHeaderLimitExceeded_def fields_fit_def
        dynamicTableEntrySizeByteCount_def Let_def)
qed

lemma encodeFields_delivered:
  assumes "table_ok te" "table_maximumSizeByteCount te < 2 ^ 63" "list_all small_field hs"
  shows "\<exists>bs te'. (\<forall>out. encodeFields hs (out, te) = Inr (out @ bs, te')) \<and>
    table_ok te' \<and> table_maximumSizeByteCount te' = table_maximumSizeByteCount te \<and>
    (\<forall>front d arena sent acc L. in_step te d \<longrightarrow> collected (front @ bs) d arena acc \<longrightarrow>
      arenaHardLimit d (front @ bs) \<le> L \<longrightarrow> gathered sent d acc \<longrightarrow>
      (\<exists>d' acc' arena'. decodeLoop L (front @ bs) d (length front) arena acc = Inr (d', acc') \<and> in_step te' d' \<and>
         dec_limits d' = dec_limits d \<and> collected (front @ bs) d' arena' acc' \<and> gathered (sent @ hs) d' acc'))"
  using assms
proof (induction hs arbitrary: te)
  case Nil
  have "decodeLoop L front d (length front) arena acc = Inr (d, acc)" for L front d arena acc
    by (subst decodeLoop.simps) simp
  then show ?case using Nil.prems by (intro exI [of _ "[]"] exI [of _ te]) auto
next
  case (Cons h hs)
  obtain b1 t1 where one: "\<And>out. encodeField h (out, te) = Inr (out @ b1, t1)" "b1 \<noteq> []" "delivers b1 h te t1"
      "table_ok t1" "table_maximumSizeByteCount t1 = table_maximumSizeByteCount te"
    using encodeField_delivers [OF Cons.prems(1,2)] Cons.prems(3) by (metis list.pred_inject(2))
  obtain b2 te' where rest: "\<And>out. encodeFields hs (out, t1) = Inr (out @ b2, te')" "table_ok te'"
      "table_maximumSizeByteCount te' = table_maximumSizeByteCount t1"
      "\<And>front d arena sent acc L. in_step t1 d \<Longrightarrow> collected (front @ b2) d arena acc \<Longrightarrow>
        arenaHardLimit d (front @ b2) \<le> L \<Longrightarrow> gathered sent d acc \<Longrightarrow>
        (\<exists>d' acc' arena'. decodeLoop L (front @ b2) d (length front) arena acc = Inr (d', acc') \<and> in_step te' d' \<and>
           dec_limits d' = dec_limits d \<and> collected (front @ b2) d' arena' acc' \<and> gathered (sent @ hs) d' acc')"
    using Cons.IH [OF one(4)] Cons.prems(2,3) one(5) by auto
  have "\<exists>d' acc' arena'. decodeLoop L (front @ b1 @ b2) d (length front) arena acc = Inr (d', acc') \<and> in_step te' d' \<and>
        dec_limits d' = dec_limits d \<and> collected (front @ b1 @ b2) d' arena' acc' \<and> gathered (sent @ h # hs) d' acc'"
    if step: "in_step te d" and c: "collected (front @ b1 @ b2) d arena acc"
      and L: "arenaHardLimit d (front @ b1 @ b2) \<le> L" and g: "gathered sent d acc"
    for front d arena sent acc L
  proof -
    let ?d = "\<lambda>t. (fst (appendField h (seen d) acc))\<lparr>dec_dynamicTable := t\<rparr>"
    let ?acc = "snd (appendField h (seen d) acc)"
    obtain a t where r: "decodeRepresentation (front @ b1 @ b2) d (length front) arena acc
          = Inr (?d t, length front + length b1, a, ?acc)"
        and t: "in_step t1 (d\<lparr>dec_dynamicTable := t\<rparr>)"
      using one(3) step unfolding delivers_def by blast
    have d: "decoder_ok d" using step by (simp add: in_step_def)
    note kept = representation_collects [OF c d r]
    have "in_step t1 (?d t)"
      using t kept appendField_keeps(1) [of h "seen d" acc] by (auto simp: in_step_def decoder_ok_def)
    moreover have "arenaHardLimit (?d t) ((front @ b1) @ b2) \<le> L" using L kept by (simp add: arenaHardLimit_def)
    moreover have "gathered (sent @ [h]) (?d t) ?acc" by (rule gathered_more [OF g c])
    ultimately obtain d' acc' arena' where "decodeLoop L ((front @ b1) @ b2) (?d t) (length (front @ b1)) a ?acc = Inr (d', acc')"
        "in_step te' d'" "dec_limits d' = dec_limits d" "collected ((front @ b1) @ b2) d' arena' acc'"
        "gathered ((sent @ [h]) @ hs) d' acc'"
      using rest(4) [of "?d t" "front @ b1" a ?acc L "sent @ [h]"] kept by auto
    moreover have "decodeLoop L (front @ b1 @ b2) d (length front) arena acc
        = decodeLoop L (front @ b1 @ b2) (?d t) (length front + length b1) a ?acc"
      using one(2) by (subst loop_step [OF c d L]) (simp add: r)
    ultimately show ?thesis by auto
  qed
  then show ?case
    using one(1,5) rest(1,2,3) by (intro exI [of _ "b1 @ b2"] exI [of _ te']) simp
qed

text \<open>Encoder and decoder between two blocks. A size update that is still to be sent is in the table of the
  encoder already.\<close>

definition paired :: "HpackDecoderLimits \<Rightarrow> HpackEncoder \<Rightarrow> HpackDecoder \<Rightarrow> bool" where
  "paired limits e d \<longleftrightarrow> table_ok (enc_dynamicTable e) \<and> decoder_ok d \<and> \<not> dec_hasError d \<and> dec_limits d = limits \<and>
     table_maximumSizeByteCount (enc_dynamicTable e) \<le> maximumDynamicTableSizeByteCount limits \<and>
     prefix (table_entries (enc_dynamicTable e)) (table_entries (dec_dynamicTable d)) \<and>
     (\<not> enc_hasPendingTableSizeUpdate e \<longrightarrow>
        table_maximumSizeByteCount (enc_dynamicTable e) \<le> table_maximumSizeByteCount (dec_dynamicTable d))"

lemma new_paired:
  "m \<le> maximumDynamicTableSizeByteCount limits \<Longrightarrow> paired limits (newHpackEncoder m) (newHpackDecoder limits)"
  by (simp add: paired_def newHpackEncoder_def newHpackDecoder_def decoder_ok_def) (simp add: newDynamicTable_def)

lemma maximum_paired:
  assumes "paired limits e d" "n \<le> maximumDynamicTableSizeByteCount limits"
  shows "paired limits (encoderSetMaximum n e) d"
proof -
  have "table_exact (enc_dynamicTable e)" using assms(1) by (simp add: paired_def table_ok_def)
  note spec = setMaximum_spec [OF this]
  have "prefix (table_entries (setMaximumSizeByteCount n (enc_dynamicTable e))) (table_entries (dec_dynamicTable d))"
    using spec(3) assms(1) prefix_order.trans by (auto simp: paired_def)
  then show ?thesis using assms spec(1,2) by (auto simp: paired_def encoderSetMaximum_def)
qed

text \<open>A size update at the start of a block.\<close>

lemma update_read:
  assumes "n < 2 ^ 64"
  obtains bs where "\<And>out. appendHpackInteger out (of_nat n) 5 0x20 = Inr (out @ bs)" "bs \<noteq> []"
    "\<And>rest d arena hs. \<not> dec_hasSeenHeaderRepresentation d \<Longrightarrow> n \<le> maximumDynamicTableSizeByteCount (dec_limits d) \<Longrightarrow>
      decodeRepresentation (bs @ rest) d 0 arena hs
        = Inr (d\<lparr>dec_dynamicTable := setMaximumSizeByteCount n (dec_dynamicTable d)\<rparr>, length bs, arena, hs)"
proof -
  have n: "unat (of_nat n :: u64) = n" using assms by (simp add: unat_of_nat take_bit_nat_eq_self)
  obtain bs where bs: "\<And>out. appendHpackInteger out (of_nat n) 5 0x20 = Inr (out @ bs)" "bs \<noteq> []"
      "\<And>rest. decodeHpackInteger (bs @ rest) 5 = Some (of_nat n, length bs)"
      "hd bs AND NOT (hpackPrefixMask 5) = 0x20"
    by (rule integer_written [of 5 "0x20" "of_nat n"]) (simp_all add: hpackPrefixMask_def hpackPrefixMaximum_def)
  show thesis
  proof (rule that [OF bs(1,2)])
    fix rest arena hs and d :: HpackDecoder
    assume "\<not> dec_hasSeenHeaderRepresentation d" "n \<le> maximumDynamicTableSizeByteCount (dec_limits d)"
    moreover have b: "(bs @ rest) ! 0 AND 0xE0 = 0x20"
      using bs(2,4) by (cases bs) (simp_all add: pattern_masks)
    moreover have "(bs @ rest) ! 0 AND 0x80 = 0" "(bs @ rest) ! 0 AND 0xC0 \<noteq> 0x40" using pattern_bits(3) [OF b] by simp_all
    ultimately show "decodeRepresentation (bs @ rest) d 0 arena hs
        = Inr (d\<lparr>dec_dynamicTable := setMaximumSizeByteCount n (dec_dynamicTable d)\<rparr>, length bs, arena, hs)"
      by (simp add: decodeRepresentation_def bs(3) n Let_def)
  qed
qed

text \<open>What arrives for a header list.\<close>

definition arrives :: "HpackDecoderLimits \<Rightarrow> HpackHeaderField list \<Rightarrow> bool \<times> HpackHeaderField list \<times> HpackErrorKind" where
  "arrives limits hs = (if fields_fit limits hs then (True, hs, NoHpackError) else (False, [], LimitExceeded))"

lemma finished_block:
  assumes "decodeLoop (arenaHardLimit d block) block (startBlock d) 0 0 [] = Inr (d', acc)" "\<not> dec_hasError d"
    "collected block d' arena acc" "gathered hs d' acc" "dec_limits d' = dec_limits d"
  shows "decodeHeaderBlock block d = (fst (arrives (dec_limits d) hs), d', fst (snd (arrives (dec_limits d) hs)))
    \<and> dec_errorKind d' = snd (snd (arrives (dec_limits d) hs)) \<and> \<not> dec_hasError d'"
  using assms by (auto simp: decodeHeaderBlock_def gathered_def collected_def arrives_def split: if_splits)

lemma block_delivered:
  assumes pair: "paired limits e d" and small: "list_all small_field hs"
    and limit: "maximumDynamicTableSizeByteCount limits < 2 ^ 63"
  shows "\<exists>block e' d'. encodeHeaderBlock hs e = Inr (block, e') \<and>
    decodeHeaderBlock block d = (fst (arrives limits hs), d', fst (snd (arrives limits hs))) \<and>
    dec_errorKind d' = snd (snd (arrives limits hs)) \<and> paired limits e' d'"
proof -
  let ?te = "enc_dynamicTable e" let ?n = "table_maximumSizeByteCount (enc_dynamicTable e)"
  have te: "table_ok ?te" "?n < 2 ^ 63" and d: "decoder_ok d" "\<not> dec_hasError d" "dec_limits d = limits"
    using pair limit by (simp_all add: paired_def)
  obtain bs te' where bs: "\<And>out. encodeFields hs (out, ?te) = Inr (out @ bs, te')" "table_ok te'"
      "table_maximumSizeByteCount te' = ?n"
      "\<And>front d arena sent acc L. in_step ?te d \<Longrightarrow> collected (front @ bs) d arena acc \<Longrightarrow>
        arenaHardLimit d (front @ bs) \<le> L \<Longrightarrow> gathered sent d acc \<Longrightarrow>
        (\<exists>d' acc' arena'. decodeLoop L (front @ bs) d (length front) arena acc = Inr (d', acc') \<and> in_step te' d' \<and>
           dec_limits d' = dec_limits d \<and> collected (front @ bs) d' arena' acc' \<and> gathered (sent @ hs) d' acc')"
    using encodeFields_delivered [OF te small] by blast
  have start: "collected block (startBlock d) 0 []" "decoder_ok (startBlock d)" for block
    using startBlock_collected d by simp_all
  have empty: "gathered [] (startBlock d\<lparr>dec_dynamicTable := t\<rparr>) []" for t
    by (simp add: gathered_def startBlock_def fields_fit_def)
  have table: "dec_dynamicTable (startBlock d) = dec_dynamicTable d" by (simp add: startBlock_def)
  have finish: ?thesis
    if out: "encodeHeaderBlock hs e = Inr (front @ bs, \<lparr>enc_dynamicTable = te', enc_hasPendingTableSizeUpdate = False\<rparr>)"
      and opened: "decodeLoop (arenaHardLimit d (front @ bs)) (front @ bs) (startBlock d) 0 0 []
        = decodeLoop (arenaHardLimit d (front @ bs)) (front @ bs) (startBlock d\<lparr>dec_dynamicTable := t\<rparr>) (length front) 0 []"
      and t: "in_step ?te (startBlock d\<lparr>dec_dynamicTable := t\<rparr>)"
    for front t
  proof -
    have c: "collected (front @ bs) (startBlock d\<lparr>dec_dynamicTable := t\<rparr>) 0 []" using start by simp
    have L: "arenaHardLimit (startBlock d\<lparr>dec_dynamicTable := t\<rparr>) (front @ bs) \<le> arenaHardLimit d (front @ bs)"
      by (simp add: arenaHardLimit_def startBlock_def)
    have same: "dec_limits (startBlock d\<lparr>dec_dynamicTable := t\<rparr>) = dec_limits d" by (simp add: startBlock_def)
    from bs(4) [OF t c L empty] obtain d' acc' arena' where r:
        "decodeLoop (arenaHardLimit d (front @ bs)) (front @ bs) (startBlock d\<lparr>dec_dynamicTable := t\<rparr>) (length front) 0 [] = Inr (d', acc')"
        "in_step te' d'" "dec_limits d' = dec_limits d" "collected (front @ bs) d' arena' acc'" "gathered hs d' acc'"
      unfolding same append_Nil by blast
    from finished_block [OF r(1) [folded opened] d(2) r(4,5,3)] show ?thesis
      using out r(2,3) d(3) bs(3) pair by (auto simp: paired_def in_step_def)
  qed
  show ?thesis
  proof (cases "enc_hasPendingTableSizeUpdate e")
    case False
    show ?thesis
    proof (rule finish [where front = "[]" and t = "dec_dynamicTable d"])
      show "encodeHeaderBlock hs e = Inr ([] @ bs, \<lparr>enc_dynamicTable = te', enc_hasPendingTableSizeUpdate = False\<rparr>)"
        using False bs(1) [of "[]"] by (simp add: encodeHeaderBlock_def)
      show "in_step ?te (startBlock d\<lparr>dec_dynamicTable := dec_dynamicTable d\<rparr>)"
        using False pair start(2) by (simp add: in_step_def paired_def decoder_ok_def) (simp add: startBlock_def)
    qed (simp add: startBlock_def)
  next
    case True
    have "?n < 2 ^ 64" using te(2) by simp
    from update_read [OF this] obtain ub where ub: "\<And>out. appendHpackInteger out (of_nat ?n) 5 0x20 = Inr (out @ ub)" "ub \<noteq> []"
        "\<And>rest d arena hs. \<not> dec_hasSeenHeaderRepresentation d \<Longrightarrow> ?n \<le> maximumDynamicTableSizeByteCount (dec_limits d) \<Longrightarrow>
          decodeRepresentation (ub @ rest) d 0 arena hs
            = Inr (d\<lparr>dec_dynamicTable := setMaximumSizeByteCount ?n (dec_dynamicTable d)\<rparr>, length ub, arena, hs)"
      by metis
    let ?t = "setMaximumSizeByteCount ?n (dec_dynamicTable d)"
    have exact: "table_exact (dec_dynamicTable d)" using d(1) by (simp add: decoder_ok_def table_ok_def)
    have read: "decodeRepresentation (ub @ bs) (startBlock d) 0 0 [] = Inr (startBlock d\<lparr>dec_dynamicTable := ?t\<rparr>, length ub, 0, [])"
      using pair by (subst ub(3)) (simp_all add: startBlock_def paired_def)
    show ?thesis
    proof (rule finish [where front = ub and t = ?t])
      show "encodeHeaderBlock hs e = Inr (ub @ bs, \<lparr>enc_dynamicTable = te', enc_hasPendingTableSizeUpdate = False\<rparr>)"
        using True ub(1) [of "[]"] bs(1) [of ub] by (simp add: encodeHeaderBlock_def)
      show "decodeLoop (arenaHardLimit d (ub @ bs)) (ub @ bs) (startBlock d) 0 0 []
          = decodeLoop (arenaHardLimit d (ub @ bs)) (ub @ bs) (startBlock d\<lparr>dec_dynamicTable := ?t\<rparr>) (length ub) 0 []"
        using ub(2) start startBlock_collected(3) [of d] by (subst loop_step [OF start]) (simp_all add: read)
      have "entries_size (table_entries ?te) \<le> ?n" using te(1) by (simp add: table_ok_def table_exact_def)
      then show "in_step ?te (startBlock d\<lparr>dec_dynamicTable := ?t\<rparr>)"
        using setMaximum_spec [OF exact] te(1) pair d(1)
        by (simp add: in_step_def paired_def decoder_ok_def startBlock_def)
    qed
  qed
qed

section \<open>The exchange\<close>

text \<open>A connection as HPACK sees it: the encoder is given new table sizes and header lists, and every block
  goes to the decoder in order. The outcome of every block: whether it was accepted, the fields and the error.\<close>

datatype hpack_call = SetMaximum nat | SendHeaders "HpackHeaderField list"

fun exchange :: "hpack_call list \<Rightarrow> HpackEncoder \<Rightarrow> HpackDecoder \<Rightarrow>
    thrown + (bool \<times> HpackHeaderField list \<times> HpackErrorKind) list" where
  "exchange [] e d = Inr []"
| "exchange (SetMaximum n # calls) e d = exchange calls (encoderSetMaximum n e) d"
| "exchange (SendHeaders hs # calls) e d = bindR (encodeHeaderBlock hs e) (\<lambda>(block, e).
     case decodeHeaderBlock block d of (accepted, d, received) \<Rightarrow>
       bindR (exchange calls e d) (\<lambda>later. Inr ((accepted, received, dec_errorKind d) # later)))"

fun sentLists :: "hpack_call list \<Rightarrow> HpackHeaderField list list" where
  "sentLists [] = []"
| "sentLists (SetMaximum n # calls) = sentLists calls"
| "sentLists (SendHeaders hs # calls) = hs # sentLists calls"

fun call_fits :: "HpackDecoderLimits \<Rightarrow> hpack_call \<Rightarrow> bool" where
  "call_fits limits (SetMaximum n) \<longleftrightarrow> n \<le> maximumDynamicTableSizeByteCount limits"
| "call_fits limits (SendHeaders hs) \<longleftrightarrow> list_all small_field hs"

lemma exchange_arrives:
  assumes "paired limits e d" "list_all (call_fits limits) calls" "maximumDynamicTableSizeByteCount limits < 2 ^ 63"
  shows "exchange calls e d = Inr (map (arrives limits) (sentLists calls))"
  using assms(1,2)
proof (induction calls arbitrary: e d)
  case (Cons call calls)
  show ?case
  proof (cases call)
    case (SetMaximum n)
    then show ?thesis using Cons maximum_paired by simp
  next
    case (SendHeaders hs)
    then have small: "list_all small_field hs" using Cons.prems(2) by simp
    obtain block e' d' where step: "encodeHeaderBlock hs e = Inr (block, e')"
        "decodeHeaderBlock block d = (fst (arrives limits hs), d', fst (snd (arrives limits hs)))"
        "dec_errorKind d' = snd (snd (arrives limits hs))" "paired limits e' d'"
      using block_delivered [OF Cons.prems(1) small assms(3)] by blast
    then show ?thesis using Cons.IH [OF step(4)] Cons.prems(2) SendHeaders by simp
  qed
qed simp

text \<open>C21: Header lists arrive as they were sent. Whatever lists are encoded one after the other and
  whatever sizes the encoder's table is given in between, up to the size the decoder announced, the
  decoder returns exactly the list that was sent when it fits the decoder's limits; otherwise it
  returns none and reports that a limit was exceeded, and the lists after it still arrive. Strings
  are shorter than \<open>2 ^ 64\<close> bytes and the announced size is below \<open>2 ^ 63\<close>.\<close>

theorem header_lists_arrive:
  assumes "m \<le> maximumDynamicTableSizeByteCount limits" "maximumDynamicTableSizeByteCount limits < 2 ^ 63"
    and "list_all (call_fits limits) calls"
  shows "exchange calls (newHpackEncoder m) (newHpackDecoder limits) = Inr (map (arrives limits) (sentLists calls))"
  by (rule exchange_arrives [OF new_paired [OF assms(1)] assms(3,2)])

text \<open>Two lists that share an entry of the dynamic table, one too long for the limits, and a new size.\<close>

definition exampleLimits :: HpackDecoderLimits where
  "exampleLimits = \<lparr>maximumDynamicTableSizeByteCount = 128, maximumHeaderListByteCount = 100,
     maximumHeaderFieldNameLength = 20, maximumHeaderFieldValueLength = 20\<rparr>"

definition exampleCalls :: "hpack_call list" where
  "exampleCalls = (let a = \<lparr>field_name = [97], field_value = [98, 99]\<rparr>; long = \<lparr>field_name = [97], field_value = replicate 21 98\<rparr> in
     [SendHeaders [a], SendHeaders [a, long], SetMaximum 64, SendHeaders [a, a]])"

theorem header_lists_arrive_witness:
  "exchange exampleCalls (newHpackEncoder 100) (newHpackDecoder exampleLimits) =
    Inr [(True, [\<lparr>field_name = [97], field_value = [98, 99]\<rparr>], NoHpackError), (False, [], LimitExceeded),
      (True, [\<lparr>field_name = [97], field_value = [98, 99]\<rparr>, \<lparr>field_name = [97], field_value = [98, 99]\<rparr>], NoHpackError)]"
proof -
  have "exchange exampleCalls (newHpackEncoder 100) (newHpackDecoder exampleLimits) =
      Inr (map (arrives exampleLimits) (sentLists exampleCalls))"
    by (rule header_lists_arrive) (simp_all add: exampleLimits_def exampleCalls_def Let_def small_field_def)
  then show ?thesis
    by (simp add: exampleCalls_def exampleLimits_def arrives_def fields_fit_def entries_size_def
        dynamicTableEntrySizeByteCount_def kHpackDynamicTableEntryOverheadBytes_def Let_def)
qed

end
