(* ===== verification/Spec2Isabelle.thy ===== *)
theory Spec2Isabelle
  imports Prelude StdMap Codec QuicVarint QuicRanges QuicFrame QuicFrameDecode QuicHeader QuicPacket
    QuicReceive QuicParameters QuicReassembly QuicSupport QuicPathMtu QuicRecovery QuicRecoveryProofs
    QuicCongestion QuicLossControl WordShift Base64 WebSocketUtf8 QuicStreams QuicStreamEvents
    QuicStreamStuck QuicStreamSender QuicStreamReceiving QuicStreamCredit QuicStreamSending HpackInteger
    HpackStatic HpackCode HpackHuffman Hpack HpackLimits HpackExchange
begin

text \<open>
  Verification of AsynGyanis, a C++ network library: its QUIC transport core
  (\<open>src/src/Net/Quic\<close>), the header compression of its HTTP/2, and two of the
  byte-level routines its other protocols rest on. Paths below are relative to \<open>src/src/Net/Quic/\<close>
  unless they start with \<open>src/\<close>.

  THE PROGRAM. A QUIC connection takes datagrams apart into packets, opens them, decodes the
  frames of their payload and hands each frame to the part it concerns: acknowledgements to loss
  detection, whose verdict (acknowledged, lost) goes to congestion control, to path MTU discovery
  and back to the stream layer; stream, reset and flow control frames to the stream layer, which
  reassembles each stream in order. Sending goes the other way: the stream layer collects frames
  within its credit and the packet's budget, the packet builder encodes and protects them, loss
  detection books the packet. The core is single threaded and free of I/O; sockets, coroutines
  and the TLS library are around it.

  HOW THE MODEL FOLLOWS THE CODE. A class is a record with the members' names, an enumeration or
  tagged union a datatype, a method a definition that takes the object and returns it updated. A
  machine integer is a word of its width where overflow matters (packet numbers, stream offsets,
  credit, wire integers); sizes of buffers in memory are nat, time points and durations are int.
  A view into a buffer is the list of bytes it shows. A \<open>std::map\<close> is a sorted
  association list (\<open>StdMap\<close>). An error result or an exception is
  \<open>Inl\<close>; error kinds are kept, error texts are not. Loops that need it run on fuel
  equal to the number of items they may visit, and a lemma shows that this is enough
  (\<open>drainLoop\<close>: the number of stored fragments; the frame loop: the number of
  bytes, since every frame takes at least one).

  THE THEORIES.
  \<^item> \<open>Prelude\<close>, \<open>StdMap\<close>, \<open>Codec\<close>, \<open>WordShift\<close>: results, bytes and words; sorted
    maps; the contract of a wire codec as locales (interpreted by the integers, the sized strings
    and the frames); shifting and masking as arithmetic.
  \<^item> \<open>QuicVarint\<close>, \<open>QuicFrame\<close>, \<open>QuicFrameDecode\<close>: \<open>Codec/QuicVariableLengthInteger\<close>,
    \<open>Codec/QuicFrame\<close>. Both directions of the codec: what is encoded is read back, what
    is decoded can be encoded again, acknowledgement ranges name only received numbers.
  \<^item> \<open>QuicRanges\<close>: \<open>QuicReceivedPacketNumbers\<close> as an implementation of a set of numbers.
  \<^item> \<open>QuicHeader\<close>: \<open>Codec/QuicPacketHeader\<close>; packet number truncation, header bounds,
    version negotiation, whose reader is modelled with every access checked.
  \<^item> \<open>QuicPacket\<close>, \<open>QuicReceive\<close>: \<open>Crypto/QuicHeaderProtection\<close>,
    \<open>Crypto/QuicPacketProtection\<close>, \<open>QuicPacketBuilder\<close> and the receiving path of
    \<open>QuicConnectionCore::handlePacket\<close>. The ciphers of OpenSSL are the parameter
    \<open>crypto\<close>; the theorems assume that opening undoes sealing, that the mask has five bytes
    and that the tag has its length, and the witnesses instantiate it.
  \<^item> \<open>QuicParameters\<close>: \<open>Codec/QuicTransportParameters\<close>.
  \<^item> \<open>QuicReassembly\<close>: \<open>QuicReassemblyBuffer\<close> against the stream it is fed from.
  \<^item> \<open>QuicSupport\<close>, \<open>QuicPathMtu\<close>: \<open>QuicPathMtuDiscovery\<close>; the search ends within
    seven expiries of its timer because the table of sizes has five entries.
  \<^item> \<open>QuicRecovery\<close>, \<open>QuicRecoveryProofs\<close>: \<open>Recovery/QuicRecovery\<close>; the books as a
    step relation over the calls of the core.
  \<^item> \<open>QuicCongestion\<close>: \<open>Recovery/QuicCongestionAlgorithm\<close>,
    \<open>Recovery/QuicCongestionControl\<close>, \<open>Recovery/QuicCubicCongestion\<close>. The double arithmetic of
    CUBIC is the parameter \<open>ops\<close>: nothing that is proved depends on its rounding.
  \<^item> \<open>QuicLossControl\<close>: the calls of \<open>QuicConnectionCore\<close> that join the two.
  \<^item> \<open>QuicStreams\<close>: \<open>Streams/QuicStreamLayer\<close>, every operation. \<open>QuicStreamEvents\<close> drives
    them by arbitrary sequences of calls and proves what retirement closes; \<open>QuicStreamStuck\<close> is the fate of a stream whose final size is too low.
    \<open>QuicStreamSender\<close> is the sending side as an abstract machine that every call refines
    (\<open>layer_refines_sender\<close>); \<open>QuicStreamCredit\<close> and \<open>QuicStreamSending\<close> are
    invariants of that machine: credit, and that no byte is lost. \<open>QuicStreamReceiving\<close> is
    the receiving credit: an invariant over a small view of the layer, tied to the frames taken.
  \<^item> \<open>HpackInteger\<close>, \<open>HpackStatic\<close>, \<open>HpackCode\<close>, \<open>HpackHuffman\<close>,
    \<open>Hpack\<close>: \<open>src/src/Net/Http2/Hpack\<close>. Integers against the numbers they stand for, the search of
    the static table against a scan, the code table as a complete prefix code, the tree decoder
    against that code; then strings, dynamic table, decoder and encoder. \<open>HpackLimits\<close> is what
    the decoder keeps to on any input, \<open>HpackExchange\<close> that encoder and decoder stay in step and
    every header list arrives.
  \<^item> \<open>Base64\<close>: \<open>src/src/Base/Coding/Base64.cpp\<close>; \<open>WebSocketUtf8\<close>:
    \<open>src/src/Net/WebSocket/WebSocketUtf8.cpp\<close>, against Unicode.

  BOUNDS ASSUMED. Counters that the code keeps in 64 bits are bounded where a proof needs that
  they do not wrap: a stream carries fewer than \<open>2 ^ 62\<close> bytes (RFC 9000 allows no more)
  and the congestion window theorem allows \<open>2 ^ 46\<close> acknowledged bytes. The receiving
  credit needs that frames end below \<open>2 ^ 62\<close>, which their decoder makes sure, and that the
  application releases fewer bytes than that. HPACK adds sizes of things in memory as nat; its
  table sizes are below \<open>2 ^ 63\<close> where they are written as 64-bit integers.
  \<open>no_byte_lost\<close> assumes of its caller what the core does: that acknowledgements and
  losses reported to the layer name ranges the layer has sent and that are still outstanding
  (\<open>followed\<close>). \<open>send_credit_respected\<close> needs nothing of them.

  SIMPLIFICATIONS. \<open>std::sort\<close> on chunks, which is not stable, is modelled as a
  stable sort by offset. When the frame encoder
  throws inside \<open>collectFrames\<close> the model drops the half-updated object.
  \<open>reserve\<close> and capacity are not modelled. The arena of the HPACK decoder, which only
  keeps the bytes of views alive, is the number of bytes written to it.

  NOT MODELLED. The rest of \<open>QuicConnectionCore\<close> (handshake driving, timers, connection ids,
  migration), which is the glue between the modelled parts and the TLS library; the server,
  client and socket code, the coroutine runtime and the platform layer, which are threads,
  system calls and callbacks; HTTP/1.1, HTTP/3 and the frames and streams of HTTP/2, logging, telemetry, configuration and
  database drivers, which are separate programs above or beside this core. PROJECT.json lists
  each with its reason.
\<close>

end
